(* ===== verification/Prelude.thy ===== *)
theory Prelude
  imports Main "HOL-Library.Signed_Division"
begin

text \<open>
  Shared ground of the development: the C++ integer and string operations the program's code
  uses (truncating division, the wrap-around of a 64-bit conversion, \<open>std::to_string\<close>,
  \<open>std::stoi\<close>, \<open>std::tolower\<close>, \<open>std::string::find\<close>), the two interfaces every component
  instantiates (a machine with an invariant, and an encoder with its decoder), and the named
  collections the component proofs use.

  A C++ \<open>int\<close> or \<open>int64_t\<close> whose arithmetic cannot leave its range is an \<open>int\<close> here; where
  the range matters the wrap-around is written out with \<open>i32\<close> and \<open>i64\<close>.
\<close>

named_theorems cxx_simps "arithmetic of the C++ integer types"
named_theorems text_simps "string operations"

section \<open>Integers\<close>

text \<open>The value of an integer converted to \<open>int32_t\<close> or \<open>int64_t\<close> (two's complement).\<close>

definition i32 :: "int \<Rightarrow> int" where
  "i32 x = signed_take_bit 31 x"

definition i64 :: "int \<Rightarrow> int" where
  "i64 x = signed_take_bit 63 x"

text \<open>The value of an integer converted to \<open>uint8_t\<close> or \<open>uint32_t\<close>.\<close>

definition u8 :: "int \<Rightarrow> int" where
  "u8 x = x mod 256"

definition u32 :: "int \<Rightarrow> int" where
  "u32 x = x mod 4294967296"

lemma i64_fits [cxx_simps]: "- (2 ^ 63) \<le> x \<Longrightarrow> x < 2 ^ 63 \<Longrightarrow> i64 x = x"
  by (simp add: i64_def signed_take_bit_int_eq_self_iff)

lemma i32_fits [cxx_simps]: "- (2 ^ 31) \<le> x \<Longrightarrow> x < 2 ^ 31 \<Longrightarrow> i32 x = x"
  by (simp add: i32_def signed_take_bit_int_eq_self_iff)

lemma i64_range: "- (2 ^ 63) \<le> i64 x" "i64 x < 2 ^ 63"
  using signed_take_bit_int_greater_eq_minus_exp [of 63 x] signed_take_bit_int_less_exp [of 63 x]
  by (simp_all add: i64_def)

lemma u8_range: "0 \<le> u8 x" "u8 x < 256"
  by (simp_all add: u8_def)

lemma u8_fits [cxx_simps]: "0 \<le> x \<Longrightarrow> x < 256 \<Longrightarrow> u8 x = x"
  by (simp add: u8_def)

text \<open>C++ integer division truncates towards zero; on non-negative operands it is \<open>div\<close>.\<close>

lemma sdiv_nonneg [cxx_simps]: "0 \<le> (a::int) \<Longrightarrow> 0 \<le> b \<Longrightarrow> a sdiv b = a div b"
  by (cases "a = 0"; cases "b = 0") (simp_all add: signed_divide_int_def)

lemma smod_nonneg [cxx_simps]: "0 \<le> (a::int) \<Longrightarrow> 0 \<le> b \<Longrightarrow> a smod b = a mod b"
  by (cases "a = 0") (simp_all add: signed_modulo_int_def)

lemma int_div_less: "0 < b \<Longrightarrow> a < q * b \<Longrightarrow> a div (b::int) < q"
proof -
  assume b: "0 < b" and a: "a < q * b"
  have "a div b * b \<le> a" using b div_mult_mod_eq [of a b] pos_mod_sign [of b a] by linarith
  with a have "a div b * b < q * b" by linarith
  with b show "a div b < q" by simp
qed

lemma int_le_div: "0 < b \<Longrightarrow> q * b \<le> a \<Longrightarrow> q \<le> a div (b::int)"
  using zdiv_mono1 [of "q * b" a b] by simp

text \<open>\<open>std::clamp\<close>.\<close>

definition clamp :: "int \<Rightarrow> int \<Rightarrow> int \<Rightarrow> int" where
  "clamp x lo hi = (if x < lo then lo else if hi < x then hi else x)"

lemma clamp_range: "lo \<le> hi \<Longrightarrow> lo \<le> clamp x lo hi \<and> clamp x lo hi \<le> hi"
  by (simp add: clamp_def)

lemma clamp_id [cxx_simps]: "lo \<le> x \<Longrightarrow> x \<le> hi \<Longrightarrow> clamp x lo hi = x"
  by (simp add: clamp_def)

section \<open>Characters and strings\<close>

text \<open>A \<open>std::string\<close> is a list of bytes; \<open>char\<close> is exactly a byte.\<close>

definition code :: "char \<Rightarrow> nat" where
  "code c = of_char c"

definition isdigit :: "char \<Rightarrow> bool" where
  "isdigit c \<longleftrightarrow> 48 \<le> code c \<and> code c \<le> 57"

definition isalpha :: "char \<Rightarrow> bool" where
  "isalpha c \<longleftrightarrow> (65 \<le> code c \<and> code c \<le> 90) \<or> (97 \<le> code c \<and> code c \<le> 122)"

definition isspace :: "char \<Rightarrow> bool" where
  "isspace c \<longleftrightarrow> code c = 32 \<or> (9 \<le> code c \<and> code c \<le> 13)"

definition tolower :: "char \<Rightarrow> char" where
  "tolower c = (if 65 \<le> code c \<and> code c \<le> 90 then char_of (code c + 32) else c)"

definition lowercase :: "string \<Rightarrow> string" where
  "lowercase = map tolower"

text \<open>\<open>find(c)\<close> and \<open>substr\<close>: \<open>None\<close> is \<open>npos\<close>.\<close>

fun find_char :: "char \<Rightarrow> string \<Rightarrow> nat option" where
  "find_char c [] = None"
| "find_char c (x # xs) = (if x = c then Some 0 else map_option Suc (find_char c xs))"

lemma find_char_None [text_simps]: "find_char c xs = None \<longleftrightarrow> c \<notin> set xs"
  by (induction xs) auto

lemma find_char_append [text_simps]:
  "c \<notin> set xs \<Longrightarrow> find_char c (xs @ c # ys) = Some (length xs)"
  by (induction xs) auto

lemma find_char_Some:
  "find_char c xs = Some n \<Longrightarrow> n < length xs \<and> xs ! n = c \<and> c \<notin> set (take n xs)"
  by (induction xs arbitrary: n) (auto split: if_splits)

definition prefixed :: "string \<Rightarrow> string \<Rightarrow> bool" where
  "prefixed p xs \<longleftrightarrow> take (length p) xs = p"

lemma prefixed_append [simp]: "prefixed p (p @ xs)"
  by (simp add: prefixed_def)

text \<open>\<open>find\<close> of a string; \<open>None\<close> is \<open>npos\<close>.\<close>

primrec find_sub :: "string \<Rightarrow> string \<Rightarrow> nat option" where
  "find_sub p [] = (if p = [] then Some 0 else None)"
| "find_sub p (x # xs) = (if prefixed p (x # xs) then Some 0 else map_option Suc (find_sub p xs))"

lemma prefixed_iff: "prefixed p xs \<longleftrightarrow> (\<exists>ys. xs = p @ ys)"
  unfolding prefixed_def by (metis append_take_drop_id append_eq_conv_conj)

lemma prefixed_extend: "prefixed p xs \<Longrightarrow> prefixed p (xs @ ys)"
  unfolding prefixed_iff by (metis append_assoc)

lemma prefixed_length: "prefixed p xs \<Longrightarrow> length p \<le> length xs"
  unfolding prefixed_iff by auto

lemma find_sub_bound: "find_sub p xs = Some n \<Longrightarrow> n + length p \<le> length xs"
  by (induction xs arbitrary: n) (auto dest: prefixed_length split: if_splits)

lemma find_sub_append: "find_sub p xs = Some n \<Longrightarrow> find_sub p (xs @ ys) = Some n"
proof (induction xs arbitrary: n)
  case Nil
  then show ?case by (cases ys) (auto simp: prefixed_iff split: if_splits)
next
  case (Cons x xs)
  show ?case
  proof (cases "prefixed p (x # xs)")
    case True
    then have "prefixed p (x # xs @ ys)" using prefixed_extend [of p "x # xs" ys] by simp
    with True Cons.prems show ?thesis by simp
  next
    case False
    then obtain m where m: "find_sub p xs = Some m" "n = Suc m" using Cons.prems by auto
    have "take (length p) (x # xs @ ys) = take (length p) (x # xs)"
      using find_sub_bound [OF m(1)] by (cases p) simp_all
    with False have "\<not> prefixed p (x # xs @ ys)" by (simp add: prefixed_def)
    with Cons.IH [OF m(1)] m(2) show ?thesis by simp
  qed
qed

lemma find_sub_split:
  "find_sub p (xs @ ys) = Some n \<Longrightarrow> n + length p \<le> length xs \<Longrightarrow> find_sub p xs = Some n"
proof (induction xs arbitrary: n)
  case Nil
  then show ?case by (cases ys) (simp_all split: if_splits)
next
  case (Cons x xs)
  show ?case
  proof (cases "prefixed p (x # xs @ ys)")
    case True
    then have "n = 0" using Cons.prems(1) by simp
    with Cons.prems(2) True have "prefixed p (x # xs)" by (simp add: prefixed_def take_Cons split: nat.splits)
    with \<open>n = 0\<close> show ?thesis by simp
  next
    case False
    then obtain m where m: "find_sub p (xs @ ys) = Some m" "n = Suc m" using Cons.prems(1) by auto
    then have "find_sub p xs = Some m" using Cons by simp
    moreover have "\<not> prefixed p (x # xs)" using False prefixed_extend [of p "x # xs" ys] by auto
    ultimately show ?thesis using m(2) by simp
  qed
qed

text \<open>\<open>std::to_string\<close> on integers.\<close>

definition digit :: "nat \<Rightarrow> char" where
  "digit d = char_of (48 + d)"

fun dec :: "nat \<Rightarrow> string" where
  "dec n = (if n < 10 then [digit n] else dec (n div 10) @ [digit (n mod 10)])"

declare dec.simps [simp del]

definition dec_int :: "int \<Rightarrow> string" where
  "dec_int i = (if i < 0 then CHR ''-'' # dec (nat (- i)) else dec (nat i))"

text \<open>The value of a run of decimal digits.\<close>

definition digit_val :: "char \<Rightarrow> nat" where
  "digit_val c = code c - 48"

definition digits_val :: "string \<Rightarrow> nat" where
  "digits_val = foldl (\<lambda>v c. v * 10 + digit_val c) 0"

text \<open>
  \<open>std::stoi\<close>: leading white space, an optional sign, at least one digit, and the value in the
  range of \<open>int\<close>; what follows the digits is ignored. \<open>None\<close> is the exception it throws.
\<close>

definition split_sign :: "string \<Rightarrow> bool \<times> string" where
  "split_sign s = (case s of
      [] \<Rightarrow> (False, [])
    | c # t \<Rightarrow> if c = CHR ''-'' then (True, t) else if c = CHR ''+'' then (False, t) else (False, s))"

definition stoi :: "string \<Rightarrow> int option" where
  "stoi s =
     (let (neg, t) = split_sign (dropWhile isspace s);
          ds = takeWhile isdigit t;
          v = (if neg then - int (digits_val ds) else int (digits_val ds))
      in if ds = [] \<or> v < - 2147483648 \<or> 2147483647 < v then None else Some v)"

lemma code_digit [text_simps]: "d < 10 \<Longrightarrow> code (digit d) = 48 + d"
  by (simp add: digit_def code_def)

lemma isdigit_digit [text_simps]: "d < 10 \<Longrightarrow> isdigit (digit d)"
  by (simp add: isdigit_def code_digit)

lemma digit_val_digit [text_simps]: "d < 10 \<Longrightarrow> digit_val (digit d) = d"
  by (simp add: digit_val_def code_digit)

lemma digits_val_snoc: "digits_val (ds @ [c]) = digits_val ds * 10 + digit_val c"
  by (simp add: digits_val_def)

lemma dec_not_Nil [simp]: "dec n \<noteq> []"
  by (subst dec.simps) simp

lemma dec_digits: "c \<in> set (dec n) \<Longrightarrow> isdigit c"
proof (induction n rule: dec.induct)
  case (1 n)
  then show ?case
    by (cases "n < 10") (auto simp: dec.simps [of n] isdigit_digit)
qed

lemma digits_val_dec [text_simps]: "digits_val (dec n) = n"
proof (induction n rule: dec.induct)
  case (1 n)
  show ?case
  proof (cases "n < 10")
    case True
    then show ?thesis
      by (simp add: dec.simps [of n] digits_val_def digit_val_digit)
  next
    case False
    then have "digits_val (dec n) = digits_val (dec (n div 10)) * 10 + n mod 10"
      by (simp add: dec.simps [of n] digits_val_snoc digit_val_digit)
    with False "1.IH" show ?thesis by simp
  qed
qed

lemma code_lit [simp]:
  "code (CHR ''-'') = 45" "code (CHR ''+'') = 43" "code (CHR ''.'') = 46" "code (CHR ''/'') = 47"
  "code (CHR ''x'') = 120" "code (CHR ''p'') = 112" "code (CHR ''i'') = 105" "code (CHR ''X'') = 88"
  "code (CHR ''e'') = 101" "code (CHR ''E'') = 69" "code (CHR '':'') = 58" "code (CHR '','') = 44"
  by (simp_all add: code_def)

lemma not_digit [simp]:
  "\<not> isdigit (CHR ''-'')" "\<not> isdigit (CHR ''+'')" "\<not> isdigit (CHR ''.'')" "\<not> isdigit (CHR ''/'')"
  "\<not> isdigit (CHR ''x'')" "\<not> isdigit (CHR ''p'')" "\<not> isdigit (CHR ''i'')"
  "\<not> isdigit (CHR ''e'')" "\<not> isdigit (CHR ''E'')" "\<not> isdigit (CHR '','')"
  by (simp_all add: isdigit_def)

lemma digit_lits [simp]:
  "digit 0 = CHR ''0''" "digit (Suc 0) = CHR ''1''" "digit 2 = CHR ''2''" "digit 3 = CHR ''3''"
  "digit 4 = CHR ''4''" "digit 5 = CHR ''5''" "digit 6 = CHR ''6''" "digit 7 = CHR ''7''"
  "digit 8 = CHR ''8''" "digit 9 = CHR ''9''"
  by (simp_all add: digit_def char_of_def bit_Suc_0_iff)

lemma isdigit_lits [simp]:
  "isdigit (CHR ''0'')" "isdigit (CHR ''1'')" "isdigit (CHR ''2'')" "isdigit (CHR ''3'')"
  "isdigit (CHR ''4'')" "isdigit (CHR ''5'')" "isdigit (CHR ''6'')" "isdigit (CHR ''7'')"
  "isdigit (CHR ''8'')" "isdigit (CHR ''9'')"
  by (simp_all add: isdigit_def code_def)

lemma digit_val_lits [simp]:
  "digit_val (CHR ''0'') = 0" "digit_val (CHR ''1'') = 1" "digit_val (CHR ''2'') = 2"
  "digit_val (CHR ''3'') = 3" "digit_val (CHR ''4'') = 4" "digit_val (CHR ''5'') = 5"
  "digit_val (CHR ''6'') = 6" "digit_val (CHR ''7'') = 7" "digit_val (CHR ''8'') = 8"
  "digit_val (CHR ''9'') = 9"
  by (simp_all add: digit_val_def code_def)

lemma dec_no_lit [simp]:
  "CHR ''-'' \<notin> set (dec n)" "CHR ''+'' \<notin> set (dec n)" "CHR ''.'' \<notin> set (dec n)"
  "CHR ''/'' \<notin> set (dec n)" "CHR ''x'' \<notin> set (dec n)" "CHR ''p'' \<notin> set (dec n)"
  "CHR ''i'' \<notin> set (dec n)" "CHR ''e'' \<notin> set (dec n)"
  using dec_digits by force+

lemma code_inj: "code c = code d \<longleftrightarrow> c = d"
  by (simp add: code_def)

lemma code_less: "code c < 256"
  by (simp add: code_def)

lemma code_char_of [simp]: "n < 256 \<Longrightarrow> code (char_of n) = n"
  by (simp add: code_def)

lemma code_tolower: "code (tolower c) = (if 65 \<le> code c \<and> code c \<le> 90 then code c + 32 else code c)"
  by (simp add: tolower_def)

lemma tolower_digit: "isdigit c \<Longrightarrow> tolower c = c"
  by (simp add: isdigit_def tolower_def)

lemma lowercase_dec [simp]: "lowercase (dec n) = dec n"
  using dec_digits by (simp add: lowercase_def map_idI tolower_digit)

lemma lowercase_append [simp]: "lowercase (xs @ ys) = lowercase xs @ lowercase ys"
  by (simp add: lowercase_def)

lemma lowercase_Cons [simp]: "lowercase (x # xs) = tolower x # lowercase xs"
  by (simp add: lowercase_def)

lemma lowercase_Nil [simp]: "lowercase [] = []"
  by (simp add: lowercase_def)

lemma isspace_digit: "isdigit c \<Longrightarrow> \<not> isspace c"
  by (simp add: isdigit_def isspace_def)

lemma takeWhile_dec: "rest = [] \<or> \<not> isdigit (hd rest) \<Longrightarrow> takeWhile isdigit (dec n @ rest) = dec n"
proof -
  assume r: "rest = [] \<or> \<not> isdigit (hd rest)"
  have "takeWhile isdigit (dec n @ rest) = dec n @ takeWhile isdigit rest"
    using dec_digits by (simp add: takeWhile_append2)
  with r show ?thesis by (cases rest) auto
qed

lemma dropWhile_dec: "rest = [] \<or> \<not> isdigit (hd rest) \<Longrightarrow> dropWhile isdigit (dec n @ rest) = rest"
proof -
  assume r: "rest = [] \<or> \<not> isdigit (hd rest)"
  have "dropWhile isdigit (dec n @ rest) = dropWhile isdigit rest"
    using dec_digits by (simp add: dropWhile_append2)
  with r show ?thesis by (cases rest) auto
qed

lemma dec_Cons: "\<exists>c cs. dec n = c # cs \<and> isdigit c"
  using dec_digits [of _ n] by (cases "dec n") auto

lemma split_sign_dec: "split_sign (dropWhile isspace (dec n @ rest)) = (False, dec n @ rest)"
proof -
  obtain c cs where c: "dec n = c # cs" "isdigit c" using dec_Cons by blast
  then have "c \<noteq> CHR ''-''" "c \<noteq> CHR ''+''" by auto
  with c show ?thesis by (simp add: split_sign_def isspace_digit)
qed

lemma stoi_dec:
  assumes "rest = [] \<or> \<not> isdigit (hd rest)" "n \<le> 2147483647"
  shows "stoi (dec n @ rest) = Some (int n)"
  using assms by (simp add: stoi_def split_sign_dec takeWhile_dec digits_val_dec)

text \<open>One pass over a string with \<open>tolower\<close> is idempotent.\<close>

lemma lowercase_idem: "lowercase (lowercase s) = lowercase s"
proof -
  have "tolower (tolower c) = tolower c" for c
    by (simp add: tolower_def code_def)
  then show ?thesis by (simp add: lowercase_def)
qed

section \<open>Lists as buffers\<close>

text \<open>Replacing \<open>length ys\<close> elements from position \<open>i\<close>: \<open>memcpy\<close> into a buffer.\<close>

definition blit_at :: "nat \<Rightarrow> 'a list \<Rightarrow> 'a list \<Rightarrow> 'a list" where
  "blit_at i ys xs = take i xs @ ys @ drop (i + length ys) xs"

lemma length_blit_at [simp]: "i + length ys \<le> length xs \<Longrightarrow> length (blit_at i ys xs) = length xs"
  by (simp add: blit_at_def)

lemma nth_blit_at:
  "i + length ys \<le> length xs \<Longrightarrow> j < length xs \<Longrightarrow>
   blit_at i ys xs ! j = (if i \<le> j \<and> j < i + length ys then ys ! (j - i) else xs ! j)"
  by (auto simp: blit_at_def nth_append)

section \<open>Interfaces shared by the components\<close>

text \<open>
  A component is a machine: a step per operation, and an invariant every step keeps. The
  invariant then holds after any sequence of operations.
\<close>

locale machine =
  fixes step :: "'s \<Rightarrow> 'e \<Rightarrow> 's"
    and inv :: "'s \<Rightarrow> bool"
  assumes step_inv: "inv s \<Longrightarrow> inv (step s e)"
begin

lemma run_inv: "inv s \<Longrightarrow> inv (foldl step s es)"
  by (induction es arbitrary: s) (simp_all add: step_inv)

lemma run_prefix_inv: "inv s \<Longrightarrow> inv (foldl step s (take n es))"
  by (rule run_inv)

end

text \<open>
  A counted machine also has a measure of its state that no step decreases (a frame index, a
  tick number, a total).
\<close>

locale monotone_machine = machine step inv
  for step :: "'s \<Rightarrow> 'e \<Rightarrow> 's" and inv :: "'s \<Rightarrow> bool" +
  fixes level :: "'s \<Rightarrow> int"
  assumes step_level: "inv s \<Longrightarrow> level s \<le> level (step s e)"
begin

lemma run_level: "inv s \<Longrightarrow> level s \<le> level (foldl step s es)"
proof (induction es arbitrary: s)
  case Nil
  then show ?case by simp
next
  case (Cons e es)
  then have "level s \<le> level (step s e)" by (simp add: step_level)
  also have "\<dots> \<le> level (foldl step (step s e) es)"
    using Cons by (simp add: step_inv)
  finally show ?case by simp
qed

lemma run_level_between:
  "inv s \<Longrightarrow> level (foldl step s es) \<le> level (foldl step s (es @ fs))"
  by (simp add: run_inv run_level)

end

text \<open>
  A component whose operations interleave is a transition system: every step of every thread keeps
  the invariant, so it holds in every reachable state.
\<close>

locale transition_system =
  fixes step :: "'s \<Rightarrow> 's \<Rightarrow> bool"
    and inv :: "'s \<Rightarrow> bool"
  assumes step_inv: "inv s \<Longrightarrow> step s t \<Longrightarrow> inv t"
begin

lemma reachable_inv: "step\<^sup>*\<^sup>* s t \<Longrightarrow> inv s \<Longrightarrow> inv t"
  by (induction rule: rtranclp_induct) (auto intro: step_inv)

end

text \<open>
  A text or value format: what the encoder writes for a value in its domain, the decoder reads
  back as that value.
\<close>

locale codec =
  fixes encode :: "'a \<Rightarrow> 'b"
    and decode :: "'b \<Rightarrow> 'a option"
    and dom :: "'a \<Rightarrow> bool"
  assumes decode_encode: "dom x \<Longrightarrow> decode (encode x) = Some x"
begin

lemma encode_inj: "dom x \<Longrightarrow> dom y \<Longrightarrow> encode x = encode y \<Longrightarrow> x = y"
  using decode_encode by (metis option.inject)

lemma encode_inj_on: "inj_on encode {x. dom x}"
  by (auto simp: inj_on_def intro: encode_inj)

lemma decode_encode_list:
  "(\<And>x. x \<in> set xs \<Longrightarrow> dom x) \<Longrightarrow> map (\<lambda>y. decode (encode y)) xs = map Some xs"
  by (simp add: decode_encode)

end

end
