(* ===== verification/Ieee.thy ===== *)
theory Ieee
  imports Complex_Main Prelude
begin

text \<open>
  The C++ \<open>double\<close> as the code uses it: IEEE 754 binary64 values as exact rationals (the sign
  of a zero is not kept: no code here prints or divides by one), correctly rounded conversion from
  decimal text (\<open>strtod\<close>, \<open>std::stod\<close>) and to decimal text (\<open>fixed\<close> with two decimals,
  \<open>%.10g\<close>), and the conversions to integers.
\<close>

datatype double = Fin rat | Inf bool | NaN   \<comment> \<open>\<open>Inf True\<close> is minus infinity\<close>

section \<open>Rounding\<close>

fun ilog2 :: "nat \<Rightarrow> nat" where
  "ilog2 n = (if n < 2 then 0 else Suc (ilog2 (n div 2)))"

declare ilog2.simps [simp del]

definition pow2 :: "int \<Rightarrow> rat" where
  "pow2 e = (if 0 \<le> e then 2 ^ nat e else 1 / 2 ^ nat (- e))"

definition pow10 :: "int \<Rightarrow> rat" where
  "pow10 e = (if 0 \<le> e then 10 ^ nat e else 1 / 10 ^ nat (- e))"

text \<open>The exponent of the leading bit of a positive rational.\<close>

definition exponent2 :: "rat \<Rightarrow> int" where
  "exponent2 a =
     (let (p, q) = quotient_of a;
          k = int (ilog2 (nat p)) - int (ilog2 (nat q))
      in if pow2 k \<le> a then k else k - 1)"

definition round_even :: "rat \<Rightarrow> int" where
  "round_even x =
     (let f = \<lfloor>x\<rfloor>; d = x - of_int f
      in if d < 1 / 2 then f else if 1 / 2 < d then f + 1 else if even f then f else f + 1)"

text \<open>Round to nearest, ties to even; beyond the largest finite value, infinity.\<close>

definition fl64 :: "rat \<Rightarrow> double" where
  "fl64 x =
     (if x = 0 then Fin 0
      else let a = \<bar>x\<bar>;
               e = max (exponent2 a) (- 1022);
               u = pow2 (e - 52);
               m = round_even (a / u)
           in if 1023 < e \<or> (e = 1023 \<and> m = 2 ^ 53) then Inf (x < 0)
              else Fin (if x < 0 then - (of_int m * u) else of_int m * u))"

definition of_i :: "int \<Rightarrow> double" where
  "of_i i = fl64 (of_int i)"

lemma ilog2_bounds: "0 < n \<Longrightarrow> 2 ^ ilog2 n \<le> n \<and> n < 2 ^ Suc (ilog2 n)"
proof (induction n rule: ilog2.induct)
  case (1 n)
  show ?case
  proof (cases "n < 2")
    case True
    with 1 have "n = 1" by simp
    then show ?thesis by (simp add: ilog2.simps)
  next
    case False
    then have "2 ^ ilog2 (n div 2) \<le> n div 2" "n div 2 < 2 ^ Suc (ilog2 (n div 2))"
      using 1 by simp_all
    then have "2 * 2 ^ ilog2 (n div 2) \<le> n" "n < 2 * 2 ^ Suc (ilog2 (n div 2))" by linarith+
    with False show ?thesis by (simp add: ilog2.simps [of n])
  qed
qed

lemma round_even_int [simp]: "round_even (of_int i) = i"
  by (simp add: round_even_def)

lemma pow2_add_nat: "e \<le> 0 \<Longrightarrow> of_int i / pow2 e = of_int (i * 2 ^ nat (- e))"
  by (simp add: pow2_def)

lemma exponent2_nat:
  assumes "0 < i"
  shows "exponent2 (of_int i) = int (ilog2 (nat i))"
proof -
  have "(2::nat) ^ ilog2 (nat i) \<le> nat i" using ilog2_bounds [of "nat i"] assms by simp
  then have "of_nat (2 ^ ilog2 (nat i)) \<le> (of_nat (nat i) :: rat)" by (rule of_nat_mono)
  then have "2 ^ ilog2 (nat i) \<le> (of_int i :: rat)" using assms by (simp del: of_nat_le_iff)
  then show ?thesis by (simp add: exponent2_def pow2_def ilog2.simps [of "Suc 0"])
qed

text \<open>Integers up to 2 to the 53 are exact.\<close>

lemma fl64_int: "\<bar>i\<bar> < 2 ^ 53 \<Longrightarrow> fl64 (of_int i) = Fin (of_int i)"
proof -
  assume b: "\<bar>i\<bar> < 2 ^ 53"
  show ?thesis
  proof (cases "i = 0")
    case True
    then show ?thesis by (simp add: fl64_def)
  next
    case False
    let ?n = "nat \<bar>i\<bar>" and ?k = "ilog2 (nat \<bar>i\<bar>)"
    have "2 ^ ?k \<le> ?n" using ilog2_bounds [of ?n] False by simp
    also have "\<dots> < 2 ^ 53" using b by (simp add: nat_less_iff)
    finally have "(2::nat) ^ ?k < 2 ^ 53" .
    then have k: "?k < 53" by (rule power_less_imp_less_exp [rotated]) simp
    have a: "\<bar>of_int i\<bar> = (of_int \<bar>i\<bar> :: rat)" by simp
    let ?e = "int ?k - 52" and ?u = "pow2 (int ?k - 52)"
    have e: "exponent2 (of_int \<bar>i\<bar>) = int ?k" using False by (intro exponent2_nat) simp
    have m: "round_even (of_int \<bar>i\<bar> / ?u) = \<bar>i\<bar> * 2 ^ nat (- ?e)"
      using k pow2_add_nat [of ?e "\<bar>i\<bar>"] by (simp del: of_int_mult)
    have v: "of_int (\<bar>i\<bar> * 2 ^ nat (- ?e)) * ?u = (of_int \<bar>i\<bar> :: rat)"
      using k by (simp add: pow2_def)
    have mx: "max (int ?k) (- 1022) = int ?k" "\<not> 1023 < int ?k" "int ?k \<noteq> 1023" using k by simp_all
    show ?thesis
      unfolding fl64_def Let_def a e mx(1) m v using False mx by (auto simp: abs_if)
  qed
qed

lemma of_i_exact: "\<bar>i\<bar> < 2 ^ 53 \<Longrightarrow> of_i i = Fin (of_int i)"
  by (simp add: of_i_def fl64_int)

section \<open>Reading decimal text\<close>

definition neg_double :: "double \<Rightarrow> double" where
  "neg_double x = (case x of Fin r \<Rightarrow> Fin (- r) | Inf s \<Rightarrow> Inf (\<not> s) | NaN \<Rightarrow> NaN)"

text \<open>The optional exponent: only taken when a digit follows \<open>e\<close> and its sign.\<close>

definition exponent_part :: "string \<Rightarrow> int \<times> string" where
  "exponent_part s = (case s of
      [] \<Rightarrow> (0, s)
    | c # t \<Rightarrow>
        if c = CHR ''e'' \<or> c = CHR ''E''
        then (let (neg, u) = split_sign t; ds = takeWhile isdigit u
              in if ds = [] then (0, s)
                 else (if neg then - int (digits_val ds) else int (digits_val ds), dropWhile isdigit u))
        else (0, s))"

text \<open>The exact value of a decimal numeral, and what follows it.\<close>

definition decimal :: "string \<Rightarrow> (rat \<times> string) option" where
  "decimal s =
     (let ip = takeWhile isdigit s;
          r1 = dropWhile isdigit s;
          (fp, r2) = (case r1 of
              c # t \<Rightarrow> if c = CHR ''.'' then (takeWhile isdigit t, dropWhile isdigit t) else ([], r1)
            | [] \<Rightarrow> ([], r1))
      in if ip = [] \<and> fp = [] then None
         else let (e, r3) = exponent_part r2
              in Some (of_nat (digits_val (ip @ fp)) * pow10 (e - int (length fp)), r3))"

text \<open>The words \<open>strtod\<close> also reads, a NaN with an optional parenthesised tag.\<close>

definition is_tag_char :: "char \<Rightarrow> bool" where
  "is_tag_char c \<longleftrightarrow> isdigit c \<or> isalpha c \<or> c = CHR ''_''"

definition nan_tag :: "string \<Rightarrow> string" where
  "nan_tag s = (case s of
      [] \<Rightarrow> s
    | c # t \<Rightarrow>
        if c = CHR ''('' \<and> dropWhile is_tag_char t \<noteq> [] \<and> hd (dropWhile is_tag_char t) = CHR '')''
        then tl (dropWhile is_tag_char t) else s)"

definition strtod_word :: "string \<Rightarrow> (double \<times> string) option" where
  "strtod_word s =
     (let l = lowercase s in
      if prefixed ''infinity'' l then Some (Inf False, drop 8 s)
      else if prefixed ''inf'' l then Some (Inf False, drop 3 s)
      else if prefixed ''nan'' l then Some (NaN, nan_tag (drop 3 s))
      else None)"

definition ishexdigit :: "char \<Rightarrow> bool" where
  "ishexdigit c \<longleftrightarrow> isdigit c \<or> (65 \<le> code c \<and> code c \<le> 70) \<or> (97 \<le> code c \<and> code c \<le> 102)"

definition hex_digit_val :: "char \<Rightarrow> nat" where
  "hex_digit_val c = (if isdigit c then code c - 48 else if 97 \<le> code c then code c - 87 else code c - 55)"

definition hex_val :: "string \<Rightarrow> nat" where
  "hex_val = foldl (\<lambda>v c. v * 16 + hex_digit_val c) 0"

definition binary_exponent_part :: "string \<Rightarrow> int \<times> string" where
  "binary_exponent_part s = (case s of
      [] \<Rightarrow> (0, s)
    | c # t \<Rightarrow>
        if c = CHR ''p'' \<or> c = CHR ''P''
        then (let (neg, u) = split_sign t; ds = takeWhile isdigit u
              in if ds = [] then (0, s)
                 else (if neg then - int (digits_val ds) else int (digits_val ds), dropWhile isdigit u))
        else (0, s))"

text \<open>A hexadecimal numeral: \<open>0x\<close>, digits with an optional point, an optional binary exponent.\<close>

definition hexadecimal :: "string \<Rightarrow> (rat \<times> string) option" where
  "hexadecimal s =
     (if prefixed ''0x'' (lowercase s)
      then (let t = drop 2 s;
                ip = takeWhile ishexdigit t;
                r1 = dropWhile ishexdigit t;
                (fp, r2) = (case r1 of
                    c # u \<Rightarrow> if c = CHR ''.'' then (takeWhile ishexdigit u, dropWhile ishexdigit u)
                              else ([], r1)
                  | [] \<Rightarrow> ([], r1))
            in if ip = [] \<and> fp = [] then None
               else let (e, r3) = binary_exponent_part r2
                    in Some (of_nat (hex_val (ip @ fp)) * pow2 (e - 4 * int (length fp)), r3))
      else None)"

text \<open>
  \<open>strtod\<close>: the value and the rest of the text, \<open>None\<close> when nothing was read, and whether
  the exact value was out of range (\<open>ERANGE\<close>: it overflowed, or it lost precision below the
  smallest normal number).
\<close>

definition erange :: "rat \<Rightarrow> bool" where
  "erange x \<longleftrightarrow> (case fl64 x of
      Fin v \<Rightarrow> v \<noteq> x \<and> \<bar>v\<bar> < pow2 (- 1022)
    | _ \<Rightarrow> True)"

definition strtod :: "string \<Rightarrow> (double \<times> bool \<times> string) option" where
  "strtod s =
     (let (neg, t) = split_sign (dropWhile isspace s);
          sg = (if neg then neg_double else id)
      in case strtod_word t of
           Some (v, r) \<Rightarrow> Some (sg v, False, r)
         | None \<Rightarrow>
             (case hexadecimal t of
                Some (x, r) \<Rightarrow> Some (sg (fl64 x), erange x, r)
              | None \<Rightarrow>
                  (case decimal t of
                     Some (x, r) \<Rightarrow> Some (sg (fl64 x), erange x, r)
                   | None \<Rightarrow> None)))"

text \<open>\<open>std::stod (text, &consumed)\<close>: \<open>None\<close> is the exception it throws.\<close>

definition stod :: "string \<Rightarrow> (double \<times> string) option" where
  "stod s = (case strtod s of
      None \<Rightarrow> None
    | Some (v, er, r) \<Rightarrow> if er then None else Some (v, r))"

section \<open>Writing decimal text\<close>

text \<open>\<open>std::fixed\<close> with two decimals: the exact value rounded to hundredths, ties to even.\<close>

definition two_digits :: "nat \<Rightarrow> string" where
  "two_digits n = [digit (n div 10 mod 10), digit (n mod 10)]"

definition print_fixed2 :: "rat \<Rightarrow> string" where
  "print_fixed2 x =
     (let m = nat \<bar>round_even (\<bar>x\<bar> * 100)\<bar>
      in (if x < 0 then ''-'' else []) @ dec (m div 100) @ ''.'' @ two_digits (m mod 100))"

text \<open>\<open>%.10g\<close> of a finite value.\<close>

fun ilog10 :: "nat \<Rightarrow> nat" where
  "ilog10 n = (if n < 10 then 0 else Suc (ilog10 (n div 10)))"

declare ilog10.simps [simp del]

definition exponent10 :: "rat \<Rightarrow> int" where
  "exponent10 a =
     (let (p, q) = quotient_of a;
          k = int (ilog10 (nat p)) - int (ilog10 (nat q))
      in if pow10 k \<le> a then k else k - 1)"

definition strip_zeros :: "string \<Rightarrow> string" where
  "strip_zeros s = rev (dropWhile (\<lambda>c. c = CHR ''0'') (rev s))"

definition with_point :: "string \<Rightarrow> string \<Rightarrow> string" where
  "with_point ip fp = (let f = strip_zeros fp in if f = [] then ip else ip @ ''.'' @ f)"

definition print_10g :: "rat \<Rightarrow> string" where
  "print_10g x =
     (if x = 0 then ''0''
      else let a = \<bar>x\<bar>;
               e0 = exponent10 a;
               m0 = round_even (a / pow10 (e0 - 9));
               (e, m) = (if m0 = 10 ^ 10 then (e0 + 1, 10 ^ 9) else (e0, m0));
               ds = dec (nat m);
               body =
                 (if e < - 4 \<or> 10 \<le> e
                  then with_point (take 1 ds) (drop 1 ds) @ ''e'' @ (if e < 0 then ''-'' else ''+'') @
                       (if \<bar>e\<bar> < 10 then ''0'' else []) @ dec (nat \<bar>e\<bar>)
                  else if e < 0 then with_point ''0'' (replicate (nat (- e) - 1) (CHR ''0'') @ ds)
                  else with_point (take (nat e + 1) ds) (drop (nat e + 1) ds))
           in (if x < 0 then ''-'' else []) @ body)"

section \<open>Operations\<close>

definition isfinite :: "double \<Rightarrow> bool" where
  "isfinite x \<longleftrightarrow> (case x of Fin _ \<Rightarrow> True | _ \<Rightarrow> False)"

text \<open>\<open>std::round\<close>: halves away from zero.\<close>

definition round_away :: "rat \<Rightarrow> int" where
  "round_away x = (if 0 \<le> x then \<lfloor>x + 1 / 2\<rfloor> else - \<lfloor>1 / 2 - x\<rfloor>)"

text \<open>
  Conversion of a rounded double to \<open>int64_t\<close>, and \<open>llround\<close>: a value out of range, which C++
  leaves undefined, gives what x86-64 gives, the smallest integer.
\<close>

definition to_i64 :: "int \<Rightarrow> int" where
  "to_i64 i = (if - (2 ^ 63) \<le> i \<and> i < 2 ^ 63 then i else - (2 ^ 63))"

definition llround :: "double \<Rightarrow> int" where
  "llround x = (case x of Fin r \<Rightarrow> to_i64 (round_away r) | _ \<Rightarrow> - (2 ^ 63))"

definition lt :: "double \<Rightarrow> double \<Rightarrow> bool" where
  "lt x y \<longleftrightarrow> (case (x, y) of
      (Fin a, Fin b) \<Rightarrow> a < b
    | (Fin _, Inf s) \<Rightarrow> \<not> s
    | (Inf s, Fin _) \<Rightarrow> s
    | (Inf s, Inf t) \<Rightarrow> s \<and> \<not> t
    | _ \<Rightarrow> False)"

definition eq :: "double \<Rightarrow> double \<Rightarrow> bool" where
  "eq x y \<longleftrightarrow> (case (x, y) of
      (Fin a, Fin b) \<Rightarrow> a = b
    | (Inf s, Inf t) \<Rightarrow> s = t
    | _ \<Rightarrow> False)"

definition le :: "double \<Rightarrow> double \<Rightarrow> bool" where
  "le x y \<longleftrightarrow> lt x y \<or> eq x y"

text \<open>\<open>std::clamp\<close> on doubles, with the comparisons of IEEE 754 (a NaN stays).\<close>

definition clamp_double :: "double \<Rightarrow> double \<Rightarrow> double \<Rightarrow> double" where
  "clamp_double v lo hi = (if lt v lo then lo else if lt hi v then hi else v)"

definition sub :: "double \<Rightarrow> double \<Rightarrow> double" where
  "sub x y = (case (x, y) of
      (Fin a, Fin b) \<Rightarrow> fl64 (a - b)
    | (Fin _, Inf s) \<Rightarrow> Inf (\<not> s)
    | (Inf s, Fin _) \<Rightarrow> Inf s
    | (Inf s, Inf t) \<Rightarrow> if s = t then NaN else Inf s
    | _ \<Rightarrow> NaN)"

lemma lt_irrefl [simp]: "\<not> lt x x"
  by (cases x) (simp_all add: lt_def)

lemma clamp_double_range:
  "v \<noteq> NaN \<Longrightarrow> le lo hi \<Longrightarrow> lo \<noteq> NaN \<Longrightarrow> hi \<noteq> NaN \<Longrightarrow>
   le lo (clamp_double v lo hi) \<and> le (clamp_double v lo hi) hi"
  by (cases v; cases lo; cases hi) (auto simp: clamp_double_def le_def lt_def eq_def)

lemma round_away_int [simp]: "round_away (of_int i) = i"
  by (simp add: round_away_def) linarith

section \<open>Integers through text\<close>

lemma llround_of_i: "\<bar>i\<bar> < 2 ^ 53 \<Longrightarrow> llround (of_i i) = i"
proof -
  assume b: "\<bar>i\<bar> < 2 ^ 53"
  then have "- (2 ^ 63) \<le> i" "i < 2 ^ 63" by simp_all
  with b show ?thesis by (simp add: of_i_exact llround_def to_i64_def)
qed

definition number_ends :: "string \<Rightarrow> bool" where
  "number_ends r \<longleftrightarrow>
     (case r of [] \<Rightarrow> True
      | c # _ \<Rightarrow> \<not> isdigit c \<and> c \<notin> {CHR ''.'', CHR ''e'', CHR ''E'', CHR ''x'', CHR ''X''})"

lemma number_ends_digit: "number_ends r \<Longrightarrow> r = [] \<or> \<not> isdigit (hd r)"
  by (auto simp: number_ends_def split: list.splits)

lemma decimal_dec:
  assumes "number_ends r"
  shows "decimal (dec n @ r) = Some (of_nat n, r)"
proof -
  have "takeWhile isdigit (dec n @ r) = dec n" "dropWhile isdigit (dec n @ r) = r"
    using assms by (simp_all add: number_ends_digit takeWhile_dec dropWhile_dec)
  with assms show ?thesis
    by (auto simp: decimal_def Let_def number_ends_def exponent_part_def digits_val_dec pow10_def
        split: list.splits)
qed

lemma prefixed_Cons: "prefixed (p # ps) (c # cs) \<longleftrightarrow> p = c \<and> prefixed ps cs"
  by (auto simp: prefixed_def)

lemma strtod_word_dec: "strtod_word (dec n @ r) = None"
proof -
  obtain c cs where c: "dec n = c # cs" "isdigit c" using dec_Cons by blast
  moreover from c have "c \<noteq> CHR ''i''" "c \<noteq> CHR ''n''" by (auto simp: isdigit_def code_def)
  ultimately show ?thesis by (simp add: strtod_word_def tolower_digit prefixed_Cons)
qed

lemma hexadecimal_dec:
  assumes "number_ends r"
  shows "hexadecimal (dec n @ r) = None"
proof -
  obtain c cs where c: "dec n = c # cs" "isdigit c" using dec_Cons by blast
  have x: "tolower d \<noteq> CHR ''x''" if "isdigit d \<or> d \<noteq> CHR ''x'' \<and> d \<noteq> CHR ''X''" for d
  proof
    assume "tolower d = CHR ''x''"
    then have "code d = code (CHR ''x'') \<or> code d = code (CHR ''X'')"
      using code_tolower [of d] by (auto split: if_splits)
    with that show False
      using code_inj [of d "CHR ''x''"] code_inj [of d "CHR ''X''"] by (auto simp: isdigit_def)
  qed
  have "\<not> prefixed ''0x'' (lowercase (dec n @ r))"
  proof (cases cs)
    case Nil
    show ?thesis
    proof (cases r)
      case Nil
      with c \<open>cs = []\<close> show ?thesis by (simp add: prefixed_def)
    next
      case (Cons d ds)
      with assms have "d \<noteq> CHR ''x'' \<and> d \<noteq> CHR ''X''" by (simp add: number_ends_def)
      then have "tolower d \<noteq> CHR ''x''" by (simp add: x)
      with c \<open>cs = []\<close> Cons show ?thesis by (simp add: prefixed_Cons)
    qed
  next
    case (Cons d ds)
    then have "isdigit d" using dec_digits [of d n] c by simp
    then have "tolower d \<noteq> CHR ''x''" by (simp add: x)
    with Cons c show ?thesis by (simp add: prefixed_Cons)
  qed
  then show ?thesis by (simp add: hexadecimal_def)
qed

lemma erange_int: "\<bar>i\<bar> < 2 ^ 53 \<Longrightarrow> \<not> erange (of_int i)"
  by (simp add: erange_def fl64_int)

lemma strtod_dec:
  assumes "number_ends r" "n < 2 ^ 53"
  shows "strtod (dec n @ r) = Some (Fin (of_nat n), False, r)"
  using assms fl64_int [of "int n"] erange_int [of "int n"]
  by (simp add: strtod_def split_sign_dec strtod_word_dec hexadecimal_dec decimal_dec)

lemma strtod_neg_dec:
  assumes "number_ends r" "n < 2 ^ 53"
  shows "strtod (CHR ''-'' # dec n @ r) = Some (Fin (- of_nat n), False, r)"
proof -
  have s: "split_sign (dropWhile isspace (CHR ''-'' # dec n @ r)) = (True, dec n @ r)"
    by (simp add: split_sign_def isspace_def)
  show ?thesis
    using assms fl64_int [of "int n"] erange_int [of "int n"]
    unfolding strtod_def s by (simp add: strtod_word_dec hexadecimal_dec decimal_dec neg_double_def)
qed

lemma strtod_dec_int:
  assumes "number_ends r" "\<bar>i\<bar> < 2 ^ 53"
  shows "strtod (dec_int i @ r) = Some (Fin (of_int i), False, r)"
  using assms strtod_dec [of r "nat i"] strtod_neg_dec [of r "nat (- i)"]
  by (auto simp: dec_int_def)

end
