(* ===== verification/Video_Format.thy ===== *)
theory Video_Format
  imports Ieee
begin

text \<open>
  \<open>core/video_format\<close>: pixel layouts, frame rates as exact rationals, and the raster, rate and
  scan type every output is configured with, with their text forms. The lemmas show that the text
  of a format with a standard rate reads back as that format, and what a parsed format satisfies.
\<close>

section \<open>Pixel formats and frame rates\<close>

datatype pixel_format = BGRA | UYVY

definition bytesPerPixelNumerator :: "pixel_format \<Rightarrow> int" where
  "bytesPerPixelNumerator p = (case p of BGRA \<Rightarrow> 4 | UYVY \<Rightarrow> 2)"

record frame_rate =
  numerator :: int
  denominator :: int

definition rate_toDouble :: "frame_rate \<Rightarrow> double" where
  "rate_toDouble r =
     (if denominator r = 0 then Fin 0
      else fl64 (of_int (numerator r) / of_int (denominator r)))"

definition frameDurationTicks :: "frame_rate \<Rightarrow> int \<Rightarrow> int" where
  "frameDurationTicks r timescale =
     (if numerator r = 0 then 0 else i64 (timescale * denominator r) sdiv numerator r)"

text \<open>\<open>operator==\<close> compares reduced fractions.\<close>

definition same_rate :: "frame_rate \<Rightarrow> frame_rate \<Rightarrow> bool" where
  "same_rate x y =
     (let a = gcd (numerator x) (denominator x); b = gcd (numerator y) (denominator y)
      in if a = 0 \<or> b = 0
         then numerator x = numerator y \<and> denominator x = denominator y
         else numerator x sdiv a = numerator y sdiv b \<and> denominator x sdiv a = denominator y sdiv b)"

text \<open>
  The table of \<open>FrameRate::parse\<close>, each approximation as written in the source (the model
  converts it with \<open>fl64\<close>), and \<open>static_cast<int>\<close> of a rounded double (out of range, C++
  leaves it undefined; x86-64 gives the smallest integer).
\<close>

definition kFractional :: "(rat \<times> int \<times> int) list" where
  "kFractional = [(23976 / 1000, 24000, 1001), (2398 / 100, 24000, 1001), (2997 / 100, 30000, 1001),
     (47952 / 1000, 48000, 1001), (5994 / 100, 60000, 1001), (11988 / 100, 120000, 1001)]"

definition to_i32 :: "int \<Rightarrow> int" where
  "to_i32 i = (if - 2147483648 \<le> i \<and> i \<le> 2147483647 then i else - 2147483648)"

definition fabs :: "double \<Rightarrow> double" where
  "fabs x = (case x of Fin r \<Rightarrow> Fin \<bar>r\<bar> | Inf _ \<Rightarrow> Inf False | NaN \<Rightarrow> NaN)"

definition round_double :: "double \<Rightarrow> double" where
  "round_double x = (case x of Fin r \<Rightarrow> Fin (of_int (round_away r)) | y \<Rightarrow> y)"

definition near :: "double \<Rightarrow> double \<Rightarrow> rat \<Rightarrow> bool" where
  "near x y tol = lt (fabs (sub x y)) (fl64 tol)"

definition rate_parse_decimal :: "string \<Rightarrow> frame_rate option" where
  "rate_parse_decimal text = (case stod text of
      None \<Rightarrow> None
    | Some (value, rest) \<Rightarrow>
        if rest \<noteq> [] then None
        else if le value (Fin 0) then None
        else (case find (\<lambda>(approx, _). near value (fl64 approx) (1 / 100)) kFractional of
            Some (_, num, den) \<Rightarrow> Some \<lparr>numerator = num, denominator = den\<rparr>
          | None \<Rightarrow>
              if near value (round_double value) (1 / 1000000000)
              then (case round_double value of
                  Fin r \<Rightarrow> Some \<lparr>numerator = to_i32 \<lfloor>r\<rfloor>, denominator = 1\<rparr>
                | _ \<Rightarrow> None)
              else None))"

definition rate_parse :: "string \<Rightarrow> frame_rate option" where
  "rate_parse text =
     (if text = [] then None
      else case find_char (CHR ''/'') text of
        Some slash \<Rightarrow>
          (case (stoi (take slash text), stoi (drop (slash + 1) text)) of
             (Some num, Some den) \<Rightarrow>
               if num \<le> 0 \<or> den \<le> 0 then None else Some \<lparr>numerator = num, denominator = den\<rparr>
           | _ \<Rightarrow> None)
      | None \<Rightarrow> rate_parse_decimal text)"

text \<open>
  \<open>toString\<close>: an integer rate as such, others with two decimals, trailing zeros and then a
  trailing point removed.
\<close>

definition print_double_fixed2 :: "double \<Rightarrow> string" where
  "print_double_fixed2 x = (case x of
      Fin r \<Rightarrow> print_fixed2 r | Inf s \<Rightarrow> (if s then ''-inf'' else ''inf'') | NaN \<Rightarrow> ''nan'')"

definition drop_point :: "string \<Rightarrow> string" where
  "drop_point s = (if s \<noteq> [] \<and> last s = CHR ''.'' then butlast s else s)"

definition rate_toString :: "frame_rate \<Rightarrow> string" where
  "rate_toString r =
     (if denominator r = 1 then dec_int (numerator r)
      else drop_point (strip_zeros (print_double_fixed2 (rate_toDouble r))))"

section \<open>Video formats\<close>

record video_format =
  width :: int
  height :: int
  rate :: frame_rate
  interlaced :: bool

definition rowBytes :: "video_format \<Rightarrow> pixel_format \<Rightarrow> int" where
  "rowBytes f p = i32 (width f * bytesPerPixelNumerator p)"

definition bufferSize :: "video_format \<Rightarrow> pixel_format \<Rightarrow> int" where
  "bufferSize f p = (rowBytes f p mod 2 ^ 64) * (height f mod 2 ^ 64) mod 2 ^ 64"

definition aspectRatio :: "video_format \<Rightarrow> double" where
  "aspectRatio f = (if height f = 0 then Fin 0 else fl64 (of_int (width f) / of_int (height f)))"

definition same_format :: "video_format \<Rightarrow> video_format \<Rightarrow> bool" where
  "same_format x y \<longleftrightarrow> width x = width y \<and> height x = height y \<and>
     same_rate (rate x) (rate y) \<and> interlaced x = interlaced y"

definition format_toString :: "video_format \<Rightarrow> string" where
  "format_toString f =
     dec_int (width f) @ ''x'' @ dec_int (height f) @ (if interlaced f then ''i'' else ''p'') @
     rate_toString (rate f)"

definition standardRasters :: "(string \<times> int \<times> int) list" where
  "standardRasters =
     [(''480'', 720, 486), (''576'', 720, 576), (''720'', 1280, 720),
      (''1080'', 1920, 1080), (''1440'', 2560, 1440), (''2160'', 3840, 2160),
      (''4320'', 7680, 4320), (''2160dci'', 4096, 2160), (''1080dci'', 2048, 1080)]"

text \<open>The loop from the end for the last \<open>p\<close> or \<open>i\<close> with a digit after it.\<close>

primrec scan_split :: "string \<Rightarrow> nat \<Rightarrow> (nat \<times> bool) option" where
  "scan_split s 0 = None"
| "scan_split s (Suc i) =
     (let c = s ! i
      in if (c = CHR ''p'' \<or> c = CHR ''i'') \<and> Suc i < length s \<and> isdigit (s ! Suc i)
         then Some (i, c = CHR ''i'') else scan_split s i)"

definition raster_parse :: "string \<Rightarrow> (int \<times> int) option" where
  "raster_parse s = (case find_char (CHR ''x'') s of
      Some x \<Rightarrow>
        (case (stoi (take x s), stoi (drop (x + 1) s)) of
           (Some w, Some h) \<Rightarrow> Some (w, h)
         | _ \<Rightarrow> None)
    | None \<Rightarrow> map_of standardRasters s)"

definition format_parse :: "string \<Rightarrow> video_format option" where
  "format_parse text =
     (let lowered = lowercase text in
      case scan_split lowered (length lowered) of
        None \<Rightarrow> None
      | Some (split, interlacedScan) \<Rightarrow>
          (case rate_parse (drop (split + 1) lowered) of
             None \<Rightarrow> None
           | Some r \<Rightarrow>
               (case raster_parse (take split lowered) of
                  None \<Rightarrow> None
                | Some (w, h) \<Rightarrow>
                    if w \<le> 0 \<or> h \<le> 0 then None
                    else if w smod 2 \<noteq> 0 then None
                    else Some \<lparr>width = w, height = h, rate = r, interlaced = interlacedScan\<rparr>)))"

section \<open>How far rounding can move a value\<close>

lemma round_even_ge: "of_int i \<le> x \<Longrightarrow> i \<le> round_even x"
proof -
  assume "of_int i \<le> x"
  then have "i \<le> \<lfloor>x\<rfloor>" by (simp add: le_floor_iff)
  moreover have "\<lfloor>x\<rfloor> \<le> round_even x" by (simp add: round_even_def Let_def)
  ultimately show ?thesis by simp
qed

lemma round_even_close: "\<bar>of_int (round_even x) - x\<bar> \<le> 1 / 2"
proof -
  consider "x - of_int \<lfloor>x\<rfloor> < 1 / 2" | "1 / 2 < x - of_int \<lfloor>x\<rfloor>" | "x - of_int \<lfloor>x\<rfloor> = 1 / 2"
    by linarith
  then have "round_even x = \<lfloor>x\<rfloor> \<and> x - of_int \<lfloor>x\<rfloor> \<le> 1 / 2 \<or>
    round_even x = \<lfloor>x\<rfloor> + 1 \<and> 1 / 2 \<le> x - of_int \<lfloor>x\<rfloor>"
    by cases (simp_all add: round_even_def Let_def)
  moreover have "of_int \<lfloor>x\<rfloor> \<le> x" "x < of_int \<lfloor>x\<rfloor> + 1" by linarith+
  ultimately show ?thesis by auto
qed

lemma round_even_near: "\<bar>x - of_int i\<bar> < 1 / 2 \<Longrightarrow> round_even x = i"
proof -
  assume x: "\<bar>x - of_int i\<bar> < 1 / 2"
  have "\<bar>of_int (round_even x) - of_int i\<bar> < (1::rat)"
    using x round_even_close [of x] by linarith
  then have "of_int \<bar>round_even x - i\<bar> < (of_int 1 :: rat)" by simp
  then have "\<bar>round_even x - i\<bar> < 1" by (simp only: of_int_less_iff)
  then show ?thesis by simp
qed

lemma pow2_powi: "pow2 c = 2 powi c"
  by (simp add: pow2_def power_int_def field_simps)

lemma pow2_add: "pow2 (a + b) = pow2 a * pow2 b"
  unfolding pow2_powi by (simp add: power_int_add)

lemma pow2_pos [simp]: "0 < pow2 a"
  by (simp add: pow2_def)

lemma pow2_mono: "a \<le> b \<Longrightarrow> pow2 a \<le> pow2 b"
  unfolding pow2_powi by (intro power_int_increasing) simp_all

lemma exponent2_le: "0 < a \<Longrightarrow> a < 2 ^ n \<Longrightarrow> exponent2 a \<le> int n"
proof -
  assume a: "0 < a" "a < 2 ^ n"
  obtain p q where pq: "quotient_of a = (p, q)" by fastforce
  have q: "0 < q" using quotient_of_denom_pos [OF pq] .
  have eq: "a = of_int p / of_int q" using quotient_of_div [OF pq] .
  have p: "0 < p" using a q by (simp add: eq zero_less_divide_iff)
  have lt: "of_int p < (2 ^ n * of_int q :: rat)" using a(2) q by (simp add: eq field_simps)
  have "p < 2 ^ n * q"
  proof -
    have "(of_int p :: rat) < of_int (2 ^ n * q)" using lt by simp
    then show ?thesis by (simp only: of_int_less_iff)
  qed
  then have "nat p < 2 ^ n * nat q" using p q
    by (metis nat_less_eq_zless nat_mult_distrib nat_power_eq nat_numeral zero_le_numeral
        zero_le_power less_imp_le)
  moreover have "2 ^ ilog2 (nat p) \<le> nat p" and q2: "nat q < 2 ^ Suc (ilog2 (nat q))"
    using ilog2_bounds [of "nat p"] ilog2_bounds [of "nat q"] p q by simp_all
  moreover have "2 ^ n * nat q < 2 ^ n * 2 ^ Suc (ilog2 (nat q))" using q2 by simp
  ultimately have "(2::nat) ^ ilog2 (nat p) < 2 ^ n * 2 ^ Suc (ilog2 (nat q))" by linarith
  then have "(2::nat) ^ ilog2 (nat p) < 2 ^ (n + Suc (ilog2 (nat q)))"
    by (simp only: power_add)
  then have "ilog2 (nat p) < n + Suc (ilog2 (nat q))"
    by (rule power_less_imp_less_exp [rotated]) simp
  then have "int (ilog2 (nat p)) - int (ilog2 (nat q)) \<le> int n" by linarith
  then show ?thesis by (simp add: exponent2_def pq Let_def)
qed

lemma fl64_close:
  assumes "0 < a" "a < 2 ^ n" "n \<le> 1000"
  shows "\<exists>v. fl64 a = Fin v \<and> \<bar>v - a\<bar> \<le> pow2 (int n - 52)"
proof -
  define e where "e = max (exponent2 a) (- 1022)"
  define u where "u = pow2 (e - 52)"
  have e: "e \<le> int n" using exponent2_le [OF assms(1,2)] by (simp add: e_def)
  have u: "0 < u" by (simp add: u_def)
  have "\<bar>of_int (round_even (a / u)) - a / u\<bar> * u \<le> 1 / 2 * u"
    using u round_even_close [of "a / u"] by (intro mult_right_mono) simp_all
  also have "\<bar>of_int (round_even (a / u)) - a / u\<bar> * u = \<bar>(of_int (round_even (a / u)) - a / u) * u\<bar>"
    using u by (simp add: abs_mult)
  also have "(of_int (round_even (a / u)) - a / u) * u = of_int (round_even (a / u)) * u - a"
    using u by (simp add: field_simps)
  finally have c: "\<bar>of_int (round_even (a / u)) * u - a\<bar> \<le> u" using u by linarith
  have "u \<le> pow2 (int n - 52)" unfolding u_def by (rule pow2_mono) (use e in simp)
  with c have "\<bar>of_int (round_even (a / u)) * u - a\<bar> \<le> pow2 (int n - 52)" by linarith
  moreover have "fl64 a = Fin (of_int (round_even (a / u)) * u)"
    using assms e by (simp add: fl64_def Let_def e_def [symmetric] u_def)
  ultimately show ?thesis by blast
qed

lemma pow2_tiny: "k \<le> - 19 \<Longrightarrow> pow2 k \<le> 1 / 500000"
  using pow2_mono [of k "- 19"] by (simp add: pow2_def)

lemma fabs_fl64: "fabs (fl64 x) = fl64 \<bar>x\<bar>"
proof (cases "x = 0")
  case True
  then show ?thesis by (simp add: fl64_def fabs_def)
next
  case False
  define e where "e = max (exponent2 \<bar>x\<bar>) (- 1022)"
  define u where "u = pow2 (e - 52)"
  define m where "m = round_even (\<bar>x\<bar> / u)"
  have u: "0 < u" by (simp add: u_def)
  then have "0 \<le> m" unfolding m_def by (intro round_even_ge) simp
  with u have nn: "0 \<le> of_int m * u" by simp
  have x: "fl64 x = (if 1023 < e \<or> (e = 1023 \<and> m = 2 ^ 53) then Inf (x < 0)
      else Fin (if x < 0 then - (of_int m * u) else of_int m * u))"
    using False by (simp only: fl64_def Let_def e_def u_def m_def if_False)
  have ax: "fl64 \<bar>x\<bar> = (if 1023 < e \<or> (e = 1023 \<and> m = 2 ^ 53) then Inf False
      else Fin (of_int m * u))"
  proof -
    have "\<bar>x\<bar> \<noteq> 0" "\<not> \<bar>x\<bar> < 0" using False by simp_all
    then show ?thesis by (simp only: fl64_def Let_def e_def u_def m_def if_False abs_abs)
  qed
  show ?thesis unfolding x ax fabs_def using nn by simp
qed

text \<open>The two sides of the tolerance of \<open>FrameRate::parse\<close>.\<close>

lemma hundredth: "\<exists>t. fl64 (1 / 100) = Fin t \<and> 1 / 120 < t \<and> t < 1 / 80"
proof -
  obtain v where v: "fl64 (1 / 100) = Fin v" "\<bar>v - 1 / 100\<bar> \<le> pow2 (- 52)"
    using fl64_close [of "1 / 100" 0] by auto
  then have "\<bar>v - 1 / 100\<bar> \<le> 1 / 500000" using pow2_tiny [of "- 52"] by simp
  then have "1 / 120 < v" "v < 1 / 80" by linarith+
  with v show ?thesis by blast
qed

lemma fl64_0 [simp]: "fl64 0 = Fin 0"
  by (simp add: fl64_def)

lemma near_iff:
  assumes "fl64 a = Fin v" "\<bar>v - a\<bar> \<le> 1 / 10000" "\<bar>x - a\<bar> < 4294967296"
  shows "1 / 64 \<le> \<bar>x - a\<bar> \<Longrightarrow> \<not> near (Fin x) (fl64 a) (1 / 100)"
    and "\<bar>x - a\<bar> \<le> 1 / 200 \<Longrightarrow> near (Fin x) (fl64 a) (1 / 100)"
proof -
  have nd: "near (Fin x) (fl64 a) (1 / 100) \<longleftrightarrow> lt (fl64 \<bar>x - v\<bar>) (fl64 (1 / 100))"
    by (simp add: near_def assms(1) sub_def fabs_fl64)
  obtain t where t: "fl64 (1 / 100) = Fin t" "1 / 120 < t" "t < 1 / 80" using hundredth by blast
  have d: "\<bar>x - v\<bar> < 8589934592" using assms(2,3) by linarith
  show "\<not> near (Fin x) (fl64 a) (1 / 100)" if "1 / 64 \<le> \<bar>x - a\<bar>"
  proof -
    have p: "1 / 70 < \<bar>x - v\<bar>" using that assms(2) by linarith
    then have "x \<noteq> v" by auto
    then obtain w where w: "fl64 \<bar>x - v\<bar> = Fin w" "\<bar>w - \<bar>x - v\<bar>\<bar> \<le> pow2 (int 33 - 52)"
      using fl64_close [of "\<bar>x - v\<bar>" 33] d by auto
    define y where "y = \<bar>x - v\<bar>"
    have "\<bar>w - y\<bar> \<le> 1 / 500000" using w(2) pow2_tiny [of "int 33 - 52"] by (simp add: y_def)
    then have "y - 1 / 500000 \<le> w" by linarith
    with p t have "\<not> w < t" by (simp add: y_def)
    then show ?thesis using w t by (simp add: nd lt_def)
  qed
  show "near (Fin x) (fl64 a) (1 / 100)" if "\<bar>x - a\<bar> \<le> 1 / 200"
  proof (cases "x = v")
    case True
    then have "near (Fin x) (fl64 a) (1 / 100) \<longleftrightarrow> 0 < t" unfolding nd by (simp add: t lt_def)
    with t show ?thesis by linarith
  next
    case False
    have le: "\<bar>x - v\<bar> \<le> 1 / 150" using that assms(2) by linarith
    with False obtain w where w: "fl64 \<bar>x - v\<bar> = Fin w" "\<bar>w - \<bar>x - v\<bar>\<bar> \<le> pow2 (int 0 - 52)"
      using fl64_close [of "\<bar>x - v\<bar>" 0] by auto
    define y where "y = \<bar>x - v\<bar>"
    have "\<bar>w - y\<bar> \<le> 1 / 500000" using w(2) pow2_tiny [of "int 0 - 52"] by (simp add: y_def)
    then have "w \<le> y + 1 / 500000" by linarith
    with le t have "w < t" by (simp add: y_def)
    then show ?thesis using w t by (simp add: nd lt_def)
  qed
qed

section \<open>Text round trip\<close>

definition broadcast_rates :: "frame_rate list" where
  "broadcast_rates = map (\<lambda>n. \<lparr>numerator = n, denominator = 1001\<rparr>) [24000, 30000, 48000, 60000, 120000]"

definition standard_rate :: "frame_rate \<Rightarrow> bool" where
  "standard_rate r \<longleftrightarrow>
     (denominator r = 1 \<and> 0 < numerator r \<and> numerator r \<le> 2147483647) \<or> r \<in> set broadcast_rates"

lemma kFractional_range: "(a, nd) \<in> set kFractional \<Longrightarrow> 20 \<le> a \<and> a \<le> 120"
  by (auto simp: kFractional_def)

lemma kFractional_double:
  "(a, nd) \<in> set kFractional \<Longrightarrow> \<exists>v. fl64 a = Fin v \<and> \<bar>v - a\<bar> \<le> 1 / 10000"
proof -
  assume "(a, nd) \<in> set kFractional"
  then have "20 \<le> a \<and> a \<le> 120" by (rule kFractional_range)
  then obtain v where v: "fl64 a = Fin v" and "\<bar>v - a\<bar> \<le> pow2 (int 7 - 52)"
    using fl64_close [of a 7] by auto
  moreover have "pow2 (int 7 - 52) \<le> 1 / 500000" by (rule pow2_tiny) simp
  ultimately have "\<bar>v - a\<bar> \<le> 1 / 10000" by linarith
  with v show ?thesis by blast
qed

lemma kFractional_floor:
  "(a, nd) \<in> set kFractional \<Longrightarrow> \<exists>f::int. of_int f + 1 / 50 \<le> a \<and> a \<le> of_int f + 49 / 50"
proof -
  assume "(a, nd) \<in> set kFractional"
  then consider "a = 2997 / 125" | "a = 1199 / 50" | "a = 2997 / 100" | "a = 5994 / 125"
    | "a = 2997 / 50" | "a = 2997 / 25"
    by (auto simp: kFractional_def)
  then show ?thesis
  proof cases
    case 1 then show ?thesis by (intro exI [of _ 23]) simp
  next
    case 2 then show ?thesis by (intro exI [of _ 23]) simp
  next
    case 3 then show ?thesis by (intro exI [of _ 29]) simp
  next
    case 4 then show ?thesis by (intro exI [of _ 47]) simp
  next
    case 5 then show ?thesis by (intro exI [of _ 59]) simp
  next
    case 6 then show ?thesis by (intro exI [of _ 119]) simp
  qed
qed

lemma kFractional_far:
  assumes "(a, nd) \<in> set kFractional" "\<bar>n\<bar> \<le> 2147483647"
  shows "\<not> near (Fin (of_int n)) (fl64 a) (1 / 100)"
proof -
  obtain v where v: "fl64 a = Fin v" "\<bar>v - a\<bar> \<le> 1 / 10000"
    using kFractional_double [OF assms(1)] by blast
  have "\<exists>f::int. of_int f + 1 / 50 \<le> a \<and> a \<le> of_int f + 49 / 50"
    using assms(1) by (rule kFractional_floor)
  then obtain f :: int where fl: "of_int f + 1 / 50 \<le> a" "a \<le> of_int f + 49 / 50"
    by blast
  have "n \<le> f \<or> f + 1 \<le> n" by linarith
  then have "of_int n \<le> (of_int f :: rat) \<or> of_int (f + 1) \<le> (of_int n :: rat)"
    by (simp only: of_int_le_iff)
  with fl have far: "1 / 64 \<le> \<bar>of_int n - a\<bar>" by linarith
  have "\<bar>of_int n\<bar> \<le> (2147483647 :: rat)"
    using assms(2) by (metis of_int_abs of_int_le_numeral_iff)
  then have "\<bar>of_int n - a\<bar> < 4294967296" using kFractional_range [OF assms(1)] by linarith
  from near_iff(1) [OF v this far] show ?thesis .
qed

lemma rate_parse_int:
  assumes "0 < n" "n \<le> 2147483647"
  shows "rate_parse (dec n) = Some \<lparr>numerator = int n, denominator = 1\<rparr>"
proof -
  let ?x = "Fin (of_int (int n))"
  have st: "stod (dec n) = Some (?x, [])"
    using strtod_dec [of "[]" n] assms by (simp add: stod_def number_ends_def)
  have nf: "find (\<lambda>(a, nd). near ?x (fl64 a) (1 / 100)) kFractional = None"
    using kFractional_far [of _ _ "int n"] assms by (fastforce simp: find_None_iff simp del: of_int_of_nat_eq)
  obtain v where v: "fl64 (1 / 1000000000) = Fin v" "\<bar>v - 1 / 1000000000\<bar> \<le> pow2 (- 52)"
    using fl64_close [of "1 / 1000000000" 0] by auto
  moreover have "pow2 (- 52) \<le> 1 / 2000000000" by (simp add: pow2_def)
  ultimately have "0 < v" by linarith
  with v(1) have nr: "near ?x (Fin (of_int (int n))) (1 / 1000000000)"
    by (simp add: near_def sub_def fabs_def lt_def)
  have rd: "round_double ?x = ?x" unfolding round_double_def double.case round_away_int ..
  have pos: "\<not> le ?x (Fin 0)" using assms by (simp add: le_def lt_def eq_def)
  have "rate_parse_decimal (dec n) = Some \<lparr>numerator = to_i32 \<lfloor>of_int (int n) :: rat\<rfloor>, denominator = 1\<rparr>"
    unfolding rate_parse_decimal_def using st nf nr rd pos
    by (simp del: of_int_of_nat_eq add: case_prod_unfold)
  then show ?thesis
    using assms by (simp add: rate_parse_def to_i32_def find_char_None [THEN iffD2])
qed

text \<open>The five rates over 1001: their two-decimal text, and the entry it reads back as.\<close>

lemma print_near:
  assumes "0 < a" "a < 128" "\<bar>a * 100 - of_nat m\<bar> \<le> 49 / 100"
  shows "print_double_fixed2 (fl64 a) = dec (m div 100) @ ''.'' @ two_digits (m mod 100)"
proof -
  obtain v where v: "fl64 a = Fin v" "\<bar>v - a\<bar> \<le> pow2 (int 7 - 52)"
    using fl64_close [of a 7] assms by auto
  then have c: "\<bar>v - a\<bar> \<le> 1 / 500000" using pow2_tiny [of "int 7 - 52"] by simp
  have "0 \<le> v"
  proof -
    have "fabs (fl64 a) = fl64 a" using assms by (simp add: fabs_fl64)
    with v have "\<bar>v\<bar> = v" by (simp add: fabs_def)
    then show ?thesis by simp
  qed
  moreover have "round_even (v * 100) = int m"
  proof (rule round_even_near)
    have "\<bar>v * 100 - of_nat m\<bar> < 1 / 2" using c assms(3) by linarith
    then show "\<bar>v * 100 - of_int (int m)\<bar> < 1 / 2" by simp
  qed
  ultimately show ?thesis by (simp add: print_double_fixed2_def v print_fixed2_def)
qed

lemma near_text:
  assumes "fl64 c = Fin v" "20 \<le> c" "c \<le> 120" "20 \<le> a" "a \<le> 120"
  shows "\<bar>c - a\<bar> \<le> 1 / 250 \<Longrightarrow> near (Fin v) (fl64 a) (1 / 100)"
    and "1 / 60 \<le> \<bar>c - a\<bar> \<Longrightarrow> \<not> near (Fin v) (fl64 a) (1 / 100)"
proof -
  obtain w where w: "fl64 a = Fin w" "\<bar>w - a\<bar> \<le> 1 / 500000"
    using fl64_close [of a 7] assms pow2_tiny [of "int 7 - 52"] by fastforce
  have v: "\<bar>v - c\<bar> \<le> 1 / 500000"
    using fl64_close [of c 7] assms pow2_tiny [of "int 7 - 52"] by fastforce
  have w2: "\<bar>w - a\<bar> \<le> 1 / 10000" "\<bar>v - a\<bar> < 4294967296" using w v assms by linarith+
  show "near (Fin v) (fl64 a) (1 / 100)" if "\<bar>c - a\<bar> \<le> 1 / 250"
    by (rule near_iff(2) [OF w(1) w2]) (use that v in linarith)
  show "\<not> near (Fin v) (fl64 a) (1 / 100)" if "1 / 60 \<le> \<bar>c - a\<bar>"
    by (rule near_iff(1) [OF w(1) w2]) (use that v in linarith)
qed

lemma rate_parse_text:
  assumes "decimal s = Some (c, [])" "20 \<le> c" "c \<le> 120" "strtod_word s = None"
    "hexadecimal s = None" "split_sign (dropWhile isspace s) = (False, s)" "CHR ''/'' \<notin> set s"
    "s \<noteq> []"
    "find (\<lambda>(a, nd). \<bar>c - a\<bar> \<le> 1 / 250) kFractional = Some (a, n, d)"
    "list_all (\<lambda>(a, nd). \<bar>c - a\<bar> \<le> 1 / 250 \<or> 1 / 60 \<le> \<bar>c - a\<bar>) kFractional"
  shows "rate_parse s = Some \<lparr>numerator = n, denominator = d\<rparr>"
proof -
  obtain v where v: "fl64 c = Fin v" "\<bar>v - c\<bar> \<le> 1 / 500000"
    using fl64_close [of c 7] assms pow2_tiny [of "int 7 - 52"] by fastforce
  have v1: "1 \<le> v" using v assms by linarith
  have "pow2 (- 1022) \<le> 1" using pow2_mono [of "- 1022" 0] by (simp add: pow2_def)
  then have "\<not> erange c" using v1 v(1) by (simp add: erange_def)
  then have st: "stod s = Some (Fin v, [])"
    using assms v(1) by (simp add: stod_def strtod_def)
  have "near (Fin v) (fl64 b) (1 / 100) \<longleftrightarrow> \<bar>c - b\<bar> \<le> 1 / 250" if "(b, nd) \<in> set kFractional" for b nd
  proof -
    have "20 \<le> b" "b \<le> 120" using kFractional_range [OF that] by simp_all
    moreover have "\<bar>c - b\<bar> \<le> 1 / 250 \<or> 1 / 60 \<le> \<bar>c - b\<bar>"
      using assms(10) that by (auto simp: list_all_iff)
    ultimately show ?thesis using near_text [OF v(1) assms(2,3), of b] by blast
  qed
  then have "find (\<lambda>(a, nd). near (Fin v) (fl64 a) (1 / 100)) kFractional = Some (a, n, d)"
    unfolding assms(9) [symmetric] by (intro find_cong) auto
  then show ?thesis
    using st v1 assms(7,8) find_char_None [of "CHR ''/''" s]
    by (simp add: rate_parse_def rate_parse_decimal_def le_def lt_def eq_def)
qed

lemma toString_1001:
  assumes "0 < n" "of_int n / 1001 < (128 :: rat)" "\<bar>of_int n / 1001 * 100 - of_nat m\<bar> \<le> (49 / 100 :: rat)"
  shows "rate_toString \<lparr>numerator = n, denominator = 1001\<rparr> =
    drop_point (strip_zeros (dec (m div 100) @ ''.'' @ two_digits (m mod 100)))"
  using print_near [of "of_int n / 1001" m] assms
  by (simp add: rate_toString_def rate_toDouble_def)

lemma fractional_toString:
  "rate_toString \<lparr>numerator = 24000, denominator = 1001\<rparr> = ''23.98''"
  "rate_toString \<lparr>numerator = 30000, denominator = 1001\<rparr> = ''29.97''"
  "rate_toString \<lparr>numerator = 48000, denominator = 1001\<rparr> = ''47.95''"
  "rate_toString \<lparr>numerator = 60000, denominator = 1001\<rparr> = ''59.94''"
  "rate_toString \<lparr>numerator = 120000, denominator = 1001\<rparr> = ''119.88''"
  subgoal using toString_1001 [of 24000 2398] by (simp add: dec.simps two_digits_def strip_zeros_def drop_point_def)
  subgoal using toString_1001 [of 30000 2997] by (simp add: dec.simps two_digits_def strip_zeros_def drop_point_def)
  subgoal using toString_1001 [of 48000 4795] by (simp add: dec.simps two_digits_def strip_zeros_def drop_point_def)
  subgoal using toString_1001 [of 60000 5994] by (simp add: dec.simps two_digits_def strip_zeros_def drop_point_def)
  subgoal using toString_1001 [of 120000 11988] by (simp add: dec.simps two_digits_def strip_zeros_def drop_point_def)
  done

lemmas text_eval = strtod_word_def hexadecimal_def split_sign_def isspace_digit prefixed_Cons
  prefixed_def tolower_digit Let_def decimal_def exponent_part_def digits_val_def pow10_def
  kFractional_def

lemma fractional_parse:
  "rate_parse ''23.98'' = Some \<lparr>numerator = 24000, denominator = 1001\<rparr>"
  "rate_parse ''29.97'' = Some \<lparr>numerator = 30000, denominator = 1001\<rparr>"
  "rate_parse ''47.95'' = Some \<lparr>numerator = 48000, denominator = 1001\<rparr>"
  "rate_parse ''59.94'' = Some \<lparr>numerator = 60000, denominator = 1001\<rparr>"
  "rate_parse ''119.88'' = Some \<lparr>numerator = 120000, denominator = 1001\<rparr>"
  subgoal by (rule rate_parse_text [of _ "1199 / 50" "2997 / 125"]) (simp_all add: text_eval)
  subgoal by (rule rate_parse_text [of _ "2997 / 100" "2997 / 100"]) (simp_all add: text_eval)
  subgoal by (rule rate_parse_text [of _ "959 / 20" "5994 / 125"]) (simp_all add: text_eval)
  subgoal by (rule rate_parse_text [of _ "2997 / 50" "2997 / 50"]) (simp_all add: text_eval)
  subgoal by (rule rate_parse_text [of _ "2997 / 25" "2997 / 25"]) (simp_all add: text_eval)
  done

lemma broadcast_text:
  assumes "r \<in> set broadcast_rates"
  shows "\<exists>s. rate_toString r = s \<and> rate_parse s = Some r \<and> s \<noteq> [] \<and> isdigit (hd s) \<and>
    (\<forall>c \<in> set s. isdigit c \<or> c = CHR ''.'')"
proof -
  have "list_all (\<lambda>r. let s = rate_toString r in rate_parse s = Some r \<and> s \<noteq> [] \<and>
    isdigit (hd s) \<and> (\<forall>c \<in> set s. isdigit c \<or> c = CHR ''.'')) broadcast_rates"
    by (simp add: broadcast_rates_def fractional_toString fractional_parse)
  with assms show ?thesis by (auto simp: list_all_iff Let_def)
qed

lemma rate_text:
  assumes "standard_rate r"
  shows "rate_parse (rate_toString r) = Some r" and "rate_toString r \<noteq> []"
    and "isdigit (hd (rate_toString r))"
    and "\<forall>c \<in> set (rate_toString r). isdigit c \<or> c = CHR ''.''"
proof -
  have "rate_parse (rate_toString r) = Some r \<and> rate_toString r \<noteq> [] \<and>
    isdigit (hd (rate_toString r)) \<and> (\<forall>c \<in> set (rate_toString r). isdigit c \<or> c = CHR ''.'')"
  proof (cases "r \<in> set broadcast_rates")
    case True
    with broadcast_text show ?thesis by auto
  next
    case False
    with assms have r: "denominator r = 1" "0 < numerator r" "numerator r \<le> 2147483647"
      by (auto simp: standard_rate_def)
    let ?n = "nat (numerator r)"
    have s: "rate_toString r = dec ?n" using r by (simp add: rate_toString_def dec_int_def)
    have "rate_parse (dec ?n) = Some r" using rate_parse_int [of ?n] r by simp
    with s show ?thesis using dec_Cons [of ?n] dec_digits [of _ ?n] by auto
  qed
  then show "rate_parse (rate_toString r) = Some r" "rate_toString r \<noteq> []"
    "isdigit (hd (rate_toString r))" "\<forall>c \<in> set (rate_toString r). isdigit c \<or> c = CHR ''.''"
    by blast+
qed

definition good_format :: "video_format \<Rightarrow> bool" where
  "good_format f \<longleftrightarrow> 0 < width f \<and> width f \<le> 2147483647 \<and> even (width f) \<and>
     0 < height f \<and> height f \<le> 2147483647 \<and> standard_rate (rate f)"

lemma scan_split_none: "\<forall>j. i \<le> j \<longrightarrow> j < k \<longrightarrow> s ! j \<noteq> CHR ''p'' \<and> s ! j \<noteq> CHR ''i'' \<Longrightarrow> i \<le> k \<Longrightarrow>
   scan_split s k = scan_split s i"
proof (induction k)
  case 0
  then show ?case by simp
next
  case (Suc k)
  show ?case
  proof (cases "i = Suc k")
    case False
    with Suc have "scan_split s k = scan_split s i" "s ! k \<noteq> CHR ''p''" "s ! k \<noteq> CHR ''i''" by auto
    then show ?thesis by simp
  qed simp
qed

lemma scan_split_found:
  assumes "r \<noteq> []" "isdigit (hd r)" "\<forall>c \<in> set r. c \<noteq> CHR ''p'' \<and> c \<noteq> CHR ''i''"
    "c = CHR ''p'' \<or> c = CHR ''i''"
  shows "scan_split (l @ c # r) (length (l @ c # r)) = Some (length l, c = CHR ''i'')"
proof -
  let ?s = "l @ c # r"
  have "?s ! j \<in> set r" if "Suc (length l) \<le> j" "j < length ?s" for j
    using that by (auto simp: nth_append nth_Cons' intro!: nth_mem)
  then have "scan_split ?s (length ?s) = scan_split ?s (Suc (length l))"
    using assms(3) by (intro scan_split_none) auto
  also have "\<dots> = Some (length l, c = CHR ''i'')"
    using assms by (auto simp: nth_append hd_conv_nth)
  finally show ?thesis .
qed

lemma raster_text:
  assumes "0 < w" "w \<le> 2147483647" "0 < h" "h \<le> 2147483647"
  shows "raster_parse (dec_int w @ ''x'' @ dec_int h) = Some (w, h)"
proof -
  have "find_char (CHR ''x'') (dec (nat w) @ CHR ''x'' # dec (nat h)) = Some (length (dec (nat w)))"
    by (simp add: find_char_append)
  moreover have "stoi (dec (nat w)) = Some w" "stoi (dec (nat h)) = Some h"
    using stoi_dec [of "[]" "nat w"] stoi_dec [of "[]" "nat h"] assms by simp_all
  ultimately show ?thesis using assms by (simp add: raster_parse_def dec_int_def)
qed

lemma rate_text_lower: "standard_rate r \<Longrightarrow> lowercase (rate_toString r) = rate_toString r"
proof -
  assume "standard_rate r"
  then have "\<forall>c \<in> set (rate_toString r). tolower c = c"
    using rate_text(4) [of r] tolower_digit by (fastforce simp: tolower_def)
  then show ?thesis by (simp add: lowercase_def map_idI)
qed

lemma tolower_lits [simp]: "tolower (CHR ''x'') = CHR ''x''" "tolower (CHR ''p'') = CHR ''p''"
  "tolower (CHR ''i'') = CHR ''i''"
  by (simp_all add: tolower_def)

lemma format_roundtrip:
  assumes "good_format f"
  shows "format_parse (format_toString f) = Some f"
proof -
  let ?r = "rate_toString (rate f)" and ?c = "if interlaced f then CHR ''i'' else CHR ''p''"
  let ?l = "dec_int (width f) @ ''x'' @ dec_int (height f)"
  from assms have w: "0 < width f" "width f \<le> 2147483647" "even (width f)"
    and hh: "0 < height f" "height f \<le> 2147483647" and rt: "standard_rate (rate f)"
    by (simp_all add: good_format_def)
  have fs: "format_toString f = ?l @ ?c # ?r" by (simp add: format_toString_def)
  have lower: "lowercase (?l @ ?c # ?r) = ?l @ ?c # ?r"
    using w hh rt by (simp add: dec_int_def rate_text_lower)
  have "scan_split (?l @ ?c # ?r) (length (?l @ ?c # ?r)) = Some (length ?l, ?c = CHR ''i'')"
    using rate_text [OF rt] by (intro scan_split_found) (auto simp: isdigit_def)
  moreover have "(?c = CHR ''i'') = interlaced f" by simp
  moreover have "drop (length ?l + 1) (?l @ ?c # ?r) = ?r" "take (length ?l) (?l @ ?c # ?r) = ?l"
    by simp_all
  moreover have "width f smod 2 = 0" using w by (simp add: smod_nonneg even_iff_mod_2_eq_zero)
  ultimately show ?thesis
    unfolding format_parse_def fs lower Let_def
    using rate_text(1) [OF rt] raster_text [of "width f" "height f"] w hh by simp
qed

interpretation format_text: codec format_toString format_parse good_format
  by unfold_locales (rule format_roundtrip)

section \<open>Properties\<close>

text \<open>
  The text of a format with an even width and a standard rate (a positive integer rate, or
  24000, 30000, 48000, 60000 or 120000 over 1001) reads back as that format, so two such formats
  with the same text are equal.
\<close>

theorem format_text_roundtrip:
  assumes "good_format f"
  shows "format_parse (format_toString f) = Some f \<and>
    (\<forall>g. good_format g \<longrightarrow> format_toString f = format_toString g \<longrightarrow> f = g)"
  using format_roundtrip [OF assms] format_text.encode_inj [OF assms] by blast

theorem format_text_roundtrip_witness:
  "format_parse (format_toString
     \<lparr>width = 1920, height = 1080, rate = \<lparr>numerator = 60000, denominator = 1001\<rparr>, interlaced = False\<rparr>) =
   Some \<lparr>width = 1920, height = 1080, rate = \<lparr>numerator = 60000, denominator = 1001\<rparr>, interlaced = False\<rparr>"
  using format_text_roundtrip [of "\<lparr>width = 1920, height = 1080,
     rate = \<lparr>numerator = 60000, denominator = 1001\<rparr>, interlaced = False\<rparr>"]
  by (simp add: good_format_def standard_rate_def broadcast_rates_def)

text \<open>
  Whatever text is accepted, the parsed format has a positive even width and a positive
  height, so a row holds whole 4:2:2 pixel pairs; its denominator is positive.
\<close>

theorem format_parse_sound:
  assumes "format_parse s = Some f"
  shows "0 < width f \<and> width f mod 2 = 0 \<and> 0 < height f \<and> 0 < denominator (rate f)"
proof -
  have d: "0 < denominator r" if "rate_parse t = Some r" for t r
  proof -
    have "0 < d" if "find P kFractional = Some (a, n, d)" for P a n d
    proof -
      have "(a, n, d) \<in> set kFractional" using that by (auto simp: find_Some_iff)
      then show ?thesis by (auto simp: kFractional_def)
    qed
    with that show ?thesis
      by (auto simp: rate_parse_def rate_parse_decimal_def split: option.splits if_splits double.splits)
  qed
  from assms show ?thesis
    by (auto simp: format_parse_def Let_def smod_nonneg split: option.splits if_splits prod.splits dest!: d)
qed

theorem format_parse_sound_witness:
  "(0::int) < width \<lparr>width = 1920, height = 1080, rate = \<lparr>numerator = 50, denominator = 1\<rparr>, interlaced = False\<rparr>"
  using format_parse_sound [of "format_toString
      \<lparr>width = 1920, height = 1080, rate = \<lparr>numerator = 50, denominator = 1\<rparr>, interlaced = False\<rparr>"
    "\<lparr>width = 1920, height = 1080, rate = \<lparr>numerator = 50, denominator = 1\<rparr>, interlaced = False\<rparr>"]
    format_roundtrip [of "\<lparr>width = 1920, height = 1080, rate = \<lparr>numerator = 50, denominator = 1\<rparr>, interlaced = False\<rparr>"]
  by (simp add: good_format_def standard_rate_def)

lemma rate_parse_12_5: "rate_parse ''12.5'' = None"
proof -
  have f: "fl64 (25 / 2) = Fin (25 / 2)" "fl64 (1 / 2) = Fin (1 / 2)" by code_simp+
  have "pow2 (- 1022) \<le> 1" using pow2_mono [of "- 1022" 0] by (simp add: pow2_def)
  then have "\<not> erange (25 / 2)" by (simp add: erange_def f)
  moreover have "decimal ''12.5'' = Some (25 / 2, [])" "strtod_word ''12.5'' = None" "hexadecimal ''12.5'' = None"
    "split_sign (dropWhile isspace ''12.5'') = (False, ''12.5'')"
    by (simp_all add: text_eval)
  ultimately have st: "stod ''12.5'' = Some (Fin (25 / 2), [])"
    by (simp add: stod_def strtod_def f)
  have "\<not> near (Fin (25 / 2)) (fl64 a) (1 / 100)" if "(a, nd) \<in> set kFractional" for a nd
  proof -
    obtain v where v: "fl64 a = Fin v" "\<bar>v - a\<bar> \<le> 1 / 10000" using kFractional_double [OF \<open>_ \<in> _\<close>] by blast
    have "20 \<le> a" "a \<le> 120" using kFractional_range [OF \<open>_ \<in> _\<close>] by simp_all
    then show ?thesis by (intro near_iff(1) [OF v]) linarith+
  qed
  then have nf: "find (\<lambda>(a, nd). near (Fin (25 / 2)) (fl64 a) (1 / 100)) kFractional = None"
    by (fastforce simp: find_None_iff)
  obtain v where "fl64 (1 / 1000000000) = Fin v" "\<bar>v - 1 / 1000000000\<bar> \<le> pow2 (- 52)"
    using fl64_close [of "1 / 1000000000" 0] by auto
  moreover have "pow2 (- 52) \<le> 1 / 2000000000" by (simp add: pow2_def)
  ultimately have v: "fl64 (1 / 1000000000) = Fin v" "v < 1 / 2" by linarith+
  have "round_away (25 / 2) = 13" by (simp add: round_away_def)
  then have "\<not> near (Fin (25 / 2)) (round_double (Fin (25 / 2))) (1 / 1000000000)"
    using v by (simp add: near_def round_double_def sub_def fabs_fl64 f lt_def)
  with st nf show ?thesis
    by (simp add: rate_parse_def rate_parse_decimal_def le_def lt_def eq_def)
qed

text \<open>
  The text form is not total on the rates \<open>parse\<close> accepts: 25/2 prints as 12.5 and 12.5
  is rejected, so a format saved with such a rate does not load again.
\<close>

theorem format_text_gap:
  "rate_parse ''25/2'' = Some \<lparr>numerator = 25, denominator = 2\<rparr> \<and>
   rate_toString \<lparr>numerator = 25, denominator = 2\<rparr> = ''12.5'' \<and> rate_parse ''12.5'' = None"
proof (intro conjI)
  show "rate_parse ''25/2'' = Some \<lparr>numerator = 25, denominator = 2\<rparr>"
    by (simp add: rate_parse_def stoi_def split_sign_def isspace_digit digits_val_def)
  show "rate_toString \<lparr>numerator = 25, denominator = 2\<rparr> = ''12.5''"
    using print_near [of "25 / 2" 1250]
    by (simp add: rate_toString_def rate_toDouble_def dec.simps two_digits_def strip_zeros_def drop_point_def)
  show "rate_parse ''12.5'' = None" by (rule rate_parse_12_5)
qed

end
