(* ===== verification/Frame_Clock.thy ===== *)
theory Frame_Clock
  imports Video_Format
begin

text \<open>
  \<open>core/frame_clock\<close>: the engine's pacing clock. Deadlines are computed from tick zero in
  \<open>int64_t\<close> arithmetic, so the model keeps the width (\<open>i64\<close>); the clock readings of
  \<open>steady_clock\<close> are inputs of a step.
\<close>

section \<open>Deadlines\<close>

definition kNanosPerSecond :: int where
  "kNanosPerSecond = 1000000000"

record frame_clock =
  clock_rate :: frame_rate
  start_at :: int          \<comment> \<open>\<open>start_\<close>, nanoseconds of the steady clock\<close>
  nextTick :: int
  droppedTicks :: int
  lastLateness :: int

definition mk_clock :: "frame_rate \<Rightarrow> frame_clock" where
  "mk_clock r = \<lparr>clock_rate = r, start_at = 0, nextTick = 0, droppedTicks = 0, lastLateness = 0\<rparr>"

text \<open>\<open>FrameClock::start\<close> and \<open>setRate\<close>; \<open>now\<close> is what \<open>Clock::now()\<close> returned.\<close>

definition clock_start :: "int \<Rightarrow> frame_clock \<Rightarrow> frame_clock" where
  "clock_start now c = c\<lparr>start_at := now, nextTick := 0, droppedTicks := 0, lastLateness := 0\<rparr>"

definition clock_setRate :: "frame_rate \<Rightarrow> int \<Rightarrow> frame_clock \<Rightarrow> frame_clock" where
  "clock_setRate r now c = clock_start now (c\<lparr>clock_rate := r\<rparr>)"

text \<open>
  \<open>deadlineNanosForTick\<close>. Signed overflow is undefined in C++; on the compilers the project
  builds with, the multiplication wraps, and that is what \<open>i64\<close> writes down.
\<close>

definition deadlineNanosForTick :: "frame_rate \<Rightarrow> int \<Rightarrow> int" where
  "deadlineNanosForTick r tick =
     (if numerator r \<le> 0 then 0
      else i64 (i64 (tick * kNanosPerSecond) * denominator r) sdiv numerator r)"

definition elapsedNanos :: "frame_clock \<Rightarrow> int \<Rightarrow> int" where
  "elapsedNanos c now = now - start_at c"

text \<open>
  \<open>waitForNextTick\<close>. It reads the clock three times: \<open>now1\<close> on entry, \<open>now2\<close> before
  sleeping and \<open>now3\<close> after; all three are steady-clock readings. The result is the tick it
  returns, how long it asked to sleep (0: not at all) and the clock afterwards.
\<close>

definition waitForNextTick :: "int \<Rightarrow> int \<Rightarrow> int \<Rightarrow> frame_clock \<Rightarrow> int \<times> int \<times> frame_clock" where
  "waitForNextTick now1 now2 now3 c =
     (let period = deadlineNanosForTick (clock_rate c) 1;
          tick0 = nextTick c;
          deadline0 = deadlineNanosForTick (clock_rate c) tick0;
          n1 = elapsedNanos c now1;
          late = 0 < period \<and> deadline0 + period < n1;
          behind = (if late then (n1 - deadline0) sdiv period else 0);
          tick = tick0 + behind;
          deadline = (if late then deadlineNanosForTick (clock_rate c) tick else deadline0);
          n2 = elapsedNanos c now2;
          sleep = (if n2 < deadline then deadline - n2 else 0)
      in (tick, sleep,
          c\<lparr>droppedTicks := droppedTicks c + behind,
            lastLateness := elapsedNanos c now3 - deadline,
            nextTick := tick + 1\<rparr>))"

text \<open>One call of the clock thread: the three readings.\<close>

type_synonym readings = "int \<times> int \<times> int"

definition tick_step :: "frame_clock \<Rightarrow> readings \<Rightarrow> frame_clock" where
  "tick_step c = (\<lambda>(n1, n2, n3). snd (snd (waitForNextTick n1 n2 n3 c)))"

definition tick_returned :: "frame_clock \<Rightarrow> readings \<Rightarrow> int" where
  "tick_returned c = (\<lambda>(n1, n2, n3). fst (waitForNextTick n1 n2 n3 c))"

text \<open>The ticks a sequence of calls returns.\<close>

fun ticks_of :: "frame_clock \<Rightarrow> readings list \<Rightarrow> int list" where
  "ticks_of c [] = []"
| "ticks_of c (e # es) = tick_returned c e # ticks_of (tick_step c e) es"

section \<open>The range in which the deadline arithmetic is exact\<close>

text \<open>
  The products of \<open>deadlineNanosForTick\<close> fit in 64 bits up to this tick: about 9.2e9 divided by
  the denominator of the rate.
\<close>

definition exact_tick :: "frame_rate \<Rightarrow> int \<Rightarrow> bool" where
  "exact_tick r t \<longleftrightarrow> 0 \<le> t \<and> t * kNanosPerSecond * denominator r < 2 ^ 63"

definition good_rate :: "frame_rate \<Rightarrow> bool" where
  "good_rate r \<longleftrightarrow> 0 < numerator r \<and> 0 < denominator r"

lemma deadline_exact:
  assumes "good_rate r" "exact_tick r t"
  shows "deadlineNanosForTick r t = (t * kNanosPerSecond * denominator r) div numerator r"
proof -
  from assms have d: "1 \<le> denominator r" and n: "0 < numerator r" and t: "0 \<le> t"
    and b: "t * kNanosPerSecond * denominator r < 2 ^ 63"
    by (simp_all add: good_rate_def exact_tick_def)
  have nn: "0 \<le> t * kNanosPerSecond" using t by (simp add: kNanosPerSecond_def)
  have "t * kNanosPerSecond * 1 \<le> t * kNanosPerSecond * denominator r"
    using d nn by (rule mult_left_mono)
  with b have le: "t * kNanosPerSecond < 2 ^ 63" by linarith
  have nn2: "0 \<le> t * kNanosPerSecond * denominator r" using nn d by simp
  show ?thesis
    using n b le nn nn2 by (simp add: deadlineNanosForTick_def i64_fits sdiv_nonneg)
qed

lemma exact_tick_mono: "good_rate r \<Longrightarrow> exact_tick r t \<Longrightarrow> 0 \<le> s \<Longrightarrow> s \<le> t \<Longrightarrow> exact_tick r s"
proof -
  assume r: "good_rate r" and t: "exact_tick r t" and s: "0 \<le> s" "s \<le> t"
  have "s * (kNanosPerSecond * denominator r) \<le> t * (kNanosPerSecond * denominator r)"
    using r s by (intro mult_right_mono) (simp_all add: good_rate_def kNanosPerSecond_def)
  with t s show ?thesis by (simp add: exact_tick_def mult.assoc)
qed

lemma deadline_zero [simp]: "deadlineNanosForTick r 0 = 0"
  by (simp add: deadlineNanosForTick_def i64_def)

lemma deadline_nonneg: "good_rate r \<Longrightarrow> exact_tick r t \<Longrightarrow> 0 \<le> deadlineNanosForTick r t"
  by (simp add: deadline_exact)
    (simp add: good_rate_def exact_tick_def kNanosPerSecond_def pos_imp_zdiv_nonneg_iff)

section \<open>The clock as a machine\<close>

text \<open>
  The bookkeeping invariant: every tick number handed out or abandoned is accounted for, so the
  next tick is the number of calls made plus the ticks dropped.
\<close>

lemma wait_fields:
  "waitForNextTick n1 n2 n3 c = (t, s, c') \<Longrightarrow>
   clock_rate c' = clock_rate c \<and> start_at c' = start_at c \<and> nextTick c' = t + 1 \<and>
   t - nextTick c = droppedTicks c' - droppedTicks c \<and> 0 \<le> s"
  by (auto simp: waitForNextTick_def Let_def split: if_splits)

lemma behind_positive: "(0::int) < p \<Longrightarrow> d + p < n \<Longrightarrow> 1 \<le> (n - d) sdiv p"
proof -
  assume p: "0 < p" and n: "d + p < n"
  have "p div p \<le> (n - d) div p" using p n by (intro zdiv_mono1) simp_all
  with p n show ?thesis by (simp add: sdiv_nonneg)
qed

lemma wait_tick_ge: "waitForNextTick n1 n2 n3 c = (t, s, c') \<Longrightarrow> nextTick c \<le> t"
  using behind_positive [of "deadlineNanosForTick (clock_rate c) 1"]
  by (fastforce simp: waitForNextTick_def Let_def split: if_splits)

definition ticked :: "nat \<Rightarrow> frame_clock \<Rightarrow> bool" where
  "ticked n c \<longleftrightarrow> nextTick c = int n + droppedTicks c \<and> 0 \<le> droppedTicks c"

lemma ticked_start: "ticked 0 (clock_start now c)"
  by (simp add: ticked_def clock_start_def)

lemma tick_step_facts:
  "nextTick (tick_step c e) = tick_returned c e + 1"
  "tick_returned c e - nextTick c = droppedTicks (tick_step c e) - droppedTicks c"
  "nextTick c \<le> tick_returned c e"
  "clock_rate (tick_step c e) = clock_rate c"
proof -
  obtain n1 n2 n3 where e: "e = (n1, n2, n3)" by (cases e)
  obtain s where w: "waitForNextTick n1 n2 n3 c = (tick_returned c e, s, tick_step c e)"
    by (cases "waitForNextTick n1 n2 n3 c") (simp add: tick_step_def tick_returned_def e)
  from wait_fields [OF w] wait_tick_ge [OF w] show
    "nextTick (tick_step c e) = tick_returned c e + 1"
    "tick_returned c e - nextTick c = droppedTicks (tick_step c e) - droppedTicks c"
    "nextTick c \<le> tick_returned c e"
    "clock_rate (tick_step c e) = clock_rate c"
    by simp_all
qed

lemma ticked_step: "ticked n c \<Longrightarrow> ticked (Suc n) (tick_step c e)"
  using tick_step_facts [of c e] by (simp add: ticked_def)

interpretation clock_machine: monotone_machine tick_step "\<lambda>c. 0 \<le> nextTick c" nextTick
proof
  fix c :: frame_clock and e :: readings
  show "0 \<le> nextTick c \<Longrightarrow> 0 \<le> nextTick (tick_step c e)"
    using tick_step_facts [of c e] by simp
  show "nextTick c \<le> nextTick (tick_step c e)" using tick_step_facts [of c e] by simp
qed

lemma ticked_run: "ticked n c \<Longrightarrow> ticked (n + length es) (foldl tick_step c es)"
proof (induction es arbitrary: n c)
  case Nil
  then show ?case by simp
next
  case (Cons e es)
  have "ticked (Suc n + length es) (foldl tick_step (tick_step c e) es)"
    by (rule Cons.IH) (rule ticked_step [OF Cons.prems])
  then show ?case by simp
qed

lemma ticks_of_ge: "t \<in> set (ticks_of c es) \<Longrightarrow> nextTick c \<le> t"
proof (induction es arbitrary: c)
  case Nil
  then show ?case by simp
next
  case (Cons e es)
  then show ?case using tick_step_facts [of c e] by fastforce
qed

lemma ticks_of_sorted: "sorted_wrt (<) (ticks_of c es)"
proof (induction es arbitrary: c)
  case Nil
  then show ?case by simp
next
  case (Cons e es)
  have "\<forall>u \<in> set (ticks_of (tick_step c e) es). tick_returned c e < u"
    using ticks_of_ge [of _ "tick_step c e" es] tick_step_facts [of c e] by fastforce
  with Cons.IH show ?case by simp
qed

section \<open>Catching up\<close>

text \<open>Deadlines grow by at least the (floored) period per tick, and by at most a nanosecond more.\<close>

lemma floor_sum:
  assumes "0 < (n::int)" "0 \<le> b"
  shows "x div n + b * (A div n) \<le> (x + b * A) div n"
    and "(x + b * A) div n \<le> x div n + b * (A div n + 1) + 1"
proof -
  have A: "A = n * (A div n) + A mod n" "0 \<le> A mod n" "A mod n < n" using assms by simp_all
  have x: "x = n * (x div n) + x mod n" "0 \<le> x mod n" "x mod n < n" using assms by simp_all
  have eq: "x + b * A = n * (x div n + b * (A div n)) + (x mod n + b * (A mod n))"
  proof -
    have "b * A = b * (n * (A div n)) + b * (A mod n)"
      by (metis A(1) distrib_left)
    moreover have "n * (x div n + b * (A div n)) = n * (x div n) + b * (n * (A div n))"
      by (simp add: algebra_simps)
    ultimately show ?thesis using x(1) by linarith
  qed
  have q: "(x + b * A) div n = x div n + b * (A div n) + (x mod n + b * (A mod n)) div n"
    using assms by (simp add: eq)
  have r0: "0 \<le> x mod n + b * (A mod n)" using A x assms by simp
  have "b * (A mod n) \<le> b * n" using A assms by (intro mult_left_mono) (simp_all add: less_imp_le)
  with x have "x mod n + b * (A mod n) \<le> n * (b + 1)" by (simp add: algebra_simps)
  then have "(x mod n + b * (A mod n)) div n \<le> n * (b + 1) div n"
    using assms by (intro zdiv_mono1) simp_all
  then have "(x mod n + b * (A mod n)) div n \<le> b + 1" using assms by simp
  then show "(x + b * A) div n \<le> x div n + b * (A div n + 1) + 1"
    unfolding q by (simp add: algebra_simps)
  from r0 assms show "x div n + b * (A div n) \<le> (x + b * A) div n" by (simp add: q pos_imp_zdiv_nonneg_iff)
qed

lemma deadline_step:
  assumes "good_rate r" "exact_tick r (t + b)" "0 \<le> t" "0 \<le> b" "exact_tick r 1"
  shows "deadlineNanosForTick r t + b * deadlineNanosForTick r 1 \<le> deadlineNanosForTick r (t + b)"
    and "deadlineNanosForTick r (t + b)
         \<le> deadlineNanosForTick r t + b * (deadlineNanosForTick r 1 + 1) + 1"
proof -
  have n: "0 < numerator r" using assms by (simp add: good_rate_def)
  have et: "exact_tick r t" using assms by (simp add: exact_tick_mono [of r "t + b" t])
  let ?A = "kNanosPerSecond * denominator r"
  have dt: "deadlineNanosForTick r t = (t * ?A) div numerator r"
    using assms et by (simp add: deadline_exact mult.assoc)
  have dtb: "deadlineNanosForTick r (t + b) = (t * ?A + b * ?A) div numerator r"
    using assms by (simp add: deadline_exact mult.assoc distrib_right)
  have d1: "deadlineNanosForTick r 1 = ?A div numerator r"
    using assms by (simp add: deadline_exact)
  show "deadlineNanosForTick r t + b * deadlineNanosForTick r 1 \<le> deadlineNanosForTick r (t + b)"
    unfolding dt dtb d1 by (rule floor_sum(1) [OF n assms(4)])
  show "deadlineNanosForTick r (t + b)
        \<le> deadlineNanosForTick r t + b * (deadlineNanosForTick r 1 + 1) + 1"
    unfolding dt dtb d1 by (rule floor_sum(2) [OF n assms(4)])
qed

lemma deadline_le_max: "numerator r * deadlineNanosForTick r t \<le> 2 ^ 63"
proof (cases "numerator r \<le> 0")
  case True
  then show ?thesis by (simp add: deadlineNanosForTick_def)
next
  case False
  define x where "x = i64 (i64 (t * kNanosPerSecond) * denominator r)"
  have x: "\<bar>x\<bar> \<le> 2 ^ 63" using i64_range [of "i64 (t * kNanosPerSecond) * denominator r"]
    by (simp add: x_def)
  have n: "0 < numerator r" using False by simp
  have "numerator r * (x sdiv numerator r) = sgn x * (numerator r * (\<bar>x\<bar> div numerator r))"
    using n by (simp add: signed_divide_int_def)
  also have "\<dots> \<le> \<bar>x\<bar>"
  proof -
    have a: "0 \<le> numerator r * (\<bar>x\<bar> div numerator r)"
      using n by (simp add: pos_imp_zdiv_nonneg_iff)
    have "numerator r * (\<bar>x\<bar> div numerator r) \<le> \<bar>x\<bar>"
      using n by (simp add: minus_mod_eq_mult_div [symmetric])
    with a show ?thesis by (cases "x = 0"; cases "0 < x") (simp_all add: sgn_if)
  qed
  finally show ?thesis using x False by (simp add: deadlineNanosForTick_def x_def)
qed

section \<open>Properties\<close>

text \<open>
  C21: however late the calls are, the ticks handed out after a start are strictly increasing,
  and every tick number is either returned or counted as dropped: the next tick is the number of
  calls plus the dropped ticks.
\<close>

theorem clock_ticks_accounted:
  "sorted_wrt (<) (ticks_of (clock_start now c) es) \<and>
   (\<forall>t \<in> set (ticks_of (clock_start now c) es). 0 \<le> t) \<and>
   nextTick (foldl tick_step (clock_start now c) es) =
     int (length es) + droppedTicks (foldl tick_step (clock_start now c) es)"
proof (intro conjI ballI)
  show "sorted_wrt (<) (ticks_of (clock_start now c) es)" by (rule ticks_of_sorted)
  show "0 \<le> t" if "t \<in> set (ticks_of (clock_start now c) es)" for t
    using ticks_of_ge [OF that] by (simp add: clock_start_def)
  show "nextTick (foldl tick_step (clock_start now c) es) =
     int (length es) + droppedTicks (foldl tick_step (clock_start now c) es)"
    using ticked_run [OF ticked_start [of now c], of es] by (simp add: ticked_def)
qed

theorem clock_ticks_accounted_witness:
  "sorted_wrt (<) (ticks_of (clock_start 0 (mk_clock \<lparr>numerator = 50, denominator = 1\<rparr>))
     [(1, 2, 20000001), (90000000, 90000001, 100000000)])"
  using clock_ticks_accounted [of 0 "mk_clock \<lparr>numerator = 50, denominator = 1\<rparr>"
     "[(1, 2, 20000001), (90000000, 90000001, 100000000)]"] by blast

text \<open>
  A deadline is the exact rational instant of its tick rounded down to a nanosecond, as
  long as the products fit in 64 bits: the error never accumulates from tick to tick.
\<close>

theorem clock_no_drift:
  assumes "good_rate r" "exact_tick r t"
  shows "deadlineNanosForTick r t * numerator r \<le> t * kNanosPerSecond * denominator r \<and>
         t * kNanosPerSecond * denominator r < (deadlineNanosForTick r t + 1) * numerator r"
proof -
  let ?x = "t * kNanosPerSecond * denominator r"
  have n: "0 < numerator r" using assms by (simp add: good_rate_def)
  have "?x = numerator r * (?x div numerator r) + ?x mod numerator r" by simp
  moreover have "0 \<le> ?x mod numerator r" "?x mod numerator r < numerator r" using n by simp_all
  ultimately show ?thesis
    unfolding deadline_exact [OF assms] distrib_right by (simp only: mult.commute) linarith
qed

theorem clock_no_drift_witness:
  "deadlineNanosForTick \<lparr>numerator = 60000, denominator = 1001\<rparr> 9214157 * 60000
     \<le> 9214157 * kNanosPerSecond * 1001 \<and>
   9214157 * kNanosPerSecond * 1001
     < (deadlineNanosForTick \<lparr>numerator = 60000, denominator = 1001\<rparr> 9214157 + 1) * 60000"
  using clock_no_drift [of "\<lparr>numerator = 60000, denominator = 1001\<rparr>" 9214157]
  unfolding frame_rate.simps by (simp add: good_rate_def exact_tick_def kNanosPerSecond_def)

text \<open>
  A call returns a tick whose frame is at most one period old on entry, and when it jumps
  ahead it does not jump past the present: the deadline it jumps to is at most the entry time,
  give or take a nanosecond per tick skipped. (It is not ``still in the future''.)
\<close>

theorem clock_catches_up:
  assumes "good_rate (clock_rate c)" "0 \<le> nextTick c" "0 < deadlineNanosForTick (clock_rate c) 1"
    and "waitForNextTick n1 n2 n3 c = (t, s, c')" "exact_tick (clock_rate c) t" "exact_tick (clock_rate c) 1"
  shows "elapsedNanos c n1 \<le> deadlineNanosForTick (clock_rate c) t + deadlineNanosForTick (clock_rate c) 1 \<and>
         (nextTick c < t \<longrightarrow>
            deadlineNanosForTick (clock_rate c) t \<le> elapsedNanos c n1 + (t - nextTick c) + 1)"
proof -
  let ?p = "deadlineNanosForTick (clock_rate c) 1" and ?d = "deadlineNanosForTick (clock_rate c) (nextTick c)"
  let ?n = "elapsedNanos c n1"
  show ?thesis
  proof (cases "?d + ?p < ?n")
    case False
    then have "t = nextTick c" using assms(4) by (auto simp: waitForNextTick_def Let_def)
    with False show ?thesis by simp
  next
    case True
    let ?b = "(?n - ?d) div ?p"
    have t: "t = nextTick c + ?b" using assms(3,4) True
      by (auto simp: waitForNextTick_def Let_def sdiv_nonneg)
    have b: "0 \<le> ?b" using True assms(3) by (simp add: pos_imp_zdiv_nonneg_iff)
    have "?n - ?d = ?p * ?b + (?n - ?d) mod ?p" by simp
    moreover have "0 \<le> (?n - ?d) mod ?p" "(?n - ?d) mod ?p < ?p" using assms(3) by simp_all
    moreover have "?b * ?p = ?p * ?b" by simp
    moreover have "?d + ?b * ?p \<le> deadlineNanosForTick (clock_rate c) t"
      "deadlineNanosForTick (clock_rate c) t \<le> ?d + ?b * (?p + 1) + 1"
      using deadline_step [OF assms(1), of "nextTick c" ?b] assms b t by auto
    moreover have "?b * (?p + 1) = ?b * ?p + ?b" by (simp add: distrib_left)
    ultimately show ?thesis using t by linarith
  qed
qed

theorem clock_catches_up_witness:
  "elapsedNanos (mk_clock \<lparr>numerator = 50, denominator = 1\<rparr>) 90000000 \<le> 100000000"
  using clock_catches_up [of "mk_clock \<lparr>numerator = 50, denominator = 1\<rparr>" 90000000 90000001 90000002 4 0
     "\<lparr>clock_rate = \<lparr>numerator = 50, denominator = 1\<rparr>, start_at = 0, nextTick = 5, droppedTicks = 4,
       lastLateness = 10000002\<rparr>"]
  by (simp add: mk_clock_def good_rate_def exact_tick_def kNanosPerSecond_def waitForNextTick_def
      deadlineNanosForTick_def elapsedNanos_def Let_def i64_def signed_take_bit_int_eq_self
      signed_divide_int_def)

text \<open>
  The 64-bit products bound how long the clock paces. No deadline exceeds \<open>2^63\<close>
  nanoseconds divided by the rate's numerator, so from that moment on no call sleeps: at
  60000/1001 that is 42.7 hours after the start.
\<close>

theorem clock_stops_pacing:
  assumes "0 < numerator (clock_rate c)" "2 ^ 63 \<le> numerator (clock_rate c) * elapsedNanos c n2"
  shows "fst (snd (waitForNextTick n1 n2 n3 c)) = 0"
proof -
  have "deadlineNanosForTick (clock_rate c) k \<le> elapsedNanos c n2" for k
  proof -
    have "numerator (clock_rate c) * deadlineNanosForTick (clock_rate c) k
          \<le> numerator (clock_rate c) * elapsedNanos c n2"
      using deadline_le_max [of "clock_rate c" k] assms(2) by linarith
    with assms(1) show ?thesis by simp
  qed
  then show ?thesis by (auto simp: waitForNextTick_def Let_def not_less)
qed

theorem clock_stops_pacing_witness:
  "fst (snd (waitForNextTick 153722867280913 153722867280913 153722867280914
     ((mk_clock \<lparr>numerator = 60000, denominator = 1001\<rparr>)\<lparr>nextTick := 9214158\<rparr>))) = 0"
  by (rule clock_stops_pacing) (simp_all add: mk_clock_def elapsedNanos_def)

end
