(* ===== verification/Playout_Schedule.thy ===== *)
theory Playout_Schedule
  imports Prelude
begin

text \<open>
  \<open>core/playout_schedule\<close>: the timeline of an output that schedules frames ahead of a card's
  playhead. Times are in the card's own units; the arithmetic of \<open>samplePosition\<close>, which is
  written to avoid overflow, keeps its width.
\<close>

record playout =
  frameDuration :: int
  timeScale :: int
  preroll :: int
  next_index :: int
  reanchors :: int
  skippedSlots :: int

definition mk_playout :: "int \<Rightarrow> int \<Rightarrow> int \<Rightarrow> playout" where
  "mk_playout fd ts pr = \<lparr>frameDuration = max 1 fd, timeScale = max 1 ts, preroll = max 1 pr,
     next_index = 0, reanchors = 0, skippedSlots = 0\<rparr>"

definition nextDisplayTime :: "playout \<Rightarrow> int" where
  "nextDisplayTime p = next_index p * frameDuration p"

definition advance :: "playout \<Rightarrow> playout" where
  "advance p = p\<lparr>next_index := next_index p + 1\<rparr>"

definition playout_reset :: "playout \<Rightarrow> playout" where
  "playout_reset p = p\<lparr>next_index := 0\<rparr>"

definition reanchor :: "int \<Rightarrow> bool \<Rightarrow> playout \<Rightarrow> int \<times> playout" where
  "reanchor playhead0 lateReported p =
     (let playhead = max 0 playhead0;
          margin = (if lateReported then frameDuration p else 1)
      in if playhead + margin \<le> nextDisplayTime p then (0, p)
         else let onAir = (playhead + frameDuration p - 1) sdiv frameDuration p;
                  target = max (next_index p) (onAir + preroll p);
                  skipped = target - next_index p
              in if skipped \<le> 0 then (0, p)
                 else (skipped, p\<lparr>next_index := target, reanchors := reanchors p + 1,
                                  skippedSlots := skippedSlots p + skipped\<rparr>))"

definition samplePosition :: "playout \<Rightarrow> int \<Rightarrow> int \<Rightarrow> int" where
  "samplePosition p index sampleRate =
     (let time = i64 (index * frameDuration p);
          whole = time sdiv timeScale p;
          part = time smod timeScale p
      in i64 (i64 (whole * sampleRate) + i64 (part * sampleRate) sdiv timeScale p))"

text \<open>
  One tick of an output: re-anchor at the card's playhead, offer the next slot to the card, and
  advance if the card took the frame.
\<close>

record playout_event =
  playhead :: int
  late :: bool
  accepted :: bool

definition playout_tick :: "playout \<Rightarrow> playout_event \<Rightarrow> playout" where
  "playout_tick p e =
     (let q = snd (reanchor (playhead e) (late e) p) in if accepted e then advance q else q)"

definition offered :: "playout \<Rightarrow> playout_event \<Rightarrow> int" where
  "offered p e = next_index (snd (reanchor (playhead e) (late e) p))"

text \<open>The slots the card accepted, with the event they were accepted at.\<close>

fun accepted_slots :: "playout \<Rightarrow> playout_event list \<Rightarrow> (int \<times> playout_event) list" where
  "accepted_slots p [] = []"
| "accepted_slots p (e # es) =
     (if accepted e then (offered p e, e) # accepted_slots (playout_tick p e) es
      else accepted_slots (playout_tick p e) es)"

definition playout_ok :: "playout \<Rightarrow> bool" where
  "playout_ok p \<longleftrightarrow> 1 \<le> frameDuration p \<and> 1 \<le> timeScale p \<and> 1 \<le> preroll p \<and> 0 \<le> next_index p"

section \<open>Re-anchoring\<close>

lemma mk_playout_ok: "playout_ok (mk_playout fd ts pr)"
  by (simp add: playout_ok_def mk_playout_def)

lemma ceiling_div:
  assumes "0 < (d::int)" "0 \<le> x"
  shows "x \<le> (x + d - 1) div d * d" "(x + d - 1) div d * d < x + d"
proof -
  have "(x + d - 1) = (x + d - 1) div d * d + (x + d - 1) mod d" by simp
  moreover have "0 \<le> (x + d - 1) mod d" "(x + d - 1) mod d < d" using assms by simp_all
  ultimately show "x \<le> (x + d - 1) div d * d" "(x + d - 1) div d * d < x + d" by linarith+
qed

lemma reanchor_frame:
  "reanchor ph l p = (k, q) \<Longrightarrow>
   frameDuration q = frameDuration p \<and> timeScale q = timeScale p \<and> preroll q = preroll p \<and>
   next_index q = next_index p + k \<and> skippedSlots q = skippedSlots p + k \<and> 0 \<le> k"
  by (auto simp: reanchor_def Let_def split: if_splits)

lemma reanchor_ahead:
  assumes "playout_ok p" "reanchor ph l p = (k, q)"
  shows "max 0 ph + (if l then frameDuration p else 1) \<le> nextDisplayTime q"
proof (cases "max 0 ph + (if l then frameDuration p else 1) \<le> nextDisplayTime p")
  case True
  with assms(2) show ?thesis by (auto simp: reanchor_def Let_def split: if_splits)
next
  case False
  let ?d = "frameDuration p" and ?ph = "max 0 ph"
  have d: "1 \<le> ?d" "1 \<le> preroll p" using assms(1) by (simp_all add: playout_ok_def)
  let ?on = "(?ph + ?d - 1) div ?d"
  have sd: "(?ph + ?d - 1) sdiv ?d = ?on" using d by (simp add: sdiv_nonneg)
  have ge: "?on + preroll p \<le> next_index q" "frameDuration q = ?d"
    using assms(2) False sd by (auto simp: reanchor_def Let_def split: if_splits)
  then have "?on + 1 \<le> next_index q" using d by linarith
  then have "(?on + 1) * ?d \<le> next_index q * ?d" using d by (intro mult_right_mono) simp_all
  moreover have "?ph \<le> ?on * ?d" using d by (intro ceiling_div) simp_all
  moreover have "(?on + 1) * ?d = ?on * ?d + ?d" by (simp add: distrib_right)
  ultimately have "?ph + ?d \<le> nextDisplayTime q"
    unfolding nextDisplayTime_def ge(2) by linarith
  with d show ?thesis by simp
qed

lemma reanchor_ok: "playout_ok p \<Longrightarrow> reanchor ph l p = (k, q) \<Longrightarrow> playout_ok q"
  using reanchor_frame [of ph l p k q] by (simp add: playout_ok_def)

lemma tick_ok: "playout_ok p \<Longrightarrow> playout_ok (playout_tick p e)"
  using reanchor_ok [of p "playhead e" "late e"]
  by (cases "reanchor (playhead e) (late e) p") (simp add: playout_tick_def advance_def playout_ok_def)

lemma tick_index: "next_index p \<le> offered p e \<and> frameDuration (playout_tick p e) = frameDuration p \<and>
   next_index (playout_tick p e) = offered p e + (if accepted e then 1 else 0)"
  using reanchor_frame [of "playhead e" "late e" p]
  by (cases "reanchor (playhead e) (late e) p")
    (simp add: playout_tick_def offered_def advance_def)

interpretation playout_machine: monotone_machine playout_tick playout_ok next_index
proof
  fix p :: playout and e :: playout_event
  show "playout_ok p \<Longrightarrow> playout_ok (playout_tick p e)" by (rule tick_ok)
  show "next_index p \<le> next_index (playout_tick p e)" using tick_index [of p e] by simp
qed

lemma accepted_slots_ge: "(i, e) \<in> set (accepted_slots p es) \<Longrightarrow> next_index p \<le> i"
proof (induction es arbitrary: p)
  case Nil
  then show ?case by simp
next
  case (Cons e' es)
  then show ?case using tick_index [of p e'] by (auto split: if_splits) fastforce+
qed

lemma accepted_slots_ahead:
  "playout_ok p \<Longrightarrow> (i, e) \<in> set (accepted_slots p es) \<Longrightarrow> playhead e < i * frameDuration p"
proof (induction es arbitrary: p)
  case Nil
  then show ?case by simp
next
  case (Cons e' es)
  obtain k q where q: "reanchor (playhead e') (late e') p = (k, q)" by fastforce
  have fd: "frameDuration (playout_tick p e') = frameDuration p" "playout_ok (playout_tick p e')"
    using tick_index [of p e'] tick_ok [OF Cons.prems(1)] by simp_all
  have "playhead e' < offered p e' * frameDuration p"
    using reanchor_ahead [OF Cons.prems(1) q] reanchor_frame [OF q] Cons.prems(1)
    by (auto simp: offered_def q nextDisplayTime_def playout_ok_def split: if_splits)
  moreover have "playhead e < i * frameDuration p" if "(i, e) \<in> set (accepted_slots (playout_tick p e') es)"
    using Cons.IH [OF fd(2) that] fd(1) by simp
  ultimately show ?case using Cons.prems(2) by (auto split: if_splits)
qed

lemma accepted_slots_sorted: "sorted_wrt (<) (map fst (accepted_slots p es))"
proof (induction es arbitrary: p)
  case Nil
  then show ?case by simp
next
  case (Cons e es)
  have "offered p e < i" if "(i, f) \<in> set (accepted_slots (playout_tick p e) es)" "accepted e" for i f
    using accepted_slots_ge [OF that(1)] tick_index [of p e] that(2) by simp
  with Cons.IH show ?case by auto
qed

section \<open>Sample positions\<close>

lemma sample_split:
  assumes "0 < (s::int)" "0 \<le> r"
  shows "t div s * r + t mod s * r div s = t * r div s"
proof -
  have e: "(q * s + m) * r = s * (q * r) + m * r" for q m by (simp add: algebra_simps)
  have "t * r = (t div s * s + t mod s) * r" by (simp only: div_mult_mod_eq)
  also have "\<dots> = s * (t div s * r) + t mod s * r" by (rule e)
  finally show ?thesis using assms by simp
qed

section \<open>Properties\<close>

text \<open>
  C22: an output that re-anchors before every frame never schedules one in the past and never
  schedules a slot twice: the accepted slots are strictly increasing, and each is displayed
  strictly after the playhead the card reported with it.
\<close>

theorem playout_never_late:
  "sorted_wrt (<) (map fst (accepted_slots (mk_playout fd ts pr) es)) \<and>
   list_all (\<lambda>(i, e). playhead e < i * max 1 fd) (accepted_slots (mk_playout fd ts pr) es)"
proof
  show "sorted_wrt (<) (map fst (accepted_slots (mk_playout fd ts pr) es))"
    by (rule accepted_slots_sorted)
  have "frameDuration (mk_playout fd ts pr) = max 1 fd" by (simp add: mk_playout_def)
  then show "list_all (\<lambda>(i, e). playhead e < i * max 1 fd) (accepted_slots (mk_playout fd ts pr) es)"
    using accepted_slots_ahead [OF mk_playout_ok, of _ _ fd ts pr es] by (auto simp: list_all_iff)
qed

text \<open>
  A re-anchor lands the next slot a whole frame ahead of the playhead after a late report
  (one unit ahead otherwise), at most the preroll plus one frame ahead when it moved, and counts
  exactly the slots it skipped.
\<close>

theorem reanchor_spec:
  assumes "playout_ok p" "reanchor ph l p = (k, q)"
  shows "max 0 ph + (if l then frameDuration p else 1) \<le> nextDisplayTime q \<and>
    next_index q = next_index p + k \<and> skippedSlots q = skippedSlots p + k \<and>
    (k = 0 \<or> nextDisplayTime q < max 0 ph + (preroll p + 1) * frameDuration p)"
proof (intro conjI)
  show "max 0 ph + (if l then frameDuration p else 1) \<le> nextDisplayTime q"
    by (rule reanchor_ahead [OF assms])
  show "next_index q = next_index p + k" "skippedSlots q = skippedSlots p + k"
    using reanchor_frame [OF assms(2)] by simp_all
  show "k = 0 \<or> nextDisplayTime q < max 0 ph + (preroll p + 1) * frameDuration p"
  proof (cases "k = 0")
    case False
    let ?d = "frameDuration p" and ?ph = "max 0 ph"
    have d: "1 \<le> ?d" using assms(1) by (simp add: playout_ok_def)
    then have "nextDisplayTime q = ((?ph + ?d - 1) div ?d + preroll p) * ?d"
      using assms(2) False
      by (auto simp: reanchor_def Let_def nextDisplayTime_def max_def sdiv_nonneg split: if_splits)
    moreover have "(?ph + ?d - 1) div ?d * ?d < ?ph + ?d" using d by (intro ceiling_div) simp_all
    ultimately show ?thesis by (simp add: distrib_right)
  qed simp
qed

theorem reanchor_spec_witness:
  "3003 + 1001 \<le> nextDisplayTime (snd (reanchor 3003 True (mk_playout 1001 60000 3)))"
proof -
  obtain k q where "reanchor 3003 True (mk_playout 1001 60000 3) = (k, q)" by fastforce
  then show ?thesis using reanchor_spec [OF mk_playout_ok, of 3003 True 1001 60000 3 k q]
    by (simp add: mk_playout_def)
qed

text \<open>
  The sample position of a slot is exactly the floor of its display time in samples, with
  no intermediate overflow, as long as the display time and the position itself fit.
\<close>

theorem samplePosition_exact:
  assumes "1 \<le> timeScale p" "0 \<le> index" "0 \<le> frameDuration p" "0 \<le> sampleRate"
    and "index * frameDuration p < 2 ^ 63" "timeScale p * sampleRate < 2 ^ 63"
    and "index * frameDuration p * sampleRate div timeScale p < 2 ^ 63"
  shows "samplePosition p index sampleRate = index * frameDuration p * sampleRate div timeScale p"
proof -
  let ?t = "index * frameDuration p" and ?s = "timeScale p"
  have t0: "0 \<le> ?t" using assms by simp
  then have t: "0 \<le> ?t" "i64 ?t = ?t" using assms by (simp, intro i64_fits) linarith+
  have s: "0 < ?s" using assms by simp
  have m: "0 \<le> ?t mod ?s" "?t mod ?s \<le> ?s" using s by (simp_all add: less_imp_le)
  have p0: "0 \<le> ?t mod ?s * sampleRate" using m assms by simp
  have "?t mod ?s * sampleRate \<le> ?s * sampleRate" using m assms by (intro mult_right_mono) simp_all
  then have pm: "i64 (?t mod ?s * sampleRate) = ?t mod ?s * sampleRate"
    using p0 assms by (intro i64_fits) linarith+
  have w0: "0 \<le> ?t div ?s * sampleRate" using t s assms by (simp add: pos_imp_zdiv_nonneg_iff)
  have d0: "0 \<le> ?t mod ?s * sampleRate div ?s" using p0 s by (simp add: pos_imp_zdiv_nonneg_iff)
  note eq = sample_split [OF s assms(4), of ?t]
  have "i64 (?t div ?s * sampleRate) = ?t div ?s * sampleRate"
    using w0 d0 eq assms(7) by (intro i64_fits) linarith+
  moreover have "i64 (?t * sampleRate div ?s) = ?t * sampleRate div ?s"
    using w0 d0 eq assms(7) by (intro i64_fits) linarith+
  ultimately show ?thesis
    using t s p0 pm eq unfolding samplePosition_def Let_def
    by (simp add: sdiv_nonneg smod_nonneg)
qed

theorem samplePosition_exact_witness:
  "samplePosition (mk_playout 1001 60000 3) 5184000 48000 = 5184000 * 1001 * 48000 div 60000"
  using samplePosition_exact [of "mk_playout 1001 60000 3" 5184000 48000] by (simp add: mk_playout_def)

end
