(* ===== verification/Frame_Store.thy ===== *)
theory Frame_Store
  imports Video_Format "HOL-Library.Sublist"
begin

text \<open>
  \<open>core/frame\<close> and \<open>core/frame_ring\<close>: the frame buffers and the pool that recycles them, the
  one-slot hand-off between the paint thread and the clock, and the bounded queue that drops its
  oldest entry. A buffer is identified by its address; a frame pointer in the slot and in the ring
  is any non-null pointer.
\<close>

section \<open>Frames and the pool\<close>

record video_frame =
  address :: nat
  frame_format :: video_format
  frame_pixelFormat :: pixel_format
  frame_rowBytes :: int
  frame_sequence :: int
  captureNanos :: int
  frame_bytes :: "int list"

definition mk_frame :: "nat \<Rightarrow> video_format \<Rightarrow> pixel_format \<Rightarrow> video_frame" where
  "mk_frame a f p = \<lparr>address = a, frame_format = f, frame_pixelFormat = p, frame_rowBytes = rowBytes f p,
     frame_sequence = 0, captureNanos = 0, frame_bytes = replicate (nat (bufferSize f p)) 0\<rparr>"

record frame_pool =
  pool_format :: video_format
  pool_pixelFormat :: pixel_format
  maxRetained :: nat
  free_frames :: "video_frame list"    \<comment> \<open>\<open>free_\<close>; the last element is the back\<close>

definition pool_create :: "video_format \<Rightarrow> pixel_format \<Rightarrow> nat \<Rightarrow> frame_pool" where
  "pool_create f p n = \<lparr>pool_format = f, pool_pixelFormat = p, maxRetained = n, free_frames = []\<rparr>"

text \<open>\<open>a\<close> is the address of a new allocation, used when no buffer is free.\<close>

definition pool_acquire :: "nat \<Rightarrow> frame_pool \<Rightarrow> video_frame \<times> frame_pool" where
  "pool_acquire a p =
     (if free_frames p \<noteq> [] then (last (free_frames p), p\<lparr>free_frames := butlast (free_frames p)\<rparr>)
      else (mk_frame a (pool_format p) (pool_pixelFormat p), p))"

definition pool_recycle :: "video_frame \<Rightarrow> frame_pool \<Rightarrow> frame_pool" where
  "pool_recycle f p =
     (if maxRetained p \<le> length (free_frames p) then p
      else p\<lparr>free_frames := free_frames p @ [f]\<rparr>)"

definition retainedCount :: "frame_pool \<Rightarrow> nat" where
  "retainedCount p = length (free_frames p)"

text \<open>
  The life of a frame: the pool exists (\<open>Some\<close>) until its last owner drops it; a frame in
  flight is released by the deleter of its pointer, which recycles it when the pool still exists
  and frees the buffer when it does not. \<open>heap\<close> are the addresses allocated so far: a new
  buffer has an address not in use.
\<close>

record pool_world =
  pool :: "frame_pool option"
  in_flight :: "video_frame list"

datatype pool_event =
    Acquire nat                   \<comment> \<open>the address the allocator returns if it is asked\<close>
  | Release nat                   \<comment> \<open>the address of the frame whose last pointer goes\<close>
  | Touch nat int int             \<comment> \<open>\<open>setSequence\<close> and \<open>setCaptureNanos\<close>\<close>
  | Drop_pool

definition delete_frame :: "video_frame \<Rightarrow> frame_pool option \<Rightarrow> frame_pool option" where
  "delete_frame f p = (case p of Some q \<Rightarrow> Some (pool_recycle f q) | None \<Rightarrow> None)"

definition in_use :: "pool_world \<Rightarrow> nat set" where
  "in_use w = address ` (set (in_flight w) \<union> (case pool w of Some p \<Rightarrow> set (free_frames p) | None \<Rightarrow> {}))"

definition set_frame_times :: "int \<Rightarrow> int \<Rightarrow> video_frame \<Rightarrow> video_frame" where
  "set_frame_times s n f = f\<lparr>frame_sequence := s, captureNanos := n\<rparr>"

definition pool_event_step :: "pool_world \<Rightarrow> pool_event \<Rightarrow> pool_world" where
  "pool_event_step w e = (case e of
      Acquire a \<Rightarrow>
        (case pool w of
           None \<Rightarrow> w
         | Some p \<Rightarrow>
             if a \<in> in_use w then w    \<comment> \<open>no allocator returns an address in use\<close>
             else let (f, q) = pool_acquire a p in w\<lparr>pool := Some q, in_flight := f # in_flight w\<rparr>)
    | Release a \<Rightarrow>
        (case find (\<lambda>f. address f = a) (in_flight w) of
           None \<Rightarrow> w
         | Some f \<Rightarrow> w\<lparr>pool := delete_frame f (pool w),
                        in_flight := filter (\<lambda>g. address g \<noteq> a) (in_flight w)\<rparr>)
    | Touch a s n \<Rightarrow>
        w\<lparr>in_flight := map (\<lambda>f. if address f = a then set_frame_times s n f else f) (in_flight w)\<rparr>
    | Drop_pool \<Rightarrow> w\<lparr>pool := None\<rparr>)"

definition frame_fits :: "frame_pool \<Rightarrow> video_frame \<Rightarrow> bool" where
  "frame_fits p f \<longleftrightarrow> frame_format f = pool_format p \<and> frame_pixelFormat f = pool_pixelFormat p \<and>
     int (length (frame_bytes f)) = bufferSize (pool_format p) (pool_pixelFormat p)"

definition pool_ok :: "pool_world \<Rightarrow> bool" where
  "pool_ok w \<longleftrightarrow> distinct (map address (in_flight w)) \<and>
     (case pool w of
        None \<Rightarrow> True
      | Some p \<Rightarrow> distinct (map address (free_frames p)) \<and>
          address ` set (free_frames p) \<inter> address ` set (in_flight w) = {} \<and>
          length (free_frames p) \<le> maxRetained p \<and>
          (\<forall>f \<in> set (free_frames p) \<union> set (in_flight w). frame_fits p f))"

lemma bufferSize_nonneg: "0 \<le> bufferSize f p"
  by (simp add: bufferSize_def)

lemma mk_frame_fits: "frame_fits p (mk_frame a (pool_format p) (pool_pixelFormat p))"
  by (simp add: frame_fits_def mk_frame_def bufferSize_nonneg)

lemma pool_ok_Acquire:
  assumes "pool_ok w"
  shows "pool_ok (pool_event_step w (Acquire a))"
proof (cases "pool w")
  case None
  with assms show ?thesis by (simp add: pool_event_step_def)
next
  case (Some p)
  show ?thesis
  proof (cases "free_frames p = []")
    case True
    have "address (mk_frame a (pool_format p) (pool_pixelFormat p)) = a" by (simp add: mk_frame_def)
    with True Some assms mk_frame_fits [of p a] show ?thesis
      by (auto simp: pool_event_step_def pool_acquire_def pool_ok_def in_use_def)
  next
    case False
    then obtain fs f where fs: "free_frames p = fs @ [f]" by (metis rev_exhaust)
    with Some assms show ?thesis
      by (auto simp: pool_event_step_def pool_acquire_def pool_ok_def frame_fits_def)
  qed
qed

lemma pool_ok_Release:
  assumes "pool_ok w"
  shows "pool_ok (pool_event_step w (Release a))"
proof (cases "find (\<lambda>f. address f = a) (in_flight w)")
  case None
  with assms show ?thesis by (simp add: pool_event_step_def)
next
  case (Some f)
  then have f: "f \<in> set (in_flight w)" "address f = a" by (auto simp: find_Some_iff)
  have d: "distinct (map address (filter (\<lambda>g. address g \<noteq> a) (in_flight w)))"
    using assms by (simp add: pool_ok_def distinct_map_filter)
  from Some f d assms show ?thesis
    by (cases "pool w")
      (auto simp: pool_event_step_def pool_ok_def delete_frame_def pool_recycle_def frame_fits_def)
qed

lemma pool_ok_Touch: "pool_ok w \<Longrightarrow> pool_ok (pool_event_step w (Touch a s n))"
proof -
  assume w: "pool_ok w"
  let ?g = "\<lambda>f. if address f = a then set_frame_times s n f else f"
  have m: "map address (map ?g fs) = map address fs" for fs
    by (induction fs) (simp_all add: set_frame_times_def)
  have i: "address ` ?g ` S = address ` S" for S
  proof -
    have "address (?g f) = address f" for f by (simp add: set_frame_times_def)
    then show ?thesis by (simp only: image_image)
  qed
  have f: "frame_fits p (set_frame_times s n f) = frame_fits p f" for p f
    by (simp add: set_frame_times_def frame_fits_def)
  show ?thesis
    using w i [of "set (in_flight w)"]
    by (auto simp: pool_ok_def pool_event_step_def m f simp del: map_map split: option.splits)
qed

lemma pool_ok_step: "pool_ok w \<Longrightarrow> pool_ok (pool_event_step w e)"
  using pool_ok_Acquire pool_ok_Release pool_ok_Touch
  by (cases e) (auto simp: pool_event_step_def pool_ok_def)

interpretation pool_machine: machine pool_event_step pool_ok
  by unfold_locales (rule pool_ok_step)

section \<open>The latest-frame slot\<close>

record 'f latest_slot =
  slot_frame :: "'f option"
  published :: int
  overwritten :: int

definition empty_slot :: "'f latest_slot" where
  "empty_slot = \<lparr>slot_frame = None, published = 0, overwritten = 0\<rparr>"

definition publish :: "'f \<Rightarrow> 'f latest_slot \<Rightarrow> 'f latest_slot" where
  "publish f s = s\<lparr>overwritten := (if slot_frame s \<noteq> None then overwritten s + 1 else overwritten s),
     slot_frame := Some f, published := published s + 1\<rparr>"

definition slot_take :: "'f latest_slot \<Rightarrow> 'f option \<times> 'f latest_slot" where
  "slot_take s = (slot_frame s, s\<lparr>slot_frame := None\<rparr>)"

definition peek :: "'f latest_slot \<Rightarrow> 'f option" where
  "peek s = slot_frame s"

text \<open>The paint thread's and the clock thread's calls, in the order the lock serialises them.\<close>

datatype 'f slot_event = Publish 'f | Take

primrec slot_step :: "'f latest_slot \<times> 'f list \<Rightarrow> 'f slot_event \<Rightarrow> 'f latest_slot \<times> 'f list" where
  "slot_step st (Publish f) = (publish f (fst st), snd st)"
| "slot_step st Take =
     (let (r, s) = slot_take (fst st) in (s, snd st @ (case r of Some f \<Rightarrow> [f] | None \<Rightarrow> [])))"

definition slot_ok :: "'f latest_slot \<times> 'f list \<Rightarrow> bool" where
  "slot_ok st \<longleftrightarrow> published (fst st) =
     int (length (snd st)) + overwritten (fst st) + (if slot_frame (fst st) = None then 0 else 1)"

interpretation slot_machine: machine slot_step slot_ok
proof
  fix st :: "'f latest_slot \<times> 'f list" and e
  show "slot_ok st \<Longrightarrow> slot_ok (slot_step st e)"
    by (cases e; cases st) (auto simp: slot_ok_def publish_def slot_take_def split: option.splits)
qed

section \<open>The bounded frame ring\<close>

record 'f frame_ring =
  capacity :: nat
  ring_queue :: "'f list"       \<comment> \<open>the head is the front\<close>
  droppedCount :: int

definition mk_ring :: "nat \<Rightarrow> 'f frame_ring" where
  "mk_ring n = \<lparr>capacity = (if n \<noteq> 0 then n else 1), ring_queue = [], droppedCount = 0\<rparr>"

text \<open>The loop of \<open>push\<close> that makes room.\<close>

function make_room :: "'f frame_ring \<Rightarrow> 'f frame_ring" where
  "make_room r =
     (if capacity r \<le> length (ring_queue r) \<and> ring_queue r \<noteq> []
      then make_room (r\<lparr>ring_queue := tl (ring_queue r), droppedCount := droppedCount r + 1\<rparr>)
      else r)"
  by pat_completeness auto
termination by (relation "measure (\<lambda>r. length (ring_queue r))") (auto simp: neq_Nil_conv)

declare make_room.simps [simp del]

definition ring_push :: "'f \<Rightarrow> 'f frame_ring \<Rightarrow> bool \<times> 'f frame_ring" where
  "ring_push f r =
     (let q = make_room r
      in (droppedCount q = droppedCount r, q\<lparr>ring_queue := ring_queue q @ [f]\<rparr>))"

definition ring_pop :: "'f frame_ring \<Rightarrow> 'f option \<times> 'f frame_ring" where
  "ring_pop r = (case ring_queue r of [] \<Rightarrow> (None, r) | f # fs \<Rightarrow> (Some f, r\<lparr>ring_queue := fs\<rparr>))"

definition ring_size :: "'f frame_ring \<Rightarrow> nat" where
  "ring_size r = length (ring_queue r)"

definition ring_clear :: "'f frame_ring \<Rightarrow> 'f frame_ring" where
  "ring_clear r = r\<lparr>ring_queue := []\<rparr>"

definition ring_ok :: "'f frame_ring \<Rightarrow> bool" where
  "ring_ok r \<longleftrightarrow> 1 \<le> capacity r \<and> length (ring_queue r) \<le> capacity r"

lemma make_room_spec:
  "1 \<le> capacity r \<Longrightarrow>
   make_room r = r\<lparr>ring_queue := drop (length (ring_queue r) + 1 - capacity r) (ring_queue r),
                  droppedCount := droppedCount r + int (length (ring_queue r) + 1 - capacity r)\<rparr>"
proof (induction r rule: make_room.induct)
  case (1 r)
  show ?case
  proof (cases "capacity r \<le> length (ring_queue r) \<and> ring_queue r \<noteq> []")
    case True
    then obtain x xs where q: "ring_queue r = x # xs" by (auto simp: neq_Nil_conv)
    have IH: "make_room (r\<lparr>ring_queue := xs, droppedCount := droppedCount r + 1\<rparr>) =
      r\<lparr>ring_queue := drop (length xs + 1 - capacity r) xs,
        droppedCount := droppedCount r + 1 + int (length xs + 1 - capacity r)\<rparr>"
      using "1.IH" [OF True] "1.prems" q by simp
    obtain k where k: "Suc (Suc (length xs)) - capacity r = Suc k" "Suc (length xs) - capacity r = k"
      using True q "1.prems" by (simp add: Suc_diff_le)
    show ?thesis using True q IH k by (subst make_room.simps) simp
  next
    case False
    then have "length (ring_queue r) + 1 - capacity r = 0" using "1.prems" by (auto simp: not_le)
    with False show ?thesis by (subst make_room.simps) auto
  qed
qed

lemma ring_push_spec:
  assumes "ring_ok r"
  shows "ring_push f r =
    (if length (ring_queue r) < capacity r then (True, r\<lparr>ring_queue := ring_queue r @ [f]\<rparr>)
     else (False, r\<lparr>ring_queue := tl (ring_queue r) @ [f], droppedCount := droppedCount r + 1\<rparr>))"
proof (cases "length (ring_queue r) < capacity r")
  case True
  then have "length (ring_queue r) + 1 - capacity r = 0" by simp
  with True assms make_room_spec [of r] show ?thesis by (simp add: ring_push_def ring_ok_def)
next
  case False
  with assms have "length (ring_queue r) + 1 - capacity r = 1" by (simp add: ring_ok_def)
  with False assms make_room_spec [of r] show ?thesis
    by (simp add: ring_push_def ring_ok_def drop_Suc)
qed

datatype 'f ring_event = Push 'f | Pop

primrec ring_step :: "'f frame_ring \<times> 'f list \<Rightarrow> 'f ring_event \<Rightarrow> 'f frame_ring \<times> 'f list" where
  "ring_step st (Push f) = (snd (ring_push f (fst st)), snd st)"
| "ring_step st Pop = (let (x, r) = ring_pop (fst st) in
     (r, snd st @ (case x of Some f \<Rightarrow> [f] | None \<Rightarrow> [])))"

definition pushed :: "'f ring_event list \<Rightarrow> 'f list" where
  "pushed es = concat (map (\<lambda>e. case e of Push f \<Rightarrow> [f] | Pop \<Rightarrow> []) es)"

text \<open>
  What the ring holds is the newest part of what was pushed; what it handed out and holds is in
  the order pushed; every frame pushed is handed out, held or counted as dropped.
\<close>

definition ring_trace :: "'f list \<Rightarrow> 'f frame_ring \<times> 'f list \<Rightarrow> bool" where
  "ring_trace hs st \<longleftrightarrow> ring_ok (fst st) \<and> suffix (ring_queue (fst st)) hs \<and>
     subseq (snd st @ ring_queue (fst st)) hs \<and>
     int (length hs) = int (length (snd st)) + int (length (ring_queue (fst st))) + droppedCount (fst st)"

lemma subseq_drop_middle: "subseq (xs @ y # ys) zs \<Longrightarrow> subseq (xs @ ys) zs"
proof -
  have "subseq (xs @ ys) (xs @ y # ys)" by (intro list_emb_append_mono) auto
  then show "subseq (xs @ y # ys) zs \<Longrightarrow> subseq (xs @ ys) zs" using subseq_order.trans by blast
qed

lemma suffix_tl: "suffix (x # xs) ys \<Longrightarrow> suffix xs ys"
  by (auto simp: suffix_def)

lemma suffix_snoc_both: "suffix xs ys \<Longrightarrow> suffix (xs @ [x]) (ys @ [x])"
  by (auto simp: suffix_def)

lemma subseq_snoc_both: "subseq xs ys \<Longrightarrow> subseq (xs @ [x]) (ys @ [x])"
  by (simp add: list_emb_append_mono)

lemma ring_trace_push:
  assumes "ring_trace hs (r, out)"
  shows "ring_trace (hs @ [f]) (ring_step (r, out) (Push f))"
proof (cases "length (ring_queue r) < capacity r")
  case True
  with assms show ?thesis
    using subseq_snoc_both [of "out @ ring_queue r" hs f]
    by (auto simp: ring_trace_def ring_push_spec ring_ok_def intro: suffix_snoc_both)
next
  case False
  with assms obtain x xs where q: "ring_queue r = x # xs"
    by (cases "ring_queue r") (auto simp: ring_trace_def ring_ok_def)
  have "subseq (out @ xs) hs" using assms subseq_drop_middle [of out x xs hs]
    by (simp add: ring_trace_def q)
  then have "subseq ((out @ xs) @ [f]) (hs @ [f])" by (rule subseq_snoc_both)
  with False assms q show ?thesis
    by (auto simp: ring_trace_def ring_push_spec ring_ok_def
        intro: suffix_snoc_both suffix_tl)
qed

lemma ring_trace_pop: "ring_trace hs st \<Longrightarrow> ring_trace hs (ring_step st Pop)"
  by (cases st; cases "ring_queue (fst st)")
    (auto simp: ring_trace_def ring_pop_def ring_ok_def intro: suffix_tl)

lemma ring_trace_run:
  "ring_trace hs st \<Longrightarrow> ring_trace (hs @ pushed es) (foldl ring_step st es)"
proof (induction es arbitrary: hs st)
  case Nil
  then show ?case by (simp add: pushed_def)
next
  case (Cons e es)
  show ?case
  proof (cases e)
    case (Push f)
    have "ring_trace (hs @ [f]) (ring_step st (Push f))"
      using ring_trace_push [of hs "fst st" "snd st" f] Cons.prems by simp
    then have "ring_trace ((hs @ [f]) @ pushed es) (foldl ring_step (ring_step st (Push f)) es)"
      by (rule Cons.IH)
    then show ?thesis by (simp add: Push pushed_def)
  next
    case Pop
    have "ring_trace (hs @ pushed es) (foldl ring_step (ring_step st Pop) es)"
      by (rule Cons.IH) (rule ring_trace_pop [OF Cons.prems])
    then show ?thesis by (simp add: Pop pushed_def)
  qed
qed

interpretation ring_machine: machine ring_step "\<lambda>st. ring_ok (fst st)"
proof
  fix st :: "'f frame_ring \<times> 'f list" and e
  show "ring_ok (fst st) \<Longrightarrow> ring_ok (fst (ring_step st e))"
    by (cases e; cases st; cases "ring_queue (fst st)")
      (auto simp: ring_push_spec ring_pop_def ring_ok_def)
qed

section \<open>Properties\<close>

text \<open>
  No frame buffer is in two hands. After any sequence of acquires, releases and writes,
  and whether or not the pool is dropped on the way, the frames in flight have distinct addresses,
  none of them is on the pool's free list, the free list is within its limit, and every frame of a
  living pool has the pool's shape and its full byte count.
\<close>

theorem pool_exclusive:
  "pool_ok (foldl pool_event_step \<lparr>pool = Some (pool_create f p n), in_flight = []\<rparr> es)"
  by (rule pool_machine.run_inv) (simp add: pool_ok_def pool_create_def)

text \<open>
  The bounded ring keeps the newest frames in order and loses none uncounted: after any
  pushes and pops the queue is the end of what was pushed, what was popped and what is queued is in
  push order, and pushed = popped + queued + dropped.
\<close>

theorem ring_keeps_newest:
  "suffix (ring_queue (fst (foldl ring_step (mk_ring n, []) es))) (pushed es) \<and>
   subseq (snd (foldl ring_step (mk_ring n, []) es) @ ring_queue (fst (foldl ring_step (mk_ring n, []) es))) (pushed es) \<and>
   length (ring_queue (fst (foldl ring_step (mk_ring n, []) es))) \<le> max 1 n \<and>
   int (length (pushed es)) =
     int (length (snd (foldl ring_step (mk_ring n, []) es))) +
     int (length (ring_queue (fst (foldl ring_step (mk_ring n, []) es)))) +
     droppedCount (fst (foldl ring_step (mk_ring n, []) es))"
proof -
  have "ring_trace [] (mk_ring n, [])" by (simp add: ring_trace_def mk_ring_def ring_ok_def)
  from ring_trace_run [OF this, of es]
  have t: "ring_trace (pushed es) (foldl ring_step (mk_ring n, []) es)" by simp
  have c: "capacity (fst (foldl ring_step st es)) = capacity (fst st)" if "ring_ok (fst st)" for st
    using that
  proof (induction es arbitrary: st)
    case (Cons e es)
    have "capacity (fst (ring_step st e)) = capacity (fst st)"
      using Cons.prems by (cases e; cases "ring_queue (fst st)") (auto simp: ring_push_spec ring_pop_def)
    with Cons.IH [of "ring_step st e"] ring_machine.step_inv [OF Cons.prems] show ?case by simp
  qed simp
  have "ring_ok (mk_ring n :: 'a frame_ring)" by (simp add: mk_ring_def ring_ok_def)
  with c [of "(mk_ring n, [])"] have "capacity (fst (foldl ring_step (mk_ring n, []) es)) = max 1 n"
    by (simp add: mk_ring_def)
  with t show ?thesis by (simp add: ring_trace_def ring_ok_def)
qed

end
