(* ===== verification/Recycle_Ring.thy ===== *)
theory Recycle_Ring
  imports Prelude
begin

text \<open>
  \<open>core/recycle_ring.h\<close> and \<open>outputs/screen_frame_ring.h\<close>: two rings that hand out objects they
  must not hand out twice. Both are instances of one interface, a hand-out whose result was not
  busy before and is busy afterwards; the recycling ring also gives back. Each call holds the
  ring's lock throughout, so a run is a sequence of whole calls.
\<close>

section \<open>The interface\<close>

locale handout =
  fixes take1 :: "'s \<Rightarrow> 'i option \<times> 's"
    and busy :: "'s \<Rightarrow> 'i set"
    and ok :: "'s \<Rightarrow> bool"
  assumes take_ok: "ok s \<Longrightarrow> ok (snd (take1 s))"
    and take_fresh: "ok s \<Longrightarrow> take1 s = (Some i, t) \<Longrightarrow> i \<notin> busy s \<and> i \<in> busy t"
begin

lemma take_twice: "ok s \<Longrightarrow> take1 s = (Some i, t) \<Longrightarrow> take1 t = (Some j, u) \<Longrightarrow> i \<noteq> j"
proof -
  assume s: "ok s" and i: "take1 s = (Some i, t)" and j: "take1 t = (Some j, u)"
  have "ok t" using take_ok [OF s] i by simp
  with take_fresh [OF s i] take_fresh [of t j u] j show "i \<noteq> j" by blast
qed

end

text \<open>A lender also takes back, and keeps exact account of what is out.\<close>

locale lender = handout take1 busy ok
  for take1 :: "'s \<Rightarrow> 'i option \<times> 's" and busy :: "'s \<Rightarrow> 'i set" and ok :: "'s \<Rightarrow> bool" +
  fixes give :: "'i \<Rightarrow> 's \<Rightarrow> bool \<times> 's"
  assumes give_ok: "ok s \<Longrightarrow> ok (snd (give i s))"
    and take_exact: "ok s \<Longrightarrow> take1 s = (r, t) \<Longrightarrow>
      busy t = (case r of Some i \<Rightarrow> insert i (busy s) | None \<Rightarrow> busy s)"
    and give_exact: "ok s \<Longrightarrow> give i s = (b, t) \<Longrightarrow>
      b = (i \<in> busy s) \<and> busy t = busy s - (if b then {i} else {})"
begin

text \<open>A run of takes (\<open>None\<close>) and gives (\<open>Some i\<close>), with the list of what the callers hold.\<close>

fun lend_step :: "'s \<times> 'i list \<Rightarrow> 'i option \<Rightarrow> 's \<times> 'i list" where
  "lend_step (s, out) None =
     (let (r, t) = take1 s in (t, (case r of Some i \<Rightarrow> i # out | None \<Rightarrow> out)))"
| "lend_step (s, out) (Some i) =
     (let (b, t) = give i s in (t, if b then removeAll i out else out))"

lemma lend_inv:
  assumes "ok s" "distinct out" "set out = busy s"
  shows "ok (fst (foldl lend_step (s, out) es)) \<and> distinct (snd (foldl lend_step (s, out) es)) \<and>
    set (snd (foldl lend_step (s, out) es)) = busy (fst (foldl lend_step (s, out) es))"
  using assms
proof (induction es arbitrary: s out)
  case Nil
  then show ?case by simp
next
  case (Cons e es)
  show ?case
  proof (cases e)
    case None
    obtain r t where t: "take1 s = (r, t)" by fastforce
    have "ok t" using take_ok [OF Cons.prems(1)] t by simp
    moreover have "busy t = (case r of Some i \<Rightarrow> insert i (busy s) | None \<Rightarrow> busy s)"
      by (rule take_exact [OF Cons.prems(1) t])
    moreover have "r = Some i \<Longrightarrow> i \<notin> busy s" for i using take_fresh [OF Cons.prems(1)] t by blast
    ultimately show ?thesis
      using Cons.IH [of t "case r of Some i \<Rightarrow> i # out | None \<Rightarrow> out"] Cons.prems t None
      by (cases r) auto
  next
    case (Some i)
    obtain b t where t: "give i s = (b, t)" by fastforce
    have "ok t" using give_ok [OF Cons.prems(1), of i] t by simp
    with give_exact [OF Cons.prems(1) t] show ?thesis
      using Cons.IH [of t "if b then removeAll i out else out"] Cons.prems t Some
      by (auto simp: distinct_removeAll)
  qed
qed

end

section \<open>The recycling ring\<close>

type_synonym item = nat      \<comment> \<open>an address; releases match by address\<close>

record slot =
  slot_item :: item
  slot_free :: bool

record recycle_ring =
  slots :: "slot list"
  closed :: bool
  misses :: int
  doubleReleases :: int
  strangers :: int

definition new_recycle_ring :: recycle_ring where
  "new_recycle_ring = \<lparr>slots = [], closed = False, misses = 0, doubleReleases = 0, strangers = 0\<rparr>"

definition ring_add :: "item \<Rightarrow> recycle_ring \<Rightarrow> recycle_ring" where
  "ring_add i r = r\<lparr>slots := slots r @ [\<lparr>slot_item = i, slot_free = True\<rparr>]\<rparr>"

text \<open>The loop of \<open>acquire\<close>: the first free slot.\<close>

fun take_free :: "slot list \<Rightarrow> (item \<times> slot list) option" where
  "take_free [] = None"
| "take_free (s # ss) =
     (if slot_free s then Some (slot_item s, s\<lparr>slot_free := False\<rparr> # ss)
      else map_option (\<lambda>(i, ts). (i, s # ts)) (take_free ss))"

definition ring_acquire :: "recycle_ring \<Rightarrow> item option \<times> recycle_ring" where
  "ring_acquire r =
     (if closed r then (None, r)
      else case take_free (slots r) of
        Some (i, ss) \<Rightarrow> (Some i, r\<lparr>slots := ss\<rparr>)
      | None \<Rightarrow> (None, r\<lparr>misses := misses r + 1\<rparr>))"

text \<open>The loop of \<open>release\<close>: the first slot with that address, and what it finds there.\<close>

datatype returned = Returned "slot list" | Already_free | Stranger

fun put_back :: "item \<Rightarrow> slot list \<Rightarrow> returned" where
  "put_back i [] = Stranger"
| "put_back i (s # ss) =
     (if slot_item s = i then (if slot_free s then Already_free else Returned (s\<lparr>slot_free := True\<rparr> # ss))
      else case put_back i ss of Returned ts \<Rightarrow> Returned (s # ts) | x \<Rightarrow> x)"

definition ring_release :: "item \<Rightarrow> recycle_ring \<Rightarrow> bool \<times> recycle_ring" where
  "ring_release i r =
     (if closed r then (False, r)
      else case put_back i (slots r) of
        Returned ss \<Rightarrow> (True, r\<lparr>slots := ss\<rparr>)
      | Already_free \<Rightarrow> (False, r\<lparr>doubleReleases := doubleReleases r + 1\<rparr>)
      | Stranger \<Rightarrow> (False, r\<lparr>strangers := strangers r + 1\<rparr>))"

definition ring_close :: "recycle_ring \<Rightarrow> item list \<times> nat \<times> recycle_ring" where
  "ring_close r =
     (map slot_item (slots r), length (filter (\<lambda>s. \<not> slot_free s) (slots r)),
      r\<lparr>closed := True, slots := []\<rparr>)"

definition freeCount :: "recycle_ring \<Rightarrow> nat" where
  "freeCount r = length (filter slot_free (slots r))"

definition items_out :: "recycle_ring \<Rightarrow> item set" where
  "items_out r = slot_item ` {s \<in> set (slots r). \<not> slot_free s}"

definition recycle_ok :: "recycle_ring \<Rightarrow> bool" where
  "recycle_ok r \<longleftrightarrow> distinct (map slot_item (slots r)) \<and> (closed r \<longrightarrow> slots r = [])"

definition out_of :: "slot list \<Rightarrow> item set" where
  "out_of ss = slot_item ` {s \<in> set ss. \<not> slot_free s}"

lemma out_of_simps [simp]:
  "out_of [] = {}"
  "out_of (s # ss) = (if slot_free s then out_of ss else insert (slot_item s) (out_of ss))"
  by (auto simp: out_of_def)

lemma out_of_items: "out_of ss \<subseteq> slot_item ` set ss"
  by (auto simp: out_of_def)

lemma take_free_spec:
  "take_free ss = Some (i, ts) \<Longrightarrow> distinct (map slot_item ss) \<Longrightarrow>
   map slot_item ts = map slot_item ss \<and> i \<notin> out_of ss \<and> out_of ts = insert i (out_of ss) \<and>
   length (filter slot_free ss) = Suc (length (filter slot_free ts))"
proof (induction ss arbitrary: ts)
  case Nil
  then show ?case by simp
next
  case (Cons s ss)
  show ?case
  proof (cases "slot_free s")
    case True
    with Cons.prems out_of_items [of ss] show ?thesis by auto
  next
    case False
    then obtain us where us: "take_free ss = Some (i, us)" "ts = s # us"
      using Cons.prems by auto
    have IH: "map slot_item us = map slot_item ss \<and> i \<notin> out_of ss \<and> out_of us = insert i (out_of ss) \<and>
      length (filter slot_free ss) = Suc (length (filter slot_free us))"
      using Cons us by simp
    have "i \<in> slot_item ` set ss"
      using IH out_of_items [of us] by (metis insertI1 list.set_map subsetD)
    with False Cons.prems us IH show ?thesis by auto
  qed
qed

lemma take_free_None: "take_free ss = None \<longleftrightarrow> filter slot_free ss = []"
  by (induction ss) auto

lemma put_back_spec:
  "distinct (map slot_item ss) \<Longrightarrow>
   (case put_back i ss of
      Returned ts \<Rightarrow> map slot_item ts = map slot_item ss \<and> i \<in> out_of ss \<and> out_of ts = out_of ss - {i}
    | Already_free \<Rightarrow> i \<in> slot_item ` set ss \<and> i \<notin> out_of ss
    | Stranger \<Rightarrow> i \<notin> slot_item ` set ss)"
proof (induction ss)
  case Nil
  then show ?case by simp
next
  case (Cons s ss)
  have d: "slot_item s \<notin> out_of ss" using Cons.prems out_of_items [of ss] by auto
  from Cons d show ?case by (auto split: returned.splits)
qed

lemma items_out_slots: "items_out r = out_of (slots r)"
  by (simp add: items_out_def out_of_def)

interpretation recycler: lender ring_acquire items_out recycle_ok ring_release
proof
  fix s t :: recycle_ring and i :: item and r b
  show "recycle_ok s \<Longrightarrow> recycle_ok (snd (ring_acquire s))"
    using take_free_spec [of "slots s"]
    by (auto simp: ring_acquire_def recycle_ok_def split: option.splits)
  show "recycle_ok s \<Longrightarrow> ring_acquire s = (Some i, t) \<Longrightarrow> i \<notin> items_out s \<and> i \<in> items_out t"
    using take_free_spec [of "slots s" i]
    by (auto simp: ring_acquire_def recycle_ok_def items_out_slots split: option.splits if_splits)
  show "recycle_ok s \<Longrightarrow> recycle_ok (snd (ring_release i s))"
    using put_back_spec [of "slots s" i]
    by (auto simp: ring_release_def recycle_ok_def split: returned.splits)
  show "recycle_ok s \<Longrightarrow> ring_acquire s = (r, t) \<Longrightarrow>
    items_out t = (case r of Some i \<Rightarrow> insert i (items_out s) | None \<Rightarrow> items_out s)"
    using take_free_spec [of "slots s"]
    by (auto simp: ring_acquire_def recycle_ok_def items_out_slots split: option.splits if_splits)
  show "recycle_ok s \<Longrightarrow> ring_release i s = (b, t) \<Longrightarrow>
    b = (i \<in> items_out s) \<and> items_out t = items_out s - (if b then {i} else {})"
    using put_back_spec [of "slots s" i] out_of_items [of "slots s"]
    by (auto simp: ring_release_def recycle_ok_def items_out_slots split: returned.splits if_splits)
qed

definition ring_of :: "item list \<Rightarrow> recycle_ring" where
  "ring_of is = foldl (\<lambda>r i. ring_add i r) new_recycle_ring is"

lemma ring_of_slots:
  "slots (ring_of is) = map (\<lambda>i. \<lparr>slot_item = i, slot_free = True\<rparr>) is \<and> \<not> closed (ring_of is)"
  unfolding ring_of_def
  by (induction "is" rule: rev_induct) (simp_all add: new_recycle_ring_def ring_add_def)

lemma ring_of_ok: "distinct is \<Longrightarrow> recycle_ok (ring_of is) \<and> items_out (ring_of is) = {}"
  by (auto simp: recycle_ok_def items_out_def ring_of_slots comp_def)

lemma out_count: "distinct (map slot_item ss) \<Longrightarrow>
   card (out_of ss) = length (filter (\<lambda>s. \<not> slot_free s) ss)"
proof (induction ss)
  case (Cons s ss)
  then have "slot_item s \<notin> out_of ss" using out_of_items [of ss] by auto
  moreover have "finite (out_of ss)" by (simp add: out_of_def)
  ultimately show ?case using Cons by simp
qed simp

section \<open>The screen ring\<close>

record screen_ring =
  ring_open :: bool
  newest :: int
  inUse :: int
  writing :: int
  consumed :: bool
  presented :: int
  dropped :: int

definition kSlots :: nat where
  "kSlots = 3"

definition screen_new :: screen_ring where
  "screen_new = \<lparr>ring_open = False, newest = - 1, inUse = - 1, writing = - 1, consumed = True,
     presented = 0, dropped = 0\<rparr>"

definition screen_claim :: "screen_ring \<Rightarrow> int \<times> screen_ring" where
  "screen_claim r =
     (if \<not> ring_open r then (- 1, r)
      else case find (\<lambda>i. i \<noteq> newest r \<and> i \<noteq> inUse r \<and> i \<noteq> writing r) (map int [0..<kSlots]) of
        Some i \<Rightarrow> (i, r\<lparr>writing := i\<rparr>)
      | None \<Rightarrow> (- 1, r))"

definition screen_publish :: "int \<Rightarrow> screen_ring \<Rightarrow> screen_ring" where
  "screen_publish i r = r\<lparr>dropped := (if \<not> consumed r then dropped r + 1 else dropped r),
     newest := i, writing := - 1, consumed := False\<rparr>"

definition screen_acquire :: "screen_ring \<Rightarrow> int \<times> screen_ring" where
  "screen_acquire r =
     (if \<not> ring_open r \<or> newest r < 0 then (- 1, r)
      else (newest r, r\<lparr>inUse := newest r, consumed := True\<rparr>))"

definition screen_release :: "bool \<Rightarrow> screen_ring \<Rightarrow> screen_ring" where
  "screen_release shown r = r\<lparr>inUse := - 1, presented := (if shown then presented r + 1 else presented r)\<rparr>"

definition screen_shutdown :: "screen_ring \<Rightarrow> screen_ring" where
  "screen_shutdown r = r\<lparr>ring_open := False, newest := - 1, inUse := - 1, writing := - 1, consumed := True\<rparr>"

definition screen_reset :: "screen_ring \<Rightarrow> screen_ring" where
  "screen_reset r = r\<lparr>ring_open := True, newest := - 1, inUse := - 1, writing := - 1, consumed := True,
     presented := 0, dropped := 0\<rparr>"

text \<open>
  The two threads: the clock thread claims a slot, fills it and publishes it; the refresh
  callback acquires a slot, draws it and releases it. A thread makes its next call only after the
  previous one, which is what the guards of the step say; the calls of the two interleave freely.
\<close>

record screen_world =
  sring :: screen_ring
  filling :: "int option"      \<comment> \<open>what the clock thread got from \<open>claim\<close> and has not published\<close>
  drawing :: "int option"      \<comment> \<open>what the refresh got from \<open>acquire\<close> and has not released\<close>
  claim_failed :: bool         \<comment> \<open>some claim found no slot\<close>

datatype screen_event = Claim | Publish | Refresh | Drawn bool

definition screen_step :: "screen_world \<Rightarrow> screen_event \<Rightarrow> screen_world" where
  "screen_step w e = (case e of
      Claim \<Rightarrow>
        (if filling w = None
         then (let (i, r) = screen_claim (sring w)
               in if i < 0 then w\<lparr>sring := r, claim_failed := True\<rparr>
                  else w\<lparr>sring := r, filling := Some i\<rparr>)
         else w)
    | Publish \<Rightarrow>
        (case filling w of
           Some i \<Rightarrow> w\<lparr>sring := screen_publish i (sring w), filling := None\<rparr>
         | None \<Rightarrow> w)
    | Refresh \<Rightarrow>
        (if drawing w = None
         then (let (i, r) = screen_acquire (sring w)
               in if i < 0 then w\<lparr>sring := r\<rparr> else w\<lparr>sring := r, drawing := Some i\<rparr>)
         else w)
    | Drawn shown \<Rightarrow>
        (case drawing w of
           Some i \<Rightarrow> w\<lparr>sring := screen_release shown (sring w), drawing := None\<rparr>
         | None \<Rightarrow> w))"

definition held :: "int option \<Rightarrow> int" where
  "held x = (case x of Some i \<Rightarrow> i | None \<Rightarrow> - 1)"

definition slot_or_none :: "int \<Rightarrow> bool" where
  "slot_or_none i \<longleftrightarrow> i = - 1 \<or> i = 0 \<or> i = 1 \<or> i = 2"

definition screen_ok :: "screen_world \<Rightarrow> bool" where
  "screen_ok w \<longleftrightarrow> ring_open (sring w) \<and> \<not> claim_failed w \<and>
     writing (sring w) = held (filling w) \<and> inUse (sring w) = held (drawing w) \<and>
     filling w \<noteq> Some (- 1) \<and> drawing w \<noteq> Some (- 1) \<and>
     slot_or_none (newest (sring w)) \<and> slot_or_none (writing (sring w)) \<and> slot_or_none (inUse (sring w)) \<and>
     (0 \<le> writing (sring w) \<longrightarrow> writing (sring w) \<noteq> newest (sring w) \<and> writing (sring w) \<noteq> inUse (sring w))"

lemma slot_or_none_simps [simp]: "slot_or_none (- 1)"
  by (simp add: slot_or_none_def)

lemma slot_nonneg: "slot_or_none i \<Longrightarrow> i \<noteq> - 1 \<Longrightarrow> 0 \<le> i"
  by (auto simp: slot_or_none_def)

text \<open>Three slots always leave one that is neither published nor being drawn.\<close>

lemma screen_claim_free:
  assumes "ring_open r" "writing r = - 1" "slot_or_none (newest r)" "slot_or_none (inUse r)"
  shows "\<exists>i. screen_claim r = (i, r\<lparr>writing := i\<rparr>) \<and> 0 \<le> i \<and> i \<le> 2 \<and> i \<noteq> newest r \<and> i \<noteq> inUse r"
proof -
  have k: "map int [0..<kSlots] = [0, 1, 2]" by (simp add: kSlots_def upt_rec)
  show ?thesis using assms by (auto simp: screen_claim_def k slot_or_none_def)
qed

lemma screen_ok_step: "screen_ok w \<Longrightarrow> screen_ok (screen_step w e)"
proof (cases e)
  case Claim
  assume w: "screen_ok w"
  show ?thesis
  proof (cases "filling w")
    case None
    with w obtain i where "screen_claim (sring w) = (i, (sring w)\<lparr>writing := i\<rparr>)" "0 \<le> i" "i \<le> 2"
      "i \<noteq> newest (sring w)" "i \<noteq> inUse (sring w)"
      using screen_claim_free [of "sring w"] by (auto simp: screen_ok_def held_def)
    moreover from \<open>0 \<le> i\<close> \<open>i \<le> 2\<close> have "slot_or_none i" by (auto simp: slot_or_none_def)
    ultimately show ?thesis using w Claim None
      by (cases "drawing w") (simp_all add: screen_step_def screen_ok_def held_def)
  next
    case (Some i)
    with w Claim show ?thesis by (simp add: screen_step_def)
  qed
next
  case Publish
  assume w: "screen_ok w"
  show ?thesis
    using w Publish
    by (cases "filling w"; cases "drawing w")
      (simp_all add: screen_step_def screen_ok_def held_def screen_publish_def)
next
  case Refresh
  assume w: "screen_ok w"
  show ?thesis
    using w Refresh
    by (cases "drawing w") (auto simp: screen_step_def screen_ok_def held_def screen_acquire_def)
next
  case (Drawn shown)
  assume w: "screen_ok w"
  show ?thesis
    using w Drawn
    by (cases "drawing w") (auto simp: screen_step_def screen_ok_def held_def screen_release_def)
qed

interpretation screen_machine: machine screen_step screen_ok
  by unfold_locales (rule screen_ok_step)

definition writer_take :: "screen_ring \<Rightarrow> int option \<times> screen_ring" where
  "writer_take r = (let (i, t) = screen_claim r in (if i < 0 then None else Some i, t))"

definition screen_busy :: "screen_ring \<Rightarrow> int set" where
  "screen_busy r = {newest r, inUse r, writing r}"

lemma find_SomeD: "find P xs = Some x \<Longrightarrow> P x"
  by (auto simp: find_Some_iff)

interpretation screen_writer: handout writer_take screen_busy "\<lambda>_. True"
proof
  fix s t :: screen_ring and i :: int
  show "writer_take s = (Some i, t) \<Longrightarrow> i \<notin> screen_busy s \<and> i \<in> screen_busy t"
  proof -
    assume "writer_take s = (Some i, t)"
    then obtain c where c: "screen_claim s = (c, t)" "i = c" "0 \<le> c"
      by (auto simp: writer_take_def split: prod.splits if_splits)
    then have "t = s\<lparr>writing := i\<rparr>" "i \<noteq> newest s \<and> i \<noteq> inUse s \<and> i \<noteq> writing s"
      by (auto simp: screen_claim_def split: option.splits if_splits dest: find_SomeD)
    then show ?thesis by (simp add: screen_busy_def)
  qed
qed simp

section \<open>Properties\<close>

text \<open>
  No frame of the recycling ring is handed to two holders. Starting from distinct items,
  after any sequence of acquires and releases (twice, of strangers, in any order) the items held
  are distinct and are exactly the slots marked in use.
\<close>

theorem recycle_exclusive:
  assumes "distinct is"
  shows "distinct (snd (foldl recycler.lend_step (ring_of is, []) es)) \<and>
    set (snd (foldl recycler.lend_step (ring_of is, []) es)) =
      items_out (fst (foldl recycler.lend_step (ring_of is, []) es))"
  using recycler.lend_inv [of "ring_of is" "[]" es] ring_of_ok [OF assms] by simp

theorem recycle_exclusive_witness:
  "distinct (snd (foldl recycler.lend_step (ring_of [7, 8], []) [None, None, None, Some 8, Some 8, None]))"
  using recycle_exclusive [of "[7, 8]" "[None, None, None, Some 8, Some 8, None]"] by simp

text \<open>
  Closing returns every item and reports exactly how many are still out; after that
  nothing is handed out and every release is refused without effect.
\<close>

theorem recycle_close:
  assumes "recycle_ok r" "ring_close r = (all_items, outstanding, r')"
  shows "all_items = map slot_item (slots r) \<and> outstanding = card (items_out r) \<and>
    ring_acquire r' = (None, r') \<and> ring_release i r' = (False, r')"
  using assms out_count [of "slots r"]
  by (auto simp: ring_close_def recycle_ok_def items_out_slots ring_acquire_def ring_release_def)

theorem recycle_close_witness:
  "fst (snd (ring_close (snd (ring_acquire (ring_of [7, 8]))))) = 1"
proof -
  let ?r = "snd (ring_acquire (ring_of [7, 8]))"
  have r: "slots ?r = [\<lparr>slot_item = 7, slot_free = False\<rparr>, \<lparr>slot_item = 8, slot_free = True\<rparr>]" "\<not> closed ?r"
    using ring_of_slots [of "[7, 8]"] by (simp_all add: ring_acquire_def)
  then have k: "recycle_ok ?r" "items_out ?r = {7}" by (auto simp: recycle_ok_def items_out_slots)
  obtain a n r' where c: "ring_close ?r = (a, n, r')" by (metis prod_cases3)
  then show ?thesis using recycle_close [OF k(1) c] k(2) by simp
qed

text \<open>
  C18: with three slots the writer always finds one, whatever the interleaving with the
  refresh, and the slot it fills is never the one being drawn nor the one waiting to be drawn.
\<close>

theorem screen_no_tearing:
  "\<not> claim_failed (foldl screen_step \<lparr>sring = screen_reset r, filling = None, drawing = None, claim_failed = False\<rparr> es) \<and>
   (case filling (foldl screen_step \<lparr>sring = screen_reset r, filling = None, drawing = None, claim_failed = False\<rparr> es) of
      None \<Rightarrow> True
    | Some i \<Rightarrow>
        drawing (foldl screen_step \<lparr>sring = screen_reset r, filling = None, drawing = None, claim_failed = False\<rparr> es) \<noteq> Some i \<and>
        newest (sring (foldl screen_step \<lparr>sring = screen_reset r, filling = None, drawing = None, claim_failed = False\<rparr> es)) \<noteq> i)"
proof -
  let ?w = "\<lparr>sring = screen_reset r, filling = None, drawing = None, claim_failed = False\<rparr>"
  have "screen_ok ?w" by (simp add: screen_ok_def screen_reset_def held_def slot_or_none_def)
  then have ok: "screen_ok (foldl screen_step ?w es)" by (rule screen_machine.run_inv)
  have "case filling w of None \<Rightarrow> True | Some i \<Rightarrow> drawing w \<noteq> Some i \<and> newest (sring w) \<noteq> i"
    if "screen_ok w" for w
  proof (cases "filling w")
    case (Some i)
    have f: "writing (sring w) = held (filling w)" "inUse (sring w) = held (drawing w)"
      "filling w \<noteq> Some (- 1)" "slot_or_none (writing (sring w))"
      and n: "0 \<le> writing (sring w) \<Longrightarrow> writing (sring w) \<noteq> newest (sring w)"
        "0 \<le> writing (sring w) \<Longrightarrow> writing (sring w) \<noteq> inUse (sring w)"
      using that unfolding screen_ok_def by blast+
    have wi: "writing (sring w) = i" using f(1) by (simp add: Some held_def)
    have "0 \<le> i" using f(3,4) slot_nonneg [of i] unfolding wi Some by simp
    with n wi have "newest (sring w) \<noteq> i" "inUse (sring w) \<noteq> i" by auto
    moreover from this(2) f(2) have "drawing w \<noteq> Some i" by (auto simp: held_def)
    ultimately show ?thesis by (simp add: Some)
  qed simp
  from this [OF ok] ok show ?thesis unfolding screen_ok_def by blast
qed

end
