(* ===== verification/Sample_Queue.thy ===== *)
theory Sample_Queue
  imports Prelude "HOL-Library.Sublist"
begin

text \<open>
  What the audio buffers share: circular buffers written by at most two block copies, the window
  of a circular buffer as a list, and the interface of a sample queue (what comes out is, in
  order, part of what went in), which the fifo and the lock-free ring both implement.
\<close>

section \<open>The interface\<close>

locale sample_queue =
  fixes content :: "'s \<Rightarrow> 'f list"
    and put :: "'p \<Rightarrow> 's \<Rightarrow> 's"
    and payload :: "'s \<Rightarrow> 'p \<Rightarrow> 'f list"
    and get :: "'n \<Rightarrow> 's \<Rightarrow> 'f list \<times> 's"
    and ok :: "'s \<Rightarrow> bool"
  assumes put_ok: "ok s \<Longrightarrow> ok (put x s)"
    and get_ok: "ok s \<Longrightarrow> ok (snd (get n s))"
    and put_content: "ok s \<Longrightarrow> \<exists>d t. content (put x s) = drop d (content s) @ t \<and> subseq t (payload s x)"
    and get_content: "ok s \<Longrightarrow> get n s = (out, s') \<Longrightarrow> \<exists>a. content s = a @ out @ content s'"
begin

text \<open>A run: a put is \<open>Inl\<close>, a get is \<open>Inr\<close>; the lists of what went in and what came out.\<close>

fun queue_run :: "'s \<Rightarrow> ('p + 'n) list \<Rightarrow> 'f list \<Rightarrow> 'f list \<Rightarrow> 's \<times> 'f list \<times> 'f list" where
  "queue_run s [] ins outs = (s, ins, outs)"
| "queue_run s (Inl x # es) ins outs = queue_run (put x s) es (ins @ payload s x) outs"
| "queue_run s (Inr n # es) ins outs =
     (let (out, s') = get n s in queue_run s' es ins (outs @ out))"

lemma subseq_step: "subseq (outs @ c) ins \<Longrightarrow> subseq t x \<Longrightarrow> subseq (outs @ drop d c @ t) (ins @ x)"
proof -
  assume "subseq (outs @ c) ins" "subseq t x"
  moreover have "subseq (outs @ drop d c) (outs @ c)"
    by (intro list_emb_append_mono) (auto intro: suffix_imp_subseq suffix_drop)
  ultimately have "subseq ((outs @ drop d c) @ t) (ins @ x)"
    by (meson list_emb_append_mono subseq_order.trans)
  then show ?thesis by simp
qed

lemma queue_run_subseq:
  assumes "ok s" "subseq (outs @ content s) ins" "queue_run s es ins outs = (s', ins', outs')"
  shows "subseq (outs' @ content s') ins' \<and> ok s'"
  using assms
proof (induction es arbitrary: s ins outs)
  case Nil
  then show ?case by simp
next
  case (Cons e es)
  show ?case
  proof (cases e)
    case (Inl x)
    obtain d t where t: "content (put x s) = drop d (content s) @ t" "subseq t (payload s x)"
      using put_content [OF Cons.prems(1)] by blast
    show ?thesis
      using Cons.IH [of "put x s" outs "ins @ payload s x"] Cons.prems Inl put_ok [OF Cons.prems(1)]
        subseq_step [OF Cons.prems(2) t(2), of d] by (simp add: t(1))
  next
    case (Inr n)
    obtain out s1 where g: "get n s = (out, s1)" by fastforce
    obtain a where a: "content s = a @ out @ content s1" using get_content [OF Cons.prems(1) g] by blast
    have "subseq ((outs @ out) @ content s1) (outs @ a @ out @ content s1)"
      by (simp add: list_emb_append_mono list_emb_append2)
    then have "subseq ((outs @ out) @ content s1) ins"
      using Cons.prems(2) a subseq_order.trans by fastforce
    then show ?thesis
      using Cons.IH [of s1 "outs @ out" ins] Cons.prems Inr g get_ok [OF Cons.prems(1), of n] by simp
  qed
qed

lemma queue_no_invention:
  "ok s \<Longrightarrow> content s = [] \<Longrightarrow> queue_run s es [] [] = (s', ins, outs) \<Longrightarrow> subseq outs ins"
  using queue_run_subseq [of s "[]" "[]" es s' ins outs]
  by (metis append_Nil list_emb_append2 subseq_order.trans subseq_order.refl subseq_append_le_same_iff
      list_emb_Nil prefix_imp_subseq prefixI)

end

section \<open>Circular buffers\<close>

definition window :: "nat \<Rightarrow> nat \<Rightarrow> nat \<Rightarrow> 'a list \<Rightarrow> 'a list" where
  "window cap r n xs = map (\<lambda>k. xs ! ((r + k) mod cap)) [0..<n]"

lemma length_window [simp]: "length (window cap r n xs) = n"
  by (simp add: window_def)

lemma nth_window [simp]: "k < n \<Longrightarrow> window cap r n xs ! k = xs ! ((r + k) mod cap)"
  by (simp add: window_def)

lemma window_drop: "d \<le> n \<Longrightarrow> drop d (window cap r n xs) = window cap ((r + d) mod cap) (n - d) xs"
  by (rule nth_equalityI) (simp_all add: mod_add_left_eq add.assoc)

lemma window_take: "window cap r (min m n) xs = take m (window cap r n xs)"
  by (rule nth_equalityI) simp_all

text \<open>The copy in two parts: up to the end of the buffer, then from its start.\<close>

definition two_part :: "nat \<Rightarrow> nat \<Rightarrow> 'a list \<Rightarrow> 'a list \<Rightarrow> 'a list" where
  "two_part cap pos src xs =
     (let first = min (length src) (cap - pos); ys = blit_at pos (take first src) xs
      in if first < length src then blit_at 0 (drop first src) ys else ys)"

lemma two_part_length:
  "pos < cap \<Longrightarrow> length xs = cap \<Longrightarrow> length src \<le> cap \<Longrightarrow> length (two_part cap pos src xs) = cap"
  by (simp add: two_part_def Let_def min_def)

lemma two_part_nth:
  assumes "pos < cap" "length xs = cap" "length src \<le> cap" "j < cap"
  shows "two_part cap pos src xs ! j =
    (if (j + cap - pos) mod cap < length src then src ! ((j + cap - pos) mod cap) else xs ! j)"
proof (cases "pos \<le> j")
  case True
  then have e: "j + cap - pos = (j - pos) + cap" using assms by simp
  have "j - pos < cap" using assms by simp
  then have m: "(j + cap - pos) mod cap = j - pos" by (simp only: e mod_add_self2 mod_less)
  have z: "blit_at 0 zs ys ! j = ys ! j" if "length zs \<le> pos" "length ys = cap" for zs ys :: "'a list"
    using that assms True by (simp add: nth_blit_at)
  show ?thesis
    using assms True by (auto simp: two_part_def Let_def m z nth_blit_at min_def)
next
  case False
  then have m: "(j + cap - pos) mod cap = j + cap - pos" using assms by simp
  have e: "cap - pos + j = j + cap - pos" using assms by simp
  show ?thesis
    using assms False by (auto simp: two_part_def Let_def m nth_blit_at min_def e)
qed

lemma cursor_mod:
  assumes "0 < (c::nat)" "f \<le> c"
  shows "((r + k) mod c + c - (r + f) mod c) mod c = (k + c - f) mod c"
proof -
  have le: "(r + f) mod c \<le> (r + k) mod c + c" using assms mod_less_divisor [of c "r + f"] by linarith
  have "int (((r + k) mod c + c - (r + f) mod c) mod c) = (int ((r + k) mod c) + int c - int ((r + f) mod c)) mod int c"
    using le by (simp add: zmod_int of_nat_diff)
  also have "\<dots> = ((int r + int k) mod int c + int c - (int r + int f) mod int c) mod int c"
    by (simp add: zmod_int)
  also have "\<dots> = ((int r + int k) + int c - (int r + int f)) mod int c"
    by (metis (no_types, opaque_lifting) mod_add_left_eq mod_diff_cong mod_mod_trivial)
  also have "(int r + int k) + int c - (int r + int f) = int (k + c - f)"
    using assms by (simp add: of_nat_diff)
  finally show ?thesis by (simp only: zmod_int [symmetric] of_nat_eq_iff)
qed

lemma window_append:
  assumes "0 < cap" "length xs = cap" "r < cap" "f + length src \<le> cap"
  shows "window cap r (f + length src) (two_part cap ((r + f) mod cap) src xs) = window cap r f xs @ src"
proof (rule nth_equalityI)
  fix k
  assume "k < length (window cap r (f + length src) (two_part cap ((r + f) mod cap) src xs))"
  then have k: "k < f + length src" by simp
  let ?j = "(r + k) mod cap" and ?p = "(r + f) mod cap"
  have j: "?j < cap" "?p < cap" using assms by simp_all
  have "two_part cap ?p src xs ! ?j =
    (if (k + cap - f) mod cap < length src then src ! ((k + cap - f) mod cap) else xs ! ?j)"
    using two_part_nth [OF j(2) assms(2), of src ?j] assms j cursor_mod [of cap f r k] by simp
  moreover have "(k + cap - f) mod cap = (if f \<le> k then k - f else k + cap - f)"
  proof (cases "f \<le> k")
    case True
    then have e: "k + cap - f = (k - f) + cap" using assms by simp
    have "k - f < cap" using assms k by simp
    then have "(k + cap - f) mod cap = k - f" by (simp only: e mod_add_self2 mod_less)
    with True show ?thesis by simp
  next
    case False
    then show ?thesis using assms by simp
  qed
  ultimately show "window cap r (f + length src) (two_part cap ?p src xs) ! k = (window cap r f xs @ src) ! k"
    using k assms by (auto simp: nth_append)
qed simp

section \<open>Planes and frames\<close>

text \<open>Sample-frames of a list of equally long planes.\<close>

definition frames_of :: "nat \<Rightarrow> 'a list list \<Rightarrow> 'a list list" where
  "frames_of n planes = map (\<lambda>k. map (\<lambda>p. p ! k) planes) [0..<n]"

lemma length_frames_of [simp]: "length (frames_of n ps) = n"
  by (simp add: frames_of_def)

lemma frames_of_append:
  assumes "length ps = length qs" "\<forall>p \<in> set ps. length p = m"
  shows "frames_of (m + n) (map2 (@) ps qs) = frames_of m ps @ frames_of n qs"
proof (rule nth_equalityI)
  fix k
  assume "k < length (frames_of (m + n) (map2 (@) ps qs))"
  then have "k < m + n" by simp
  then show "frames_of (m + n) (map2 (@) ps qs) ! k = (frames_of m ps @ frames_of n qs) ! k"
    using assms by (auto simp: frames_of_def nth_append intro!: nth_equalityI)
qed simp

lemma frames_of_drop: "d \<le> n \<Longrightarrow> drop d (frames_of n ps) = frames_of (n - d) (map (drop d) ps)"
  if "\<forall>p \<in> set ps. length p = n"
  using that by (auto simp: frames_of_def intro!: nth_equalityI)

lemma frames_of_take: "take m (frames_of n ps) = frames_of (min m n) ps"
  by (auto simp: frames_of_def intro!: nth_equalityI)

end
