(* ===== verification/Audio_Fifo.thy ===== *)
theory Audio_Fifo
  imports Sample_Queue
begin

text \<open>
  \<open>core/audio_fifo\<close>: the buffer between the browser's audio thread and the engine clock. It
  drops the oldest audio on overflow and pads with silence on underflow. Samples are of any type
  with a zero; a \<open>const float* const*\<close> argument is the function from channel and frame to the
  sample. Every method holds the mutex, so a run is a sequence of whole calls.
\<close>

record 'a audio_fifo =
  channels :: nat
  fifo_sampleRate :: int
  capacity :: nat
  writePos :: nat
  readPos :: nat
  filled :: nat
  planes :: "'a list list"
  framesWritten :: int
  framesRead :: int
  underruns :: int
  overruns :: int

definition new_fifo :: "'a audio_fifo" where
  "new_fifo = \<lparr>channels = 0, fifo_sampleRate = 0, capacity = 0, writePos = 0, readPos = 0, filled = 0,
     planes = [], framesWritten = 0, framesRead = 0, underruns = 0, overruns = 0\<rparr>"

definition fifo_configure :: "int \<Rightarrow> int \<Rightarrow> int \<Rightarrow> 'a::zero audio_fifo \<Rightarrow> 'a audio_fifo" where
  "fifo_configure ch rt cap s =
     (let c = nat (max 0 ch); n = nat (max 1 cap)
      in \<lparr>channels = c, fifo_sampleRate = max 0 rt, capacity = n, writePos = 0, readPos = 0, filled = 0,
          planes = replicate c (replicate n 0), framesWritten = 0, framesRead = 0, underruns = 0,
          overruns = 0\<rparr>)"

definition fifo_reset :: "'a::zero audio_fifo \<Rightarrow> 'a audio_fifo" where
  "fifo_reset s = s\<lparr>writePos := 0, readPos := 0, filled := 0,
     planes := map (\<lambda>p. replicate (length p) 0) (planes s)\<rparr>"

text \<open>The two copy loops, a chunk up to the end of the buffer at a time.\<close>

function copy_in :: "nat \<Rightarrow> nat \<Rightarrow> 'a list \<Rightarrow> 'a list \<Rightarrow> 'a list" where
  "copy_in cap pos src plane =
     (if src = [] \<or> cap \<le> pos then plane
      else let chunk = min (length src) (cap - pos)
           in copy_in cap ((pos + chunk) mod cap) (drop chunk src) (blit_at pos (take chunk src) plane))"
  by pat_completeness auto
termination by (relation "measure (\<lambda>(cap, pos, src, plane). length src)") (auto simp: min_def)

function copy_out :: "nat \<Rightarrow> nat \<Rightarrow> nat \<Rightarrow> 'a list \<Rightarrow> 'a list" where
  "copy_out cap pos n plane =
     (if n = 0 \<or> cap \<le> pos then []
      else let chunk = min n (cap - pos)
           in take chunk (drop pos plane) @ copy_out cap ((pos + chunk) mod cap) (n - chunk) plane)"
  by pat_completeness auto
termination by (relation "measure (\<lambda>(cap, pos, n, plane). n)") (auto simp: min_def)

declare copy_in.simps [simp del] copy_out.simps [simp del]

type_synonym 'a planar = "nat \<Rightarrow> nat \<Rightarrow> 'a"

definition fifo_write :: "'a planar \<Rightarrow> int \<Rightarrow> 'a audio_fifo \<Rightarrow> 'a audio_fifo" where
  "fifo_write src frames0 s =
     (if frames0 \<le> 0 \<or> channels s = 0 \<or> capacity s = 0 then s
      else let cap = capacity s;
               big = cap < nat frames0;
               offset = (if big then nat frames0 - cap else 0);
               frames = (if big then cap else nat frames0);
               room = cap - filled s;
               overran = (big \<or> room < frames);
               ps = map (\<lambda>c. copy_in cap (writePos s) (map (src c) [offset..<offset + frames]) (planes s ! c))
                     [0..<channels s];
               s1 = s\<lparr>planes := ps, writePos := (writePos s + frames) mod cap,
                      framesWritten := framesWritten s + int frames\<rparr>;
               s2 = (if room < frames
                     then s1\<lparr>readPos := (readPos s + (frames - room)) mod cap, filled := cap\<rparr>
                     else s1\<lparr>filled := filled s + frames\<rparr>)
           in if overran then s2\<lparr>overruns := overruns s + 1\<rparr> else s2)"

text \<open>What both reads do after copying.\<close>

definition fifo_consume :: "nat \<Rightarrow> nat \<Rightarrow> 'a audio_fifo \<Rightarrow> 'a audio_fifo" where
  "fifo_consume have frames s =
     s\<lparr>readPos := (readPos s + have) mod capacity s, filled := filled s - have,
       framesRead := framesRead s + int have,
       underruns := (if have < frames then underruns s + 1 else underruns s)\<rparr>"

text \<open>
  The reads: the number of real frames, what is written to the destination (\<open>None\<close>: nothing
  is touched; \<open>dst\<close> says whether the pointer is non-null), and the state.
\<close>

definition fifo_readInterleaved :: "bool \<Rightarrow> int \<Rightarrow> 'a::zero audio_fifo \<Rightarrow> nat \<times> 'a list option \<times> 'a audio_fifo" where
  "fifo_readInterleaved dst frames0 s =
     (if frames0 \<le> 0 \<or> \<not> dst \<or> channels s = 0 then (0, None, s)
      else let frames = nat frames0;
               have = min frames (filled s);
               out = concat (map (\<lambda>f. map (\<lambda>c.
                       if f < have then planes s ! c ! ((readPos s + f) mod capacity s) else 0)
                       [0..<channels s]) [0..<frames])
           in (have, Some out, fifo_consume have frames s))"

definition fifo_readPlanar :: "bool \<Rightarrow> int \<Rightarrow> 'a::zero audio_fifo \<Rightarrow> nat \<times> 'a list list option \<times> 'a audio_fifo" where
  "fifo_readPlanar dst frames0 s =
     (if frames0 \<le> 0 \<or> \<not> dst \<or> channels s = 0 then (0, None, s)
      else let frames = nat frames0;
               have = min frames (filled s);
               out = map (\<lambda>c. copy_out (capacity s) (readPos s) have (planes s ! c) @
                              replicate (frames - have) 0) [0..<channels s]
           in (have, Some out, fifo_consume have frames s))"

section \<open>The copy loops\<close>

lemma copy_in_fit:
  assumes "pos + length src \<le> cap" "length plane = cap"
  shows "copy_in cap pos src plane = blit_at pos src plane"
proof (cases "src = [] \<or> cap \<le> pos")
  case True
  with assms have "src = []" by (cases src) auto
  then show ?thesis by (subst copy_in.simps) (simp add: blit_at_def)
next
  case False
  then have "min (length src) (cap - pos) = length src" using assms by simp
  with False show ?thesis
    by (subst copy_in.simps) (simp add: copy_in.simps [of cap _ "[]"])
qed

lemma copy_in_two_part:
  assumes "pos < cap" "length src \<le> cap" "length plane = cap"
  shows "copy_in cap pos src plane = two_part cap pos src plane"
proof (cases "pos + length src \<le> cap")
  case True
  with assms show ?thesis by (simp add: copy_in_fit two_part_def Let_def min_def)
next
  case False
  then have m: "min (length src) (cap - pos) = cap - pos" "src \<noteq> []" using assms by auto
  have "copy_in cap pos src plane =
      copy_in cap 0 (drop (cap - pos) src) (blit_at pos (take (cap - pos) src) plane)"
    using assms m by (subst copy_in.simps) (simp add: Let_def)
  also have "\<dots> = blit_at 0 (drop (cap - pos) src) (blit_at pos (take (cap - pos) src) plane)"
    using assms False by (intro copy_in_fit) simp_all
  finally have "copy_in cap pos src plane =
      blit_at 0 (drop (cap - pos) src) (blit_at pos (take (cap - pos) src) plane)" .
  moreover have "cap - pos < length src" using False assms(1) by linarith
  ultimately show ?thesis by (simp add: two_part_def Let_def m)
qed

lemma copy_out_window:
  "pos < cap \<Longrightarrow> length plane = cap \<Longrightarrow> copy_out cap pos n plane = window cap pos n plane"
proof (induction cap pos n plane rule: copy_out.induct)
  case (1 cap pos n plane)
  show ?case
  proof (cases "n = 0")
    case True
    then show ?thesis by (subst copy_out.simps) (simp add: window_def)
  next
    case False
    let ?k = "min n (cap - pos)"
    have c: "0 < cap" using "1.prems" by simp
    have IH: "copy_out cap ((pos + ?k) mod cap) (n - ?k) plane = window cap ((pos + ?k) mod cap) (n - ?k) plane"
      using "1.IH" [OF _ refl] False "1.prems" c by simp
    have t: "take ?k (drop pos plane) = take ?k (window cap pos n plane)"
      using "1.prems" by (intro nth_equalityI) (simp_all add: less_diff_conv add.commute)
    have "copy_out cap pos n plane = take ?k (drop pos plane) @ copy_out cap ((pos + ?k) mod cap) (n - ?k) plane"
      using False "1.prems" by (subst copy_out.simps) (simp add: Let_def)
    also have "\<dots> = take ?k (window cap pos n plane) @ drop ?k (window cap pos n plane)"
      unfolding IH t by (subst window_drop) simp_all
    finally show ?thesis by simp
  qed
qed

section \<open>The fifo as a queue of frames\<close>

definition content :: "'a audio_fifo \<Rightarrow> 'a list list" where
  "content s = frames_of (filled s) (map (window (capacity s) (readPos s) (filled s)) (planes s))"

definition fifo_good :: "'a audio_fifo \<Rightarrow> bool" where
  "fifo_good s \<longleftrightarrow> length (planes s) = channels s \<and> (\<forall>p \<in> set (planes s). length p = capacity s) \<and>
     filled s \<le> capacity s \<and> readPos s < capacity s \<and> writePos s = (readPos s + filled s) mod capacity s"

definition fifo_ok :: "'a audio_fifo \<Rightarrow> bool" where
  "fifo_ok s \<longleftrightarrow> (channels s = 0 \<and> planes s = [] \<and> filled s = 0) \<or> fifo_good s"

definition packet :: "'a audio_fifo \<Rightarrow> 'a planar \<times> int \<Rightarrow> 'a list list" where
  "packet s = (\<lambda>(src, frames). if channels s = 0 then [] else
     map (\<lambda>f. map (\<lambda>c. src c f) [0..<channels s]) [0..<nat frames])"

lemma fifo_ok_configure: "fifo_ok (fifo_configure ch rt cap s) \<and> content (fifo_configure ch rt cap s) = []"
  by (auto simp: fifo_ok_def fifo_good_def fifo_configure_def Let_def content_def frames_of_def)

lemma length_content [simp]: "length (content s) = filled s"
  by (simp add: content_def)

lemma packet_planes:
  "drop off (packet s (src, int (off + n))) =
   (if channels s = 0 then [] else frames_of n (map (\<lambda>c. map (src c) [off..<off + n]) [0..<channels s]))"
  by (auto simp: packet_def frames_of_def intro!: nth_equalityI)

text \<open>A write of at most the capacity, with the read cursor already past what is lost.\<close>

lemma write_planes:
  assumes "fifo_good s" "f \<le> filled s" "f + n \<le> capacity s"
    and "r = (readPos s + (filled s - f)) mod capacity s" "\<And>c. length (g c) = n"
  shows "map (window (capacity s) r (f + n))
      (map (\<lambda>c. copy_in (capacity s) (writePos s) (g c) (planes s ! c)) [0..<channels s]) =
    map2 (@) (map (window (capacity s) r f) (planes s)) (map g [0..<channels s])"
proof -
  have good: "length (planes s) = channels s" "0 < capacity s" "writePos s < capacity s"
    "\<And>c. c < channels s \<Longrightarrow> length (planes s ! c) = capacity s"
    using assms(1) by (auto simp: fifo_good_def)
  have w: "writePos s = (r + f) mod capacity s"
    using assms by (simp add: fifo_good_def mod_add_left_eq)
  have r: "r < capacity s" using assms(4) good(2) by simp
  show ?thesis
  proof (rule nth_equalityI)
    fix c
    assume "c < length (map (window (capacity s) r (f + n))
      (map (\<lambda>c. copy_in (capacity s) (writePos s) (g c) (planes s ! c)) [0..<channels s]))"
    then have c: "c < channels s" by simp
    have "copy_in (capacity s) (writePos s) (g c) (planes s ! c) =
      two_part (capacity s) ((r + f) mod capacity s) (g c) (planes s ! c)"
      using copy_in_two_part [of "writePos s" "capacity s" "g c" "planes s ! c"] good c assms(3,5) w by simp
    moreover have "window (capacity s) r (f + n) (two_part (capacity s) ((r + f) mod capacity s) (g c) (planes s ! c)) =
      window (capacity s) r f (planes s ! c) @ g c"
      using window_append [of "capacity s" "planes s ! c" r f "g c"] good r c assms(3,5) by simp
    ultimately show "map (window (capacity s) r (f + n))
      (map (\<lambda>c. copy_in (capacity s) (writePos s) (g c) (planes s ! c)) [0..<channels s]) ! c =
      map2 (@) (map (window (capacity s) r f) (planes s)) (map g [0..<channels s]) ! c"
      using c good by simp
  qed (simp add: good)
qed

lemma fifo_write_content:
  assumes "fifo_ok s"
  shows "content (fifo_write src frames0 s) =
      drop (filled s + length (packet s (src, frames0)) - capacity s) (content s @ packet s (src, frames0)) \<and>
    fifo_ok (fifo_write src frames0 s)"
proof (cases "frames0 \<le> 0 \<or> channels s = 0 \<or> capacity s = 0")
  case True
  then have "fifo_write src frames0 s = s" "packet s (src, frames0) = []"
    using assms by (auto simp: fifo_write_def packet_def fifo_ok_def fifo_good_def)
  moreover have "filled s - capacity s = 0" using assms by (auto simp: fifo_ok_def fifo_good_def)
  ultimately show ?thesis using assms by simp
next
  case False
  let ?cap = "capacity s" and ?m = "nat frames0"
  have good: "fifo_good s" using assms False by (auto simp: fifo_ok_def)
  define n where "n = min ?m ?cap"
  define off where "off = ?m - n"
  define f where "f = min (filled s) (?cap - n)"
  define r where "r = (readPos s + (filled s - f)) mod ?cap"
  define ps where "ps = map (\<lambda>c. copy_in ?cap (writePos s) (map (src c) [off..<off + n]) (planes s ! c)) [0..<channels s]"
  have fl: "filled s \<le> ?cap" "readPos s < ?cap" using good by (simp_all add: fifo_good_def)
  have fn: "f \<le> filled s" "f + n \<le> ?cap" by (simp_all add: f_def n_def)
  let ?t = "fifo_write src frames0 s"
  have t: "planes ?t = ps" "channels ?t = channels s" "capacity ?t = ?cap" "filled ?t = f + n"
    "readPos ?t = r" "writePos ?t = (writePos s + n) mod ?cap"
  proof -
    have nn: "(if ?cap < ?m then ?cap else ?m) = n" "(if ?cap < ?m then ?m - ?cap else 0) = off"
      by (simp_all add: n_def off_def)
    have lost: "n - (?cap - filled s) = filled s - f" and nf: "?cap - filled s < n \<Longrightarrow> f + n = ?cap"
      and nl: "\<not> ?cap - filled s < n \<Longrightarrow> f = filled s"
      using fl by (auto simp: n_def f_def min_def)
    show "planes ?t = ps" "channels ?t = channels s" "capacity ?t = ?cap" "filled ?t = f + n"
      "readPos ?t = r" "writePos ?t = (writePos s + n) mod ?cap"
      using False fl nf nl unfolding fifo_write_def Let_def nn lost
      by (simp_all add: ps_def r_def)
  qed
  have pk: "packet s (src, frames0) = packet s (src, int (off + n))"
    using False by (simp add: off_def n_def)
  have lp: "length (packet s (src, frames0)) = ?m" using False by (simp add: packet_def)
  have "content ?t = frames_of (f + n) (map (window ?cap r (f + n)) ps)"
    by (simp add: content_def t)
  also have "map (window ?cap r (f + n)) ps =
      map2 (@) (map (window ?cap r f) (planes s)) (map (\<lambda>c. map (src c) [off..<off + n]) [0..<channels s])"
    unfolding ps_def by (rule write_planes [OF good fn r_def]) simp
  also have "frames_of (f + n) \<dots> = frames_of f (map (window ?cap r f) (planes s)) @
      frames_of n (map (\<lambda>c. map (src c) [off..<off + n]) [0..<channels s])"
    using good by (intro frames_of_append) (auto simp: fifo_good_def)
  also have "frames_of f (map (window ?cap r f) (planes s)) = drop (filled s - f) (content s)"
  proof -
    have "window ?cap r f = (\<lambda>p :: 'a list. drop (filled s - f) (window ?cap (readPos s) (filled s) p))"
      using fn by (intro ext) (simp add: window_drop r_def)
    then show ?thesis using fn by (simp add: content_def frames_of_drop comp_def)
  qed
  also have "frames_of n (map (\<lambda>c. map (src c) [off..<off + n]) [0..<channels s]) = drop off (packet s (src, frames0))"
    unfolding pk packet_planes using False by simp
  also have "drop (filled s - f) (content s) @ drop off (packet s (src, frames0)) =
      drop (filled s + ?m - ?cap) (content s @ packet s (src, frames0))"
  proof (cases "?m \<le> ?cap")
    case True
    then have "off = 0" "filled s - f = filled s + ?m - ?cap" "filled s + ?m - ?cap \<le> filled s"
      using fl by (auto simp: off_def n_def f_def min_def)
    then show ?thesis by simp
  next
    case False
    then have "filled s - f = filled s" "filled s + ?m - ?cap = filled s + off"
      by (auto simp: off_def n_def f_def min_def)
    then show ?thesis by simp
  qed
  finally have c: "content ?t = drop (filled s + length (packet s (src, frames0)) - ?cap)
      (content s @ packet s (src, frames0))" by (simp add: lp)
  have "fifo_good ?t"
  proof -
    have w: "writePos s < ?cap" "\<And>c. c < channels s \<Longrightarrow> length (planes s ! c) = ?cap"
      using good by (auto simp: fifo_good_def)
    have "length p = ?cap" if "p \<in> set ps" for p
    proof -
      from that obtain c where c: "c < channels s"
        "p = copy_in ?cap (writePos s) (map (src c) [off..<off + n]) (planes s ! c)"
        by (auto simp: ps_def)
      then have "p = two_part ?cap (writePos s) (map (src c) [off..<off + n]) (planes s ! c)"
        using w copy_in_two_part [of "writePos s" ?cap "map (src c) [off..<off + n]" "planes s ! c"] fn by simp
      then show ?thesis using two_part_length [of "writePos s" ?cap "planes s ! c" "map (src c) [off..<off + n]"] w c fn by simp
    qed
    moreover have "(writePos s + n) mod ?cap = (r + (f + n)) mod ?cap"
    proof -
      have "(r + f) mod ?cap = writePos s mod ?cap"
        using good fn(1) by (simp add: r_def fifo_good_def mod_add_left_eq)
      then have "(writePos s + n) mod ?cap = (r + f + n) mod ?cap" by (metis mod_add_cong)
      then show ?thesis by (simp add: add.assoc)
    qed
    moreover have "r < ?cap" using fl by (simp add: r_def)
    moreover have "length ps = channels s" by (simp add: ps_def)
    ultimately show ?thesis using fn unfolding fifo_good_def t by auto
  qed
  with c show ?thesis by (simp add: fifo_ok_def)
qed

lemma fifo_consume_content:
  assumes "fifo_good s" "have_n \<le> filled s"
  shows "content (fifo_consume have_n n s) = drop have_n (content s) \<and> fifo_good (fifo_consume have_n n s)"
proof
  have "window (capacity s) ((readPos s + have_n) mod capacity s) (filled s - have_n) =
      (\<lambda>p :: 'a list. drop have_n (window (capacity s) (readPos s) (filled s) p))"
    using assms by (intro ext) (simp add: window_drop)
  then show "content (fifo_consume have_n n s) = drop have_n (content s)"
    using assms(2) by (simp add: content_def fifo_consume_def frames_of_drop comp_def)
  have "((readPos s + have_n) mod capacity s + (filled s - have_n)) mod capacity s =
      (readPos s + have_n + (filled s - have_n)) mod capacity s"
    by (rule mod_add_left_eq)
  also have "readPos s + have_n + (filled s - have_n) = readPos s + filled s" using assms(2) by simp
  finally have m: "((readPos s + have_n) mod capacity s + (filled s - have_n)) mod capacity s =
      (readPos s + filled s) mod capacity s" .
  have c: "0 < capacity s" using assms(1) by (auto simp: fifo_good_def)
  have le: "filled s - have_n \<le> capacity s" using assms(1) by (auto simp: fifo_good_def)
  show "fifo_good (fifo_consume have_n n s)"
    using assms(1) c le m unfolding fifo_good_def fifo_consume_def audio_fifo.simps
    by (auto simp del: add_diff_assoc)
qed

text \<open>Both reads deliver the same frames.\<close>

lemma fifo_read_frames:
  assumes "fifo_ok s" "0 < frames" "channels s \<noteq> 0"
  defines "h \<equiv> min (nat frames) (filled s)"
  defines "padded \<equiv> take h (content s) @ replicate (nat frames - h) (replicate (channels s) 0)"
  shows "fifo_readInterleaved True frames s = (h, Some (concat padded), fifo_consume h (nat frames) s)"
    and "\<exists>out. fifo_readPlanar True frames s = (h, Some out, fifo_consume h (nat frames) s) \<and>
      length out = channels s \<and> (\<forall>p \<in> set out. length p = nat frames) \<and> frames_of (nat frames) out = padded"
proof -
  have good: "fifo_good s" using assms by (auto simp: fifo_ok_def)
  then have pl: "length (planes s) = channels s" "readPos s < capacity s"
    "\<And>c. c < channels s \<Longrightarrow> length (planes s ! c) = capacity s" by (auto simp: fifo_good_def)
  have hf: "h \<le> filled s" "h \<le> nat frames" by (simp_all add: h_def)
  have cn: "content s ! f = map (\<lambda>c. planes s ! c ! ((readPos s + f) mod capacity s)) [0..<channels s]" if "f < filled s" for f
    using that pl by (auto simp: content_def frames_of_def intro!: nth_equalityI)
  have e: "map (\<lambda>f. map (\<lambda>c. if f < h then planes s ! c ! ((readPos s + f) mod capacity s) else 0)
      [0..<channels s]) [0..<nat frames] = padded"
    using hf cn by (auto simp: padded_def nth_append intro!: nth_equalityI)
  show "fifo_readInterleaved True frames s = (h, Some (concat padded), fifo_consume h (nat frames) s)"
    unfolding fifo_readInterleaved_def Let_def h_def [symmetric] e using assms(2,3) by simp
  let ?out = "map (\<lambda>c. copy_out (capacity s) (readPos s) h (planes s ! c) @ replicate (nat frames - h) 0) [0..<channels s]"
  have cw: "copy_out (capacity s) (readPos s) h (planes s ! c) = window (capacity s) (readPos s) h (planes s ! c)"
    if "c < channels s" for c
    using pl that by (intro copy_out_window) simp_all
  have len: "\<forall>p \<in> set ?out. length p = nat frames" using cw hf by auto
  have "frames_of (nat frames) ?out = padded"
    unfolding e [symmetric] frames_of_def using cw hf
    by (auto simp: nth_append intro!: nth_equalityI)
  with len show "\<exists>out. fifo_readPlanar True frames s = (h, Some out, fifo_consume h (nat frames) s) \<and>
      length out = channels s \<and> (\<forall>p \<in> set out. length p = nat frames) \<and> frames_of (nat frames) out = padded"
    unfolding fifo_readPlanar_def Let_def h_def [symmetric] using assms(2,3) by simp
qed

text \<open>The real frames of a read, and the fifo as an instance of the queue interface.\<close>

definition fifo_get :: "int \<Rightarrow> 'a::zero audio_fifo \<Rightarrow> 'a list list \<times> 'a audio_fifo" where
  "fifo_get frames s =
     (let (h, _, s') = fifo_readInterleaved True frames s in (take h (content s), s'))"

lemma fifo_get_spec:
  assumes "fifo_ok s"
  shows "fifo_ok (snd (fifo_get frames s)) \<and> content s = fst (fifo_get frames s) @ content (snd (fifo_get frames s))"
proof (cases "0 < frames \<and> channels s \<noteq> 0")
  case True
  then have good: "fifo_good s" using assms by (auto simp: fifo_ok_def)
  let ?h = "min (nat frames) (filled s)"
  from fifo_read_frames(1) [OF assms, of frames] True fifo_consume_content [OF good, of ?h "nat frames"]
  show ?thesis by (simp add: fifo_get_def fifo_ok_def)
next
  case False
  then show ?thesis using assms by (auto simp: fifo_get_def fifo_readInterleaved_def)
qed

interpretation fifo_queue: sample_queue content "\<lambda>x s. fifo_write (fst x) (snd x) s" packet fifo_get fifo_ok
proof
  fix s s' :: "'a::zero audio_fifo" and x :: "'a planar \<times> int" and n out
  obtain src frames where x: "x = (src, frames)" by (cases x)
  show "fifo_ok s \<Longrightarrow> fifo_ok (fifo_write (fst x) (snd x) s)"
    using fifo_write_content [of s "fst x" "snd x"] by simp
  show "fifo_ok s \<Longrightarrow> fifo_ok (snd (fifo_get n s))" using fifo_get_spec [of s n] by simp
  show "fifo_ok s \<Longrightarrow> \<exists>d t. content (fifo_write (fst x) (snd x) s) = drop d (content s) @ t \<and> subseq t (packet s x)"
  proof (intro exI conjI)
    let ?k = "filled s + length (packet s x) - capacity s"
    show "fifo_ok s \<Longrightarrow> content (fifo_write (fst x) (snd x) s) =
        drop ?k (content s) @ drop (?k - length (content s)) (packet s x)"
      using fifo_write_content [of s src frames] by (simp add: x)
    show "subseq (drop (?k - length (content s)) (packet s x)) (packet s x)"
      by (intro suffix_imp_subseq suffix_drop)
  qed
  show "fifo_ok s \<Longrightarrow> fifo_get n s = (out, s') \<Longrightarrow> \<exists>a. content s = a @ out @ content s'"
    using fifo_get_spec [of s n] by (intro exI [of _ "[]"]) simp
qed

section \<open>Properties\<close>

text \<open>
  A write appends the packet and keeps the newest \<open>capacity\<close> frames: whatever the cursors
  and however large the packet, the buffered frames afterwards are the end of the old ones followed
  by the packet, never a torn mixture.
\<close>

theorem fifo_write_newest:
  assumes "fifo_ok s" "0 < frames" "channels s \<noteq> 0"
  shows "content (fifo_write src frames s) =
    drop (length (content s) + nat frames - capacity s)
      (content s @ map (\<lambda>f. map (\<lambda>c. src c f) [0..<channels s]) [0..<nat frames])"
  using fifo_write_content [OF assms(1), of src frames] assms(2,3) by (simp add: packet_def)

theorem fifo_write_newest_witness:
  "content (fifo_write (\<lambda>c f. c * 100 + f) 7 (fifo_write (\<lambda>c f. c * 10 + f) 3 (fifo_configure 2 48000 5 new_fifo))) =
   map (\<lambda>f. [f, 100 + f :: nat]) [2..<7]"
proof -
  let ?a = "fifo_configure 2 48000 5 new_fifo :: nat audio_fifo"
  let ?b = "fifo_write (\<lambda>c f. c * 10 + f) 3 ?a"
  have s0: "fifo_ok ?a" using fifo_ok_configure [of 2 48000 5 new_fifo] by blast
  have s0': "channels ?a = 2" "capacity ?a = 5" "filled ?a = 0"
    by (simp_all add: fifo_configure_def Let_def)
  have s: "fifo_ok ?b" using fifo_write_content [OF s0] by blast
  have s': "channels ?b = 2" "capacity ?b = 5" "filled ?b = 3"
    using s0' by (simp_all add: fifo_write_def Let_def)
  have l: "length (content ?b) = 3" using s'(3) by simp
  have u: "[2..<7] = [2, 3, 4, 5, 6::nat]" "[0..<7] = [0, 1, 2, 3, 4, 5, 6::nat]" "[0..<2] = [0, 1::nat]"
    by (simp_all add: upt_rec)
  show ?thesis using fifo_write_newest [OF s, of 7 "\<lambda>c f. c * 100 + f"] s' l by (simp add: u)
qed

text \<open>
  Both reads return exactly the frames asked for, the oldest buffered ones and then
  silence, report how many were real, and agree with each other and with the queue left behind.
\<close>

theorem fifo_read_padded:
  assumes "fifo_ok s" "0 < frames" "channels s \<noteq> 0"
  shows "\<exists>out s'. fifo_readPlanar True frames s = (min (nat frames) (filled s), Some out, s') \<and>
    fifo_readInterleaved True frames s =
      (min (nat frames) (filled s), Some (concat (frames_of (nat frames) out)), s') \<and>
    frames_of (nat frames) out = take (nat frames) (content s) @
      replicate (nat frames - filled s) (replicate (channels s) 0) \<and>
    content s' = drop (nat frames) (content s)"
proof -
  let ?h = "min (nat frames) (filled s)"
  obtain out where o: "fifo_readPlanar True frames s = (?h, Some out, fifo_consume ?h (nat frames) s)"
    "frames_of (nat frames) out = take ?h (content s) @ replicate (nat frames - ?h) (replicate (channels s) 0)"
    using fifo_read_frames(2) [OF assms] by blast
  have "fifo_good s" using assms by (auto simp: fifo_ok_def)
  then have "content (fifo_consume ?h (nat frames) s) = drop ?h (content s)"
    using fifo_consume_content [of s ?h] by simp
  moreover have "take ?h (content s) = take (nat frames) (content s)" "drop ?h (content s) = drop (nat frames) (content s)"
    by (simp_all add: min_def)
  moreover have "nat frames - ?h = nat frames - filled s" by simp
  ultimately show ?thesis using o fifo_read_frames(1) [OF assms] by simp
qed

theorem fifo_read_padded_witness:
  "\<exists>out s'. fifo_readPlanar True 4 (fifo_configure 2 48000 8 new_fifo :: int audio_fifo) = (0, Some out, s') \<and>
     frames_of 4 out = replicate 4 [0, 0]"
  using fifo_read_padded [of "fifo_configure 2 48000 8 new_fifo :: int audio_fifo" 4] fifo_ok_configure [of 2 48000 8 "new_fifo :: int audio_fifo"]
  by (auto simp: fifo_configure_def Let_def numeral_2_eq_2)

end
