(* ===== verification/Audio_Ring.thy ===== *)
theory Audio_Ring
  imports Sample_Queue
begin

text \<open>
  \<open>core/audio_ring\<close>: the lock-free ring between the frame clock and a sound card's callback.
  The producer owns \<open>write_\<close> and the consumer owns \<open>read_\<close>; both are free-running 64-bit
  counters of frames (\<open>nat\<close> here: they wrap after 2 to the 64 frames). The buffer is a list of
  sample-frames, \<open>channels\<close> samples each.

  Sequential semantics: each call is one step. That the two ends may run concurrently is the
  subject of the last section, where the steps are the single loads and stores.
\<close>

record 'a audio_ring =
  ring_channels :: int
  ring_sampleRate :: int
  capacityFrames :: int
  targetFrames :: int
  buffer :: "'a list list"
  write_count :: nat
  read_count :: nat
  priming :: bool
  ring_written :: int
  ring_read :: int
  ring_underruns :: int
  ring_overruns :: int
  resyncs :: int

definition new_audio_ring :: "'a audio_ring" where
  "new_audio_ring = \<lparr>ring_channels = 0, ring_sampleRate = 0, capacityFrames = 0, targetFrames = 0,
     buffer = [], write_count = 0, read_count = 0, priming = True, ring_written = 0, ring_read = 0,
     ring_underruns = 0, ring_overruns = 0, resyncs = 0\<rparr>"

definition silence :: "'a::zero audio_ring \<Rightarrow> 'a list" where
  "silence s = replicate (nat (ring_channels s)) 0"

definition audio_ring_reset :: "'a::zero audio_ring \<Rightarrow> 'a audio_ring" where
  "audio_ring_reset s = s\<lparr>write_count := 0, read_count := 0, priming := True,
     buffer := map (\<lambda>f. map (\<lambda>_. 0) f) (buffer s)\<rparr>"

definition audio_ring_configure :: "int \<Rightarrow> int \<Rightarrow> int \<Rightarrow> int \<Rightarrow> 'a::zero audio_ring \<Rightarrow> 'a audio_ring" where
  "audio_ring_configure ch sr capacityMs targetMs s =
     (let c = max ch 0; r = max sr 0;
          cap = i32 (i64 (r * capacityMs) sdiv 1000);
          t0 = i32 (i64 (r * targetMs) sdiv 1000);
          t = clamp t0 0 (max (cap sdiv 2) 0)
      in audio_ring_reset (s\<lparr>ring_channels := c, ring_sampleRate := r, capacityFrames := cap,
           targetFrames := t, buffer := replicate (nat (max cap 0)) (replicate (nat c) 0)\<rparr>))"

definition bufferedFrames :: "'a audio_ring \<Rightarrow> nat" where
  "bufferedFrames s = write_count s - read_count s"

text \<open>\<open>write\<close>: the frames of the packet (\<open>None\<close>: a null pointer) and how many were taken.\<close>

definition audio_ring_write :: "'a list list option \<Rightarrow> 'a audio_ring \<Rightarrow> nat \<times> 'a audio_ring" where
  "audio_ring_write src s = (case src of
      None \<Rightarrow> (0, s)
    | Some packet \<Rightarrow>
        if packet = [] \<or> ring_channels s \<le> 0 \<or> capacityFrames s \<le> 0 then (0, s)
        else let cap = nat (capacityFrames s);
                 buffered = write_count s - read_count s;
                 taken = min (length packet) (cap - buffered);
                 s1 = (if taken < length packet then s\<lparr>ring_overruns := ring_overruns s + 1\<rparr> else s)
             in if taken = 0 then (0, s1)
                else let offset = write_count s mod cap
                     in (taken, s1\<lparr>buffer := two_part cap offset (take taken packet) (buffer s),
                           write_count := write_count s + taken,
                           ring_written := ring_written s + int taken,
                           priming := (if priming s \<and> targetFrames s \<le> int (buffered + taken) then False
                                       else priming s)\<rparr>))"

text \<open>\<open>read\<close>: how many frames were real, what was written to \<open>dst\<close> (\<open>None\<close>: nothing).\<close>

definition two_part_out :: "nat \<Rightarrow> nat \<Rightarrow> nat \<Rightarrow> 'a list \<Rightarrow> 'a list" where
  "two_part_out cap offset n xs =
     (let first = min n (cap - offset)
      in take first (drop offset xs) @ (if first < n then take (n - first) xs else []))"

definition audio_ring_read :: "bool \<Rightarrow> int \<Rightarrow> 'a::zero audio_ring \<Rightarrow> nat \<times> 'a list list option \<times> 'a audio_ring" where
  "audio_ring_read dst frames0 s =
     (if \<not> dst \<or> frames0 \<le> 0 then (0, None, s)
      else if ring_channels s \<le> 0 \<or> capacityFrames s \<le> 0 then (0, None, s)
      else if priming s then (0, Some (replicate (nat frames0) (silence s)), s)
      else let frames = nat frames0; cap = nat (capacityFrames s);
               buffered0 = write_count s - read_count s;
               resync = (0 < targetFrames s \<and> targetFrames s * 2 < int buffered0);
               excess = (if resync then buffered0 - nat (targetFrames s) else 0);
               rd = read_count s + excess;
               buffered = buffered0 - excess;
               taken = min frames buffered;
               out = two_part_out cap (rd mod cap) taken (buffer s) @ replicate (frames - taken) (silence s)
           in (taken, Some out,
               s\<lparr>resyncs := (if resync then resyncs s + 1 else resyncs s),
                 ring_read := ring_read s + int taken,
                 ring_underruns := (if taken < frames then ring_underruns s + 1 else ring_underruns s),
                 priming := (if taken < frames then True else priming s),
                 read_count := rd + taken\<rparr>))"

section \<open>The ring as a queue\<close>

definition ring_content :: "'a audio_ring \<Rightarrow> 'a list list" where
  "ring_content s = (if capacityFrames s \<le> 0 then [] else
     window (nat (capacityFrames s)) (read_count s mod nat (capacityFrames s)) (bufferedFrames s) (buffer s))"

definition audio_ring_ok :: "'a audio_ring \<Rightarrow> bool" where
  "audio_ring_ok s \<longleftrightarrow> read_count s \<le> write_count s \<and>
     (0 < capacityFrames s \<longrightarrow> length (buffer s) = nat (capacityFrames s) \<and>
        bufferedFrames s \<le> nat (capacityFrames s) \<and> 0 \<le> targetFrames s \<and> targetFrames s * 2 \<le> capacityFrames s)"

lemma two_part_out_window:
  assumes "offset < cap" "length xs = cap" "n \<le> cap"
  shows "two_part_out cap offset n xs = window cap offset n xs"
proof (rule nth_equalityI)
  show "length (two_part_out cap offset n xs) = length (window cap offset n xs)"
    using assms by (auto simp: two_part_out_def Let_def min_def)
  fix k
  assume "k < length (two_part_out cap offset n xs)"
  then have k: "k < n" using assms by (auto simp: two_part_out_def Let_def min_def split: if_splits)
  show "two_part_out cap offset n xs ! k = window cap offset n xs ! k"
  proof (cases "k < cap - offset")
    case True
    then show ?thesis using assms k by (auto simp: two_part_out_def Let_def nth_append)
  next
    case False
    then have "offset + k = (k - (cap - offset)) + cap" using assms by simp
    moreover have "k - (cap - offset) < cap" using k assms by simp
    ultimately have "(offset + k) mod cap = k - (cap - offset)" by (simp only: mod_add_self2 mod_less)
    then show ?thesis using assms k False by (auto simp: two_part_out_def Let_def nth_append min_def)
  qed
qed

lemma ring_write_eq:
  assumes "packet \<noteq> []" "0 < ring_channels s" "0 < capacityFrames s"
    and "k = min (length packet) (nat (capacityFrames s) - bufferedFrames s)"
  shows "audio_ring_write (Some packet) s =
    (let s1 = (if k < length packet then s\<lparr>ring_overruns := ring_overruns s + 1\<rparr> else s)
     in if k = 0 then (0, s1)
        else (k, s1\<lparr>buffer := two_part (nat (capacityFrames s)) (write_count s mod nat (capacityFrames s))
                      (take k packet) (buffer s),
                   write_count := write_count s + k, ring_written := ring_written s + int k,
                   priming := (if priming s \<and> targetFrames s \<le> int (bufferedFrames s + k) then False
                               else priming s)\<rparr>))"
  using assms(1-3) unfolding assms(4) audio_ring_write_def bufferedFrames_def Let_def
  by (simp only: option.case not_le [symmetric] if_False simp_thms)

lemma ring_write_spec:
  assumes "audio_ring_ok s" "audio_ring_write (Some packet) s = (taken, t)"
  shows "ring_content t = ring_content s @ take taken packet \<and> audio_ring_ok t \<and>
    read_count t = read_count s \<and> write_count t = write_count s + taken \<and>
    (0 < ring_channels s \<and> 0 < capacityFrames s \<longrightarrow>
      taken = min (length packet) (nat (capacityFrames s) - bufferedFrames s)) \<and>
    capacityFrames t = capacityFrames s \<and> targetFrames t = targetFrames s \<and> ring_channels t = ring_channels s"
proof (cases "packet = [] \<or> ring_channels s \<le> 0 \<or> capacityFrames s \<le> 0")
  case True
  then have "taken = 0 \<and> t = s" using assms(2) by (simp add: audio_ring_write_def)
  with True assms(1) show ?thesis by auto
next
  case False
  let ?cap = "nat (capacityFrames s)"
  define k where "k = min (length packet) (?cap - bufferedFrames s)"
  have cap: "0 < ?cap" "length (buffer s) = ?cap" "bufferedFrames s \<le> ?cap" and rw: "read_count s \<le> write_count s"
    using False assms(1) by (auto simp: audio_ring_ok_def)
  have k: "taken = k" using assms(2) ring_write_eq [of packet s k] False k_def
    by (cases "k = 0") (simp_all add: Let_def)
  show ?thesis
  proof (cases "k = 0")
    case True
    then have "taken = 0" "t = s \<or> t = s\<lparr>ring_overruns := ring_overruns s + 1\<rparr>"
      using assms(2) ring_write_eq [of packet s k] False True k_def by (auto simp: Let_def)
    then show ?thesis using assms(1) True k_def
      by (auto simp: ring_content_def audio_ring_ok_def bufferedFrames_def)
  next
    case kp: False
    have w: "write_count s = read_count s + bufferedFrames s" using rw by (simp add: bufferedFrames_def)
    define s1 where "s1 = (if k < length packet then s\<lparr>ring_overruns := ring_overruns s + 1\<rparr> else s)"
    define u where "u = s1\<lparr>buffer := two_part ?cap (write_count s mod ?cap) (take k packet) (buffer s),
        write_count := write_count s + k, ring_written := ring_written s + int k,
        priming := (if priming s \<and> targetFrames s \<le> int (bufferedFrames s + k) then False else priming s)\<rparr>"
    have "audio_ring_write (Some packet) s = (k, u)"
      using ring_write_eq [OF _ _ _ k_def] False kp unfolding u_def s1_def Let_def by simp
    with assms(2) have "t = u" by simp
    then have t: "buffer t = two_part ?cap (write_count s mod ?cap) (take k packet) (buffer s)"
      "write_count t = write_count s + k" "read_count t = read_count s" "capacityFrames t = capacityFrames s"
      "targetFrames t = targetFrames s" "ring_channels t = ring_channels s"
      by (simp_all add: u_def s1_def)
    have b: "bufferedFrames t = bufferedFrames s + k" using rw by (simp add: bufferedFrames_def t)
    have lk: "length (take k packet) = k" by (simp add: k_def)
    have off: "write_count s mod ?cap = (read_count s mod ?cap + bufferedFrames s) mod ?cap"
      by (simp add: w mod_add_left_eq)
    have "window ?cap (read_count s mod ?cap) (bufferedFrames s + length (take k packet))
        (two_part ?cap ((read_count s mod ?cap + bufferedFrames s) mod ?cap) (take k packet) (buffer s)) =
      window ?cap (read_count s mod ?cap) (bufferedFrames s) (buffer s) @ take k packet"
      by (rule window_append) (use cap in \<open>auto simp: k_def\<close>)
    note win = this [unfolded lk]
    from win have "ring_content t = ring_content s @ take k packet"
      using False by (simp add: ring_content_def t b off)
    moreover have "audio_ring_ok t"
    proof -
      have "length (buffer t) = ?cap"
        unfolding t using cap lk two_part_length [of "write_count s mod ?cap" ?cap "buffer s" "take k packet"]
        by (simp add: k_def)
      moreover have "bufferedFrames t \<le> ?cap" unfolding b using cap(3) by (simp add: k_def)
      ultimately show ?thesis using assms(1) rw by (simp add: audio_ring_ok_def t)
    qed
    ultimately show ?thesis using t k by (simp add: k_def)
  qed
qed

text \<open>What a read skips when it re-centres.\<close>

definition resync_excess :: "'a audio_ring \<Rightarrow> nat" where
  "resync_excess s = (if 0 < targetFrames s \<and> targetFrames s * 2 < int (bufferedFrames s)
     then bufferedFrames s - nat (targetFrames s) else 0)"

lemma ring_read_spec:
  assumes "audio_ring_ok s" "0 < frames" "0 < ring_channels s" "0 < capacityFrames s" "\<not> priming s"
    and "audio_ring_read True frames s = (taken, dst, t)"
  shows "dst = Some (take taken (drop (resync_excess s) (ring_content s)) @
        replicate (nat frames - taken) (silence s)) \<and>
    taken = min (nat frames) (bufferedFrames s - resync_excess s) \<and>
    ring_content t = drop (resync_excess s + taken) (ring_content s) \<and> audio_ring_ok t \<and>
    priming t = (taken < nat frames) \<and> write_count t = write_count s \<and>
    read_count t = read_count s + resync_excess s + taken"
proof -
  let ?cap = "nat (capacityFrames s)" and ?e = "resync_excess s"
  have cap: "0 < ?cap" "length (buffer s) = ?cap" "bufferedFrames s \<le> ?cap" and rw: "read_count s \<le> write_count s"
    using assms by (auto simp: audio_ring_ok_def)
  have e: "?e \<le> bufferedFrames s" by (simp add: resync_excess_def)
  define tk where "tk = min (nat frames) (bufferedFrames s - ?e)"
  define u where "u = s\<lparr>resyncs := (if 0 < targetFrames s \<and> targetFrames s * 2 < int (bufferedFrames s) then resyncs s + 1 else resyncs s),
        ring_read := ring_read s + int tk,
        ring_underruns := (if tk < nat frames then ring_underruns s + 1 else ring_underruns s),
        priming := (if tk < nat frames then True else priming s),
        read_count := read_count s + ?e + tk\<rparr>"
  have eq: "audio_ring_read True frames s = (tk,
      Some (two_part_out ?cap ((read_count s + ?e) mod ?cap) tk (buffer s) @ replicate (nat frames - tk) (silence s)), u)"
    unfolding audio_ring_read_def Let_def u_def tk_def resync_excess_def bufferedFrames_def
    using assms(2-5) by (simp only: not_le [symmetric] if_False simp_thms)
  have tk: "taken = tk" "t = u" using assms(6) unfolding eq by simp_all
  have r: "taken = min (nat frames) (bufferedFrames s - ?e)"
    "dst = Some (two_part_out ?cap ((read_count s + ?e) mod ?cap) taken (buffer s) @
       replicate (nat frames - taken) (silence s))"
    using tk(1) assms(6) unfolding eq by (simp add: tk_def, simp)
  have r': "read_count t = read_count s + ?e + taken" "write_count t = write_count s" "buffer t = buffer s"
    "capacityFrames t = capacityFrames s" "targetFrames t = targetFrames s" "priming t = (taken < nat frames)"
    using assms(5) by (simp_all add: tk u_def)
  have tl: "taken \<le> bufferedFrames s - ?e" using r(1) by simp
  have bt: "bufferedFrames t = bufferedFrames s - (?e + taken)" by (simp add: bufferedFrames_def r'(1,2))
  have "two_part_out ?cap ((read_count s + ?e) mod ?cap) taken (buffer s) =
      window ?cap ((read_count s + ?e) mod ?cap) taken (buffer s)"
    using cap tl by (intro two_part_out_window) simp_all
  also have "\<dots> = take taken (window ?cap ((read_count s mod ?cap + ?e) mod ?cap) (bufferedFrames s - ?e) (buffer s))"
    using tl window_take [of ?cap _ taken "bufferedFrames s - ?e"] by (simp add: mod_add_left_eq min_def)
  also have "\<dots> = take taken (drop ?e (ring_content s))"
    using assms(4) e by (simp add: ring_content_def window_drop)
  finally have d: "two_part_out ?cap ((read_count s + ?e) mod ?cap) taken (buffer s) =
      take taken (drop ?e (ring_content s))" .
  have le: "?e + taken \<le> bufferedFrames s" using tl e by simp
  have "ring_content t = drop (?e + taken) (ring_content s)"
    using assms(4) le by (simp add: ring_content_def window_drop bt r' mod_add_left_eq add.assoc)
  moreover have "audio_ring_ok t"
    using assms(1) cap le rw by (auto simp: audio_ring_ok_def r' bt bufferedFrames_def)
  ultimately show ?thesis using r r' d by simp
qed

text \<open>The real frames of a read, and the ring as an instance of the queue interface.\<close>

definition audio_ring_get :: "int \<Rightarrow> 'a::zero audio_ring \<Rightarrow> 'a list list \<times> 'a audio_ring" where
  "audio_ring_get frames s =
     (let (taken, dst, t) = audio_ring_read True frames s
      in (case dst of Some out \<Rightarrow> take taken out | None \<Rightarrow> [], t))"

lemma audio_ring_get_spec:
  assumes "audio_ring_ok s"
  shows "\<exists>a. ring_content s = a @ fst (audio_ring_get frames s) @ ring_content (snd (audio_ring_get frames s)) \<and>
    audio_ring_ok (snd (audio_ring_get frames s))"
proof (cases "0 < frames \<and> 0 < ring_channels s \<and> 0 < capacityFrames s \<and> \<not> priming s")
  case True
  obtain taken dst t where r: "audio_ring_read True frames s = (taken, dst, t)" by (metis prod_cases3)
  note sp = ring_read_spec [OF assms _ _ _ _ r]
  have l: "length (take taken (drop (resync_excess s) (ring_content s))) = taken"
    using sp True by (auto simp: ring_content_def)
  have "ring_content s = take (resync_excess s) (ring_content s) @
      take taken (drop (resync_excess s) (ring_content s)) @ drop (resync_excess s + taken) (ring_content s)"
    by (metis append_take_drop_id drop_drop add.commute)
  then show ?thesis using sp True l
    by (intro exI [of _ "take (resync_excess s) (ring_content s)"]) (simp add: audio_ring_get_def r)
next
  case False
  then have "audio_ring_get frames s = ([], s)"
    by (auto simp: audio_ring_get_def audio_ring_read_def)
  then show ?thesis using assms by simp
qed

definition ring_payload :: "'a audio_ring \<Rightarrow> 'a list list \<Rightarrow> 'a list list" where
  "ring_payload s packet = packet"

interpretation ring_queue: sample_queue ring_content "\<lambda>x s. snd (audio_ring_write (Some x) s)" ring_payload
    audio_ring_get audio_ring_ok
proof
  fix s s' :: "'a::zero audio_ring" and x n out
  obtain taken t where w: "audio_ring_write (Some x) s = (taken, t)" by fastforce
  show "audio_ring_ok s \<Longrightarrow> audio_ring_ok (snd (audio_ring_write (Some x) s))"
    using ring_write_spec [OF _ w] by (simp add: w)
  show "audio_ring_ok s \<Longrightarrow> audio_ring_ok (snd (audio_ring_get n s))"
    using audio_ring_get_spec by blast
  show "audio_ring_ok s \<Longrightarrow> \<exists>d u. ring_content (snd (audio_ring_write (Some x) s)) = drop d (ring_content s) @ u \<and>
      subseq u (ring_payload s x)"
    using ring_write_spec [OF _ w]
    by (intro exI [of _ 0] exI [of _ "take taken x"]) (auto simp: w ring_payload_def prefix_imp_subseq take_is_prefix)
  show "audio_ring_ok s \<Longrightarrow> audio_ring_get n s = (out, s') \<Longrightarrow> \<exists>a. ring_content s = a @ out @ ring_content s'"
    using audio_ring_get_spec [of s n] by auto
qed

lemma configure_ok: "audio_ring_ok (audio_ring_configure ch sr cms tms s)"
proof -
  have "0 \<le> clamp t 0 (max (cap sdiv 2) 0) \<and> (0 < cap \<longrightarrow> clamp t 0 (max (cap sdiv 2) 0) * 2 \<le> cap)" for t cap :: int
  proof -
    have "clamp t 0 (max (cap sdiv 2) 0) \<le> max (cap sdiv 2) 0"
      using clamp_range [of 0 "max (cap sdiv 2) 0" t] by simp
    moreover have "0 < cap \<Longrightarrow> max (cap sdiv 2) 0 * 2 \<le> cap" by (simp add: sdiv_nonneg)
    ultimately show ?thesis using clamp_range [of 0 "max (cap sdiv 2) 0" t] by force
  qed
  then show ?thesis
    by (simp add: audio_ring_ok_def audio_ring_configure_def audio_ring_reset_def Let_def bufferedFrames_def)
qed

section \<open>Concurrent producer and consumer\<close>

text \<open>
  The two ends without a lock: each load and store of a counter and each copied frame is a step
  of its own, and the steps of the two threads interleave in any way. (The acquire and release
  orders make a store of a counter visible together with the frames copied before it, which is what
  the interleaving of single steps expresses.) A frame has an absolute number: \<open>sent\<close> lists all
  frames published so far.
\<close>

datatype 'f producer =
    P_Idle
  | P_Copy "'f list" nat nat      \<comment> \<open>the frames taken, how many are copied, the level seen\<close>
  | P_Prime nat                   \<comment> \<open>counter stored; the level to compare with the target\<close>

datatype 'f consumer =
    C_Idle
  | C_Copy nat nat "'f list" nat  \<comment> \<open>first frame, how many to copy, copied so far, frames asked for\<close>
  | C_Store nat "'f list"         \<comment> \<open>the counter to store, the frames delivered\<close>

record 'f spsc =
  sp_cap :: nat
  sp_target :: nat
  sp_write :: nat
  sp_read :: nat
  sp_buffer :: "'f list"
  sp_priming :: bool
  sp_producer :: "'f producer"
  sp_consumer :: "'f consumer"
  sp_sent :: "'f list"
  sp_delivered :: "'f list"

inductive spsc_step :: "'f spsc \<Rightarrow> 'f spsc \<Rightarrow> bool" where
  p_begin: "sp_producer s = P_Idle \<Longrightarrow>
    taken = min (length packet) (sp_cap s - (sp_write s - sp_read s)) \<Longrightarrow> 0 < taken \<Longrightarrow>
    spsc_step s (s\<lparr>sp_producer := P_Copy (take taken packet) 0 (sp_write s - sp_read s)\<rparr>)"
| p_copy: "sp_producer s = P_Copy ps k b \<Longrightarrow> k < length ps \<Longrightarrow>
    spsc_step s (s\<lparr>sp_buffer := (sp_buffer s)[(sp_write s + k) mod sp_cap s := ps ! k],
                  sp_producer := P_Copy ps (Suc k) b\<rparr>)"
| p_store: "sp_producer s = P_Copy ps (length ps) b \<Longrightarrow>
    spsc_step s (s\<lparr>sp_write := sp_write s + length ps, sp_sent := sp_sent s @ ps,
                  sp_producer := P_Prime (b + length ps)\<rparr>)"
| p_prime: "sp_producer s = P_Prime b \<Longrightarrow>
    spsc_step s (s\<lparr>sp_priming := (if sp_priming s \<and> sp_target s \<le> b then False else sp_priming s),
                  sp_producer := P_Idle\<rparr>)"
| c_begin: "sp_consumer s = C_Idle \<Longrightarrow> \<not> sp_priming s \<Longrightarrow> 0 < frames \<Longrightarrow>
    level = sp_write s - sp_read s \<Longrightarrow>
    excess = (if 0 < sp_target s \<and> sp_target s * 2 < level then level - sp_target s else 0) \<Longrightarrow>
    spsc_step s (s\<lparr>sp_consumer := C_Copy (sp_read s + excess) (min frames (level - excess)) [] frames\<rparr>)"
| c_copy: "sp_consumer s = C_Copy rd n out frames \<Longrightarrow> length out < n \<Longrightarrow>
    spsc_step s (s\<lparr>sp_consumer :=
      C_Copy rd n (out @ [sp_buffer s ! ((rd + length out) mod sp_cap s)]) frames\<rparr>)"
| c_prime: "sp_consumer s = C_Copy rd n out frames \<Longrightarrow> length out = n \<Longrightarrow>
    spsc_step s (s\<lparr>sp_priming := (if n < frames then True else sp_priming s),
                  sp_consumer := C_Store (rd + n) out\<rparr>)"
| c_store: "sp_consumer s = C_Store r out \<Longrightarrow>
    spsc_step s (s\<lparr>sp_read := r, sp_delivered := sp_delivered s @ out, sp_consumer := C_Idle\<rparr>)"

inductive_cases spsc_stepE: "spsc_step s t"

definition spsc_start :: "nat \<Rightarrow> nat \<Rightarrow> 'f list \<Rightarrow> 'f spsc" where
  "spsc_start cap target buf = \<lparr>sp_cap = cap, sp_target = target, sp_write = 0, sp_read = 0, sp_buffer = buf,
     sp_priming = True, sp_producer = P_Idle, sp_consumer = C_Idle, sp_sent = [], sp_delivered = []\<rparr>"

inductive spsc_reachable :: "'f spsc \<Rightarrow> 'f spsc \<Rightarrow> bool" for s0 where
  spsc_refl: "spsc_reachable s0 s0"
| spsc_trans: "spsc_reachable s0 s \<Longrightarrow> spsc_step s t \<Longrightarrow> spsc_reachable s0 t"

definition buffer_holds :: "'f spsc \<Rightarrow> bool" where
  "buffer_holds s \<longleftrightarrow> 0 < sp_cap s \<and> length (sp_buffer s) = sp_cap s \<and> sp_read s \<le> sp_write s \<and>
     sp_write s \<le> sp_read s + sp_cap s \<and> sp_write s = length (sp_sent s) \<and>
     (\<forall>i. sp_read s \<le> i \<longrightarrow> i < sp_write s \<longrightarrow> sp_buffer s ! (i mod sp_cap s) = sp_sent s ! i)"

definition producer_holds :: "'f spsc \<Rightarrow> bool" where
  "producer_holds s \<longleftrightarrow> (case sp_producer s of
     P_Copy ps k b \<Rightarrow> k \<le> length ps \<and> sp_write s + length ps \<le> sp_read s + sp_cap s \<and>
       (\<forall>j < k. sp_buffer s ! ((sp_write s + j) mod sp_cap s) = ps ! j)
   | _ \<Rightarrow> True)"

definition consumer_holds :: "'f spsc \<Rightarrow> bool" where
  "consumer_holds s \<longleftrightarrow> subseq (sp_delivered s) (take (sp_read s) (sp_sent s)) \<and>
    (case sp_consumer s of
     C_Idle \<Rightarrow> True
   | C_Copy rd n out fr \<Rightarrow> sp_read s \<le> rd \<and> rd + n \<le> sp_write s \<and> length out \<le> n \<and>
       take (length out) (drop rd (sp_sent s)) = out
   | C_Store r out \<Rightarrow> \<exists>rd. sp_read s \<le> rd \<and> r = rd + length out \<and> r \<le> sp_write s \<and>
       take (length out) (drop rd (sp_sent s)) = out)"

lemmas spsc_holds = buffer_holds_def producer_holds_def consumer_holds_def

lemma mod_neq: "(i::nat) < j \<Longrightarrow> j < i + c \<Longrightarrow> i mod c \<noteq> j mod c"
proof
  assume ij: "i < j" "j < i + c" and "i mod c = j mod c"
  then have "c dvd j - i" by (metis less_imp_le mod_eq_dvd_iff_nat)
  then show False using ij nat_dvd_not_less [of "j - i" c] by simp
qed

lemma consumer_holds_cong:
  "sp_read t = sp_read s \<Longrightarrow> sp_write t = sp_write s \<Longrightarrow> sp_sent t = sp_sent s \<Longrightarrow>
   sp_delivered t = sp_delivered s \<Longrightarrow> sp_consumer t = sp_consumer s \<Longrightarrow>
   consumer_holds t = consumer_holds s"
  by (simp only: consumer_holds_def)

lemma producer_holds_cong:
  "sp_read t = sp_read s \<Longrightarrow> sp_write t = sp_write s \<Longrightarrow> sp_cap t = sp_cap s \<Longrightarrow>
   sp_buffer t = sp_buffer s \<Longrightarrow> sp_producer t = sp_producer s \<Longrightarrow>
   producer_holds t = producer_holds s"
  by (simp only: producer_holds_def)

lemma buffer_holds_cong:
  "sp_read t = sp_read s \<Longrightarrow> sp_write t = sp_write s \<Longrightarrow> sp_cap t = sp_cap s \<Longrightarrow>
   sp_buffer t = sp_buffer s \<Longrightarrow> sp_sent t = sp_sent s \<Longrightarrow>
   buffer_holds t = buffer_holds s"
  by (simp only: buffer_holds_def)

lemma producer_copy_holds:
  assumes "buffer_holds s" "producer_holds s" "consumer_holds s" "sp_producer s = P_Copy ps k b" "k < length ps"
  defines "t \<equiv> s\<lparr>sp_buffer := (sp_buffer s)[(sp_write s + k) mod sp_cap s := ps ! k],
                  sp_producer := P_Copy ps (Suc k) b\<rparr>"
  shows "buffer_holds t \<and> producer_holds t \<and> consumer_holds t"
proof (intro conjI)
  have room: "sp_write s + length ps \<le> sp_read s + sp_cap s" and cap: "0 < sp_cap s"
    and done_k: "\<forall>j < k. sp_buffer s ! ((sp_write s + j) mod sp_cap s) = ps ! j"
    using assms(1,2,4) by (simp_all add: spsc_holds)
  have ne: "i mod sp_cap s \<noteq> (sp_write s + k) mod sp_cap s" if "sp_read s \<le> i" "i < sp_write s + k" for i
    using that room assms(5) by (intro mod_neq) simp_all
  have "sp_buffer t ! (i mod sp_cap s) = sp_sent s ! i" if "sp_read s \<le> i" "i < sp_write s" for i
    using that ne [of i] assms(1) by (simp add: t_def buffer_holds_def)
  then show "buffer_holds t" using assms(1) by (simp add: t_def buffer_holds_def)
  show "consumer_holds t"
    using assms(3) consumer_holds_cong [of t s] by (simp add: t_def)
  have "sp_buffer t ! ((sp_write s + j) mod sp_cap s) = ps ! j" if "j < Suc k" for j
  proof (cases "j = k")
    case True
    then show ?thesis using assms(1) cap by (simp add: t_def buffer_holds_def)
  next
    case False
    have "sp_read s \<le> sp_write s" using assms(1) by (simp add: buffer_holds_def)
    with False that ne [of "sp_write s + j"] done_k show ?thesis by (simp add: t_def)
  qed
  then show "producer_holds t" using room assms(5) by (simp add: t_def producer_holds_def)
qed

lemma producer_store_holds:
  assumes "buffer_holds s" "producer_holds s" "consumer_holds s" "sp_producer s = P_Copy ps (length ps) b"
  defines "t \<equiv> s\<lparr>sp_write := sp_write s + length ps, sp_sent := sp_sent s @ ps,
                  sp_producer := P_Prime (b + length ps)\<rparr>"
  shows "buffer_holds t \<and> producer_holds t \<and> consumer_holds t"
proof (intro conjI)
  have bh: "sp_write s = length (sp_sent s)" "sp_read s \<le> sp_write s"
    "\<And>i. sp_read s \<le> i \<Longrightarrow> i < sp_write s \<Longrightarrow> sp_buffer s ! (i mod sp_cap s) = sp_sent s ! i"
    using assms(1) by (simp_all add: buffer_holds_def)
  have ph: "\<And>j. j < length ps \<Longrightarrow> sp_buffer s ! ((sp_write s + j) mod sp_cap s) = ps ! j"
    "sp_write s + length ps \<le> sp_read s + sp_cap s"
    using assms(2,4) by (simp_all add: producer_holds_def)
  have "sp_buffer s ! (i mod sp_cap s) = (sp_sent s @ ps) ! i"
    if "sp_read s \<le> i" "i < sp_write s + length ps" for i
  proof (cases "i < sp_write s")
    case True
    with that bh show ?thesis by (simp add: nth_append)
  next
    case False
    then have "sp_write s + (i - sp_write s) = i" "i - sp_write s < length ps" using that by simp_all
    with ph(1) [of "i - sp_write s"] False show ?thesis by (simp add: nth_append bh(1) [symmetric])
  qed
  then show "buffer_holds t" using assms(1) ph(2) by (simp add: t_def buffer_holds_def)
  show "producer_holds t" by (simp add: t_def producer_holds_def)
  have tk: "take m (drop rd (sp_sent s @ ps)) = take m (drop rd (sp_sent s))" if "rd + m \<le> sp_write s" for rd m
    using that bh(1) by simp
  show "consumer_holds t"
  proof (cases "sp_consumer s")
    case (C_Copy rd n out fr)
    with assms(3) bh tk [of rd "length out"] show ?thesis by (simp add: t_def consumer_holds_def)
  next
    case (C_Store r out)
    with assms(3) obtain rd where "sp_read s \<le> rd" "r = rd + length out" "r \<le> sp_write s"
      "take (length out) (drop rd (sp_sent s)) = out" by (auto simp: consumer_holds_def)
    with C_Store assms(3) bh tk [of rd "length out"] show ?thesis
      by (auto simp: t_def consumer_holds_def intro!: exI [of _ rd])
  qed (use assms(3) bh in \<open>simp add: t_def consumer_holds_def\<close>)
qed

lemma consumer_store_holds:
  assumes "buffer_holds s" "producer_holds s" "consumer_holds s" "sp_consumer s = C_Store r out"
  defines "t \<equiv> s\<lparr>sp_read := r, sp_delivered := sp_delivered s @ out, sp_consumer := C_Idle\<rparr>"
  shows "buffer_holds t \<and> producer_holds t \<and> consumer_holds t"
proof (intro conjI)
  obtain rd where rd: "sp_read s \<le> rd" "r = rd + length out" "r \<le> sp_write s"
    "take (length out) (drop rd (sp_sent s)) = out"
    using assms(3,4) by (auto simp: consumer_holds_def)
  show "buffer_holds t" using assms(1) rd by (auto simp: t_def buffer_holds_def)
  show "producer_holds t" using assms(2) rd by (auto simp: t_def producer_holds_def split: producer.splits)
  have "subseq (sp_delivered s) (take (sp_read s) (sp_sent s))"
    using assms(3) by (simp add: consumer_holds_def)
  moreover have "prefix (take (sp_read s) (sp_sent s)) (take rd (sp_sent s))"
    using rd(1) by (metis min.absorb1 take_is_prefix take_take)
  ultimately have "subseq (sp_delivered s) (take rd (sp_sent s))"
    using prefix_imp_subseq subseq_order.trans by blast
  then have "subseq (sp_delivered s @ out) (take rd (sp_sent s) @ take (length out) (drop rd (sp_sent s)))"
    by (simp only: rd(4) list_emb_append_mono subseq_order.order_refl)
  also have "take rd (sp_sent s) @ take (length out) (drop rd (sp_sent s)) = take r (sp_sent s)"
    by (simp add: rd(2) take_add)
  finally show "consumer_holds t" by (simp add: t_def consumer_holds_def)
qed

lemma spsc_step_holds:
  assumes "spsc_step s t" "buffer_holds s" "producer_holds s" "consumer_holds s"
  shows "buffer_holds t \<and> producer_holds t \<and> consumer_holds t"
  using assms(1)
proof cases
  case (p_begin taken packet)
  then have "buffer_holds t" "consumer_holds t"
    using assms(2,4) buffer_holds_cong [of t s] consumer_holds_cong [of t s] by simp_all
  moreover have "producer_holds t"
    using p_begin assms(2) by (auto simp: producer_holds_def buffer_holds_def min_def)
  ultimately show ?thesis by blast
next
  case (p_copy ps k b)
  then show ?thesis using producer_copy_holds [OF assms(2-4)] by simp
next
  case (p_store ps b)
  then show ?thesis using producer_store_holds [OF assms(2-4)] by simp
next
  case (p_prime b)
  then have "buffer_holds t" "consumer_holds t" "producer_holds t"
    using assms(2,4) buffer_holds_cong [of t s] consumer_holds_cong [of t s]
    by (simp_all add: producer_holds_def)
  then show ?thesis by blast
next
  case (c_begin frames level excess)
  then have "buffer_holds t" "producer_holds t"
    using assms(2,3) buffer_holds_cong [of t s] producer_holds_cong [of t s] by simp_all
  moreover have "consumer_holds t"
    using c_begin assms(2,4) by (auto simp: consumer_holds_def buffer_holds_def min_def)
  ultimately show ?thesis by blast
next
  case (c_copy rd n out frames)
  then have "buffer_holds t" "producer_holds t"
    using assms(2,3) buffer_holds_cong [of t s] producer_holds_cong [of t s] by simp_all
  moreover have "consumer_holds t"
  proof -
    have i: "sp_read s \<le> rd + length out" "rd + length out < sp_write s"
      and o: "take (length out) (drop rd (sp_sent s)) = out" and w: "sp_write s = length (sp_sent s)"
      using c_copy assms(2,4) by (auto simp: consumer_holds_def buffer_holds_def)
    have "sp_buffer s ! ((rd + length out) mod sp_cap s) = sp_sent s ! (rd + length out)"
      using i assms(2) by (simp add: buffer_holds_def)
    moreover have "take (Suc (length out)) (drop rd (sp_sent s)) = out @ [sp_sent s ! (rd + length out)]"
      using i w o by (simp add: take_Suc_conv_app_nth)
    ultimately show ?thesis using c_copy assms(4) by (simp add: consumer_holds_def)
  qed
  ultimately show ?thesis by blast
next
  case (c_prime rd n out frames)
  then have "buffer_holds t" "producer_holds t"
    using assms(2,3) buffer_holds_cong [of t s] producer_holds_cong [of t s] by simp_all
  moreover have "consumer_holds t"
    using c_prime assms(4) by (auto simp: consumer_holds_def intro!: exI [of _ rd])
  ultimately show ?thesis by blast
next
  case (c_store r out)
  then show ?thesis using consumer_store_holds [OF assms(2-4)] by simp
qed

lemma spsc_reachable_holds:
  "spsc_reachable s0 s \<Longrightarrow> buffer_holds s0 \<and> producer_holds s0 \<and> consumer_holds s0 \<Longrightarrow>
   buffer_holds s \<and> producer_holds s \<and> consumer_holds s"
  by (induction rule: spsc_reachable.induct) (auto dest: spsc_step_holds)

section \<open>Properties\<close>

text \<open>
  C8: whatever the interleaving of the producer's and the consumer's loads, stores and frame
  copies, what the consumer has copied so far is exactly the run of published frames it set out to
  read, and everything it ever delivered is, in order, part of what was published: no frame is
  torn, invented or replayed.
\<close>

theorem spsc_no_torn_frame:
  assumes "spsc_reachable (spsc_start cap target buf) s" "0 < cap" "length buf = cap"
  shows "subseq (sp_delivered s) (sp_sent s) \<and>
    (case sp_consumer s of
       C_Copy rd n out frames \<Rightarrow> out = take (length out) (drop rd (sp_sent s)) \<and> rd + n \<le> length (sp_sent s)
     | _ \<Rightarrow> True)"
proof -
  have "buffer_holds (spsc_start cap target buf) \<and> producer_holds (spsc_start cap target buf) \<and>
      consumer_holds (spsc_start cap target buf)"
    using assms(2,3) by (simp add: spsc_holds spsc_start_def)
  from spsc_reachable_holds [OF assms(1) this] have h: "buffer_holds s" "consumer_holds s" by blast+
  have "subseq (sp_delivered s) (sp_sent s)"
    using h(2) by (meson consumer_holds_def prefix_imp_subseq subseq_order.trans take_is_prefix)
  moreover have "case sp_consumer s of
       C_Copy rd n out frames \<Rightarrow> out = take (length out) (drop rd (sp_sent s)) \<and> rd + n \<le> length (sp_sent s)
     | _ \<Rightarrow> True"
    using h by (cases "sp_consumer s") (simp_all add: consumer_holds_def buffer_holds_def)
  ultimately show ?thesis by blast
qed

text \<open>
  A run of a ring of four frames that starts to play at two: the producer publishes 10 and 11 and is copying 12
  while the consumer, which has copied one of the two frames it set out to read, goes on and delivers both.
\<close>

definition ring_at ::
  "nat \<Rightarrow> nat \<Rightarrow> int list \<Rightarrow> bool \<Rightarrow> int producer \<Rightarrow> int consumer \<Rightarrow> int list \<Rightarrow> int list \<Rightarrow> int spsc" where
  "ring_at w r buf primed p c sent delivered = \<lparr>sp_cap = 4, sp_target = 2, sp_write = w, sp_read = r, sp_buffer = buf,
     sp_priming = primed, sp_producer = p, sp_consumer = c, sp_sent = sent, sp_delivered = delivered\<rparr>"

lemma run_step: "spsc_reachable s0 s \<Longrightarrow> spsc_step s t' \<Longrightarrow> t' = t \<Longrightarrow> spsc_reachable s0 t"
  using spsc_trans by blast

lemma ring_run_copying: "spsc_reachable (spsc_start 4 2 [0, 0, 0, 0]) (ring_at 2 0 [10, 11, 12, 0] False (P_Copy [12] 1 2) (C_Copy 0 2 [10] 2) [10, 11] [])"
proof -
  let ?s0 = "spsc_start 4 2 [0, 0, 0, 0 :: int]"
  have r0: "spsc_reachable ?s0 (ring_at 0 0 [0, 0, 0, 0] True P_Idle C_Idle [] [])"
    using spsc_refl [of ?s0] by (simp add: ring_at_def spsc_start_def)
  have r1: "spsc_reachable ?s0 (ring_at 0 0 [0, 0, 0, 0] True (P_Copy [10, 11] 0 0) C_Idle [] [])"
    by (rule run_step [OF r0 spsc_step.p_begin [where packet = "[10, 11]" and taken = 2]]) (simp_all add: ring_at_def)
  have r2: "spsc_reachable ?s0 (ring_at 0 0 [10, 0, 0, 0] True (P_Copy [10, 11] 1 0) C_Idle [] [])"
    by (rule run_step [OF r1 spsc_step.p_copy [where ps = "[10, 11]" and k = 0 and b = 0]]) (simp_all add: ring_at_def)
  have r3: "spsc_reachable ?s0 (ring_at 0 0 [10, 11, 0, 0] True (P_Copy [10, 11] 2 0) C_Idle [] [])"
    by (rule run_step [OF r2 spsc_step.p_copy [where ps = "[10, 11]" and k = 1 and b = 0]]) (simp_all add: ring_at_def)
  have r4: "spsc_reachable ?s0 (ring_at 2 0 [10, 11, 0, 0] True (P_Prime 2) C_Idle [10, 11] [])"
    by (rule run_step [OF r3 spsc_step.p_store [where ps = "[10, 11]" and b = 0]]) (simp_all add: ring_at_def)
  have r5: "spsc_reachable ?s0 (ring_at 2 0 [10, 11, 0, 0] False P_Idle C_Idle [10, 11] [])"
    by (rule run_step [OF r4 spsc_step.p_prime [where b = 2]]) (simp_all add: ring_at_def)
  have r6: "spsc_reachable ?s0 (ring_at 2 0 [10, 11, 0, 0] False P_Idle (C_Copy 0 2 [] 2) [10, 11] [])"
    by (rule run_step [OF r5 spsc_step.c_begin [where frames = 2 and level = 2 and excess = 0]]) (simp_all add: ring_at_def)
  have r7: "spsc_reachable ?s0 (ring_at 2 0 [10, 11, 0, 0] False (P_Copy [12] 0 2) (C_Copy 0 2 [] 2) [10, 11] [])"
    by (rule run_step [OF r6 spsc_step.p_begin [where packet = "[12]" and taken = 1]]) (simp_all add: ring_at_def)
  have r8: "spsc_reachable ?s0 (ring_at 2 0 [10, 11, 0, 0] False (P_Copy [12] 0 2) (C_Copy 0 2 [10] 2) [10, 11] [])"
    by (rule run_step [OF r7 spsc_step.c_copy [where rd = 0 and n = 2 and out = "[]" and frames = 2]]) (simp_all add: ring_at_def)
  have r9: "spsc_reachable ?s0 (ring_at 2 0 [10, 11, 12, 0] False (P_Copy [12] 1 2) (C_Copy 0 2 [10] 2) [10, 11] [])"
    by (rule run_step [OF r8 spsc_step.p_copy [where ps = "[12]" and k = 0 and b = 2]]) (simp_all add: ring_at_def)
  show ?thesis by (rule r9)
qed

lemma ring_run_delivered: "spsc_reachable (spsc_start 4 2 [0, 0, 0, 0]) (ring_at 2 2 [10, 11, 12, 0] False (P_Copy [12] 1 2) C_Idle [10, 11] [10, 11])"
proof -
  let ?s0 = "spsc_start 4 2 [0, 0, 0, 0 :: int]"
  have r10: "spsc_reachable ?s0 (ring_at 2 0 [10, 11, 12, 0] False (P_Copy [12] 1 2) (C_Copy 0 2 [10, 11] 2) [10, 11] [])"
    by (rule run_step [OF ring_run_copying spsc_step.c_copy [where rd = 0 and n = 2 and out = "[10]" and frames = 2]]) (simp_all add: ring_at_def)
  have r11: "spsc_reachable ?s0 (ring_at 2 0 [10, 11, 12, 0] False (P_Copy [12] 1 2) (C_Store 2 [10, 11]) [10, 11] [])"
    by (rule run_step [OF r10 spsc_step.c_prime [where rd = 0 and n = 2 and out = "[10, 11]" and frames = 2]]) (simp_all add: ring_at_def)
  have r12: "spsc_reachable ?s0 (ring_at 2 2 [10, 11, 12, 0] False (P_Copy [12] 1 2) C_Idle [10, 11] [10, 11])"
    by (rule run_step [OF r11 spsc_step.c_store [where r = 2 and out = "[10, 11]"]]) (simp_all add: ring_at_def)
  show ?thesis by (rule r12)
qed

theorem spsc_no_torn_frame_witness:
  "\<exists>s t. spsc_reachable (spsc_start 4 2 [0, 0, 0, 0 :: int]) s \<and> spsc_reachable s t \<and>
     sp_producer s = P_Copy [12] 1 2 \<and> sp_consumer s = C_Copy 0 2 [10] 2 \<and> [10] = take 1 (drop 0 (sp_sent s)) \<and>
     sp_delivered t = [10, 11] \<and> subseq (sp_delivered t) (sp_sent t)"
proof -
  let ?s = "ring_at 2 0 [10, 11, 12, 0] False (P_Copy [12] 1 2) (C_Copy 0 2 [10] 2) [10, 11] []" and ?t = "ring_at 2 2 [10, 11, 12, 0] False (P_Copy [12] 1 2) C_Idle [10, 11] [10, 11]"
  have "spsc_reachable ?s ?t"
    by (rule run_step [OF run_step [OF run_step [OF spsc_refl
      spsc_step.c_copy [where rd = 0 and n = 2 and out = "[10]" and frames = 2] refl]
      spsc_step.c_prime [where rd = 0 and n = 2 and out = "[10, 11]" and frames = 2] refl]
      spsc_step.c_store [where r = 2 and out = "[10, 11]"]])
      (simp_all add: ring_at_def)
  moreover have "[10] = take 1 (drop 0 (sp_sent ?s))"
    using spsc_no_torn_frame [OF ring_run_copying] by (simp add: ring_at_def)
  moreover have "subseq (sp_delivered ?t) (sp_sent ?t)" using spsc_no_torn_frame [OF ring_run_delivered] by simp
  moreover have "sp_producer ?s = P_Copy [12] 1 2" "sp_consumer ?s = C_Copy 0 2 [10] 2" "sp_delivered ?t = [10, 11]"
    by (simp_all add: ring_at_def)
  ultimately show ?thesis using ring_run_copying by blast
qed

text \<open>
  On the consumer's side a read delivers the oldest frames still wanted and pads with
  silence; when the level has drifted past twice the target it drops exactly the excess, so the
  level left before the copy is the target; and it re-primes exactly when it had to pad.
\<close>

theorem audio_ring_read_recentres:
  assumes "audio_ring_ok s" "0 < frames" "0 < ring_channels s" "0 < capacityFrames s" "\<not> priming s"
    and "audio_ring_read True frames s = (taken, dst, t)"
  shows "dst = Some (take taken (drop (resync_excess s) (ring_content s)) @
        replicate (nat frames - taken) (silence s)) \<and>
    ring_content t = drop (resync_excess s + taken) (ring_content s) \<and>
    (0 < targetFrames s \<and> targetFrames s * 2 < int (bufferedFrames s) \<longrightarrow>
      int (bufferedFrames s - resync_excess s) = targetFrames s) \<and>
    priming t = (taken < nat frames)"
proof -
  have "0 \<le> targetFrames s" using assms(1,4) by (simp add: audio_ring_ok_def)
  then have "0 < targetFrames s \<and> targetFrames s * 2 < int (bufferedFrames s) \<longrightarrow>
      int (bufferedFrames s - resync_excess s) = targetFrames s"
    by (auto simp: resync_excess_def)
  with ring_read_spec [OF assms] show ?thesis by blast
qed

theorem audio_ring_read_recentres_witness:
  "\<exists>taken dst t. audio_ring_read True 1
     \<lparr>ring_channels = 1, ring_sampleRate = 1000, capacityFrames = 8, targetFrames = 2,
      buffer = map (\<lambda>i. [i]) [10, 11, 12, 13, 14, 15, 16, 17 :: int], write_count = 5, read_count = 0,
      priming = False, ring_written = 5, ring_read = 0, ring_underruns = 0, ring_overruns = 0, resyncs = 0\<rparr> =
     (taken, dst, t) \<and> priming t = (taken < 1)"
proof -
  let ?s = "\<lparr>ring_channels = 1, ring_sampleRate = 1000, capacityFrames = 8, targetFrames = 2,
      buffer = map (\<lambda>i. [i]) [10, 11, 12, 13, 14, 15, 16, 17 :: int], write_count = 5, read_count = 0,
      priming = False, ring_written = 5, ring_read = 0, ring_underruns = 0, ring_overruns = 0, resyncs = 0\<rparr>"
  obtain taken dst t where r: "audio_ring_read True 1 ?s = (taken, dst, t)" by (metis prod_cases3)
  have "priming t = (taken < nat 1)"
    using audio_ring_read_recentres [OF _ _ _ _ _ r]
    by (simp add: audio_ring_ok_def bufferedFrames_def)
  with r show ?thesis by auto
qed

end
