(* ===== verification/Json.thy ===== *)
theory Json
  imports Ieee
begin

text \<open>
  \<open>core/json\<close>: the value type, the serializer and the parser. The parser state is the rest of
  the text; an error is its message with the length of the rest at the point of failure, which
  \<open>json_parse\<close> turns into the byte offset the code reports. The depth limit bounds the recursion;
  the two element loops have fuel, one more than the length of the text being enough.
\<close>

section \<open>Values\<close>

datatype json =
    Null
  | Bool bool
  | Number double
  | String string
  | Array "json list"
  | Object "(string \<times> json) list"

definition number_of_int :: "int \<Rightarrow> json" where
  "number_of_int i = Number (of_i i)"

definition isNull :: "json \<Rightarrow> bool" where "isNull v \<longleftrightarrow> v = Null"

definition isBool :: "json \<Rightarrow> bool" where
  "isBool v \<longleftrightarrow> (case v of Bool _ \<Rightarrow> True | _ \<Rightarrow> False)"

definition isNumber :: "json \<Rightarrow> bool" where
  "isNumber v \<longleftrightarrow> (case v of Number _ \<Rightarrow> True | _ \<Rightarrow> False)"

definition isString :: "json \<Rightarrow> bool" where
  "isString v \<longleftrightarrow> (case v of String _ \<Rightarrow> True | _ \<Rightarrow> False)"

definition isArray :: "json \<Rightarrow> bool" where
  "isArray v \<longleftrightarrow> (case v of Array _ \<Rightarrow> True | _ \<Rightarrow> False)"

definition isObject :: "json \<Rightarrow> bool" where
  "isObject v \<longleftrightarrow> (case v of Object _ \<Rightarrow> True | _ \<Rightarrow> False)"

definition asBool :: "bool \<Rightarrow> json \<Rightarrow> bool" where
  "asBool fallback v = (case v of Bool b \<Rightarrow> b | Number x \<Rightarrow> \<not> eq x (Fin 0) | _ \<Rightarrow> fallback)"

definition asDouble :: "double \<Rightarrow> json \<Rightarrow> double" where
  "asDouble fallback v = (case v of Number x \<Rightarrow> x | Bool b \<Rightarrow> Fin (if b then 1 else 0) | _ \<Rightarrow> fallback)"

definition asInt64 :: "int \<Rightarrow> json \<Rightarrow> int" where
  "asInt64 fallback v = (case v of Number x \<Rightarrow> llround x | Bool b \<Rightarrow> (if b then 1 else 0) | _ \<Rightarrow> fallback)"

definition asInt :: "int \<Rightarrow> json \<Rightarrow> int" where
  "asInt fallback v = i32 (asInt64 fallback v)"

definition asString :: "string \<Rightarrow> json \<Rightarrow> string" where
  "asString fallback v = (case v of String s \<Rightarrow> s | _ \<Rightarrow> fallback)"

definition push :: "json \<Rightarrow> json \<Rightarrow> json" where
  "push x v = (case v of Array xs \<Rightarrow> Array (xs @ [x]) | _ \<Rightarrow> Array [x])"

definition size_of :: "json \<Rightarrow> nat" where
  "size_of v = (case v of Array xs \<Rightarrow> length xs | Object ms \<Rightarrow> length ms | _ \<Rightarrow> 0)"

definition elem_at :: "json \<Rightarrow> nat \<Rightarrow> json" where
  "elem_at v i = (case v of Array xs \<Rightarrow> if i < length xs then xs ! i else Null | _ \<Rightarrow> Null)"

fun set_member :: "string \<Rightarrow> json \<Rightarrow> (string \<times> json) list \<Rightarrow> (string \<times> json) list" where
  "set_member k v [] = [(k, v)]"
| "set_member k v ((j, w) # ms) = (if j = k then (j, v) # ms else (j, w) # set_member k v ms)"

definition set_key :: "string \<Rightarrow> json \<Rightarrow> json \<Rightarrow> json" where
  "set_key k x v = (case v of Object ms \<Rightarrow> Object (set_member k x ms) | _ \<Rightarrow> Object [(k, x)])"

definition has :: "json \<Rightarrow> string \<Rightarrow> bool" where
  "has v k = (case v of Object ms \<Rightarrow> map_of ms k \<noteq> None | _ \<Rightarrow> False)"

definition get_key :: "json \<Rightarrow> string \<Rightarrow> json" where
  "get_key v k = (case v of
     Object ms \<Rightarrow> (case map_of ms k of Some x \<Rightarrow> x | None \<Rightarrow> Null) | _ \<Rightarrow> Null)"

section \<open>Serialization\<close>

abbreviation lf :: char where "lf \<equiv> CHR 0x0A"

abbreviation quote :: char where "quote \<equiv> CHR 0x22"

abbreviation backslash :: char where "backslash \<equiv> CHR 0x5C"

definition hexdig :: "nat \<Rightarrow> char" where
  "hexdig d = (if d < 10 then char_of (48 + d) else char_of (87 + d))"

definition hex4_text :: "nat \<Rightarrow> string" where
  "hex4_text n = map hexdig [n div 4096 mod 16, n div 256 mod 16, n div 16 mod 16, n mod 16]"

definition escape_char :: "char \<Rightarrow> string" where
  "escape_char c =
     (if c = quote then [backslash, quote]
      else if c = backslash then [backslash, backslash]
      else if c = lf then backslash # ''n''
      else if code c = 13 then backslash # ''r''
      else if code c = 9 then backslash # ''t''
      else if code c = 8 then backslash # ''b''
      else if code c = 12 then backslash # ''f''
      else if code c < 32 then backslash # CHR ''u'' # hex4_text (code c)
      else [c])"

definition escaped :: "string \<Rightarrow> string" where
  "escaped s = [quote] @ concat (map escape_char s) @ [quote]"

definition number_text :: "double \<Rightarrow> string" where
  "number_text x = (case x of
     Fin r \<Rightarrow> (if r = of_int \<lfloor>r\<rfloor> \<and> \<bar>r\<bar> < 1000000000000000 then dec_int \<lfloor>r\<rfloor> else print_10g r)
   | _ \<Rightarrow> ''null'')"

definition spaces :: "nat \<Rightarrow> string" where
  "spaces n = replicate n (CHR '' '')"

text \<open>The loop that writes a separator before every element but the first.\<close>

definition separated :: "string \<Rightarrow> string list \<Rightarrow> string" where
  "separated sep xs = (case xs of [] \<Rightarrow> [] | x # ys \<Rightarrow> x @ concat (map (\<lambda>y. sep @ y) ys))"

fun serialize_into :: "bool \<Rightarrow> nat \<Rightarrow> json \<Rightarrow> string" where
  "serialize_into pretty depth Null = ''null''"
| "serialize_into pretty depth (Bool b) = (if b then ''true'' else ''false'')"
| "serialize_into pretty depth (Number x) = number_text x"
| "serialize_into pretty depth (String s) = escaped s"
| "serialize_into pretty depth (Array vs) =
     (if vs = [] then ''[]''
      else (if pretty then ''['' @ [lf] else ''['') @
        separated (if pretty then '','' @ [lf] else '','')
          (map (\<lambda>v. (if pretty then spaces ((depth + 1) * 2) else []) @ serialize_into pretty (depth + 1) v) vs) @
        (if pretty then [lf] @ spaces (depth * 2) @ '']'' else '']''))"
| "serialize_into pretty depth (Object ms) =
     (if ms = [] then ''{}''
      else (if pretty then ''{'' @ [lf] else ''{'') @
        separated (if pretty then '','' @ [lf] else '','')
          (map (\<lambda>(k, v). (if pretty then spaces ((depth + 1) * 2) else []) @ escaped k @
             (if pretty then '': '' else '':'') @ serialize_into pretty (depth + 1) v) ms) @
        (if pretty then [lf] @ spaces (depth * 2) @ ''}'' else ''}''))"

definition serialize :: "bool \<Rightarrow> json \<Rightarrow> string" where
  "serialize pretty v = serialize_into pretty 0 v"

section \<open>Parsing\<close>

type_synonym 'a presult = "(string \<times> nat) + ('a \<times> string)"

definition json_space :: "char \<Rightarrow> bool" where
  "json_space c \<longleftrightarrow> code c = 32 \<or> code c = 9 \<or> code c = 10 \<or> code c = 13"

definition skip_ws :: "string \<Rightarrow> string" where
  "skip_ws = dropWhile json_space"

definition appendUtf8 :: "nat \<Rightarrow> string" where
  "appendUtf8 c =
     (if c < 128 then [char_of c]
      else if c < 2048 then [char_of (192 + c div 64), char_of (128 + c mod 64)]
      else if c < 65536 then [char_of (224 + c div 4096), char_of (128 + c div 64 mod 64), char_of (128 + c mod 64)]
      else [char_of (240 + c div 262144), char_of (128 + c div 4096 mod 64), char_of (128 + c div 64 mod 64),
            char_of (128 + c mod 64)])"

text \<open>\<open>parseHex4\<close>: the code, or the error; the caller drops the four digits.\<close>

definition parseHex4 :: "string \<Rightarrow> (string \<times> nat) + nat" where
  "parseHex4 s =
     (if length s < 4 then Inl (''truncated '' @ [backslash] @ ''u escape'', length s)
      else let good = takeWhile ishexdigit (take 4 s)
           in if length good < 4 then Inl (''invalid hex digit'', length s - (length good + 1))
              else Inr (hex_val good))"

text \<open>
  After a high surrogate: the code of the pair and how much of the text it took beyond the first
  four digits. A second escape that is not a low surrogate is left in place.
\<close>

definition surrogate :: "nat \<Rightarrow> string \<Rightarrow> nat \<times> nat" where
  "surrogate c s =
     (if 55296 \<le> c \<and> c \<le> 56319 \<and> 2 \<le> length s \<and> s ! 0 = backslash \<and> s ! 1 = CHR ''u''
      then (case parseHex4 (drop 2 s) of
              Inr low \<Rightarrow> (if 56320 \<le> low \<and> low \<le> 57343
                          then (65536 + (c - 55296) * 1024 + (low - 56320), 6) else (c, 0))
            | Inl _ \<Rightarrow> (c, 0))
      else (c, 0))"

definition simple_escape :: "char \<Rightarrow> char option" where
  "simple_escape e =
     (if e = quote then Some quote else if e = backslash then Some backslash
      else if e = CHR ''/'' then Some (CHR ''/'')
      else if e = CHR ''b'' then Some (CHR 0x08) else if e = CHR ''f'' then Some (CHR 0x0C)
      else if e = CHR ''n'' then Some lf else if e = CHR ''r'' then Some (CHR 0x0D)
      else if e = CHR ''t'' then Some (CHR 0x09) else None)"

function string_body :: "string \<Rightarrow> string \<Rightarrow> string presult" where
  "string_body acc [] = Inl (''unterminated string'', 0)"
| "string_body acc (c # s) =
     (if c = quote then Inr (acc, s)
      else if c \<noteq> backslash then string_body (acc @ [c]) s
      else case s of
        [] \<Rightarrow> Inl (''unterminated escape'', 0)
      | e # t \<Rightarrow>
          (case simple_escape e of
             Some x \<Rightarrow> string_body (acc @ [x]) t
           | None \<Rightarrow>
               if e = CHR ''u''
               then (case parseHex4 t of
                       Inl err \<Rightarrow> Inl err
                     | Inr h \<Rightarrow> string_body (acc @ appendUtf8 (fst (surrogate h (drop 4 t))))
                                  (drop (4 + snd (surrogate h (drop 4 t))) t))
               else Inl (''invalid escape'', length t)))"
  by pat_completeness auto
termination by (relation "measure (\<lambda>(acc, s). length s)") auto

definition parse_string :: "string \<Rightarrow> string presult" where
  "parse_string s = (case s of
     c # t \<Rightarrow> if c = quote then string_body [] t else Inl (''expected string'', length s)
   | [] \<Rightarrow> Inl (''expected string'', 0))"

text \<open>The scan of \<open>parseNumber\<close>: how many characters it takes, and whether it saw a digit.\<close>

definition skip_sign :: "string \<Rightarrow> string" where
  "skip_sign s = (case s of c # t \<Rightarrow> if c = CHR ''-'' \<or> c = CHR ''+'' then t else s | [] \<Rightarrow> s)"

definition number_rest :: "string \<Rightarrow> bool \<times> string" where
  "number_rest s =
     (let s1 = skip_sign s;
          d1 = takeWhile isdigit s1; s2 = dropWhile isdigit s1;
          (d2, s3) = (case s2 of
              c # t \<Rightarrow> if c = CHR ''.'' then (takeWhile isdigit t, dropWhile isdigit t) else ([], s2)
            | [] \<Rightarrow> ([], s2));
          s4 = (case s3 of
              c # t \<Rightarrow> if c = CHR ''e'' \<or> c = CHR ''E'' then dropWhile isdigit (skip_sign t) else s3
            | [] \<Rightarrow> s3)
      in (d1 \<noteq> [] \<or> d2 \<noteq> [], s4))"

definition parse_number :: "string \<Rightarrow> json presult" where
  "parse_number s =
     (let (any, r) = number_rest s
      in if \<not> any then Inl (''invalid number'', length r)
         else Inr (Number (case strtod (take (length s - length r) s) of
                             Some (v, _, _) \<Rightarrow> v | None \<Rightarrow> Fin 0), r))"

definition literal :: "string \<Rightarrow> json \<Rightarrow> string \<Rightarrow> json presult" where
  "literal word v s = (if prefixed word s then Inr (v, drop (length word) s)
     else Inl (''invalid literal'', length s))"

definition single_quoted :: "string \<Rightarrow> string" where
  "single_quoted s = [CHR 0x27] @ s @ [CHR 0x27]"

definition expected_or :: "string \<Rightarrow> string \<Rightarrow> string" where
  "expected_or a b = ''expected '' @ single_quoted a @ '' or '' @ single_quoted b"

fun elements :: "(string \<Rightarrow> json presult) \<Rightarrow> nat \<Rightarrow> json list \<Rightarrow> string \<Rightarrow> json presult" where
  "elements p 0 acc s = Inl (''out of fuel'', 0)"
| "elements p (Suc n) acc s = (case p s of
     Inl e \<Rightarrow> Inl e
   | Inr (v, r) \<Rightarrow>
       (case skip_ws r of
          c # t \<Rightarrow> if c = CHR '','' then elements p n (acc @ [v]) t
                  else if c = CHR '']'' then Inr (Array (acc @ [v]), t)
                  else Inl (expected_or '','' '']'', length (c # t))
        | [] \<Rightarrow> Inl (expected_or '','' '']'', 0)))"

definition parse_array :: "(string \<Rightarrow> json presult) \<Rightarrow> string \<Rightarrow> json presult" where
  "parse_array p s =
     (case skip_ws s of
        c # t \<Rightarrow> if c = CHR '']'' then Inr (Array [], t) else elements p (Suc (length s)) [] (c # t)
      | [] \<Rightarrow> elements p (Suc (length s)) [] [])"

fun members :: "(string \<Rightarrow> json presult) \<Rightarrow> nat \<Rightarrow> (string \<times> json) list \<Rightarrow> string \<Rightarrow> json presult" where
  "members p 0 acc s = Inl (''out of fuel'', 0)"
| "members p (Suc n) acc s =
     (case parse_string (skip_ws s) of
        Inl e \<Rightarrow> Inl e
      | Inr (k, r) \<Rightarrow>
          (case skip_ws r of
             c # t \<Rightarrow>
               if c \<noteq> CHR '':'' then Inl (''expected '' @ single_quoted '':'', length (c # t))
               else (case p t of
                 Inl e \<Rightarrow> Inl e
               | Inr (v, u) \<Rightarrow>
                   (case skip_ws u of
                      d # w \<Rightarrow> if d = CHR '','' then members p n (set_member k v acc) w
                              else if d = CHR ''}'' then Inr (Object (set_member k v acc), w)
                              else Inl (expected_or '','' ''}'',
                                        length (d # w))
                    | [] \<Rightarrow> Inl (expected_or '','' ''}'', 0)))
           | [] \<Rightarrow> Inl (''expected '' @ single_quoted '':'', 0)))"

definition parse_object :: "(string \<Rightarrow> json presult) \<Rightarrow> string \<Rightarrow> json presult" where
  "parse_object p s =
     (case skip_ws s of
        c # t \<Rightarrow> if c = CHR ''}'' then Inr (Object [], t) else members p (Suc (length s)) [] (c # t)
      | [] \<Rightarrow> members p (Suc (length s)) [] [])"

definition value_inner :: "(string \<Rightarrow> json presult) \<Rightarrow> string \<Rightarrow> json presult" where
  "value_inner p s0 =
     (case skip_ws s0 of
        [] \<Rightarrow> Inl (''unexpected end of input'', 0)
      | c # t \<Rightarrow>
          if c = CHR ''{'' then parse_object p t
          else if c = CHR ''['' then parse_array p t
          else if c = quote then (case parse_string (c # t) of Inl e \<Rightarrow> Inl e | Inr (x, r) \<Rightarrow> Inr (String x, r))
          else if c = CHR ''t'' then literal ''true'' (Bool True) (c # t)
          else if c = CHR ''f'' then literal ''false'' (Bool False) (c # t)
          else if c = CHR ''n'' then literal ''null'' Null (c # t)
          else parse_number (c # t))"

definition kMaxDepth :: nat where "kMaxDepth = 64"

text \<open>\<open>parseValue\<close>, by the number of levels still allowed.\<close>

primrec parse_value :: "nat \<Rightarrow> string \<Rightarrow> json presult" where
  "parse_value 0 s = Inl (''nesting too deep'', length s)"
| "parse_value (Suc d) s = value_inner (parse_value d) s"

definition at_offset :: "string \<Rightarrow> string \<times> nat \<Rightarrow> string" where
  "at_offset text e = fst e @ '' at offset '' @ dec (length text - snd e)"

definition json_parse :: "string \<Rightarrow> string + json" where
  "json_parse text =
     (case parse_value kMaxDepth (skip_ws text) of
        Inl e \<Rightarrow> Inl (at_offset text e)
      | Inr (v, r) \<Rightarrow>
          (let t = skip_ws r
           in if t = [] then Inr v else Inl (at_offset text (''trailing characters after value'', length t))))"

section \<open>Every parse ends, inside the text\<close>

text \<open>The messages the parser can report.\<close>

definition messages :: "string set" where
  "messages = {''nesting too deep'', ''unexpected end of input'', ''invalid literal'', ''invalid number'',
     ''expected string'', ''unterminated string'', ''unterminated escape'', ''invalid escape'',
     ''truncated '' @ [backslash] @ ''u escape'', ''invalid hex digit'',
     ''expected '' @ single_quoted '':'', expected_or '','' '']'', expected_or '','' ''}''}"

definition inside :: "string \<Rightarrow> 'a presult \<Rightarrow> bool" where
  "inside s res \<longleftrightarrow> (case res of Inl (m, k) \<Rightarrow> m \<in> messages \<and> k \<le> length s | Inr (_, r) \<Rightarrow> length r \<le> length s)"

lemma inside_Inl [simp]: "inside s (Inl e) \<longleftrightarrow> fst e \<in> messages \<and> snd e \<le> length s"
  by (cases e) (simp add: inside_def)

lemma inside_Inr [simp]: "inside s (Inr x) \<longleftrightarrow> length (snd x) \<le> length s"
  by (cases x) (simp add: inside_def)

lemma inside_mono: "inside t res \<Longrightarrow> length t \<le> length s \<Longrightarrow> inside s res"
  by (cases res) auto

lemma skip_ws_length: "length (skip_ws s) \<le> length s"
  by (simp add: skip_ws_def length_dropWhile_le)

lemma parseHex4_inside: "parseHex4 s = Inl e \<Longrightarrow> fst e \<in> messages \<and> snd e \<le> length s"
  by (auto simp: parseHex4_def messages_def Let_def split: if_splits)

lemma string_body_inside: "inside s (string_body acc s)"
proof (induction acc s rule: string_body.induct)
  case (1 acc)
  then show ?case by (simp add: messages_def)
next
  case (2 acc c s)
  show ?case
  proof (cases "c = quote \<or> c \<noteq> backslash")
    case True
    then show ?thesis using "2.IH"(1) by (auto intro: inside_mono)
  next
    case False
    show ?thesis
    proof (cases s)
      case Nil
      with False show ?thesis by (simp add: messages_def)
    next
      case (Cons e t)
      show ?thesis
      proof (cases "simple_escape e")
        case (Some x)
        have "inside t (string_body (acc @ [x]) t)"
          using "2.IH"(3) False Cons Some by simp
        with False Cons Some show ?thesis by (auto intro: inside_mono)
      next
        case None
        show ?thesis
        proof (cases "e = CHR ''u''")
          case False
          with \<open>\<not> (c = quote \<or> c \<noteq> backslash)\<close> Cons None show ?thesis by (auto simp: messages_def)
        next
          case u: True
          show ?thesis
          proof (cases "parseHex4 t")
            case (Inl err)
            from parseHex4_inside [OF Inl] show ?thesis using False Cons None u Inl by simp
          next
            case (Inr h)
            let ?r = "drop (4 + snd (surrogate h (drop 4 t))) t"
            have "inside ?r (string_body (acc @ appendUtf8 (fst (surrogate h (drop 4 t)))) ?r)"
              using "2.IH"(2) [OF _ _ Cons None u Inr] False by simp
            with False Cons None u Inr show ?thesis by (auto intro: inside_mono)
          qed
        qed
      qed
    qed
  qed
qed

lemma parse_string_inside: "inside s (parse_string s)"
proof (cases s)
  case (Cons c t)
  have "inside s (string_body [] t)" by (rule inside_mono [OF string_body_inside]) (simp add: Cons)
  then show ?thesis by (auto simp: Cons parse_string_def messages_def)
qed (simp add: parse_string_def messages_def)

lemma skip_sign_length: "length (skip_sign s) \<le> length s"
  by (cases s) (auto simp: skip_sign_def)

lemma length_dropWhile_trans: "length t \<le> n \<Longrightarrow> length (dropWhile P t) \<le> n"
  using length_dropWhile_le [of P t] by (rule order_trans)

lemma number_rest_length: "number_rest s = (any, r) \<Longrightarrow> length r \<le> length s"
proof -
  assume n: "number_rest s = (any, r)"
  define s2 where "s2 = dropWhile isdigit (skip_sign s)"
  have s2: "length s2 \<le> length s"
    unfolding s2_def by (rule length_dropWhile_trans) (rule skip_sign_length)
  obtain d2 s3 where s3: "(case s2 of c # t \<Rightarrow> if c = CHR ''.'' then (takeWhile isdigit t, dropWhile isdigit t) else ([], s2)
            | [] \<Rightarrow> ([], s2)) = (d2, s3)" by fastforce
  have "length s3 \<le> length s2"
    using s3 length_dropWhile_trans [of "tl s2" "length s2" isdigit] by (cases s2) (auto split: if_splits)
  moreover have "r = (case s3 of c # t \<Rightarrow> if c = CHR ''e'' \<or> c = CHR ''E'' then dropWhile isdigit (skip_sign t) else s3
            | [] \<Rightarrow> s3)"
    using n s3 unfolding number_rest_def Let_def s2_def [symmetric] by simp
  moreover have "length (dropWhile isdigit (skip_sign t)) \<le> length t" for t
    by (rule length_dropWhile_trans) (rule skip_sign_length)
  ultimately have "length r \<le> length s3"
    by (cases s3) (auto split: if_splits intro: le_SucI)
  with s2 \<open>length s3 \<le> length s2\<close> show ?thesis by simp
qed

lemma parse_number_inside: "inside s (parse_number s)"
  using number_rest_length [of s]
  by (cases "number_rest s") (auto simp: parse_number_def messages_def)

lemma literal_inside: "inside s (literal w v s)"
  by (auto simp: literal_def messages_def)

lemma elements_inside:
  "(\<And>s. inside s (p s)) \<Longrightarrow> length s < n \<Longrightarrow> inside s (elements p n acc s)"
proof (induction n arbitrary: acc s)
  case (Suc n)
  show ?case
  proof (cases "p s")
    case (Inl e)
    then show ?thesis using Suc.prems(1) [of s] by simp
  next
    case (Inr vr)
    obtain v r where vr: "vr = (v, r)" by (cases vr)
    have r: "length r \<le> length s" using Suc.prems(1) [of s] Inr vr by simp
    show ?thesis
    proof (cases "skip_ws r")
      case Nil
      then show ?thesis using Inr vr by (simp add: messages_def)
    next
      case (Cons c t)
      have t: "length t < length s" using skip_ws_length [of r] Cons r by simp
      then have "inside t (elements p n (acc @ [v]) t)" using Suc.prems by (intro Suc.IH) simp_all
      then have "inside s (elements p n (acc @ [v]) t)" by (rule inside_mono) (use t in simp)
      then show ?thesis using Inr vr Cons t by (simp add: messages_def)
    qed
  qed
qed simp

lemma members_inside:
  "(\<And>s. inside s (p s)) \<Longrightarrow> length s < n \<Longrightarrow> inside s (members p n acc s)"
proof (induction n arbitrary: acc s)
  case (Suc n)
  note ps = parse_string_inside [of "skip_ws s"]
  show ?case
  proof (cases "parse_string (skip_ws s)")
    case (Inl e)
    then show ?thesis using ps skip_ws_length [of s] by (simp add: le_trans)
  next
    case (Inr kr)
    obtain k r where kr: "kr = (k, r)" by (cases kr)
    have r: "length r \<le> length s" using ps skip_ws_length [of s] Inr kr by simp
    show ?thesis
    proof (cases "skip_ws r")
      case Nil
      then show ?thesis using Inr kr by (simp add: messages_def)
    next
      case (Cons c t)
      have t: "length t < length s" using skip_ws_length [of r] Cons r by simp
      show ?thesis
      proof (cases "c \<noteq> CHR '':''")
        case True
        then show ?thesis using Inr kr Cons t by (simp add: messages_def)
      next
        case colon: False
        show ?thesis
        proof (cases "p t")
          case (Inl e)
          then show ?thesis using Suc.prems(1) [of t] \<open>parse_string (skip_ws s) = Inr kr\<close> kr Cons colon t by simp
        next
          case pt: (Inr vu)
          obtain v u where vu: "vu = (v, u)" by (cases vu)
          have u: "length u \<le> length t" using Suc.prems(1) [of t] pt vu by simp
          show ?thesis
          proof (cases "skip_ws u")
            case Nil
            then show ?thesis using Inr kr Cons colon pt vu by (simp add: messages_def)
          next
            case sw: (Cons d w)
            have w: "length w < length s" using skip_ws_length [of u] sw u t by simp
            then have "inside w (members p n (set_member k v acc) w)" using Suc.prems by (intro Suc.IH) simp_all
            then have "inside s (members p n (set_member k v acc) w)" by (rule inside_mono) (use w in simp)
            then show ?thesis using Inr kr Cons colon pt vu sw w by (simp add: messages_def)
          qed
        qed
      qed
    qed
  qed
qed simp

lemma parse_array_inside: "(\<And>s. inside s (p s)) \<Longrightarrow> inside s (parse_array p s)"
proof -
  assume p: "\<And>s. inside s (p s)"
  show ?thesis
  proof (cases "skip_ws s")
    case Nil
    have "inside [] (elements p (Suc (length s)) [] [])" by (rule elements_inside [OF p]) simp
    then show ?thesis using Nil by (auto simp: parse_array_def intro: inside_mono)
  next
    case (Cons c t)
    have l: "length (c # t) \<le> length s" using skip_ws_length [of s] Cons by simp
    have "inside (c # t) (elements p (Suc (length s)) [] (c # t))"
      by (rule elements_inside [OF p]) (use l in simp)
    then show ?thesis using Cons l by (auto simp: parse_array_def intro: inside_mono)
  qed
qed

lemma parse_object_inside: "(\<And>s. inside s (p s)) \<Longrightarrow> inside s (parse_object p s)"
proof -
  assume p: "\<And>s. inside s (p s)"
  show ?thesis
  proof (cases "skip_ws s")
    case Nil
    have "inside [] (members p (Suc (length s)) [] [])" by (rule members_inside [OF p]) simp
    then show ?thesis using Nil by (auto simp: parse_object_def intro: inside_mono)
  next
    case (Cons c t)
    have l: "length (c # t) \<le> length s" using skip_ws_length [of s] Cons by simp
    have "inside (c # t) (members p (Suc (length s)) [] (c # t))"
      by (rule members_inside [OF p]) (use l in simp)
    then show ?thesis using Cons l by (auto simp: parse_object_def intro: inside_mono)
  qed
qed

lemma value_inner_inside: "(\<And>s. inside s (p s)) \<Longrightarrow> inside s (value_inner p s)"
proof -
  assume p: "\<And>s. inside s (p s)"
  show ?thesis
  proof (cases "skip_ws s")
    case Nil
    then show ?thesis by (simp add: value_inner_def messages_def)
  next
    case (Cons c t)
    have l: "length (c # t) \<le> length s" using skip_ws_length [of s] Cons by simp
    note m = inside_mono [OF _ l]
    have o: "inside s (parse_object p t)" "inside s (parse_array p t)"
      using parse_object_inside [OF p, of t] parse_array_inside [OF p, of t] l by (auto intro: inside_mono)
    have st: "inside s (case parse_string (c # t) of Inl e \<Rightarrow> Inl e | Inr (x, r) \<Rightarrow> Inr (String x, r))"
      using m [OF parse_string_inside] by (auto split: sum.splits prod.splits)
    have i: "inside s (if b then x else y)" if "inside s x" "inside s y" for b and x y :: "json presult"
      using that by simp
    show ?thesis
      unfolding value_inner_def Cons list.case
      by (intro i o st m [OF literal_inside] m [OF parse_number_inside])
  qed
qed

lemma parse_value_inside: "inside s (parse_value d s)"
  by (induction d arbitrary: s) (simp_all add: messages_def value_inner_inside)

section \<open>Reading back what was written\<close>

subsection \<open>Strings\<close>

lemma hexdig_facts: "d < 16 \<Longrightarrow> ishexdigit (hexdig d) \<and> hex_digit_val (hexdig d) = d"
  by (auto simp: hexdig_def ishexdigit_def hex_digit_val_def isdigit_def)

lemma parseHex4_text: "n < 65536 \<Longrightarrow> parseHex4 (hex4_text n @ r) = Inr n"
proof -
  assume n: "n < 65536"
  let ?ds = "[n div 4096 mod 16, n div 256 mod 16, n div 16 mod 16, n mod 16]"
  have t: "takeWhile ishexdigit (take 4 (hex4_text n @ r)) = hex4_text n"
    by (simp add: hex4_text_def hexdig_facts)
  have "hex_val (hex4_text n) = ((n div 4096 mod 16 * 16 + n div 256 mod 16) * 16 + n div 16 mod 16) * 16 + n mod 16"
    by (simp add: hex4_text_def hex_val_def hexdig_facts)
  also have "\<dots> = n"
  proof -
    define a b c where "a = n div 16" and "b = a div 16" and "c = b div 16"
    have d: "n div 256 = b" "n div 4096 = c" by (simp_all add: a_def b_def c_def div_mult2_eq [symmetric])
    have "c < 16" using n by (simp add: d(2) [symmetric] less_mult_imp_div_less)
    then have "c mod 16 * 16 + b mod 16 = b" by (simp add: c_def)
    moreover have "b * 16 + a mod 16 = a" by (simp add: b_def)
    moreover have "a * 16 + n mod 16 = n" by (simp add: a_def)
    ultimately show ?thesis by (simp only: d a_def [symmetric])
  qed
  finally show ?thesis unfolding parseHex4_def t by (simp add: hex4_text_def)
qed

lemma string_body_escape_char:
  "string_body acc (escape_char c @ s) = string_body (acc @ [c]) s"
proof -
  consider "c = quote" | "c = backslash" | "c = lf" | "code c \<in> {13, 9, 8, 12}"
    | "c \<noteq> quote" "c \<noteq> backslash" "c \<noteq> lf" "code c \<notin> {13, 9, 8, 12}" "code c < 32"
    | "c \<noteq> quote" "c \<noteq> backslash" "c \<noteq> lf" "code c \<notin> {13, 9, 8, 12}" "32 \<le> code c"
    by force
  then show ?thesis
  proof cases
    case 4
    then have "c = CHR 0x0D \<or> c = CHR 0x09 \<or> c = CHR 0x08 \<or> c = CHR 0x0C"
      by (simp add: code_inj [symmetric]) (simp add: code_def)
    then show ?thesis
      by (auto simp: escape_char_def simple_escape_def code_def char_of_def bit_Suc_0_iff)
  next
    case 5
    have c: "char_of (code c) = c" by (simp add: code_def)
    have h: "parseHex4 (hex4_text (code c) @ s) = Inr (code c)" using 5 by (intro parseHex4_text) simp
    have d: "drop 4 (hex4_text (code c) @ s) = s" by (simp add: hex4_text_def)
    have sg: "surrogate (code c) s = (code c, 0)" using 5 by (simp add: surrogate_def)
    have e: "escape_char c = backslash # CHR ''u'' # hex4_text (code c)"
      using 5 by (simp add: escape_char_def)
    have se: "simple_escape (CHR ''u'') = None" by (simp add: simple_escape_def)
    show ?thesis
      unfolding e using 5 c by (simp add: h d sg se appendUtf8_def del: drop_append)
  qed (auto simp: escape_char_def simple_escape_def)
qed

lemma string_body_escaped: "string_body acc (concat (map escape_char s) @ quote # r) = Inr (acc @ s, r)"
  by (induction s arbitrary: acc) (simp_all add: string_body_escape_char)

lemma parse_string_escaped: "parse_string (escaped s @ r) = Inr (s, r)"
  by (simp add: parse_string_def escaped_def string_body_escaped)

subsection \<open>Numbers\<close>

definition ends :: "string \<Rightarrow> bool" where
  "ends r \<longleftrightarrow> (case r of [] \<Rightarrow> True | c # _ \<Rightarrow> c \<in> {CHR '','', CHR '']'', CHR ''}'', lf})"

lemma ends_append: "e \<noteq> [] \<Longrightarrow> ends e \<Longrightarrow> ends (e @ r)"
  by (cases e) (simp_all add: ends_def)

lemma ends_digit: "ends r \<Longrightarrow> r = [] \<or> \<not> isdigit (hd r)"
  by (cases r) (auto simp: ends_def isdigit_def code_def)

lemma number_rest_dec: "ends r \<Longrightarrow> number_rest (dec n @ r) = (True, r)"
proof -
  assume r: "ends r"
  obtain c cs where c: "dec n = c # cs" "isdigit c" using dec_Cons by blast
  then have e: "skip_sign (dec n @ r) = dec n @ r" by (auto simp: skip_sign_def)
  have e2: "takeWhile isdigit (dec n @ r) = dec n" "dropWhile isdigit (dec n @ r) = r"
    using ends_digit [OF r] by (simp_all add: takeWhile_dec dropWhile_dec)
  have "number_rest (dec n @ r) =
      (let (d2, s3) = (case r of c # t \<Rightarrow> if c = CHR ''.'' then (takeWhile isdigit t, dropWhile isdigit t) else ([], r)
            | [] \<Rightarrow> ([], r));
          s4 = (case s3 of c # t \<Rightarrow> if c = CHR ''e'' \<or> c = CHR ''E'' then dropWhile isdigit (skip_sign t) else s3
            | [] \<Rightarrow> s3)
       in (True, s4))"
    by (simp only: number_rest_def Let_def e e2 dec_not_Nil simp_thms)
  then show ?thesis using r by (cases r) (auto simp: ends_def)
qed

lemma number_rest_dec_int: "ends r \<Longrightarrow> number_rest (dec_int i @ r) = (True, r)"
proof -
  assume r: "ends r"
  have "number_rest (CHR ''-'' # dec n @ r) = number_rest (dec n @ r)" for n
  proof -
    obtain c cs where "dec n = c # cs" "isdigit c" using dec_Cons by blast
    then show ?thesis by (auto simp: number_rest_def skip_sign_def)
  qed
  with number_rest_dec [OF r] show ?thesis by (simp add: dec_int_def)
qed

lemma parse_number_dec_int:
  assumes "ends r" "\<bar>i\<bar> < 1000000000000000"
  shows "parse_number (dec_int i @ r) = Inr (Number (Fin (of_int i)), r)"
proof -
  have "strtod (dec_int i @ []) = Some (Fin (of_int i), False, [])"
    using assms(2) by (intro strtod_dec_int) (simp_all add: number_ends_def)
  then show ?thesis using number_rest_dec_int [OF assms(1)] by (simp add: parse_number_def)
qed

subsection \<open>Values\<close>

text \<open>What is written losslessly: integral numbers below 1e15, and objects without repeated keys.\<close>

fun plain :: "json \<Rightarrow> bool" where
  "plain Null = True"
| "plain (Bool b) = True"
| "plain (Number x) = (case x of Fin r \<Rightarrow> r = of_int \<lfloor>r\<rfloor> \<and> \<bar>r\<bar> < 1000000000000000 | _ \<Rightarrow> False)"
| "plain (String s) = True"
| "plain (Array vs) = list_all plain vs"
| "plain (Object ms) = (distinct (map fst ms) \<and> list_all (\<lambda>(k, v). plain v) ms)"

fun levels :: "json \<Rightarrow> nat" where
  "levels (Array vs) = Suc (foldr max (map levels vs) 0)"
| "levels (Object ms) = Suc (foldr max (map (\<lambda>(k, v). levels v) ms) 0)"
| "levels v = 1"

lemma foldr_max: "x \<in> set xs \<Longrightarrow> x \<le> foldr max xs (0::nat)"
  by (induction xs) auto

definition blank :: "string \<Rightarrow> bool" where
  "blank w \<longleftrightarrow> list_all json_space w"

lemma blank_simps [simp]: "blank []" "blank (spaces n)" "blank (lf # w) = blank w" "blank (v @ w) = (blank v \<and> blank w)"
  by (auto simp: blank_def spaces_def json_space_def code_def list_all_iff)

lemma skip_ws_blank: "blank w \<Longrightarrow> \<not> json_space c \<Longrightarrow> skip_ws (w @ c # t) = c # t"
  by (simp add: skip_ws_def blank_def list_all_iff dropWhile_append2)

lemma not_space [simp]: "\<not> json_space (CHR '','')" "\<not> json_space (CHR '']'')" "\<not> json_space (CHR ''}'')"
  "\<not> json_space (CHR ''['')" "\<not> json_space (CHR ''{'')" "\<not> json_space quote" "\<not> json_space (CHR '':'')"
  "\<not> json_space (CHR ''t'')" "\<not> json_space (CHR ''f'')" "\<not> json_space (CHR ''n'')" "\<not> json_space (CHR ''-'')"
  by (simp_all add: json_space_def code_def)

text \<open>The first character of a written value.\<close>

lemma serialize_first:
  "plain v \<Longrightarrow> \<exists>c t. serialize_into pretty k v = c # t \<and> \<not> json_space c \<and> c \<noteq> CHR '']'' \<and> c \<noteq> CHR ''}''"
proof (cases v)
  case (Number x)
  assume "plain v"
  with Number obtain r where r: "x = Fin r" "r = of_int \<lfloor>r\<rfloor>" "\<bar>r\<bar> < 1000000000000000"
    by (cases x) simp_all
  have "\<exists>c t. dec_int i = c # t \<and> \<not> json_space c \<and> c \<noteq> CHR '']'' \<and> c \<noteq> CHR ''}''" for i
  proof -
    obtain c cs where c: "dec (nat i) = c # cs" "isdigit c" using dec_Cons by blast
    then have "\<not> json_space c" "c \<noteq> CHR '']''" "c \<noteq> CHR ''}''" by (auto simp: isdigit_def json_space_def code_def)
    with c show ?thesis by (simp add: dec_int_def)
  qed
  with r Number show ?thesis by (simp add: number_text_def)
qed (auto simp: escaped_def)

text \<open>The text of the elements after the first.\<close>

definition more :: "string \<Rightarrow> ('a \<Rightarrow> string) \<Rightarrow> 'a list \<Rightarrow> string" where
  "more sep f xs = concat (map (\<lambda>x. sep @ f x) xs)"

lemma separated_more: "xs \<noteq> [] \<Longrightarrow> separated sep (map f xs) = f (hd xs) @ more sep f (tl xs)"
  by (cases xs) (simp_all add: separated_def more_def comp_def)

lemma more_length: "sep \<noteq> [] \<Longrightarrow> length xs \<le> length (more sep f xs)"
proof (induction xs)
  case (Cons x xs)
  then show ?case by (cases sep) (simp_all add: more_def)
qed (simp add: more_def)

lemma more_ends: "ends ((more (CHR '','' # w) f xs) @ e @ r)" if "e \<noteq> []" "ends e"
  using that by (cases xs; cases e) (simp_all add: more_def ends_def)

lemma elements_written:
  assumes "\<And>v w r. v \<in> set (x # xs) \<Longrightarrow> blank w \<Longrightarrow> ends r \<Longrightarrow> p (w @ ser v @ r) = Inr (v, r)"
    and "blank w1" "blank ind" "e = w2 @ '']''" "blank w2" "ends e" "length xs < n" "blank w"
  shows "elements p n acc (w @ ser x @ more (CHR '','' # w1) (\<lambda>v. ind @ ser v) xs @ e @ r) = Inr (Array (acc @ x # xs), r)"
  using assms(1,7,8)
proof (induction xs arbitrary: x n acc w)
  case Nil
  then obtain m where n: "n = Suc m" by (cases n) simp_all
  have "ends (e @ r)" using assms(4,6) by (intro ends_append) simp_all
  then have "p (w @ ser x @ e @ r) = Inr (x, e @ r)" using Nil by simp
  then show ?case using assms(4,5) by (simp add: n more_def skip_ws_blank)
next
  case (Cons y ys)
  then obtain m where n: "n = Suc m" "length ys < m" by (cases n) simp_all
  let ?rest = "more (CHR '','' # w1) (\<lambda>v. ind @ ser v) ys @ e @ r"
  have "p (w @ ser x @ CHR '','' # w1 @ ind @ ser y @ ?rest) = Inr (x, CHR '','' # w1 @ ind @ ser y @ ?rest)"
    using Cons.prems(1) [of x w] Cons.prems(3) by (simp add: ends_def)
  moreover have "elements p m (acc @ [x]) ((w1 @ ind) @ ser y @ ?rest) = Inr (Array ((acc @ [x]) @ y # ys), r)"
    using Cons.prems assms(2,3) n by (intro Cons.IH) simp_all
  ultimately show ?case
    using skip_ws_blank [of "[]" "CHR '',''"] by (simp add: n more_def)
qed

lemma set_member_new: "k \<notin> fst ` set ms \<Longrightarrow> set_member k v ms = ms @ [(k, v)]"
  by (induction ms) auto

lemma members_written:
  assumes "\<And>m w r. m \<in> set (x # xs) \<Longrightarrow> blank w \<Longrightarrow> ends r \<Longrightarrow> p (w @ ser (snd m) @ r) = Inr (snd m, r)"
    and "blank w1" "blank ind" "e = w2 @ ''}''" "blank w2" "ends e" "length xs < n" "blank w"
    and "colon = CHR '':'' # w3" "blank w3"
    and "distinct (map fst (acc @ x # xs))"
  shows "members p n acc (w @ (escaped (fst x) @ colon @ ser (snd x)) @
      more (CHR '','' # w1) (\<lambda>m. ind @ escaped (fst m) @ colon @ ser (snd m)) xs @ e @ r) =
    Inr (Object (acc @ x # xs), r)"
  using assms(1,7,8,11)
proof (induction xs arbitrary: x n acc w)
  case Nil
  then obtain m where n: "n = Suc m" by (cases n) simp_all
  have q: "\<exists>t. escaped k @ s = quote # t" for k s by (simp add: escaped_def)
  have k: "skip_ws (w @ escaped k @ s) = escaped k @ s" for k s
    using q [of k s] Nil.prems(3) by (auto simp: skip_ws_blank)
  have "ends (e @ r)" using assms(4,6) by (intro ends_append) simp_all
  then have "p (w3 @ ser (snd x) @ e @ r) = Inr (snd x, e @ r)" using Nil assms(10) by simp
  then show ?case using assms(4,5,9) Nil.prems(4) skip_ws_blank [of "[]" "CHR '':''"]
    by (simp add: n more_def k parse_string_escaped skip_ws_blank set_member_new)
next
  case (Cons y ys)
  then obtain m where n: "n = Suc m" "length ys < m" by (cases n) simp_all
  have q: "\<exists>t. escaped k @ s = quote # t" for k s by (simp add: escaped_def)
  have k: "skip_ws (w @ escaped k @ s) = escaped k @ s" for k s
    using q [of k s] Cons.prems(3) by (auto simp: skip_ws_blank)
  let ?rest = "more (CHR '','' # w1) (\<lambda>m. ind @ escaped (fst m) @ colon @ ser (snd m)) ys @ e @ r"
  let ?next = "(w1 @ ind) @ (escaped (fst y) @ colon @ ser (snd y)) @ ?rest"
  have "p (w3 @ ser (snd x) @ CHR '','' # ?next) = Inr (snd x, CHR '','' # ?next)"
    using Cons.prems(1) [of x w3] assms(10) by (simp add: ends_def)
  moreover have "members p m (acc @ [x]) ?next = Inr (Object ((acc @ [x]) @ y # ys), r)"
    using Cons.prems assms(2,3) n by (intro Cons.IH) simp_all
  ultimately show ?case
    using Cons.prems(4) assms(9) skip_ws_blank [of "[]" "CHR '',''"] skip_ws_blank [of "[]" "CHR '':''"]
    by (simp add: n more_def k parse_string_escaped set_member_new)
qed

lemma levels_pos: "0 < levels v"
  by (cases v) simp_all

lemma parse_array_written:
  assumes "\<And>v w r. v \<in> set (x # xs) \<Longrightarrow> blank w \<Longrightarrow> ends r \<Longrightarrow> p (w @ ser v @ r) = Inr (v, r)"
    and "blank w1" "blank ind" "e = w2 @ '']''" "blank w2" "ends e"
    and "\<exists>c t. ser x = c # t \<and> \<not> json_space c \<and> c \<noteq> CHR '']''" "blank pre"
  shows "parse_array p (pre @ (ind @ ser x) @ more (CHR '','' # w1) (\<lambda>v. ind @ ser v) xs @ e @ r) =
    Inr (Array (x # xs), r)"
proof -
  let ?m = "more (CHR '','' # w1) (\<lambda>v. ind @ ser v) xs @ e @ r"
  obtain c t where c: "ser x = c # t" "\<not> json_space c" "c \<noteq> CHR '']''" using assms(7) by blast
  have sk: "skip_ws (pre @ (ind @ ser x) @ ?m) = ser x @ ?m"
    using skip_ws_blank [of "pre @ ind" c "t @ ?m"] assms(3,8) c by simp
  have n: "length xs < Suc (length (pre @ (ind @ ser x) @ ?m))"
    using more_length [of "CHR '','' # w1" xs "\<lambda>v. ind @ ser v"] by simp
  have "elements p (Suc (length (pre @ (ind @ ser x) @ ?m))) [] ([] @ ser x @ ?m) = Inr (Array ([] @ x # xs), r)"
    by (rule elements_written [OF assms(1-6) n]) simp_all
  then show ?thesis using c sk by (simp add: parse_array_def)
qed

lemma parse_object_written:
  assumes "\<And>m w r. m \<in> set (x # xs) \<Longrightarrow> blank w \<Longrightarrow> ends r \<Longrightarrow> p (w @ ser (snd m) @ r) = Inr (snd m, r)"
    and "blank w1" "blank ind" "e = w2 @ ''}''" "blank w2" "ends e" "colon = CHR '':'' # w3" "blank w3"
    and "distinct (map fst (x # xs))" "blank pre"
  shows "parse_object p (pre @ (ind @ escaped (fst x) @ colon @ ser (snd x)) @
      more (CHR '','' # w1) (\<lambda>m. ind @ escaped (fst m) @ colon @ ser (snd m)) xs @ e @ r) =
    Inr (Object (x # xs), r)"
proof -
  let ?f = "escaped (fst x) @ colon @ ser (snd x)"
  let ?m = "more (CHR '','' # w1) (\<lambda>m. ind @ escaped (fst m) @ colon @ ser (snd m)) xs @ e @ r"
  obtain t where q: "?f = quote # t" by (simp add: escaped_def)
  have sk: "skip_ws (pre @ (ind @ ?f) @ ?m) = ?f @ ?m"
    using skip_ws_blank [of "pre @ ind" quote "t @ ?m"] assms(3,10) unfolding q by simp
  have n: "length xs < Suc (length (pre @ (ind @ ?f) @ ?m))"
    using more_length [of "CHR '','' # w1" xs "\<lambda>m. ind @ escaped (fst m) @ colon @ ser (snd m)"] by simp
  have "members p (Suc (length (pre @ (ind @ ?f) @ ?m))) [] ([] @ ?f @ ?m) = Inr (Object ([] @ x # xs), r)"
    by (rule members_written [OF assms(1-6) n _ assms(7,8)]) (use assms(9) in simp_all)
  then show ?thesis using sk unfolding parse_object_def q by simp
qed

lemma parse_written:
  "plain v \<Longrightarrow> levels v \<le> d \<Longrightarrow> blank w \<Longrightarrow> ends r \<Longrightarrow>
   parse_value d (w @ serialize_into pretty k v @ r) = Inr (v, r)"
proof (induction v arbitrary: d k w r)
  case (Array vs)
  from Array.prems(2) obtain d' where d: "d = Suc d'" by (cases d) simp_all
  show ?case
  proof (cases vs)
    case Nil
    have "skip_ws (w @ CHR ''['' # CHR '']'' # r) = CHR ''['' # CHR '']'' # r"
      using Array.prems(3) by (intro skip_ws_blank) simp_all
    then show ?thesis using Nil d skip_ws_blank [of "[]" "CHR '']''"]
      by (simp add: value_inner_def parse_array_def)
  next
    case (Cons x xs)
    let ?ser = "serialize_into pretty (k + 1)" and ?ind = "if pretty then spaces ((k + 1) * 2) else []"
    let ?e = "(if pretty then [lf] @ spaces (k * 2) else []) @ '']''" and ?pre = "if pretty then [lf] else []"
    have sub: "parse_value d' (w @ ?ser v @ r) = Inr (v, r)" if "v \<in> set (x # xs)" "blank w" "ends r" for v w r
    proof (rule Array.IH)
      show "v \<in> set vs" "blank w" "ends r" using that Cons by simp_all
      show "plain v" using Array.prems(1) that(1) Cons by (auto simp: list_all_iff)
      show "levels v \<le> d'"
        using Array.prems(2) foldr_max [of "levels v" "map levels vs"] that(1) Cons d by auto
    qed
    have first: "\<exists>c t. ?ser x = c # t \<and> \<not> json_space c \<and> c \<noteq> CHR '']''"
      using serialize_first [of x pretty "k + 1"] Array.prems(1) Cons by (auto simp: list_all_iff)
    have "parse_array (parse_value d') (?pre @ (?ind @ ?ser x) @
        more (CHR '','' # ?pre) (\<lambda>v. ?ind @ ?ser v) xs @ ?e @ r) = Inr (Array (x # xs), r)"
      by (rule parse_array_written [OF sub _ _ refl _ _ first]) (simp_all add: ends_def)
    moreover have "serialize_into pretty k (Array vs) = CHR ''['' # ?pre @ (?ind @ ?ser x) @
        more (CHR '','' # ?pre) (\<lambda>v. ?ind @ ?ser v) xs @ ?e"
      using separated_more [of "x # xs" "CHR '','' # ?pre" "\<lambda>v. ?ind @ ?ser v"]
      by (cases pretty) (simp_all add: Cons)
    ultimately show ?thesis using d Cons Array.prems(3)
      by (simp add: value_inner_def skip_ws_blank)
  qed
next
  case (Object ms)
  from Object.prems(2) obtain d' where d: "d = Suc d'" by (cases d) simp_all
  show ?case
  proof (cases ms)
    case Nil
    have "skip_ws (w @ CHR ''{'' # CHR ''}'' # r) = CHR ''{'' # CHR ''}'' # r"
      using Object.prems(3) by (intro skip_ws_blank) simp_all
    then show ?thesis using Nil d skip_ws_blank [of "[]" "CHR ''}''"]
      by (simp add: value_inner_def parse_object_def)
  next
    case (Cons x xs)
    let ?ser = "serialize_into pretty (k + 1)" and ?ind = "if pretty then spaces ((k + 1) * 2) else []"
    let ?e = "(if pretty then [lf] @ spaces (k * 2) else []) @ ''}''" and ?pre = "if pretty then [lf] else []"
    let ?colon = "CHR '':'' # (if pretty then '' '' else [])"
    have sub: "parse_value d' (w @ ?ser (snd m) @ r) = Inr (snd m, r)"
      if "m \<in> set (x # xs)" "blank w" "ends r" for m w r
    proof (rule Object.IH)
      show "m \<in> set ms" "blank w" "ends r" using that Cons by simp_all
      show "snd m \<in> Basic_BNFs.snds m" by (cases m) simp
      show "plain (snd m)" using Object.prems(1) that(1) Cons by (auto simp: list_all_iff)
      show "levels (snd m) \<le> d'"
      proof -
        have "(\<lambda>(k, v). levels v) m \<in> set (map (\<lambda>(k, v). levels v) ms)"
          using that(1) unfolding Cons set_map by (rule imageI)
        then have "levels (snd m) \<le> foldr max (map (\<lambda>(k, v). levels v) ms) 0"
          by (intro foldr_max) (simp add: case_prod_unfold)
        then show ?thesis using Object.prems(2) d by simp
      qed
    qed
    have ds: "distinct (map fst (x # xs))" using Object.prems(1) Cons by simp
    have "blank '' ''" by (simp add: blank_def json_space_def code_def)
    then have "parse_object (parse_value d') (?pre @ (?ind @ escaped (fst x) @ ?colon @ ?ser (snd x)) @
        more (CHR '','' # ?pre) (\<lambda>m. ?ind @ escaped (fst m) @ ?colon @ ?ser (snd m)) xs @ ?e @ r) = Inr (Object (x # xs), r)"
      by (intro parse_object_written [OF sub _ _ refl _ _ refl _ ds]) (simp_all add: ends_def)
    moreover have "serialize_into pretty k (Object ms) = CHR ''{'' # ?pre @ (?ind @ escaped (fst x) @ ?colon @ ?ser (snd x)) @
        more (CHR '','' # ?pre) (\<lambda>m. ?ind @ escaped (fst m) @ ?colon @ ?ser (snd m)) xs @ ?e"
      using separated_more [of "x # xs" "CHR '','' # ?pre" "\<lambda>m. ?ind @ escaped (fst m) @ ?colon @ ?ser (snd m)"]
      by (cases pretty) (simp_all add: Cons case_prod_unfold)
    ultimately show ?thesis using d Cons Object.prems(3)
      by (simp add: value_inner_def skip_ws_blank)
  qed
next
  case (Number x)
  have "\<exists>i. x = Fin (of_int i) \<and> \<bar>i\<bar> < 1000000000000000"
  proof (cases x)
    case (Fin q)
    with Number.prems(1) have q: "q = of_int \<lfloor>q\<rfloor>" "\<bar>q\<bar> < 1000000000000000" by simp_all
    then have "(of_int \<bar>\<lfloor>q\<rfloor>\<bar> :: rat) < of_int 1000000000000000" by simp
    then have "\<bar>\<lfloor>q\<rfloor>\<bar> < 1000000000000000" by (simp only: of_int_less_iff)
    with q(1) Fin show ?thesis by metis
  qed (use Number.prems(1) in simp_all)
  then obtain i where i: "x = Fin (of_int i)" "\<bar>i\<bar> < 1000000000000000" by blast
  from Number.prems(2) obtain d' where d: "d = Suc d'" by (cases d) simp_all
  obtain c t where c: "dec_int i = c # t" "isdigit c \<or> c = CHR ''-''"
    using dec_Cons [of "nat i"] by (cases "i < 0") (auto simp: dec_int_def)
  then have ne: "\<not> json_space c" "c \<notin> {CHR ''{'', CHR ''['', quote, CHR ''t'', CHR ''f'', CHR ''n''}"
    by (auto simp: isdigit_def json_space_def code_def)
  have "skip_ws (w @ (c # t) @ r) = (c # t) @ r" using Number.prems(3) ne by (simp add: skip_ws_blank)
  moreover have "serialize_into pretty k (Number x) = dec_int i"
    using i of_int_less_iff [of "\<bar>i\<bar>" 1000000000000000, where ?'a = rat] by (simp add: number_text_def)
  ultimately show ?case
    using parse_number_dec_int [OF Number.prems(4) i(2)] d ne i by (simp add: value_inner_def c)
next
  case (Bool b)
  then obtain d' where d: "d = Suc d'" by (cases d) simp_all
  with Bool show ?case by (simp add: value_inner_def skip_ws_blank literal_def prefixed_def)
next
  case Null
  then obtain d' where d: "d = Suc d'" by (cases d) simp_all
  with Null show ?case by (simp add: value_inner_def skip_ws_blank literal_def prefixed_def)
next
  case (String s)
  then obtain d' where d: "d = Suc d'" by (cases d) simp_all
  have "skip_ws (w @ escaped s @ r) = escaped s @ r"
    using String.prems(3) by (simp add: escaped_def skip_ws_blank)
  moreover have "\<exists>t. escaped s @ r = quote # t" by (simp add: escaped_def)
  ultimately show ?case using d parse_string_escaped [of s r] by (auto simp: value_inner_def)
qed

lemma json_roundtrip:
  assumes "plain v" "levels v \<le> kMaxDepth"
  shows "json_parse (serialize pretty v) = Inr v"
proof -
  obtain c t where c: "serialize_into pretty 0 v = c # t" "\<not> json_space c"
    using serialize_first [OF assms(1)] by blast
  have "parse_value kMaxDepth (serialize_into pretty 0 v) = Inr (v, [])"
    using parse_written [OF assms, of "[]" "[]" pretty 0] by (simp add: ends_def)
  then show ?thesis using c skip_ws_blank [of "[]" c t]
    by (simp add: json_parse_def serialize_def skip_ws_def)
qed

definition json_read :: "string \<Rightarrow> json option" where
  "json_read s = (case json_parse s of Inr v \<Rightarrow> Some v | Inl _ \<Rightarrow> None)"

interpretation json_text: codec "serialize pretty" json_read "\<lambda>v. plain v \<and> levels v \<le> kMaxDepth" for pretty
  by unfold_locales (simp add: json_read_def json_roundtrip)

section \<open>Object laws\<close>

lemma map_of_set_member: "map_of (set_member k v ms) j = (if j = k then Some v else map_of ms j)"
  by (induction k v ms rule: set_member.induct) auto

lemma keys_set_member: "map fst (set_member k v ms) = (if k \<in> fst ` set ms then map fst ms else map fst ms @ [k])"
  by (induction k v ms rule: set_member.induct) auto

lemma get_set_key [simp]: "get_key (set_key k x (Object ms)) j = (if j = k then x else get_key (Object ms) j)"
  by (simp add: get_key_def set_key_def map_of_set_member)

section \<open>Properties\<close>



text \<open>
  C37: the parser ends on every text, and a rejected text is reported with one of its messages
  at an offset inside the text (or at its end).
\<close>

theorem json_parse_errors:
  assumes "json_parse s = Inl e"
  shows "\<exists>m k. e = m @ '' at offset '' @ dec k \<and> k \<le> length s \<and>
    (m \<in> messages \<or> m = ''trailing characters after value'')"
proof (cases "parse_value kMaxDepth (skip_ws s)")
  case (Inl f)
  have "inside (skip_ws s) (parse_value kMaxDepth (skip_ws s))" by (rule parse_value_inside)
  with Inl assms show ?thesis
    by (intro exI [of _ "fst f"] exI [of _ "length s - snd f"]) (simp add: json_parse_def at_offset_def)
next
  case (Inr vr)
  then show ?thesis using assms
    by (intro exI [of _ "''trailing characters after value''"] exI [of _ "length s - length (skip_ws (snd vr))"])
      (auto simp: json_parse_def at_offset_def Let_def split: prod.splits if_splits)
qed

theorem json_parse_errors_witness:
  "\<exists>m k. ''unexpected end of input at offset 0'' = m @ '' at offset '' @ dec k \<and> k \<le> length ([] :: string) \<and>
    (m \<in> messages \<or> m = ''trailing characters after value'')"
  by (rule json_parse_errors) (simp add: json_parse_def kMaxDepth_def eval_nat_numeral value_inner_def
      skip_ws_def at_offset_def dec.simps)

text \<open>
  C22: \<open>set\<close> replaces a key in place: the value is what a later read of the key gives, other keys
  read as before, and the keys keep their order, a new one going to the end.
\<close>

theorem json_set_get:
  "get_key (set_key k x (Object ms)) j = (if j = k then x else get_key (Object ms) j) \<and>
   has (set_key k x (Object ms)) k \<and>
   (\<exists>ns. set_key k x (Object ms) = Object ns \<and>
      map fst ns = (if k \<in> set (map fst ms) then map fst ms else map fst ms @ [k]))"
  by (auto simp: has_def get_key_def set_key_def map_of_set_member keys_set_member)

end
