(* ===== verification/Audio_Route.thy ===== *)
theory Audio_Route
  imports Json Sample_Queue
begin

text \<open>
  \<open>core/audio_route\<close>: what an output does to the shared audio block (mute, gain, channel map,
  delay), read from and written to its options, and the router that applies it on the clock
  thread. Samples are of any type with multiplication; \<open>pow\<close> and \<open>log10\<close> of the C library are the
  parameters \<open>linear_of\<close> and \<open>db_of\<close> (\<open>10^(db/20)\<close> as a float, and \<open>20 log10(gain)\<close>).
\<close>

section \<open>The route and its options\<close>

record 'a audio_route =
  mute :: bool
  gain :: 'a
  delayMs :: int
  route_channels :: int
  channel_map :: "int list"

definition kSilent :: int where "kSilent = - 1"

definition kMaxChannels :: int where "kMaxChannels = 64"

definition kMaxDelayMs :: int where "kMaxDelayMs = 2000"

definition kMinusInfinityDb :: int where "kMinusInfinityDb = - 100"

definition default_route :: "'a::one audio_route" where
  "default_route = \<lparr>mute = False, gain = 1, delayMs = 0, route_channels = 0, channel_map = []\<rparr>"

definition linearFromDb :: "(double \<Rightarrow> 'a) \<Rightarrow> double \<Rightarrow> 'a::zero" where
  "linearFromDb linear_of db = (if le db (of_i kMinusInfinityDb) then 0 else linear_of db)"

text \<open>The loop over the entries of \<open>map\<close>.\<close>

fun read_map :: "nat \<Rightarrow> json list \<Rightarrow> string + int list" where
  "read_map i [] = Inr []"
| "read_map i (e # es) =
     (if isNull e then (case read_map (i + 1) es of Inl m \<Rightarrow> Inl m | Inr cs \<Rightarrow> Inr (kSilent # cs))
      else if \<not> isNumber e then Inl (''audio: map entry '' @ dec i @ '' is not a channel number'')
      else let channel = asInt kSilent e
           in if channel < kSilent \<or> kMaxChannels \<le> channel
              then Inl (''audio: map entry '' @ dec i @ '' is out of range'')
              else (case read_map (i + 1) es of Inl m \<Rightarrow> Inl m | Inr cs \<Rightarrow> Inr (channel # cs)))"

text \<open>\<open>fromOptions\<close>: the route, and the error message if there is one.\<close>

definition fromOptions ::
    "(double \<Rightarrow> 'a) \<Rightarrow> json \<Rightarrow> 'a::{zero,one} audio_route \<times> string option" where
  "fromOptions linear_of options =
     (let audio = get_key options ''audio'' in
      if \<not> isObject audio
      then (default_route, if \<not> isNull audio then Some ''audio: expected an object'' else None)
      else
        let r1 = default_route\<lparr>mute := asBool False (get_key audio ''mute'')\<rparr>;
            r2 = (if isNumber (get_key audio ''gain_db'')
                  then r1\<lparr>gain := linearFromDb linear_of (asDouble (Fin 0) (get_key audio ''gain_db''))\<rparr> else r1);
            delay = asInt 0 (get_key audio ''delay_ms'');
            has_delay = isNumber (get_key audio ''delay_ms'');
            chans = asInt 0 (get_key audio ''channels'');
            has_chans = isNumber (get_key audio ''channels'');
            cmap = get_key audio ''map''
        in if has_delay \<and> (delay < 0 \<or> kMaxDelayMs < delay)
           then (default_route, Some (''audio: delay_ms must be between 0 and '' @ dec_int kMaxDelayMs))
           else if has_chans \<and> (chans < 0 \<or> kMaxChannels < chans)
           then (default_route, Some (''audio: channels must be between 0 and '' @ dec_int kMaxChannels))
           else
             let r3 = (if has_delay then r2\<lparr>delayMs := delay\<rparr> else r2);
                 r4 = (if has_chans then r3\<lparr>route_channels := chans\<rparr> else r3)
             in (case cmap of
                   Array es \<Rightarrow>
                     if nat kMaxChannels < length es
                     then (default_route, Some (''audio: map has more than '' @ dec_int kMaxChannels @ '' entries''))
                     else (case read_map 0 es of
                             Inl m \<Rightarrow> (default_route, Some m)
                           | Inr cs \<Rightarrow> (r4\<lparr>channel_map := cs\<rparr>, None))
                 | Null \<Rightarrow> (r4, None)
                 | _ \<Rightarrow> (default_route, Some ''audio: map must be an array'')))"

definition route_toJson :: "('a \<Rightarrow> double) \<Rightarrow> 'a::{zero,one,linorder} audio_route \<Rightarrow> json" where
  "route_toJson db_of r =
     (if mute r \<or> gain r \<noteq> 1 \<or> delayMs r \<noteq> 0 \<or> route_channels r \<noteq> 0 \<or> channel_map r \<noteq> []
      then let v0 = Object [];
               v1 = (if mute r then set_key ''mute'' (Bool True) v0 else v0);
               v2 = (if gain r \<noteq> 1
                     then set_key ''gain_db'' (Number (if gain r \<le> 0 then of_i kMinusInfinityDb else db_of (gain r))) v1
                     else v1);
               v3 = (if delayMs r \<noteq> 0 then set_key ''delay_ms'' (number_of_int (delayMs r)) v2 else v2);
               v4 = (if route_channels r \<noteq> 0 then set_key ''channels'' (number_of_int (route_channels r)) v3 else v3)
           in if channel_map r \<noteq> [] then set_key ''map'' (Array (map number_of_int (channel_map r))) v4 else v4
      else Null)"

definition destinationChannels :: "'a audio_route \<Rightarrow> int \<Rightarrow> int" where
  "destinationChannels r sourceChannels =
     (if 0 < route_channels r then route_channels r
      else if channel_map r \<noteq> [] then int (length (channel_map r)) else sourceChannels)"

definition isIdentity :: "'a::one audio_route \<Rightarrow> int \<Rightarrow> bool" where
  "isIdentity r sourceChannels \<longleftrightarrow>
     \<not> (mute r \<or> gain r \<noteq> 1 \<or> delayMs r \<noteq> 0) \<and> destinationChannels r sourceChannels = sourceChannels \<and>
     list_all (\<lambda>i. channel_map r ! i = int i) [0..<length (channel_map r)]"

section \<open>The router\<close>

record 'a audio_block =
  block_planes :: "'a list list option"      \<comment> \<open>\<open>None\<close>: a null pointer\<close>
  block_interleaved :: "'a list"
  block_frames :: int
  block_channels :: int
  block_rate :: int

definition block_valid :: "'a audio_block \<Rightarrow> bool" where
  "block_valid b \<longleftrightarrow> 0 < block_frames b \<and> 0 < block_channels b \<and> 0 < block_rate b"

record 'a audio_router =
  route :: "'a audio_route"
  preparedChannels :: int
  preparedRate :: int
  delayFrames :: nat
  delayLines :: "'a list list"
  delayPos :: nat

definition new_router :: "'a::one audio_router" where
  "new_router = \<lparr>route = default_route, preparedChannels = 0, preparedRate = 0, delayFrames = 0,
     delayLines = [], delayPos = 0\<rparr>"

definition router_reset :: "'a::zero audio_router \<Rightarrow> 'a audio_router" where
  "router_reset s = s\<lparr>delayLines := map (\<lambda>l. replicate (length l) 0) (delayLines s), delayPos := 0\<rparr>"

definition router_configure :: "'a::zero audio_route \<Rightarrow> 'a audio_router \<Rightarrow> 'a audio_router" where
  "router_configure r s = router_reset (s\<lparr>route := r, preparedChannels := 0, preparedRate := 0\<rparr>)"

definition router_prepare :: "int \<Rightarrow> int \<Rightarrow> 'a::zero audio_router \<Rightarrow> 'a audio_router" where
  "router_prepare destChannels sampleRate s =
     (if destChannels = preparedChannels s \<and> sampleRate = preparedRate s then s
      else let d = nat (i32 (i64 (delayMs (route s) * sampleRate) sdiv 1000))
           in s\<lparr>preparedChannels := destChannels, preparedRate := sampleRate, delayFrames := d,
                delayLines := replicate (nat destChannels) (replicate d 0), delayPos := 0\<rparr>)"

text \<open>The plane of destination channel \<open>c\<close> before the delay.\<close>

definition source_of :: "'a audio_route \<Rightarrow> nat \<Rightarrow> int" where
  "source_of r c = (if channel_map r \<noteq> [] then (if c < length (channel_map r) then channel_map r ! c else kSilent)
     else int c)"

definition routed_plane :: "'a audio_route \<Rightarrow> int \<Rightarrow> nat \<Rightarrow> 'a::{zero,times} list list \<Rightarrow> nat \<Rightarrow> 'a list" where
  "routed_plane r in_channels frames planes c =
     (let source = source_of r c
      in if mute r \<or> source = kSilent \<or> in_channels \<le> source then replicate frames 0
         else map (\<lambda>f. planes ! nat source ! f * gain r) [0..<frames])"

text \<open>The delay loop: one shared position, every channel swapped with its line at that position.\<close>

definition delay_step :: "nat \<Rightarrow> nat \<Rightarrow> nat \<times> 'a list list \<times> 'a list list \<Rightarrow> nat \<times> 'a list list \<times> 'a list list" where
  "delay_step len f = (\<lambda>(pos, lines, planes).
     (if pos + 1 = len then 0 else pos + 1,
      map2 (\<lambda>line plane. line[pos := plane ! f]) lines planes,
      map2 (\<lambda>line plane. plane[f := line ! pos]) lines planes))"

definition run_delay :: "nat \<Rightarrow> nat \<Rightarrow> nat \<times> 'a list list \<times> 'a list list \<Rightarrow> nat \<times> 'a list list \<times> 'a list list" where
  "run_delay len frames st = fold (delay_step len) [0..<frames] st"

definition router_apply :: "'a::{zero,one,times} audio_block \<Rightarrow> 'a audio_router \<Rightarrow> 'a audio_block \<times> 'a audio_router" where
  "router_apply b s =
     (if \<not> block_valid b then (b, s)
      else case block_planes b of
        None \<Rightarrow> (b, s)
      | Some in_planes \<Rightarrow>
          if isIdentity (route s) (block_channels b) then (b, s)
          else let frames = nat (block_frames b);
                   dest = destinationChannels (route s) (block_channels b);
                   s1 = router_prepare dest (block_rate b) s;
                   planes = map (routed_plane (route s) (block_channels b) frames in_planes) [0..<nat dest];
                   (pos, lines, out) = (if 0 < delayFrames s1
                     then run_delay (delayFrames s1) frames (delayPos s1, delayLines s1, planes)
                     else (delayPos s1, delayLines s1, planes))
               in (\<lparr>block_planes = Some out, block_interleaved = concat (frames_of frames out),
                    block_frames = block_frames b, block_channels = dest, block_rate = block_rate b\<rparr>,
                   s1\<lparr>delayPos := pos, delayLines := lines\<rparr>))"

section \<open>The delay line\<close>

text \<open>What a line still holds, oldest first.\<close>

definition pending :: "nat \<Rightarrow> 'a list \<Rightarrow> 'a list" where
  "pending pos line = drop pos line @ take pos line"

lemma length_pending [simp]: "length (pending pos line) = length line"
  by (simp add: pending_def)

lemma pending_step:
  assumes "pos < length line"
  shows "pending (if pos + 1 = length line then 0 else pos + 1) (line[pos := x]) = tl (pending pos line) @ [x]"
    and "line ! pos = hd (pending pos line)"
proof -
  have d: "drop pos line = line ! pos # drop (Suc pos) line" using assms by (simp add: Cons_nth_drop_Suc)
  have t: "take (Suc pos) (line[pos := x]) = take pos line @ [x]" using assms by (simp add: take_Suc_conv_app_nth)
  have r: "drop (Suc pos) (line[pos := x]) = drop (Suc pos) line" by simp
  show "pending (if pos + 1 = length line then 0 else pos + 1) (line[pos := x]) = tl (pending pos line) @ [x]"
  proof (cases "pos + 1 = length line")
    case True
    then have "line[pos := x] = take (Suc pos) (line[pos := x])" by simp
    with True t d show ?thesis by (simp add: pending_def)
  next
    case False
    with d t r show ?thesis by (simp add: pending_def)
  qed
  show "line ! pos = hd (pending pos line)" by (simp add: pending_def d)
qed

lemma delay_loop:
  assumes "pos < d" "length lines = length planes" "\<forall>l \<in> set lines. length l = d"
    and "\<forall>p \<in> set planes. length p = n" "k \<le> n" "0 < d"
  shows "\<exists>pos' lines' planes'. run_delay d k (pos, lines, planes) = (pos', lines', planes') \<and> pos' < d \<and>
    length lines' = length lines \<and> length planes' = length planes \<and>
    (\<forall>c < length planes. length (lines' ! c) = d \<and> length (planes' ! c) = n \<and>
       planes' ! c = take k (pending pos (lines ! c) @ planes ! c) @ drop k (planes ! c) \<and>
       pending pos' (lines' ! c) = drop k (pending pos (lines ! c) @ take k (planes ! c)))"
  using assms(5)
proof (induction k)
  case 0
  have "length (lines ! c) = d" "length (planes ! c) = n" if "c < length planes" for c
    using assms(2-4) that by simp_all
  with 0 assms show ?case by (simp add: run_delay_def)
next
  case (Suc k)
  then obtain p ls ps where IH: "run_delay d k (pos, lines, planes) = (p, ls, ps)" "p < d"
    "length ls = length lines" "length ps = length planes"
    and c: "\<And>c. c < length planes \<Longrightarrow> length (ls ! c) = d \<and> length (ps ! c) = n \<and>
       ps ! c = take k (pending pos (lines ! c) @ planes ! c) @ drop k (planes ! c) \<and>
       pending p (ls ! c) = drop k (pending pos (lines ! c) @ take k (planes ! c))"
    by auto
  let ?p = "if p + 1 = d then 0 else p + 1"
  let ?ls = "map2 (\<lambda>line plane. line[p := plane ! k]) ls ps" and ?ps = "map2 (\<lambda>line plane. plane[k := line ! p]) ls ps"
  have run: "run_delay d (Suc k) (pos, lines, planes) = (?p, ?ls, ?ps)"
    using IH(1) by (simp add: run_delay_def delay_step_def)
  have "length (?ls ! i) = d \<and> length (?ps ! i) = n \<and>
       ?ps ! i = take (Suc k) (pending pos (lines ! i) @ planes ! i) @ drop (Suc k) (planes ! i) \<and>
       pending ?p (?ls ! i) = drop (Suc k) (pending pos (lines ! i) @ take (Suc k) (planes ! i))"
    if i: "i < length planes" for i
  proof -
    let ?q = "pending pos (lines ! i)" and ?in = "planes ! i"
    have len: "length (lines ! i) = d" "length ?in = n" using assms(2-4) i by simp_all
    note ci = c [OF i]
    have lk: "length (take k (?q @ ?in)) = k" using Suc.prems len by simp
    have pi: "ps ! i = take k (?q @ ?in) @ drop k ?in" using ci by blast
    have "ps ! i ! k = drop k ?in ! 0"
      unfolding pi by (simp only: nth_append lk less_irrefl if_False diff_self_eq_0)
    then have in_k: "ps ! i ! k = ?in ! k" using Suc.prems len by simp
    have dk: "drop k ?in = ?in ! k # drop (Suc k) ?in" using Suc.prems len by (simp add: Cons_nth_drop_Suc)
    have "length (drop k (?q @ take k ?in)) = d" using len Suc.prems by simp
    then have dne: "drop k (?q @ take k ?in) \<noteq> []" using assms(6) by (metis less_irrefl list.size(3))
    have hd_pend: "ls ! i ! p = (?q @ ?in) ! k"
    proof -
      have "ls ! i ! p = hd (pending p (ls ! i))" using IH(2) ci by (intro pending_step(2)) simp
      also have "\<dots> = hd (drop k (?q @ take k ?in))" using ci by (simp only:)
      also have "\<dots> = (?q @ take k ?in) ! k" using dne by (simp only: hd_drop_conv_nth drop_eq_Nil not_le)
      also have "\<dots> = (?q @ ?in) ! k" using len assms(6) Suc.prems by (auto simp: nth_append)
      finally show ?thesis .
    qed
    have li: "i < length ls" "i < length ps" using i IH(3,4) assms(2) by simp_all
    have "?ps ! i = (ps ! i)[k := ls ! i ! p]" using li by simp
    also have "\<dots> = (take k (?q @ ?in) @ ?in ! k # drop (Suc k) ?in)[k := (?q @ ?in) ! k]"
      by (simp only: pi hd_pend dk)
    also have "\<dots> = take k (?q @ ?in) @ (?q @ ?in) ! k # drop (Suc k) ?in"
      by (simp only: list_update_append lk less_irrefl if_False diff_self_eq_0 list_update_code)
    also have "\<dots> = take (Suc k) (?q @ ?in) @ drop (Suc k) ?in"
    proof -
      have "k < length (?q @ ?in)" using Suc.prems len by simp
      then show ?thesis by (simp only: take_Suc_conv_app_nth append_assoc append_Cons append_Nil)
    qed
    finally have out: "?ps ! i = take (Suc k) (?q @ ?in) @ drop (Suc k) ?in" .
    have "pending ?p (?ls ! i) = tl (pending p (ls ! i)) @ [?in ! k]"
      using li IH(2) ci in_k pending_step(1) [of p "ls ! i" "?in ! k"] by simp
    also have "\<dots> = tl (drop k (?q @ take k ?in)) @ [?in ! k]" using ci by (simp only:)
    also have "\<dots> = drop (Suc k) (?q @ take (Suc k) ?in)"
    proof -
      have "take (Suc k) ?in = take k ?in @ [?in ! k]" using Suc.prems len by (simp add: take_Suc_conv_app_nth)
      then have "drop (Suc k) (?q @ take (Suc k) ?in) = tl (drop k ((?q @ take k ?in) @ [?in ! k]))"
        by (simp only: append_assoc drop_Suc tl_drop)
      also have "\<dots> = tl (drop k (?q @ take k ?in) @ [?in ! k])"
        using dne by (simp only: drop_append [of k "?q @ take k ?in"] drop_eq_Nil not_le diff_is_0_eq' less_imp_le_nat drop_0)
      also have "\<dots> = tl (drop k (?q @ take k ?in)) @ [?in ! k]" by (rule tl_append2 [OF dne])
      finally show ?thesis by (rule sym)
    qed
    finally have pend: "pending ?p (?ls ! i) = drop (Suc k) (?q @ take (Suc k) ?in)" .
    have "length (ls ! i) = d" "length (ps ! i) = n" using ci by blast+
    then have "length (?ls ! i) = d" "length (?ps ! i) = n" using li by simp_all
    with out pend show ?thesis by (intro conjI)
  qed
  moreover have "?p < d" using assms(6) IH(2) by auto
  moreover have "length ?ls = length lines" "length ?ps = length planes" using IH(3,4) assms(2) by simp_all
  ultimately show ?case using run by blast
qed

section \<open>The router over a run of blocks\<close>

definition router_ok :: "'a audio_router \<Rightarrow> bool" where
  "router_ok s \<longleftrightarrow> (0 < delayFrames s \<longrightarrow> delayPos s < delayFrames s \<and>
     length (delayLines s) = nat (preparedChannels s) \<and> (\<forall>l \<in> set (delayLines s). length l = delayFrames s))"

text \<open>What the channel's delay still holds when the next block of \<open>dest\<close> channels arrives.\<close>

definition held_samples :: "int \<Rightarrow> int \<Rightarrow> 'a::zero audio_router \<Rightarrow> nat \<Rightarrow> 'a list" where
  "held_samples dest rt s c =
     (let s1 = router_prepare dest rt s
      in if 0 < delayFrames s1 then pending (delayPos s1) (delayLines s1 ! c) else [])"

lemma prepare_ok:
  assumes "router_ok s"
  shows "router_ok (router_prepare dest rt s) \<and> preparedChannels (router_prepare dest rt s) = dest \<and>
    preparedRate (router_prepare dest rt s) = rt \<and> route (router_prepare dest rt s) = route s"
  using assms by (auto simp: router_prepare_def router_ok_def Let_def)

lemma length_routed_plane [simp]: "length (routed_plane r ch n planes c) = n"
  by (simp add: routed_plane_def Let_def)

lemma router_apply_spec:
  assumes "router_ok s" "block_valid b" "block_planes b = Some ip" "\<not> isIdentity (route s) (block_channels b)"
    and "router_apply b s = (out, t)"
  defines "dest \<equiv> destinationChannels (route s) (block_channels b)"
  defines "inp \<equiv> routed_plane (route s) (block_channels b) (nat (block_frames b)) ip"
  shows "\<exists>op. block_planes out = Some op \<and> length op = nat dest \<and> block_channels out = dest \<and>
    block_frames out = block_frames b \<and> block_rate out = block_rate b \<and>
    block_interleaved out = concat (frames_of (nat (block_frames b)) op) \<and> router_ok t \<and>
    preparedChannels t = dest \<and> preparedRate t = block_rate b \<and> route t = route s \<and>
    (\<forall>c < nat dest. length (op ! c) = nat (block_frames b) \<and>
       op ! c @ held_samples dest (block_rate b) t c = held_samples dest (block_rate b) s c @ inp c)"
proof -
  let ?n = "nat (block_frames b)" and ?s1 = "router_prepare dest (block_rate b) s"
  let ?planes = "map inp [0..<nat dest]"
  note p1 = prepare_ok [OF assms(1), of dest "block_rate b"]
  have li: "length (inp c) = ?n" for c by (simp add: inp_def)
  show ?thesis
  proof (cases "0 < delayFrames ?s1")
    case False
    then have t: "t = ?s1\<lparr>delayPos := delayPos ?s1, delayLines := delayLines ?s1\<rparr>"
      and o: "out = \<lparr>block_planes = Some ?planes, block_interleaved = concat (frames_of ?n ?planes),
                    block_frames = block_frames b, block_channels = dest, block_rate = block_rate b\<rparr>"
      using assms(2-5) by (simp_all add: router_apply_def Let_def dest_def inp_def)
    have t1: "t = ?s1" unfolding t by simp
    have "router_prepare dest (block_rate b) t = t" using p1 by (simp add: router_prepare_def t1)
    then have "held_samples dest (block_rate b) t c = []" "held_samples dest (block_rate b) s c = []" for c
      using False by (simp_all add: held_samples_def t1)
    then show ?thesis using p1 t1 o li by simp
  next
    case True
    then have ok1: "delayPos ?s1 < delayFrames ?s1" "length (delayLines ?s1) = nat dest"
      "\<forall>l \<in> set (delayLines ?s1). length l = delayFrames ?s1"
      using p1 by (simp_all add: router_ok_def)
    obtain pos lines op where r: "run_delay (delayFrames ?s1) ?n (delayPos ?s1, delayLines ?s1, ?planes) = (pos, lines, op)"
      and pos: "pos < delayFrames ?s1" "length lines = nat dest" "length op = nat dest"
      and c: "\<And>c. c < nat dest \<Longrightarrow> length (lines ! c) = delayFrames ?s1 \<and> length (op ! c) = ?n \<and>
         op ! c = take ?n (pending (delayPos ?s1) (delayLines ?s1 ! c) @ inp c) @ drop ?n (inp c) \<and>
         pending pos (lines ! c) = drop ?n (pending (delayPos ?s1) (delayLines ?s1 ! c) @ take ?n (inp c))"
      using delay_loop [of "delayPos ?s1" "delayFrames ?s1" "delayLines ?s1" ?planes ?n ?n] ok1 True li by auto
    have t: "t = ?s1\<lparr>delayPos := pos, delayLines := lines\<rparr>"
      and o: "out = \<lparr>block_planes = Some op, block_interleaved = concat (frames_of ?n op),
                    block_frames = block_frames b, block_channels = dest, block_rate = block_rate b\<rparr>"
      using assms(2-5) True r by (simp_all add: router_apply_def Let_def dest_def inp_def)
    have "\<forall>l \<in> set lines. length l = delayFrames ?s1" using c pos(2) by (auto simp: in_set_conv_nth)
    then have okt: "router_ok t" using p1 pos True by (simp add: t router_ok_def)
    have "router_prepare dest (block_rate b) t = t" using p1 by (simp add: router_prepare_def t)
    then have ht: "held_samples dest (block_rate b) t c = pending pos (lines ! c)" for c
      using True by (simp add: held_samples_def t)
    have hs: "held_samples dest (block_rate b) s c = pending (delayPos ?s1) (delayLines ?s1 ! c)" for c
      using True by (simp add: held_samples_def Let_def)
    have "op ! c @ pending pos (lines ! c) = pending (delayPos ?s1) (delayLines ?s1 ! c) @ inp c" if "c < nat dest" for c
    proof -
      have d: "drop ?n (inp c) = []" "take ?n (inp c) = inp c" using li [of c] by simp_all
      have "op ! c = take ?n (pending (delayPos ?s1) (delayLines ?s1 ! c) @ inp c)"
        "pending pos (lines ! c) = drop ?n (pending (delayPos ?s1) (delayLines ?s1 ! c) @ inp c)"
        using c [OF that] unfolding d by simp_all
      then show ?thesis by (simp only: append_take_drop_id)
    qed
    then have stream: "op ! c @ held_samples dest (block_rate b) t c = held_samples dest (block_rate b) s c @ inp c"
      if "c < nat dest" for c using that by (simp only: ht hs)
    have lop: "length (op ! c) = ?n" if "c < nat dest" for c using c [OF that] by blast
    have fields: "block_planes out = Some op" "block_channels out = dest" "block_frames out = block_frames b"
      "block_rate out = block_rate b" "block_interleaved out = concat (frames_of ?n op)"
      "preparedChannels t = dest" "preparedRate t = block_rate b" "route t = route s"
      using p1 by (simp_all add: o t)
    show ?thesis
      by (intro exI [of _ op] conjI fields okt pos(3)) (simp add: lop stream)
  qed
qed

text \<open>The blocks a router emits for a run of blocks.\<close>

fun router_run :: "'a::{zero,one,times} audio_router \<Rightarrow> 'a audio_block list \<Rightarrow> 'a audio_block list" where
  "router_run s [] = []"
| "router_run s (b # bs) = (let (out, t) = router_apply b s in out # router_run t bs)"

definition plane_of :: "nat \<Rightarrow> 'a audio_block \<Rightarrow> 'a list" where
  "plane_of c b = (case block_planes b of Some ps \<Rightarrow> ps ! c | None \<Rightarrow> [])"

definition same_shape :: "'a::one audio_route \<Rightarrow> int \<Rightarrow> int \<Rightarrow> 'a audio_block \<Rightarrow> bool" where
  "same_shape r ch rt b \<longleftrightarrow> block_valid b \<and> block_planes b \<noteq> None \<and> block_channels b = ch \<and> block_rate b = rt"

lemma router_run_stream:
  assumes "router_ok s" "\<not> isIdentity (route s) ch" "\<forall>b \<in> set bs. same_shape (route s) ch rt b"
    and "c < nat (destinationChannels (route s) ch)"
  shows "prefix (concat (map (plane_of c) (router_run s bs)))
    (held_samples (destinationChannels (route s) ch) rt s c @
     concat (map (\<lambda>b. routed_plane (route s) ch (nat (block_frames b)) (the (block_planes b)) c) bs)) \<and>
    length (concat (map (plane_of c) (router_run s bs))) = (\<Sum>b\<leftarrow>bs. nat (block_frames b))"
  using assms
proof (induction bs arbitrary: s)
  case Nil
  then show ?case by simp
next
  case (Cons b bs)
  let ?dest = "destinationChannels (route s) ch"
  obtain out t where a: "router_apply b s = (out, t)" by fastforce
  obtain ip where ip: "block_planes b = Some ip" and b: "block_valid b" "block_channels b = ch" "block_rate b = rt"
    using Cons.prems(3) by (auto simp: same_shape_def)
  have "\<not> isIdentity (route s) (block_channels b)" using Cons.prems(2) b by simp
  from router_apply_spec [OF Cons.prems(1) b(1) ip this a] b
  obtain op where op: "block_planes out = Some op" "router_ok t" "route t = route s"
    and c: "length (op ! c) = nat (block_frames b)"
      "op ! c @ held_samples ?dest rt t c = held_samples ?dest rt s c @ routed_plane (route s) ch (nat (block_frames b)) ip c"
    using Cons.prems(4) by auto
  have IH: "prefix (concat (map (plane_of c) (router_run t bs)))
      (held_samples ?dest rt t c @
       concat (map (\<lambda>b. routed_plane (route s) ch (nat (block_frames b)) (the (block_planes b)) c) bs)) \<and>
      length (concat (map (plane_of c) (router_run t bs))) = (\<Sum>b\<leftarrow>bs. nat (block_frames b))"
    using Cons.IH [of t] op Cons.prems by simp
  have "plane_of c out = op ! c" by (simp add: plane_of_def op)
  have "prefix (op ! c @ concat (map (plane_of c) (router_run t bs)))
      (op ! c @ held_samples ?dest rt t c @
       concat (map (\<lambda>b. routed_plane (route s) ch (nat (block_frames b)) (the (block_planes b)) c) bs))"
    using IH by (simp only: same_prefix_prefix)
  with c(2) have "prefix (op ! c @ concat (map (plane_of c) (router_run t bs)))
      (held_samples ?dest rt s c @ routed_plane (route s) ch (nat (block_frames b)) ip c @
       concat (map (\<lambda>b. routed_plane (route s) ch (nat (block_frames b)) (the (block_planes b)) c) bs))"
    by (simp only: append_assoc [symmetric])
  with \<open>plane_of c out = op ! c\<close> show ?case using IH c(1) by (simp add: a ip)
qed

section \<open>Properties\<close>

lemma router_run_identity:
  "isIdentity (route s) ch \<Longrightarrow> \<forall>b \<in> set bs. same_shape (route s) ch rt b \<Longrightarrow> router_run s bs = bs"
  by (induction bs) (auto simp: router_apply_def same_shape_def split: option.split)



text \<open>
  The fast path: when the route is the identity for the block and its map, if any, covers
  every channel, applying it channel by channel would give back the same planes, so handing on the
  shared block changes nothing. A map shorter than the channel count is taken for the identity too,
  although the general path silences the channels past its end.
\<close>

theorem identity_fast_path:
  fixes r :: "'a::{zero,monoid_mult} audio_route"
  assumes "isIdentity r (int (length planes))" "\<forall>p \<in> set planes. length p = n"
    and "channel_map r = [] \<or> length planes \<le> length (channel_map r)"
  shows "nat (destinationChannels r (int (length planes))) = length planes \<and>
    map (routed_plane r (int (length planes)) n planes) [0..<length planes] = planes"
proof
  have d: "destinationChannels r (int (length planes)) = int (length planes)"
    and g: "\<not> mute r" "gain r = 1"
    and m: "\<And>i. i < length (channel_map r) \<Longrightarrow> channel_map r ! i = int i"
    using assms(1) by (auto simp: isIdentity_def list_all_iff)
  show "nat (destinationChannels r (int (length planes))) = length planes" using d by simp
  show "map (routed_plane r (int (length planes)) n planes) [0..<length planes] = planes"
  proof (rule nth_equalityI)
    fix c
    assume "c < length (map (routed_plane r (int (length planes)) n planes) [0..<length planes])"
    then have c: "c < length planes" by simp
    then have "source_of r c = int c" using m assms(3) by (auto simp: source_of_def)
    with c g assms(2) show "map (routed_plane r (int (length planes)) n planes) [0..<length planes] ! c = planes ! c"
      by (auto simp: routed_plane_def kSilent_def intro!: nth_equalityI)
  qed simp
qed

theorem identity_fast_path_witness:
  "map (routed_plane \<lparr>mute = False, gain = 1, delayMs = 0, route_channels = 0, channel_map = [0, 1]\<rparr> 2 3
     [[1, 2, 3], [4, 5, 6 :: int]]) [0..<2] = [[1, 2, 3], [4, 5, 6]]"
  using identity_fast_path [of "\<lparr>mute = False, gain = 1, delayMs = 0, route_channels = 0, channel_map = [0, 1]\<rparr>"
     "[[1, 2, 3], [4, 5, 6 :: int]]" 3]
  by (simp add: isIdentity_def destinationChannels_def numeral_2_eq_2)

text \<open>
  A map shorter than \<open>channels\<close> is misjudged as the identity: with two channels and the
  map [0], \<open>isIdentity\<close> holds, so the second channel is passed through, while the router's own
  rule for a destination past the end of the map is silence.
\<close>

theorem short_map_taken_for_identity:
  "isIdentity \<lparr>mute = False, gain = (1::int), delayMs = 0, route_channels = 2, channel_map = [0]\<rparr> 2 \<and>
   map (routed_plane \<lparr>mute = False, gain = 1, delayMs = 0, route_channels = 2, channel_map = [0]\<rparr> 2 1
     [[7], [9 :: int]]) [0..<2] = [[7], [0]]"
  by (simp add: isIdentity_def destinationChannels_def routed_plane_def source_of_def kSilent_def numeral_2_eq_2)

section \<open>Options\<close>

definition route_valid :: "'a audio_route \<Rightarrow> bool" where
  "route_valid r \<longleftrightarrow> 0 \<le> delayMs r \<and> delayMs r \<le> kMaxDelayMs \<and> 0 \<le> route_channels r \<and>
     route_channels r \<le> kMaxChannels \<and> int (length (channel_map r)) \<le> kMaxChannels \<and>
     (\<forall>c \<in> set (channel_map r). kSilent \<le> c \<and> c < kMaxChannels)"

lemma read_map_range:
  "read_map i es = Inr cs \<Longrightarrow> length cs = length es \<and> (\<forall>c \<in> set cs. kSilent \<le> c \<and> c < kMaxChannels)"
  by (induction i es arbitrary: cs rule: read_map.induct)
    (auto simp: Let_def kSilent_def kMaxChannels_def split: if_splits sum.splits)

lemma default_valid: "route_valid default_route"
  by (simp add: route_valid_def default_route_def kMaxDelayMs_def kMaxChannels_def)

text \<open>
  Whatever the options hold, the route read from them is within its bounds, so its delay
  line and map have bounded size; and a reported error comes with the identity route.
\<close>

theorem fromOptions_valid:
  assumes "fromOptions linear_of options = (r, err)"
  shows "route_valid r \<and> (err \<noteq> None \<longrightarrow> r = default_route)"
proof (cases "isObject (get_key options ''audio'')")
  case False
  with assms default_valid show ?thesis by (auto simp: fromOptions_def Let_def)
next
  case True
  note d = default_valid [where ?'a = 'a]
  show ?thesis
    using assms True d
    by (auto simp: fromOptions_def Let_def route_valid_def default_route_def kMaxDelayMs_def kMaxChannels_def
        split: if_splits json.splits sum.splits dest!: read_map_range)
qed

theorem fromOptions_valid_witness:
  "route_valid (fst (fromOptions (\<lambda>_. 1 :: int) (Object [(''audio'', Object [(''delay_ms'', Number (Fin 5000))])])))"
  using fromOptions_valid [of "\<lambda>_. 1 :: int" "Object [(''audio'', Object [(''delay_ms'', Number (Fin 5000))])]"]
  by (metis prod.collapse)

end
