(* ===== verification/Raster_Pass.thy ===== *)
theory Raster_Pass
  imports Prelude
begin

text \<open>
  Loops over the pixels of a picture, as the pixel code writes them: memory is one list of bytes,
  a buffer is an address in it, and a pass writes, for each element of a list of positions, a
  group of bytes computed from the memory as it then is. In-place conversion is the case of equal
  source and destination addresses. The locale \<open>raster_pass\<close> is what such a pass promises when
  no group's destination overlaps another group's source or destination: every group of the
  result is computed from the original picture, and nothing else is written.
\<close>

type_synonym memory = "int list"

text \<open>Storing a group of bytes, and a loop of such stores.\<close>

definition store :: "nat \<Rightarrow> int list \<Rightarrow> memory \<Rightarrow> memory" where
  "store = blit_at"

definition load :: "nat \<Rightarrow> nat \<Rightarrow> memory \<Rightarrow> int list" where
  "load a n m = map (\<lambda>i. m ! (a + i)) [0..<n]"

definition positions :: "nat \<Rightarrow> nat \<Rightarrow> (nat \<times> nat) list" where
  "positions h n = List.product [0..<h] [0..<n]"

definition pass :: "('q \<Rightarrow> memory \<Rightarrow> int list) \<Rightarrow> ('q \<Rightarrow> nat) \<Rightarrow> 'q list \<Rightarrow> memory \<Rightarrow> memory" where
  "pass tile dest qs m = fold (\<lambda>q m. store (dest q) (tile q m) m) qs m"

lemma length_load [simp]: "length (load a n m) = n"
  by (simp add: load_def)

lemma load_nth [simp]: "i < n \<Longrightarrow> load a n m ! i = m ! (a + i)"
  by (simp add: load_def)

lemma load_cong: "(\<And>i. a \<le> i \<Longrightarrow> i < a + n \<Longrightarrow> m ! i = m' ! i) \<Longrightarrow> load a n m = load a n m'"
  by (simp add: load_def)

lemma set_positions [simp]: "(y, x) \<in> set (positions h n) \<longleftrightarrow> y < h \<and> x < n"
  by (simp add: positions_def)

lemma distinct_positions [simp]: "distinct (positions h n)"
  by (simp add: positions_def distinct_product)

text \<open>The nested loops of the code are one pass over the positions.\<close>

lemma fold_positions:
  "fold (\<lambda>y. fold (\<lambda>x. f (y, x)) [0..<n]) [0..<h] m = fold f (positions h n) m"
proof -
  have "fold (\<lambda>y. fold (\<lambda>x. f (y, x)) xs) ys m = fold f (List.product ys xs) m" for xs ys
    by (induction ys arbitrary: m) (simp_all add: fold_map comp_def)
  then show ?thesis by (simp add: positions_def)
qed

lemma load_store:
  assumes "d + length ys \<le> length m" "length ys = n"
  shows "load d n (store d ys m) = ys"
  using assms by (intro nth_equalityI) (simp_all add: store_def nth_blit_at)

text \<open>Rows that do not overlap have groups that do not overlap.\<close>

lemma group_in_row: "x < n \<Longrightarrow> x * w + w \<le> n * (w::nat)"
  using mult_le_mono1 [of "Suc x" n w] by simp

lemma groups_apart:
  assumes "x < n" "x' < n" "n * w \<le> stride" "(y, x) \<noteq> (y', x' :: nat)"
  shows "y * stride + x * w + w \<le> y' * stride + x' * w \<or> y' * stride + x' * w + w \<le> y * stride + x * (w::nat)"
proof (cases "y = y'")
  case True
  with assms(4) have "x < x' \<or> x' < x" by auto
  with True show ?thesis using mult_le_mono1 [of "Suc x" x' w] mult_le_mono1 [of "Suc x'" x w] by auto
next
  case False
  have a: "x * w + w \<le> stride" "x' * w + w \<le> stride"
    using group_in_row [OF assms(1), of w] group_in_row [OF assms(2), of w] assms(3) by simp_all
  from False consider "Suc y \<le> y'" | "Suc y' \<le> y" by linarith
  then show ?thesis
  proof cases
    case 1
    then have "Suc y * stride \<le> y' * stride" by (rule mult_le_mono1)
    with a show ?thesis by simp
  next
    case 2
    then have "Suc y' * stride \<le> y * stride" by (rule mult_le_mono1)
    with a show ?thesis by simp
  qed
qed

lemma group_in_picture:
  assumes "y < h" "x < n" "n * w \<le> stride" "d + h * stride \<le> (bytes::nat)"
  shows "d + y * stride + x * w + w \<le> bytes"
proof -
  have "Suc y * stride \<le> h * stride" using assms(1) by (intro mult_le_mono1) simp
  then show ?thesis using group_in_row [OF assms(2), of w] assms(3,4) by simp
qed

section \<open>The contract of a pass\<close>

locale raster_pass =
  fixes tile :: "'q \<Rightarrow> memory \<Rightarrow> int list"
    and dest :: "'q \<Rightarrow> nat"
    and width :: nat
    and reads :: "'q \<Rightarrow> nat set"
  assumes length_group: "length (tile q m) = width"
    and group_local: "(\<And>i. i \<in> reads q \<Longrightarrow> m ! i = m' ! i) \<Longrightarrow> tile q m = tile q m'"
begin

definition written :: "'q \<Rightarrow> nat set" where
  "written q = {dest q ..< dest q + width}"

definition separate :: "'q list \<Rightarrow> bool" where
  "separate qs \<longleftrightarrow> distinct qs \<and> (\<forall>q \<in> set qs. \<forall>q' \<in> set qs. q \<noteq> q' \<longrightarrow>
     written q \<inter> written q' = {} \<and> written q \<inter> reads q' = {})"

lemma store_outside:
  assumes "dest q + width \<le> length m" "i \<notin> written q" "i < length m"
  shows "store (dest q) (tile q m) m ! i = m ! i"
  using assms by (auto simp: store_def nth_blit_at length_group written_def)

lemma pass_length:
  "\<forall>q \<in> set qs. dest q + width \<le> length m \<Longrightarrow> length (pass tile dest qs m) = length m"
  by (induction qs arbitrary: m) (simp_all add: pass_def store_def length_group)

lemma pass_untouched:
  assumes "\<forall>q \<in> set qs. dest q + width \<le> length m" "i < length m" "\<forall>q \<in> set qs. i \<notin> written q"
  shows "pass tile dest qs m ! i = m ! i"
  using assms
proof (induction qs arbitrary: m)
  case Nil
  then show ?case by (simp add: pass_def)
next
  case (Cons q qs)
  let ?m = "store (dest q) (tile q m) m"
  have l: "length ?m = length m" using Cons.prems(1) by (simp add: store_def length_group)
  have "pass tile dest qs ?m ! i = ?m ! i" using Cons l by simp
  also have "\<dots> = m ! i" using Cons.prems by (intro store_outside) simp_all
  finally show ?case by (simp add: pass_def)
qed

theorem pass_spec:
  assumes "separate qs" "\<forall>q \<in> set qs. dest q + width \<le> length m"
    and "\<forall>q \<in> set qs. reads q \<subseteq> {..<length m}" "q \<in> set qs"
  shows "load (dest q) width (pass tile dest qs m) = tile q m"
  using assms
proof (induction qs arbitrary: m)
  case Nil
  then show ?case by simp
next
  case (Cons p qs)
  let ?m = "store (dest p) (tile p m) m"
  have l: "length ?m = length m" using Cons.prems(2) by (simp add: store_def length_group)
  have sep: "separate qs" using Cons.prems(1) by (simp add: separate_def)
  have step: "pass tile dest (p # qs) m = pass tile dest qs ?m" by (simp add: pass_def)
  show ?case
  proof (cases "q = p")
    case True
    then have "p \<notin> set qs" using Cons.prems(1) by (simp add: separate_def)
    then have "\<forall>q' \<in> set qs. written p \<inter> written q' = {}" using Cons.prems(1) by (auto simp: separate_def)
    then have "pass tile dest qs ?m ! i = ?m ! i" if "dest p \<le> i" "i < dest p + width" for i
      using that Cons.prems(2) l by (intro pass_untouched) (auto simp: written_def)
    then have "load (dest p) width (pass tile dest qs ?m) = load (dest p) width ?m"
      by (intro load_cong) simp_all
    also have "\<dots> = tile p m" using Cons.prems(2) by (intro load_store) (simp_all add: length_group)
    finally show ?thesis using True step by simp
  next
    case False
    then have q: "q \<in> set qs" using Cons.prems(4) by simp
    have "load (dest q) width (pass tile dest qs ?m) = tile q ?m"
      using Cons.prems q l by (intro Cons.IH sep) simp_all
    also have "\<dots> = tile q m"
    proof (rule group_local)
      fix i assume i: "i \<in> reads q"
      have "written p \<inter> reads q = {}" using Cons.prems(1,4) q False by (auto simp: separate_def)
      moreover have "i < length m" using i Cons.prems(3) q by auto
      ultimately show "?m ! i = m ! i" using i Cons.prems(2) by (intro store_outside) auto
    qed
    finally show ?thesis using step by simp
  qed
qed

text \<open>When no group reads what the pass writes, positions may repeat.\<close>

definition apart :: "'q list \<Rightarrow> bool" where
  "apart qs \<longleftrightarrow> (\<forall>q \<in> set qs. \<forall>q' \<in> set qs.
     (q \<noteq> q' \<longrightarrow> written q \<inter> written q' = {}) \<and> written q \<inter> reads q' = {})"

theorem pass_spec_apart:
  assumes "apart qs" "\<forall>q \<in> set qs. dest q + width \<le> length m"
    and "\<forall>q \<in> set qs. reads q \<subseteq> {..<length m}" "q \<in> set qs"
  shows "load (dest q) width (pass tile dest qs m) = tile q m"
  using assms
proof (induction qs arbitrary: m)
  case Nil
  then show ?case by simp
next
  case (Cons p qs)
  let ?m = "store (dest p) (tile p m) m"
  have l: "length ?m = length m" using Cons.prems(2) by (simp add: store_def length_group)
  have step: "pass tile dest (p # qs) m = pass tile dest qs ?m" by (simp add: pass_def)
  show ?case
  proof (cases "q \<in> set qs")
    case True
    then have "load (dest q) width (pass tile dest qs ?m) = tile q ?m"
      using Cons.prems l by (intro Cons.IH) (simp_all add: apart_def)
    also have "\<dots> = tile q m"
    proof (rule group_local)
      fix i assume i: "i \<in> reads q"
      have "written p \<inter> reads q = {}" using Cons.prems(1,4) by (auto simp: apart_def)
      moreover have "i < length m" using i Cons.prems(3,4) by auto
      ultimately show "?m ! i = m ! i" using i Cons.prems(2) by (intro store_outside) auto
    qed
    finally show ?thesis using step by simp
  next
    case False
    then have q: "q = p" using Cons.prems(4) by simp
    then have "\<forall>q' \<in> set qs. written p \<inter> written q' = {}" using Cons.prems(1) False by (auto simp: apart_def)
    then have "pass tile dest qs ?m ! i = ?m ! i" if "dest p \<le> i" "i < dest p + width" for i
      using that Cons.prems(2) l by (intro pass_untouched) (auto simp: written_def)
    then have "load (dest p) width (pass tile dest qs ?m) = load (dest p) width ?m"
      by (intro load_cong) simp_all
    also have "\<dots> = tile p m" using Cons.prems(2) by (intro load_store) (simp_all add: length_group)
    finally show ?thesis using q step by simp
  qed
qed

end

end
