(* ===== verification/Pixel_Convert.thy ===== *)
theory Pixel_Convert
  imports Raster_Pass
begin

text \<open>
  \<open>core/pixel_convert\<close>: BGRA to UYVY in fixed point, alpha removal, compositing, black fills, the
  copy with a flip and the preview's box filter. A byte is an integer in [0, 255]; \<open>int32_t\<close>
  accumulators are integers, proved to stay inside 32 bits; \<open>uint32_t\<close> arithmetic is written with
  its wrap-around (\<open>u32\<close>).
\<close>

section \<open>Colour conversion\<close>

record coefficients =
  yr :: int  yg :: int  yb :: int  yOffset :: int
  ur :: int  ug :: int  ub :: int
  vr :: int  vg :: int  vb :: int

definition kBt601 :: coefficients where
  "kBt601 = \<lparr>yr = 16829, yg = 33039, yb = 6416, yOffset = 16 * 65536,
     ur = - 9714, ug = - 19070, ub = 28784, vr = 28784, vg = - 24103, vb = - 4681\<rparr>"

definition kBt709 :: coefficients where
  "kBt709 = \<lparr>yr = 11966, yg = 40254, yb = 4064, yOffset = 16 * 65536,
     ur = - 6596, ug = - 22188, ub = 28784, vr = 28784, vg = - 26145, vb = - 2639\<rparr>"

definition clampByte :: "int \<Rightarrow> int" where
  "clampByte v = u8 (clamp v 0 255)"

text \<open>The shift of a signed accumulator rounds down, like \<open>div\<close>.\<close>

definition round16 :: "int \<Rightarrow> int" where
  "round16 fixed = (fixed + 32768) div 65536"

datatype colour_matrix = MatrixBt601 | MatrixBt709 | MatrixAuto

definition resolveMatrix :: "colour_matrix \<Rightarrow> nat \<Rightarrow> colour_matrix" where
  "resolveMatrix matrix height =
     (if matrix \<noteq> MatrixAuto then matrix else if 720 \<le> height then MatrixBt709 else MatrixBt601)"

definition coefficients_of :: "colour_matrix \<Rightarrow> nat \<Rightarrow> coefficients" where
  "coefficients_of matrix height = (if resolveMatrix matrix height = MatrixBt709 then kBt709 else kBt601)"

definition luma_acc :: "coefficients \<Rightarrow> int \<Rightarrow> int \<Rightarrow> int \<Rightarrow> int" where
  "luma_acc c r g b = yr c * r + yg c * g + yb c * b + yOffset c"

definition cb_acc :: "coefficients \<Rightarrow> int \<Rightarrow> int \<Rightarrow> int \<Rightarrow> int" where
  "cb_acc c r g b = ur c * r + ug c * g + ub c * b"

definition cr_acc :: "coefficients \<Rightarrow> int \<Rightarrow> int \<Rightarrow> int \<Rightarrow> int" where
  "cr_acc c r g b = vr c * r + vg c * g + vb c * b"

definition average :: "int \<Rightarrow> int \<Rightarrow> int" where
  "average a b = (a + b + 1) div 2"

text \<open>One pair of pixels: eight bytes in, four out.\<close>

definition uyvy_pair :: "coefficients \<Rightarrow> int list \<Rightarrow> int list" where
  "uyvy_pair c px =
     (let b0 = px ! 0; g0 = px ! 1; r0 = px ! 2; b1 = px ! 4; g1 = px ! 5; r1 = px ! 6;
          y0 = round16 (luma_acc c r0 g0 b0);
          y1 = round16 (luma_acc c r1 g1 b1);
          rAvg = average r0 r1; gAvg = average g0 g1; bAvg = average b0 b1;
          cb = round16 (cb_acc c rAvg gAvg bAvg) + 128;
          cr = round16 (cr_acc c rAvg gAvg bAvg) + 128
      in [clampByte cb, clampByte y0, clampByte cr, clampByte y1])"

definition bgraToUyvy ::
    "memory \<Rightarrow> nat \<Rightarrow> nat \<Rightarrow> nat \<Rightarrow> nat \<Rightarrow> nat \<Rightarrow> nat \<Rightarrow> colour_matrix \<Rightarrow> memory" where
  "bgraToUyvy m src srcStride dst dstStride width height matrix =
     pass (\<lambda>(y, p) m. uyvy_pair (coefficients_of matrix height) (load (src + y * srcStride + p * 8) 8 m))
       (\<lambda>(y, p). dst + y * dstStride + p * 4) (positions height (width div 2)) m"

section \<open>Alpha\<close>

definition reciprocal :: "int \<Rightarrow> int" where
  "reciprocal a = (if a = 0 then 0 else u32 (255 * 65536 + a div 2) div a)"

definition straight_channel :: "int \<Rightarrow> int \<Rightarrow> int" where
  "straight_channel alpha v = u8 (min (u32 (u32 (v * reciprocal alpha) + 32768) div 65536) 255)"

definition straight_pixel :: "int list \<Rightarrow> int list" where
  "straight_pixel px =
     (let alpha = px ! 3
      in (if alpha = 255 then [px ! 0, px ! 1, px ! 2]
          else if alpha = 0 then [0, 0, 0]
          else map (\<lambda>c. straight_channel alpha (px ! c)) [0, 1, 2]) @ [alpha])"

definition unpremultiplyBgra :: "memory \<Rightarrow> nat \<Rightarrow> nat \<Rightarrow> nat \<Rightarrow> nat \<Rightarrow> nat \<Rightarrow> nat \<Rightarrow> memory" where
  "unpremultiplyBgra m src srcStride dst dstStride width height =
     pass (\<lambda>(y, x) m. straight_pixel (load (src + y * srcStride + x * 4) 4 m))
       (\<lambda>(y, x). dst + y * dstStride + x * 4) (positions height width) m"

definition over_channel :: "int \<Rightarrow> int \<Rightarrow> int \<Rightarrow> int" where
  "over_channel alpha v bg =
     u8 (min (u32 (v + u32 (u32 (bg * (255 - alpha)) + 127) div 255)) 255)"

definition over_pixel :: "int list \<Rightarrow> int list \<Rightarrow> int list" where
  "over_pixel background px =
     (let alpha = px ! 3
      in (if alpha = 255 then [px ! 0, px ! 1, px ! 2]
          else if alpha = 0 then [background ! 0, background ! 1, background ! 2]
          else map (\<lambda>c. over_channel alpha (px ! c) (background ! c)) [0, 1, 2]) @ [255])"

definition compositeOverBgra ::
    "memory \<Rightarrow> nat \<Rightarrow> nat \<Rightarrow> nat \<Rightarrow> nat \<Rightarrow> nat \<Rightarrow> nat \<Rightarrow> int \<Rightarrow> int \<Rightarrow> int \<Rightarrow> memory" where
  "compositeOverBgra m src srcStride dst dstStride width height blue green red =
     pass (\<lambda>(y, x) m. over_pixel [blue, green, red] (load (src + y * srcStride + x * 4) 4 m))
       (\<lambda>(y, x). dst + y * dstStride + x * 4) (positions height width) m"

section \<open>Copies and fills\<close>

definition copyBgra :: "memory \<Rightarrow> nat \<Rightarrow> nat \<Rightarrow> nat \<Rightarrow> nat \<Rightarrow> nat \<Rightarrow> nat \<Rightarrow> bool \<Rightarrow> memory" where
  "copyBgra m src srcStride dst dstStride width height flipVertically =
     pass (\<lambda>y m. load (src + (if flipVertically then height - 1 - y else y) * srcStride) (width * 4) m)
       (\<lambda>y. dst + y * dstStride) [0..<height] m"

definition fillBlackBgra :: "memory \<Rightarrow> nat \<Rightarrow> nat \<Rightarrow> nat \<Rightarrow> nat \<Rightarrow> memory" where
  "fillBlackBgra m dst stride width height =
     pass (\<lambda>_ _. [0, 0, 0, 255]) (\<lambda>(y, x). dst + y * stride + x * 4) (positions height width) m"

definition fillBlackUyvy :: "memory \<Rightarrow> nat \<Rightarrow> nat \<Rightarrow> nat \<Rightarrow> nat \<Rightarrow> memory" where
  "fillBlackUyvy m dst stride width height =
     pass (\<lambda>_ _. [128, 16, 128, 16]) (\<lambda>(y, x). dst + y * stride + x * 4) (positions height ((width + 1) div 2)) m"

definition box_sum :: "memory \<Rightarrow> nat \<Rightarrow> nat \<Rightarrow> nat \<Rightarrow> int" where
  "box_sum m a srcStride factor =
     sum_list (map (\<lambda>(sy, sx). m ! (a + sy * srcStride + sx * 4)) (positions factor factor))"

definition box_pixel :: "memory \<Rightarrow> nat \<Rightarrow> nat \<Rightarrow> nat \<Rightarrow> int list" where
  "box_pixel m a srcStride factor =
     map (\<lambda>c. u8 (box_sum m (a + c) srcStride factor div int (factor * factor))) [0, 1, 2] @ [255]"

definition downscaleBgra :: "memory \<Rightarrow> nat \<Rightarrow> nat \<Rightarrow> nat \<Rightarrow> nat \<Rightarrow> nat \<Rightarrow> nat \<Rightarrow> int \<Rightarrow> memory" where
  "downscaleBgra m src srcStride srcWidth srcHeight dst dstStride factor =
     (let f = nat (if factor < 1 then 1 else factor)
      in pass (\<lambda>(y, x) m. box_pixel m (src + y * f * srcStride + x * f * 4) srcStride f)
           (\<lambda>(y, x). dst + y * dstStride + x * 4) (positions (srcHeight div f) (srcWidth div f)) m)"

section \<open>The passes meet the contract\<close>

lemma length_uyvy_pair [simp]: "length (uyvy_pair c px) = 4"
  by (simp add: uyvy_pair_def Let_def)

lemma length_straight_pixel [simp]: "length (straight_pixel px) = 4"
  by (simp add: straight_pixel_def Let_def)

lemma length_over_pixel [simp]: "length (over_pixel bg px) = 4"
  by (simp add: over_pixel_def Let_def)

definition bytes_at :: "nat \<Rightarrow> nat \<Rightarrow> nat set" where
  "bytes_at a n = {a ..< a + n}"

lemma load_bytes_at: "(\<And>i. i \<in> bytes_at a n \<Longrightarrow> m ! i = m' ! i) \<Longrightarrow> load a n m = load a n m'"
  by (rule load_cong) (simp add: bytes_at_def)

lemma ex_pair: "q \<in> set (positions h n) \<Longrightarrow> \<exists>y x. q = (y, x) \<and> y < h \<and> x < n"
  by (cases q) simp

text \<open>A buffer of \<open>h\<close> rows of \<open>stride\<close> bytes, each with \<open>n\<close> groups of \<open>w\<close>.\<close>

definition buffer_fits :: "memory \<Rightarrow> nat \<Rightarrow> nat \<Rightarrow> nat \<Rightarrow> nat \<Rightarrow> nat \<Rightarrow> bool" where
  "buffer_fits m a stride h n w \<longleftrightarrow> n * w \<le> stride \<and> a + h * stride \<le> length m"

text \<open>Two buffers are apart, or the conversion is in place.\<close>

definition apart_or_same :: "nat \<Rightarrow> nat \<Rightarrow> nat \<Rightarrow> nat \<Rightarrow> nat \<Rightarrow> nat \<Rightarrow> nat \<Rightarrow> bool" where
  "apart_or_same src ss w dst ds v h \<longleftrightarrow>
     src + h * ss \<le> dst \<or> dst + h * ds \<le> src \<or> (src = dst \<and> ss = ds \<and> w = v)"

locale pixel_map =
  fixes f :: "int list \<Rightarrow> int list"
    and src ss w dst ds :: nat
  assumes length_f: "length (f px) = 4"
begin

definition group_at :: "nat \<times> nat \<Rightarrow> memory \<Rightarrow> int list" where
  "group_at = (\<lambda>(y, x) m. f (load (src + y * ss + x * w) w m))"

definition dest_at :: "nat \<times> nat \<Rightarrow> nat" where
  "dest_at = (\<lambda>(y, x). dst + y * ds + x * 4)"

definition reads_at :: "nat \<times> nat \<Rightarrow> nat set" where
  "reads_at = (\<lambda>(y, x). bytes_at (src + y * ss + x * w) w)"

end

sublocale pixel_map \<subseteq> raster_pass group_at dest_at 4 reads_at
proof
  fix q :: "nat \<times> nat" and m m' :: memory
  show "length (group_at q m) = 4" by (cases q) (simp add: group_at_def length_f)
  assume "\<And>i. i \<in> reads_at q \<Longrightarrow> m ! i = m' ! i"
  then show "group_at q m = group_at q m'"
    by (cases q) (simp add: group_at_def reads_at_def load_bytes_at [of _ _ m m'])
qed

context pixel_map
begin

lemma written_pair: "written (y, x) = {dst + y * ds + x * 4 ..< dst + y * ds + x * 4 + 4}"
  by (simp add: written_def) (simp add: dest_at_def)

lemma reads_pair: "reads_at (y, x) = {src + y * ss + x * w ..< src + y * ss + x * w + w}"
  by (simp add: reads_at_def bytes_at_def)

lemma dest_fits:
  assumes "buffer_fits m dst ds h n 4"
  shows "\<forall>q \<in> set (positions h n). dest_at q + 4 \<le> length m"
proof
  fix q assume "q \<in> set (positions h n)"
  then obtain y x where "q = (y, x)" "y < h" "x < n" using ex_pair by blast
  with assms group_in_picture [of y h x n 4 ds dst] show "dest_at q + 4 \<le> length m"
    by (simp add: dest_at_def buffer_fits_def)
qed

lemma separate_positions:
  assumes "n * 4 \<le> ds" "n * w \<le> ss" "apart_or_same src ss w dst ds 4 h"
  shows "separate (positions h n)"
  unfolding separate_def
proof (intro conjI ballI impI)
  fix q q' assume q: "q \<in> set (positions h n)" "q' \<in> set (positions h n)" "q \<noteq> q'"
  obtain y x y' x' where e: "q = (y, x)" "q' = (y', x')" and r: "y < h" "x < n" "y' < h" "x' < n"
    using q ex_pair by metis
  have g: "y * ds + x * 4 + 4 \<le> y' * ds + x' * 4 \<or> y' * ds + x' * 4 + 4 \<le> y * ds + x * 4"
    using groups_apart [of x n x' 4 ds y y'] r q(3) e assms(1) by simp
  then show d: "written q \<inter> written q' = {}" by (auto simp: written_pair e)
  show "written q \<inter> reads_at q' = {}"
    using assms(3) unfolding apart_or_same_def
  proof (elim disjE)
    assume a: "src + h * ss \<le> dst"
    have "src + y' * ss + x' * w + w \<le> src + h * ss" using r assms(2) group_in_picture [of y' h x' n w ss src "src + h * ss"] by simp
    with a show ?thesis by (auto simp: written_pair reads_pair e)
  next
    assume a: "dst + h * ds \<le> src"
    have "dst + y * ds + x * 4 + 4 \<le> dst + h * ds" using r assms(1) group_in_picture [of y h x n 4 ds dst "dst + h * ds"] by simp
    with a show ?thesis by (auto simp: written_pair reads_pair e)
  next
    assume "src = dst \<and> ss = ds \<and> w = 4"
    then have "reads_at q' = written q'" unfolding e reads_pair written_pair by simp
    with d show ?thesis by simp
  qed
qed simp

theorem picture:
  assumes "buffer_fits m src ss h n w" "buffer_fits m dst ds h n 4" "apart_or_same src ss w dst ds 4 h"
    and "y < h" "x < n"
  shows "load (dst + y * ds + x * 4) 4 (pass group_at dest_at (positions h n) m) =
    f (load (src + y * ss + x * w) w m)"
proof -
  note d = dest_fits [OF assms(2)]
  have r: "\<forall>q \<in> set (positions h n). reads_at q \<subseteq> {..<length m}"
  proof
    fix q assume "q \<in> set (positions h n)"
    then obtain y x where "q = (y, x)" "y < h" "x < n" using ex_pair by blast
    moreover from this have "src + y * ss + x * w + w \<le> length m"
      using assms(1) by (intro group_in_picture [of y h x n w ss]) (simp_all add: buffer_fits_def)
    ultimately show "reads_at q \<subseteq> {..<length m}" by (auto simp: reads_pair)
  qed
  have "separate (positions h n)" using assms(1-3) by (intro separate_positions) (simp_all add: buffer_fits_def)
  from pass_spec [OF this d r, of "(y, x)"] assms(4,5) show ?thesis
    by (simp add: dest_at_def group_at_def)
qed

theorem outside_picture:
  assumes "buffer_fits m dst ds h n 4" "i < length m" "i < dst \<or> dst + h * ds \<le> i \<or> n * 4 \<le> (i - dst) mod ds"
  shows "pass group_at dest_at (positions h n) m ! i = m ! i"
proof (rule pass_untouched)
  have n: "n * 4 \<le> ds" and l: "dst + h * ds \<le> length m" using assms(1) by (simp_all add: buffer_fits_def)
  show "\<forall>q \<in> set (positions h n). dest_at q + 4 \<le> length m"
    by (rule dest_fits [OF assms(1)])
  show "\<forall>q \<in> set (positions h n). i \<notin> written q"
  proof
    fix q assume "q \<in> set (positions h n)"
    then obtain y x where q: "q = (y, x)" "y < h" "x < n" using ex_pair by blast
    have top: "dst + y * ds + x * 4 + 4 \<le> dst + h * ds" using q n group_in_picture [of y h x n 4 ds dst "dst + h * ds"] by simp
    show "i \<notin> written q"
    proof
      assume w: "i \<in> written q"
      then obtain k where k: "i = dst + y * ds + (x * 4 + k)" "k < 4"
        using le_Suc_ex [of "dst + y * ds + x * 4" i] by (auto simp: written_pair q)
      have "x * 4 + k < n * 4" using k q group_in_row [of x n 4] by simp
      then have "(i - dst) mod ds = x * 4 + k" using k n by simp
      then show False using assms(3) w top \<open>x * 4 + k < n * 4\<close> by (auto simp: written_pair q)
    qed
  qed
qed (rule assms(2))

end

interpretation uyvy: pixel_map "uyvy_pair c" src ss 8 dst ds for c src ss dst ds
  by unfold_locales simp

interpretation straight: pixel_map straight_pixel src ss 4 dst ds for src ss dst ds
  by unfold_locales simp

interpretation over: pixel_map "over_pixel bg" src ss 4 dst ds for bg src ss dst ds
  by unfold_locales simp

lemma uyvy_picture:
  assumes "buffer_fits m src ss h (n div 2) 8" "buffer_fits m dst ds h (n div 2) 4"
    and "apart_or_same src ss 8 dst ds 4 h" "y < h" "p < n div 2"
  shows "load (dst + y * ds + p * 4) 4 (bgraToUyvy m src ss dst ds n h matrix) =
    uyvy_pair (coefficients_of matrix h) (load (src + y * ss + p * 8) 8 m)"
  using uyvy.picture [OF assms, of "coefficients_of matrix h"]
  unfolding bgraToUyvy_def uyvy.group_at_def uyvy.dest_at_def .

section \<open>Properties\<close>

definition is_byte :: "int \<Rightarrow> bool" where
  "is_byte v \<longleftrightarrow> 0 \<le> v \<and> v \<le> 255"

lemma average_byte: "is_byte a \<Longrightarrow> is_byte b \<Longrightarrow> is_byte (average a b)"
  unfolding is_byte_def average_def by linarith

lemma luma_range:
  assumes "c = kBt601 \<or> c = kBt709" "is_byte r" "is_byte g" "is_byte b"
  shows "16 \<le> round16 (luma_acc c r g b) \<and> round16 (luma_acc c r g b) \<le> 235 \<and>
    0 \<le> luma_acc c r g b \<and> luma_acc c r g b < 2 ^ 31 - 32768"
  using assms by (auto simp: kBt601_def kBt709_def luma_acc_def round16_def is_byte_def)

lemma chroma_range:
  assumes "c = kBt601 \<or> c = kBt709" "is_byte r" "is_byte g" "is_byte b"
  shows "- 112 \<le> round16 (cb_acc c r g b) \<and> round16 (cb_acc c r g b) \<le> 112 \<and>
    - 112 \<le> round16 (cr_acc c r g b) \<and> round16 (cr_acc c r g b) \<le> 112 \<and>
    \<bar>cb_acc c r g b\<bar> < 2 ^ 31 - 32768 \<and> \<bar>cr_acc c r g b\<bar> < 2 ^ 31 - 32768"
  using assms by (auto simp: kBt601_def kBt709_def cb_acc_def cr_acc_def round16_def is_byte_def abs_less_iff)

lemma coefficients_cases: "coefficients_of matrix height = kBt601 \<or> coefficients_of matrix height = kBt709"
  by (simp add: coefficients_of_def)

lemma clampByte_id [simp]: "is_byte v \<Longrightarrow> clampByte v = v"
  by (simp add: clampByte_def clamp_def u8_def is_byte_def)

text \<open>
  UYVY output is studio swing: for any two pixels the luma bytes are in [16, 235] and the
  chroma bytes in [16, 240]; two neutral
  pixels give chroma of exactly 128, so grey never picks up a tint; black is 16 and white 235.
\<close>

theorem uyvy_studio_range:
  fixes matrix :: colour_matrix and height :: nat
  assumes "list_all is_byte px" "length px = 8"
  defines "c \<equiv> coefficients_of matrix height"
  shows "(\<exists>cb y0 cr y1. uyvy_pair c px = [cb, y0, cr, y1] \<and> {y0, y1} \<subseteq> {16..235} \<and> {cb, cr} \<subseteq> {16..240} \<and>
      y0 = round16 (luma_acc c (px ! 2) (px ! 1) (px ! 0)) \<and>
      y1 = round16 (luma_acc c (px ! 6) (px ! 5) (px ! 4)) \<and>
      (\<forall>g0 g1. px ! 0 = g0 \<and> px ! 1 = g0 \<and> px ! 2 = g0 \<and> px ! 4 = g1 \<and> px ! 5 = g1 \<and> px ! 6 = g1 \<longrightarrow>
        cb = 128 \<and> cr = 128 \<and> (g0 = 0 \<longrightarrow> y0 = 16) \<and> (g0 = 255 \<longrightarrow> y0 = 235)))"
proof -
  note cc = coefficients_cases [of matrix height, folded c_def]
  have b: "is_byte (px ! i)" if "i < 8" for i using assms(1,2) that by (simp add: list_all_length)
  let ?ra = "average (px ! 2) (px ! 6)" and ?ga = "average (px ! 1) (px ! 5)" and ?ba = "average (px ! 0) (px ! 4)"
  have a: "is_byte ?ra" "is_byte ?ga" "is_byte ?ba" using b by (simp_all add: average_byte)
  let ?y0 = "round16 (luma_acc c (px ! 2) (px ! 1) (px ! 0))"
  let ?y1 = "round16 (luma_acc c (px ! 6) (px ! 5) (px ! 4))"
  let ?cb = "round16 (cb_acc c ?ra ?ga ?ba) + 128" and ?cr = "round16 (cr_acc c ?ra ?ga ?ba) + 128"
  have y0: "16 \<le> ?y0 \<and> ?y0 \<le> 235" using luma_range [OF cc b b b, of 2 1 0] by simp
  have y1: "16 \<le> ?y1 \<and> ?y1 \<le> 235" using luma_range [OF cc b b b, of 6 5 4] by simp
  have ch: "16 \<le> ?cb \<and> ?cb \<le> 240 \<and> 16 \<le> ?cr \<and> ?cr \<le> 240" using chroma_range [OF cc a] by simp
  have "uyvy_pair c px = [clampByte ?cb, clampByte ?y0, clampByte ?cr, clampByte ?y1]"
    by (simp add: uyvy_pair_def Let_def)
  moreover have "is_byte ?cb" "is_byte ?y0" "is_byte ?cr" "is_byte ?y1"
    using y0 y1 ch by (simp_all add: is_byte_def)
  ultimately have out: "uyvy_pair c px = [?cb, ?y0, ?cr, ?y1]" by (simp only: clampByte_id)
  have grey: "cb_acc c v v v = 0" "cr_acc c v v v = 0" for v
    using cc by (auto simp: cb_acc_def cr_acc_def kBt601_def kBt709_def)
  have ends: "round16 (luma_acc c 0 0 0) = 16" "round16 (luma_acc c 255 255 255) = 235"
    using cc by (auto simp: luma_acc_def kBt601_def kBt709_def round16_def)
  have "\<forall>g0 g1. px ! 0 = g0 \<and> px ! 1 = g0 \<and> px ! 2 = g0 \<and> px ! 4 = g1 \<and> px ! 5 = g1 \<and> px ! 6 = g1 \<longrightarrow>
        ?cb = 128 \<and> ?cr = 128 \<and> (g0 = 0 \<longrightarrow> ?y0 = 16) \<and> (g0 = 255 \<longrightarrow> ?y0 = 235)"
    by (auto simp: grey ends) (simp_all add: round16_def)
  with out y0 y1 ch show ?thesis by (intro exI [of _ ?cb] exI [of _ ?y0] exI [of _ ?cr] exI [of _ ?y1]) simp
qed

theorem uyvy_studio_range_witness:
  "\<exists>cb y0 cr y1. uyvy_pair (coefficients_of MatrixAuto 1080) [0, 0, 255, 255, 10, 20, 30, 255] = [cb, y0, cr, y1] \<and>
     {y0, y1} \<subseteq> {16..235} \<and> {cb, cr} \<subseteq> {16..240}"
  using uyvy_studio_range [of "[0, 0, 255, 255, 10, 20, 30, 255]" MatrixAuto 1080]
  by (force simp: is_byte_def)

lemma reciprocal_bounds:
  assumes "0 < a" "a \<le> 255"
  defines "S \<equiv> reciprocal a"
  shows "a * S \<le> 16711680 + a div 2" "16711680 + a div 2 < a * S + a" "0 \<le> S" "S \<le> 16711680"
proof -
  have u: "u32 (255 * 65536 + a div 2) = 16711680 + a div 2" using assms by (simp add: u32_def)
  then have S: "S = (16711680 + a div 2) div a" using assms by (simp add: reciprocal_def)
  have e: "a * S + (16711680 + a div 2) mod a = 16711680 + a div 2" unfolding S by simp
  have m: "0 \<le> (16711680 + a div 2) mod a" "(16711680 + a div 2) mod a < a" using assms(1) by simp_all
  show ub: "a * S \<le> 16711680 + a div 2" using e m by linarith
  show "16711680 + a div 2 < a * S + a" using e m by linarith
  show S0: "0 \<le> S" unfolding S using assms(1) by (simp add: pos_imp_zdiv_nonneg_iff)
  show "S \<le> 16711680"
  proof (rule ccontr)
    assume "\<not> S \<le> 16711680"
    then have "a * 16711681 \<le> a * S" using assms(1) by simp
    with ub assms(1) show False by linarith
  qed
qed

lemma straight_channel_value:
  assumes "0 < a" "a \<le> 255" "is_byte v"
  shows "straight_channel a v = min ((v * reciprocal a + 32768) div 65536) 255"
proof -
  note r = reciprocal_bounds [OF assms(1,2)]
  have p: "0 \<le> v * reciprocal a" using assms(3) r(3) by (simp add: is_byte_def)
  have "v * reciprocal a \<le> 255 * 16711680" using assms(3) r(3,4) by (intro mult_mono) (simp_all add: is_byte_def)
  with p have u: "u32 (v * reciprocal a) = v * reciprocal a"
    "u32 (v * reciprocal a + 32768) = v * reciprocal a + 32768" by (simp_all add: u32_def)
  have "0 \<le> (v * reciprocal a + 32768) div 65536" using p by simp
  then show ?thesis unfolding straight_channel_def u by (simp add: u8_def min_def)
qed

lemma straight_channel_nearest:
  assumes "0 < a" "a \<le> 255" "0 \<le> v" "v \<le> a"
  shows "2 * \<bar>straight_channel a v * a - 255 * v\<bar> \<le> a"
proof -
  let ?S = "reciprocal a"
  define W where "W = (v * reciprocal a + 32768) div 65536"
  note r = reciprocal_bounds [OF assms(1,2)]
  have b: "is_byte v" using assms by (simp add: is_byte_def)
  have W: "65536 * W \<le> v * ?S + 32768" "v * ?S + 32768 < 65536 * W + 65536" unfolding W_def by linarith+
  have va: "v * a \<le> 255 * 255" using assms by (intro mult_mono) simp_all
  have h: "2 * (a div 2) \<le> a" "a \<le> 2 * (a div 2) + 1" by linarith+
  have up: "v * (a * ?S) \<le> v * (16711680 + a div 2)" using r(1) assms(3) by (rule mult_left_mono)
  have lo: "v * (16711680 + a div 2) \<le> v * (a * ?S + a - 1)" using r(2) assms(3) by (intro mult_left_mono) simp_all
  have half: "2 * (v * (a div 2)) \<le> v * a" "v * a \<le> 2 * (v * (a div 2)) + v"
    using mult_left_mono [OF h(1) assms(3)] mult_left_mono [OF h(2) assms(3)] by (simp_all add: algebra_simps)
  have Wa: "65536 * (W * a) \<le> v * (a * ?S) + 32768 * a" "v * (a * ?S) + 32768 * a \<le> 65536 * (W * a) + 65535 * a"
    using mult_right_mono [of "65536 * W" "v * ?S + 32768" a] mult_right_mono [of "v * ?S + 32768" "65536 * W + 65535" a]
      W assms(1) by (simp_all add: algebra_simps)
  have "131072 * (W * a - 255 * v) \<le> v * a + 65536 * a" using Wa(1) up half by (simp add: algebra_simps)
  then have high: "2 * (W * a - 255 * v) \<le> a" using va by linarith
  moreover have "- (v * a) - 65536 * a \<le> 131072 * (W * a - 255 * v)"
    using Wa(2) lo half assms by (simp add: algebra_simps)
  then have "- a \<le> 2 * (W * a - 255 * v)" using va by linarith
  ultimately have near: "2 * \<bar>W * a - 255 * v\<bar> \<le> a" by linarith
  have "W \<le> 255"
  proof (rule ccontr)
    assume "\<not> W \<le> 255"
    then have big: "512 * a \<le> 2 * (W * a)" using assms(1) by simp
    have False if "512 * a \<le> 2 * P" "2 * P - 510 * v \<le> a" "510 * v \<le> 510 * a" for P
      using that assms(1) by linarith
    from this [OF big] high assms(4) show False by simp
  qed
  then have "straight_channel a v = W" using straight_channel_value [OF assms(1,2) b] by (simp add: W_def)
  with near show ?thesis by simp
qed

text \<open>
  C38: removing premultiplication is exact: for every alpha and every channel a premultiplied
  pixel can have, the table-driven result is a nearest integer to \<open>255 v / alpha\<close>, it is a byte, and
  premultiplying it again with rounding gives back the channel.
\<close>

theorem straight_alpha_exact:
  assumes "0 < a" "a \<le> 255" "0 \<le> v" "v \<le> a"
  shows "2 * \<bar>straight_channel a v * a - 255 * v\<bar> \<le> a \<and> is_byte (straight_channel a v) \<and>
    (2 * (straight_channel a v * a) + 255) div 510 = v"
proof -
  note n = straight_channel_nearest [OF assms]
  have "straight_channel a v = min ((v * reciprocal a + 32768) div 65536) 255"
    using assms by (intro straight_channel_value) (simp_all add: is_byte_def)
  moreover have "0 \<le> (v * reciprocal a + 32768) div 65536"
    using mult_nonneg_nonneg [OF assms(3) reciprocal_bounds(3) [OF assms(1,2)]] by linarith
  ultimately have "is_byte (straight_channel a v)" by (simp add: is_byte_def)
  moreover have "(2 * X + 255) div 510 = v" if "2 * \<bar>X - 255 * v\<bar> \<le> a" for X
    using that assms(2) by (intro int_div_pos_eq [of _ 510 v "2 * X + 255 - 510 * v"]) presburger+
  from this [OF n] have "(2 * (straight_channel a v * a) + 255) div 510 = v" .
  ultimately show ?thesis using n by blast
qed

theorem straight_alpha_exact_witness:
  "is_byte (straight_channel 3 2) \<and> (2 * (straight_channel 3 2 * 3) + 255) div 510 = 2"
  using straight_alpha_exact [of 3 2] by simp

lemma over_channel_value:
  assumes "0 \<le> v" "v \<le> a" "a \<le> 255" "is_byte bg"
  shows "over_channel a v bg = v + (bg * (255 - a) + 127) div 255"
    and "is_byte (over_channel a v bg)"
    and "2 * \<bar>255 * (over_channel a v bg - v) - bg * (255 - a)\<bar> \<le> 255"
proof -
  let ?p = "bg * (255 - a)" and ?t = "(bg * (255 - a) + 127) div 255"
  have p: "0 \<le> ?p" "?p \<le> 255 * (255 - a)"
    using assms mult_right_mono [of bg 255 "255 - a"] by (simp_all add: is_byte_def)
  have "(X + 127) div 255 \<le> q" if "X \<le> 255 * q" for X q :: int using that by linarith
  from this [OF p(2)] have t: "0 \<le> ?t" "?t \<le> 255 - a" using p(1) by simp_all
  have u: "u32 ?p = ?p" using p assms by (simp add: u32_def)
  have u': "u32 (v + (?p + 127) div 255) = v + (?p + 127) div 255" using t assms by (simp add: u32_def)
  have "min (v + ?t) 255 = v + ?t" using t assms by simp
  moreover have "u8 (v + ?t) = v + ?t" using t assms by (simp add: u8_def)
  moreover have "u32 (?p + 127) = ?p + 127" using p assms by (simp add: u32_def)
  ultimately show e: "over_channel a v bg = v + ?t" unfolding over_channel_def u by (simp add: u')
  show "is_byte (over_channel a v bg)" using t assms by (simp add: e is_byte_def)
  show "2 * \<bar>255 * (over_channel a v bg - v) - ?p\<bar> \<le> 255"
  proof -
    have "2 * \<bar>255 * ((X + 127) div 255) - X\<bar> \<le> 255" for X :: int
    proof -
      have "255 * ((X + 127) div 255) + (X + 127) mod 255 = X + 127" by simp
      moreover have "0 \<le> (X + 127) mod 255" "(X + 127) mod 255 < 255" by simp_all
      moreover have "2 * \<bar>255 * q - X\<bar> \<le> 255" if "255 * q + r = X + 127" "0 \<le> r" "r < 255" for q r :: int
      proof -
        have "255 * q - X = 127 - r" using that(1) by simp
        moreover have "\<bar>127 - r\<bar> \<le> 127" using that(2,3) by simp
        ultimately show ?thesis by simp
      qed
      ultimately show ?thesis by blast
    qed
    from this [of ?p] show ?thesis unfolding e by (simp only: add_diff_cancel_left')
  qed
qed

text \<open>
  Compositing a premultiplied pixel over a background is the \<open>over\<close> operator with rounding to
  nearest on every branch: the fast paths for alpha 0 and 255 agree with the general formula, no
  channel saturates, and the result is opaque.
\<close>

theorem over_pixel_correct:
  assumes "0 \<le> b" "0 \<le> g" "0 \<le> r" "b \<le> a" "g \<le> a" "r \<le> a" "a \<le> 255"
    and "is_byte bb" "is_byte bg" "is_byte br"
  shows "over_pixel [bb, bg, br] [b, g, r, a] =
      [b + (bb * (255 - a) + 127) div 255, g + (bg * (255 - a) + 127) div 255, r + (br * (255 - a) + 127) div 255, 255] \<and>
    list_all is_byte (over_pixel [bb, bg, br] [b, g, r, a])"
proof -
  note v = over_channel_value
  have "over_pixel [bb, bg, br] [b, g, r, a] = [over_channel a b bb, over_channel a g bg, over_channel a r br, 255]"
  proof -
    consider "a = 255" | "a = 0" | "0 < a" "a < 255" using assms by linarith
    then show ?thesis
    proof cases
      case 1
      then show ?thesis using v(1) [of b a bb] v(1) [of g a bg] v(1) [of r a br] assms
        by (simp add: over_pixel_def numeral_2_eq_2 numeral_3_eq_3)
    next
      case 2
      then have "b = 0" "g = 0" "r = 0" using assms by simp_all
      with 2 show ?thesis using v(1) [of 0 0 bb] v(1) [of 0 0 bg] v(1) [of 0 0 br] assms
        by (simp add: over_pixel_def numeral_2_eq_2 numeral_3_eq_3)
    next
      case 3
      then show ?thesis by (simp add: over_pixel_def numeral_2_eq_2 numeral_3_eq_3)
    qed
  qed
  moreover have "is_byte (255 :: int)" by (simp add: is_byte_def)
  moreover have "over_channel a b bb = b + (bb * (255 - a) + 127) div 255" "is_byte (over_channel a b bb)"
    "over_channel a g bg = g + (bg * (255 - a) + 127) div 255" "is_byte (over_channel a g bg)"
    "over_channel a r br = r + (br * (255 - a) + 127) div 255" "is_byte (over_channel a r br)"
    using assms by (auto intro: v(1,2))
  ultimately show ?thesis by (simp only: list.pred_inject simp_thms)
qed

theorem over_pixel_correct_witness:
  "list_all is_byte (over_pixel [0, 177, 64] [100, 50, 0, 128])"
  using over_pixel_correct [of 100 50 0 128 0 177 64] by (simp add: is_byte_def)

text \<open>
  Alpha removal and compositing over whole pictures, with any strides,
  between two buffers or in place where the pixel sizes allow it: each destination pixel is the
  conversion of the source pixel as it was before the call.
\<close>

theorem conversions_read_the_original:
  assumes "buffer_fits m src ss h n 4" "buffer_fits m dst ds h n 4" "apart_or_same src ss 4 dst ds 4 h"
    and "y < h" "x < n"
  shows "load (dst + y * ds + x * 4) 4 (unpremultiplyBgra m src ss dst ds n h) =
      straight_pixel (load (src + y * ss + x * 4) 4 m) \<and>
    load (dst + y * ds + x * 4) 4 (compositeOverBgra m src ss dst ds n h blue green red) =
      over_pixel [blue, green, red] (load (src + y * ss + x * 4) 4 m)"
  using straight.picture [OF assms] over.picture [OF assms, of "[blue, green, red]"]
  unfolding unpremultiplyBgra_def compositeOverBgra_def straight.group_at_def straight.dest_at_def
    over.group_at_def over.dest_at_def
  by simp

theorem conversions_read_the_original_witness:
  "load 0 4 (unpremultiplyBgra [1, 2, 3, 128] 0 4 0 4 1 1) = straight_pixel [1, 2, 3, 128]"
proof -
  have l: "load 0 4 [1, 2, 3, 128] = [1, 2, 3, 128]" by code_simp
  have f: "buffer_fits [1, 2, 3, 128] 0 4 1 1 4" by (simp add: buffer_fits_def)
  have "apart_or_same 0 4 4 0 4 4 1" by (simp add: apart_or_same_def)
  from conjunct1 [OF conversions_read_the_original [OF f f this zero_less_one zero_less_one]]
  show ?thesis unfolding mult_zero_left add_0_right l .
qed

end
