(* ===== verification/Rotated_Blit.thy ===== *)
theory Rotated_Blit
  imports Raster_Pass
begin

text \<open>
  \<open>core/rotated_blit\<close>: the turned and fitted copy of a picture onto a display buffer. The
  geometry is worked out once by \<open>configure\<close> (integers, \<open>int64_t\<close> products that cannot overflow,
  the placement narrowed to \<open>int\<close>), and a blit is a pass over 32 x 32 tiles of the display. The
  source picture and the display are different buffers.
\<close>

section \<open>Names of rotations and fits\<close>

datatype rotation = R0 | R90 | R180 | R270

datatype fit = FitInside | Fill | Stretch

definition rotationFromString :: "string \<Rightarrow> rotation option" where
  "rotationFromString s =
     (if s = ''0'' then Some R0 else if s = ''90'' then Some R90 else if s = ''180'' then Some R180
      else if s = ''270'' \<or> s = ''-90'' then Some R270 else None)"

fun rotationToString :: "rotation \<Rightarrow> string" where
  "rotationToString R90 = ''90''"
| "rotationToString R180 = ''180''"
| "rotationToString R270 = ''270''"
| "rotationToString R0 = ''0''"

definition fitFromString :: "string \<Rightarrow> fit" where
  "fitFromString s = (let lower = lowercase s
     in if lower = ''fill'' then Fill else if lower = ''stretch'' then Stretch else FitInside)"

fun fitToString :: "fit \<Rightarrow> string" where
  "fitToString Fill = ''fill''"
| "fitToString Stretch = ''stretch''"
| "fitToString FitInside = ''fit''"

section \<open>Geometry\<close>

record blit_rect =
  rect_x :: int
  rect_y :: int
  rect_width :: int
  rect_height :: int

record rotated_blit =
  sourceWidth :: int
  sourceHeight :: int
  destWidth :: int
  destHeight :: int
  rotatedWidth :: int
  rotatedHeight :: int
  blit_rotation :: rotation
  placement :: blit_rect
  x0 :: int
  x1 :: int
  y0 :: int
  y1 :: int
  columnOf :: "int list"
  rowOf :: "int list"
  identity :: bool

text \<open>The size of the fitted picture on the display.\<close>

definition fitted_size :: "fit \<Rightarrow> int \<Rightarrow> int \<Rightarrow> int \<Rightarrow> int \<Rightarrow> int \<times> int" where
  "fitted_size f rw rh dw dh =
     (if f = Stretch then (dw, dh)
      else let pictureIsWider = rw * dh > dw * rh;
               fitWidth = ((f = FitInside) = pictureIsWider)
           in if fitWidth then (dw, (rh * dw + rw div 2) div rw) else ((rw * dh + rh div 2) div rh, dh))"

text \<open>The loop that fills \<open>columnOf_\<close> (or \<open>rowOf_\<close>) on \<open>[lo, hi)\<close>.\<close>

definition sample_table :: "int \<Rightarrow> int \<Rightarrow> int \<Rightarrow> int \<Rightarrow> int \<Rightarrow> int \<Rightarrow> int list" where
  "sample_table n lo hi origin extent rotated =
     map (\<lambda>i. let x = int i; local = x - origin
              in if lo \<le> x \<and> x < hi then min ((2 * local + 1) * rotated div (2 * extent)) (rotated - 1) else 0)
       [0..<nat n]"

definition configure :: "int \<Rightarrow> int \<Rightarrow> int \<Rightarrow> int \<Rightarrow> rotation \<Rightarrow> fit \<Rightarrow> rotated_blit" where
  "configure sourceW sourceH destW destH rot f =
     (let sw = max sourceW 0; sh = max sourceH 0; dw = max destW 0; dh = max destH 0;
          transposed = (rot = R90 \<or> rot = R270);
          rw = (if transposed then sh else sw);
          rh = (if transposed then sw else sh)
      in if rw = 0 \<or> rh = 0 \<or> dw = 0 \<or> dh = 0
         then \<lparr>sourceWidth = sw, sourceHeight = sh, destWidth = dw, destHeight = dh,
               rotatedWidth = rw, rotatedHeight = rh, blit_rotation = rot,
               placement = \<lparr>rect_x = 0, rect_y = 0, rect_width = 0, rect_height = 0\<rparr>,
               x0 = 0, x1 = 0, y0 = 0, y1 = 0, columnOf = replicate (nat dw) 0,
               rowOf = replicate (nat dh) 0, identity = False\<rparr>
         else let (w, h) = fitted_size f rw rh dw dh;
                  pw = i32 w; ph = i32 h; px = i32 ((dw - w) sdiv 2); py = i32 ((dh - h) sdiv 2);
                  xa = max px 0; xb = min (px + pw) dw; ya = max py 0; yb = min (py + ph) dh
              in \<lparr>sourceWidth = sw, sourceHeight = sh, destWidth = dw, destHeight = dh,
                  rotatedWidth = rw, rotatedHeight = rh, blit_rotation = rot,
                  placement = \<lparr>rect_x = px, rect_y = py, rect_width = pw, rect_height = ph\<rparr>,
                  x0 = xa, x1 = xb, y0 = ya, y1 = yb,
                  columnOf = sample_table dw xa xb px w rw,
                  rowOf = sample_table dh ya yb py h rh,
                  identity = (rot = R0 \<and> w = rw \<and> h = rh)\<rparr>)"

section \<open>Drawing\<close>

text \<open>\<open>clearBars\<close>: the black rows and the black ends of the other rows.\<close>

definition clear_row :: "rotated_blit \<Rightarrow> nat \<Rightarrow> nat \<Rightarrow> memory \<Rightarrow> memory" where
  "clear_row b destRowBytes y m =
     (let row = y * destRowBytes
      in if int y < y0 b \<or> y1 b \<le> int y then store row (replicate (nat (destWidth b) * 4) 0) m
         else store (row + nat (x1 b) * 4) (replicate (nat (destWidth b - x1 b) * 4) 0)
                (store row (replicate (nat (x0 b) * 4) 0) m))"

definition clearBars :: "rotated_blit \<Rightarrow> memory \<Rightarrow> nat \<Rightarrow> memory" where
  "clearBars b dest destRowBytes = fold (clear_row b destRowBytes) [0..<nat (destHeight b)] dest"

definition xOffset :: "rotated_blit \<Rightarrow> nat \<Rightarrow> nat \<Rightarrow> nat" where
  "xOffset b stride x =
     (let c = nat (columnOf b ! x); sw = nat (sourceWidth b); sh = nat (sourceHeight b)
      in case blit_rotation b of
           R0 \<Rightarrow> c * 4 | R90 \<Rightarrow> (sh - 1 - c) * stride | R180 \<Rightarrow> (sw - 1 - c) * 4 | R270 \<Rightarrow> c * stride)"

definition yOffset :: "rotated_blit \<Rightarrow> nat \<Rightarrow> nat \<Rightarrow> nat" where
  "yOffset b stride y =
     (let r = nat (rowOf b ! y); sw = nat (sourceWidth b); sh = nat (sourceHeight b)
      in case blit_rotation b of
           R0 \<Rightarrow> r * stride | R90 \<Rightarrow> r * 4 | R180 \<Rightarrow> (sh - 1 - r) * stride | R270 \<Rightarrow> (sw - 1 - r) * 4)"

text \<open>The loops \<open>for (t = a; t < b; t += k)\<close> and the order in which the tiles visit the pixels.\<close>

function steps_from :: "nat \<Rightarrow> nat \<Rightarrow> nat \<Rightarrow> nat list" where
  "steps_from a b k = (if a < b \<and> 0 < k then a # steps_from (a + k) b k else [])"
  by pat_completeness auto
termination by (relation "measure (\<lambda>(a, b, k). b - a)") auto

declare steps_from.simps [simp del]

definition kTile :: nat where "kTile = 32"

definition tiled :: "nat \<Rightarrow> nat \<Rightarrow> nat \<Rightarrow> nat \<Rightarrow> (nat \<times> nat) list" where
  "tiled ya yb xa xb =
     concat (map (\<lambda>ty. concat (map (\<lambda>tx. List.product [ty..<min (ty + kTile) yb] [tx..<min (tx + kTile) xb])
       (steps_from xa xb kTile))) (steps_from ya yb kTile))"

definition blit :: "rotated_blit \<Rightarrow> memory \<Rightarrow> nat \<Rightarrow> memory \<Rightarrow> nat \<Rightarrow> memory" where
  "blit b source sourceRowBytes dest destRowBytes =
     (if x1 b \<le> x0 b \<or> y1 b \<le> y0 b then dest
      else if identity b
      then pass (\<lambda>y _. load (nat (rowOf b ! y) * sourceRowBytes + nat (columnOf b ! nat (x0 b)) * 4)
                       (nat (x1 b - x0 b) * 4) source)
             (\<lambda>y. y * destRowBytes + nat (x0 b) * 4) [nat (y0 b)..<nat (y1 b)] dest
      else pass (\<lambda>(y, x) _. load (yOffset b sourceRowBytes y + xOffset b sourceRowBytes x) 4 source)
             (\<lambda>(y, x). y * destRowBytes + x * 4)
             (tiled (nat (y0 b)) (nat (y1 b)) (nat (x0 b)) (nat (x1 b))) dest)"

section \<open>The tiles cover the clipped placement\<close>

lemma set_steps_from:
  "0 < k \<Longrightarrow> (\<exists>t \<in> set (steps_from a b k). t \<le> x \<and> x < min (t + k) b) \<longleftrightarrow> a \<le> x \<and> x < b"
proof (induction a b k rule: steps_from.induct)
  case (1 a b k)
  show ?case
  proof (cases "a < b")
    case True
    then have s: "steps_from a b k = a # steps_from (a + k) b k" using "1.prems" by (simp add: steps_from.simps [of a])
    have "(\<exists>t \<in> set (steps_from (a + k) b k). t \<le> x \<and> x < min (t + k) b) \<longleftrightarrow> a + k \<le> x \<and> x < b"
      using 1 True by simp
    then show ?thesis using True unfolding s by auto
  next
    case False
    then show ?thesis by (simp add: steps_from.simps [of a])
  qed
qed

lemma set_tiled: "(y, x) \<in> set (tiled ya yb xa xb) \<longleftrightarrow> ya \<le> y \<and> y < yb \<and> xa \<le> x \<and> x < xb"
proof -
  have "(y, x) \<in> set (tiled ya yb xa xb) \<longleftrightarrow>
      (\<exists>ty \<in> set (steps_from ya yb kTile). ty \<le> y \<and> y < min (ty + kTile) yb) \<and>
      (\<exists>tx \<in> set (steps_from xa xb kTile). tx \<le> x \<and> x < min (tx + kTile) xb)"
    by (auto simp: tiled_def)
  moreover have "0 < kTile" by (simp add: kTile_def)
  ultimately show ?thesis by (simp only: set_steps_from) blast
qed

section \<open>What the tables hold\<close>

lemma centre_sample:
  assumes "0 \<le> l" "l < extent" "0 < (rotated::int)"
  shows "0 \<le> (2 * l + 1) * rotated div (2 * extent)" "(2 * l + 1) * rotated div (2 * extent) < rotated"
proof -
  have e: "0 < 2 * extent" using assms by simp
  show "0 \<le> (2 * l + 1) * rotated div (2 * extent)" using assms e by (simp add: pos_imp_zdiv_nonneg_iff)
  have "(2 * l + 1) * rotated < 2 * extent * rotated" using assms by (intro mult_strict_right_mono) simp_all
  then show "(2 * l + 1) * rotated div (2 * extent) < rotated"
    using e by (intro int_div_less) (simp_all add: mult.commute)
qed

lemma sample_table_nth:
  assumes "0 \<le> x" "x < n" "lo \<le> x" "x < hi" "origin \<le> x" "x < origin + extent" "0 < rotated"
  shows "sample_table n lo hi origin extent rotated ! nat x = (2 * (x - origin) + 1) * rotated div (2 * extent)"
  using assms centre_sample [of "x - origin" extent rotated]
  by (simp add: sample_table_def Let_def)

lemma sample_table_unit:
  assumes "0 \<le> x" "x < n" "lo \<le> x" "x < hi" "origin \<le> x" "x < origin + extent"
  shows "sample_table n lo hi origin extent extent ! nat x = x - origin"
proof -
  have "0 < extent" using assms by simp
  then have "(2 * (x - origin) + 1) * extent div (2 * extent) = (2 * (x - origin) + 1) div 2"
    by (simp add: mult.commute)
  with sample_table_nth [OF assms \<open>0 < extent\<close>] show ?thesis by simp
qed

lemma rounded_quotient:
  assumes "0 \<le> a" "0 < (b::int)"
  defines "q \<equiv> (a + b div 2) div b"
  shows "0 \<le> q" "2 * (q * b - a) \<le> b" "- b \<le> 2 * (q * b - a)"
proof -
  have e: "b * q + (a + b div 2) mod b = a + b div 2" unfolding q_def by simp
  have m: "0 \<le> (a + b div 2) mod b" "(a + b div 2) mod b < b" using assms(2) by simp_all
  have h: "2 * (b div 2) \<le> b" "b \<le> 2 * (b div 2) + 1" by linarith+
  have c: "b * q = q * b" by simp
  show "0 \<le> q" unfolding q_def using assms by (simp add: pos_imp_zdiv_nonneg_iff)
  have "2 * Q - 2 * a \<le> b \<and> - b \<le> 2 * Q - 2 * a"
    if "Q + r = a + d" "0 \<le> r" "r < b" "2 * d \<le> b" "b \<le> 2 * d + 1" for Q r d
    by (rule conjI; use that in linarith)
  from this [OF e m h] c show "2 * (q * b - a) \<le> b" "- b \<le> 2 * (q * b - a)" by simp_all
qed

lemma fitted_size_spec:
  assumes "0 < rw" "0 < rh" "0 < dw" "0 < dh" "fitted_size f rw rh dw dh = (w, h)"
  shows "0 \<le> w \<and> 0 \<le> h"
    and "f = Stretch \<Longrightarrow> w = dw \<and> h = dh"
    and "f = FitInside \<Longrightarrow> w \<le> dw \<and> h \<le> dh"
    and "f = Fill \<Longrightarrow> dw \<le> w \<and> dh \<le> h"
    and "w = dw \<or> h = dh"
    and "f \<noteq> Stretch \<Longrightarrow> w = dw \<and> 2 * \<bar>h * rw - rh * dw\<bar> \<le> rw \<or> h = dh \<and> 2 * \<bar>w * rh - rw * dh\<bar> \<le> rh"
proof -
  define H W where "H = (rh * dw + rw div 2) div rw" and "W = (rw * dh + rh div 2) div rh"
  have n: "0 \<le> rh * dw" "0 \<le> rw * dh" using assms by simp_all
  note h = rounded_quotient [OF n(1) assms(1), folded H_def] and w = rounded_quotient [OF n(2) assms(2), folded W_def]
  note HW = H_def W_def
  have hle: "H \<le> dh" if "rw * dh > dw * rh"
  proof -
    have "(rh * dw + rw div 2) < (dh + 1) * rw" using that assms by (simp add: algebra_simps)
    then show ?thesis using assms(1) unfolding HW by (intro zle_add1_eq_le [THEN iffD1] int_div_less)
  qed
  have wle: "W \<le> dw" if "rw * dh \<le> dw * rh"
  proof -
    have "(rw * dh + rh div 2) < (dw + 1) * rh" using that assms by (simp add: algebra_simps)
    then show ?thesis using assms(2) unfolding HW by (intro zle_add1_eq_le [THEN iffD1] int_div_less)
  qed
  have hge: "dh \<le> H" if "rw * dh \<le> dw * rh"
  proof -
    have "dh * rw \<le> rh * dw + rw div 2" using that assms by (simp add: mult.commute)
    then show ?thesis using assms(1) unfolding HW by (intro int_le_div)
  qed
  have wge: "dw \<le> W" if "rw * dh > dw * rh"
  proof -
    have "dw * rh \<le> rw * dh + rh div 2" using that assms by simp
    then show ?thesis using assms(2) unfolding HW by (intro int_le_div)
  qed
  consider "f = Stretch" "w = dw" "h = dh"
    | "f = FitInside" "rw * dh > dw * rh" "w = dw" "h = H"
    | "f = FitInside" "rw * dh \<le> dw * rh" "w = W" "h = dh"
    | "f = Fill" "rw * dh > dw * rh" "w = W" "h = dh"
    | "f = Fill" "rw * dh \<le> dw * rh" "w = dw" "h = H"
  proof -
    have "(w, h) = (if f = Stretch then (dw, dh)
        else if (f = FitInside) = (rw * dh > dw * rh) then (dw, H) else (W, dh))"
      using assms(5) by (simp only: fitted_size_def Let_def HW)
    then show ?thesis using that by (cases f; cases "rw * dh > dw * rh") simp_all
  qed
  note cases = this
  show "0 \<le> w \<and> 0 \<le> h" using cases assms(3,4) h(1) w(1) by cases simp_all
  show "f = Stretch \<Longrightarrow> w = dw \<and> h = dh" using cases by cases simp_all
  show "f = FitInside \<Longrightarrow> w \<le> dw \<and> h \<le> dh" using cases hle wle by cases simp_all
  show "f = Fill \<Longrightarrow> dw \<le> w \<and> dh \<le> h" using cases hge wge by cases simp_all
  show "w = dw \<or> h = dh" using cases by cases simp_all
  have abs: "2 * \<bar>X - Y\<bar> \<le> b" if "2 * (X - Y) \<le> b" "- b \<le> 2 * (X - Y)" for X Y b :: int
    using that by (simp add: abs_if split: if_split)
  have ah: "2 * \<bar>H * rw - rh * dw\<bar> \<le> rw" using h(2,3) by (rule abs)
  have aw: "2 * \<bar>W * rh - rw * dh\<bar> \<le> rh" using w(2,3) by (rule abs)
  show "f \<noteq> Stretch \<Longrightarrow> w = dw \<and> 2 * \<bar>h * rw - rh * dw\<bar> \<le> rw \<or> h = dh \<and> 2 * \<bar>w * rh - rw * dh\<bar> \<le> rh"
    using cases ah aw by cases simp_all
qed

section \<open>The configured geometry\<close>

definition turned :: "rotation \<Rightarrow> bool" where
  "turned rot \<longleftrightarrow> rot = R90 \<or> rot = R270"

text \<open>Rasters no side of which exceeds 32767 pixels: the products then fit the code's types.\<close>

definition sane :: "int \<Rightarrow> bool" where
  "sane n \<longleftrightarrow> 0 < n \<and> n \<le> 32767"

lemma sdiv2: "d sdiv 2 = (if 0 \<le> d then d div 2 else - ((- d) div (2::int)))"
  by (auto simp: signed_divide_int_def sgn_if)

lemma sdiv2_bounds:
  fixes d :: int
  shows "0 \<le> d \<Longrightarrow> 0 \<le> d sdiv 2 \<and> 2 * (d sdiv 2) \<le> d"
    and "d \<le> 0 \<Longrightarrow> d sdiv 2 \<le> 0 \<and> d \<le> 2 * (d sdiv 2)"
  unfolding sdiv2 by (cases "d = 0"; simp)+

lemma fitted_bound:
  assumes "sane rw" "sane rh" "sane dw" "sane dh" "fitted_size f rw rh dw dh = (w, h)"
  shows "w < 2000000000" "h < 2000000000"
proof -
  have b: "(x * y + z div 2) div z < 2000000000" if "sane x" "sane y" "sane z" for x y z
  proof (rule int_div_less)
    show "0 < z" using that by (simp add: sane_def)
    have "x * y \<le> 32767 * 32767" using that by (intro mult_mono) (simp_all add: sane_def)
    moreover have "z div 2 \<le> 32767" using that(3) unfolding sane_def by linarith
    moreover have "1 * 2000000000 \<le> 2000000000 * z" using that by (simp add: sane_def)
    ultimately show "x * y + z div 2 < 2000000000 * z" by linarith
  qed
  have d: "dw < 2000000000" "dh < 2000000000" using assms by (simp_all add: sane_def)
  show "w < 2000000000" "h < 2000000000"
    using assms(5) b [OF assms(2,3,1)] b [OF assms(1,4,2)] d
    by (auto simp only: fitted_size_def Let_def prod.inject split: if_splits)
qed

lemma configure_sane:
  fixes rot :: rotation
  assumes "sane sw" "sane sh" "sane dw" "sane dh"
  defines "rw \<equiv> (if turned rot then sh else sw)" and "rh \<equiv> (if turned rot then sw else sh)"
  assumes "fitted_size f rw rh dw dh = (w, h)"
  defines "px \<equiv> (dw - w) sdiv 2" and "py \<equiv> (dh - h) sdiv 2"
  shows "configure sw sh dw dh rot f =
    \<lparr>sourceWidth = sw, sourceHeight = sh, destWidth = dw, destHeight = dh,
     rotatedWidth = rw, rotatedHeight = rh, blit_rotation = rot,
     placement = \<lparr>rect_x = px, rect_y = py, rect_width = w, rect_height = h\<rparr>,
     x0 = max px 0, x1 = min (px + w) dw, y0 = max py 0, y1 = min (py + h) dh,
     columnOf = sample_table dw (max px 0) (min (px + w) dw) px w rw,
     rowOf = sample_table dh (max py 0) (min (py + h) dh) py h rh,
     identity = (rot = R0 \<and> w = rw \<and> h = rh)\<rparr>"
proof -
  have r: "sane rw" "sane rh" using assms(1,2) by (simp_all add: rw_def rh_def)
  have m: "max sw 0 = sw" "max sh 0 = sh" "max dw 0 = dw" "max dh 0 = dh"
    using assms(1-4) by (simp_all add: sane_def)
  have nz: "\<not> (rw = 0 \<or> rh = 0 \<or> dw = 0 \<or> dh = 0)" using r assms(3,4) by (simp add: sane_def)
  have rr: "(if rot = R90 \<or> rot = R270 then sh else sw) = rw" "(if rot = R90 \<or> rot = R270 then sw else sh) = rh"
    by (simp_all add: rw_def rh_def turned_def)
  have b: "w < 2000000000" "h < 2000000000" using fitted_bound [OF r assms(3,4,7)] by simp_all
  have n: "0 \<le> w" "0 \<le> h" using fitted_size_spec(1) [OF _ _ _ _ assms(7)] r assms(3,4) by (simp_all add: sane_def)
  have half: "i32 ((d - x) sdiv 2) = (d - x) sdiv 2" if "sane d" "0 \<le> x" "x < 2000000000" for d x
  proof (rule i32_fits)
    show "- (2 ^ 31) \<le> (d - x) sdiv 2" "(d - x) sdiv 2 < 2 ^ 31"
      using that sdiv2_bounds [of "d - x"] by (cases "0 \<le> d - x"; simp add: sane_def)+
  qed
  have i: "i32 w = w" "i32 h = h" "i32 ((dw - w) sdiv 2) = px" "i32 ((dh - h) sdiv 2) = py"
    using n b half [OF assms(3)] half [OF assms(4)] by (simp_all add: i32_fits px_def py_def)
  show ?thesis
    unfolding configure_def m Let_def rr assms(7) if_not_P [OF nz] prod.case i by (rule refl)
qed

text \<open>Where the placement lies, per axis: \<open>p\<close> its origin, \<open>e\<close> its extent, \<open>n\<close> the display.\<close>

lemma axis_inside:
  fixes e n :: int
  assumes "e \<le> n"
  defines "p \<equiv> (n - e) sdiv 2"
  shows "0 \<le> p" "p + e \<le> n"
  using sdiv2_bounds(1) [of "n - e"] assms by (simp_all add: p_def)

lemma axis_covers:
  fixes e n :: int
  assumes "n \<le> e"
  defines "p \<equiv> (n - e) sdiv 2"
  shows "p \<le> 0" "n \<le> p + e"
  using sdiv2_bounds(2) [of "n - e"] assms by (simp_all add: p_def)

definition table_ok :: "int \<Rightarrow> int \<Rightarrow> int \<Rightarrow> int \<Rightarrow> int list \<Rightarrow> bool" where
  "table_ok n lo hi rotated t \<longleftrightarrow> 0 \<le> lo \<and> hi \<le> n \<and>
     (\<forall>x. lo \<le> int x \<and> int x < hi \<longrightarrow> 0 \<le> t ! x \<and> t ! x < rotated)"

definition blit_ok :: "rotated_blit \<Rightarrow> bool" where
  "blit_ok b \<longleftrightarrow> table_ok (destWidth b) (x0 b) (x1 b) (rotatedWidth b) (columnOf b) \<and>
     table_ok (destHeight b) (y0 b) (y1 b) (rotatedHeight b) (rowOf b) \<and>
     rotatedWidth b = (if turned (blit_rotation b) then sourceHeight b else sourceWidth b) \<and>
     rotatedHeight b = (if turned (blit_rotation b) then sourceWidth b else sourceHeight b) \<and>
     (identity b \<longrightarrow> blit_rotation b = R0 \<and>
       (\<forall>x. x0 b \<le> int x \<and> int x < x1 b \<longrightarrow> columnOf b ! x = columnOf b ! nat (x0 b) + (int x - x0 b)))"

lemma sample_table_ok:
  assumes "0 < rotated"
  shows "table_ok n (max p 0) (min (p + e) n) rotated (sample_table n (max p 0) (min (p + e) n) p e rotated)"
  unfolding table_ok_def
proof (intro conjI allI impI)
  fix x assume x: "max p 0 \<le> int x \<and> int x < min (p + e) n"
  then have "sample_table n (max p 0) (min (p + e) n) p e rotated ! nat (int x) =
      (2 * (int x - p) + 1) * rotated div (2 * e)"
    using assms by (intro sample_table_nth) simp_all
  with centre_sample [of "int x - p" e rotated] x assms
  show "0 \<le> sample_table n (max p 0) (min (p + e) n) p e rotated ! x"
    "sample_table n (max p 0) (min (p + e) n) p e rotated ! x < rotated" by simp_all
qed simp_all

lemma placement_ok:
  assumes "sane sw" "sane sh" "sane dw" "sane dh"
  shows "blit_ok (configure sw sh dw dh rot f)"
proof -
  let ?rw = "if turned rot then sh else sw" and ?rh = "if turned rot then sw else sh"
  obtain w h where fs: "fitted_size f ?rw ?rh dw dh = (w, h)" by fastforce
  let ?px = "(dw - w) sdiv 2" and ?py = "(dh - h) sdiv 2"
  let ?col = "sample_table dw (max ?px 0) (min (?px + w) dw) ?px w ?rw"
  have pos: "0 < ?rw" "0 < ?rh" using assms by (simp_all add: sane_def)
  have unit: "?col ! x = ?col ! nat (max ?px 0) + (int x - max ?px 0)"
    if "w = ?rw" "max ?px 0 \<le> int x" "int x < min (?px + w) dw" for x
  proof -
    have u: "sample_table dw (max ?px 0) (min (?px + w) dw) ?px w w ! nat z = z - ?px"
      if "max ?px 0 \<le> z" "z < min (?px + w) dw" for z
      using that by (intro sample_table_unit) simp_all
    show ?thesis
      using u [of "int x"] u [of "max ?px 0"] that(2,3) unfolding that(1) [symmetric] by simp
  qed
  show ?thesis
    unfolding configure_sane [OF assms fs] blit_ok_def rotated_blit.simps
    by (intro conjI sample_table_ok pos refl impI allI) (blast, (rule unit; blast))
qed

text \<open>
  The placement of a picture on the display: in fit mode it lies inside the display, in fill
  mode it covers it, in stretch mode it is the display; one side matches the display exactly and,
  unless stretched, the other is within half a pixel of the aspect ratio; it is centred; every
  visible column and row samples the picture at the centre of its span, at an index inside it.
\<close>

theorem placement_correct:
  fixes rot :: rotation and f :: fit
  assumes "sane sw" "sane sh" "sane dw" "sane dh"
  defines "b \<equiv> configure sw sh dw dh rot f"
  defines "p \<equiv> placement b"
  shows "(f = FitInside \<longrightarrow> 0 \<le> rect_x p \<and> rect_x p + rect_width p \<le> dw \<and> 0 \<le> rect_y p \<and> rect_y p + rect_height p \<le> dh) \<and>
    (f = Fill \<longrightarrow> x0 b = 0 \<and> x1 b = dw \<and> y0 b = 0 \<and> y1 b = dh) \<and>
    (f = Stretch \<longrightarrow> p = \<lparr>rect_x = 0, rect_y = 0, rect_width = dw, rect_height = dh\<rparr>) \<and>
    (rect_width p = dw \<or> rect_height p = dh) \<and>
    (f \<noteq> Stretch \<longrightarrow> 2 * \<bar>rect_height p * rotatedWidth b - rotatedHeight b * dw\<bar> \<le> rotatedWidth b \<or>
      2 * \<bar>rect_width p * rotatedHeight b - rotatedWidth b * dh\<bar> \<le> rotatedHeight b) \<and>
    (\<forall>x. x0 b \<le> int x \<and> int x < x1 b \<longrightarrow>
      columnOf b ! x = (2 * (int x - rect_x p) + 1) * rotatedWidth b div (2 * rect_width p) \<and>
      0 \<le> columnOf b ! x \<and> columnOf b ! x < rotatedWidth b)"
proof -
  let ?rw = "if turned rot then sh else sw" and ?rh = "if turned rot then sw else sh"
  obtain w h where fs: "fitted_size f ?rw ?rh dw dh = (w, h)" by fastforce
  have pos: "0 < ?rw" "0 < ?rh" "0 < dw" "0 < dh" using assms(1-4) by (simp_all add: sane_def)
  note c = configure_sane [OF assms(1-4) fs, folded b_def]
  have ok: "blit_ok b" unfolding b_def by (rule placement_ok [OF assms(1-4)])
  have p: "rect_x p = (dw - w) sdiv 2" "rect_y p = (dh - h) sdiv 2" "rect_width p = w" "rect_height p = h"
    and b: "x0 b = max (rect_x p) 0" "x1 b = min (rect_x p + w) dw" "y0 b = max (rect_y p) 0" "y1 b = min (rect_y p + h) dh"
      "rotatedWidth b = ?rw" "rotatedHeight b = ?rh"
      "columnOf b = sample_table dw (x0 b) (x1 b) (rect_x p) w ?rw"
    unfolding p_def c by simp_all
  note spec = fitted_size_spec [OF pos fs]
  have "f = FitInside \<longrightarrow> 0 \<le> rect_x p \<and> rect_x p + rect_width p \<le> dw \<and> 0 \<le> rect_y p \<and> rect_y p + rect_height p \<le> dh"
    unfolding p using spec(3) by (auto simp: axis_inside)
  moreover have "f = Fill \<longrightarrow> x0 b = 0 \<and> x1 b = dw \<and> y0 b = 0 \<and> y1 b = dh"
    unfolding b p using spec(4) axis_covers [of dw w] axis_covers [of dh h] by auto
  moreover have "f = Stretch \<longrightarrow> p = \<lparr>rect_x = 0, rect_y = 0, rect_width = dw, rect_height = dh\<rparr>"
  proof
    assume "f = Stretch"
    then have "w = dw" "h = dh" using spec(2) by simp_all
    then show "p = \<lparr>rect_x = 0, rect_y = 0, rect_width = dw, rect_height = dh\<rparr>" using p by (cases p) simp
  qed
  moreover have "rect_width p = dw \<or> rect_height p = dh" unfolding p by (rule spec(5))
  moreover have "f \<noteq> Stretch \<longrightarrow> 2 * \<bar>rect_height p * rotatedWidth b - rotatedHeight b * dw\<bar> \<le> rotatedWidth b \<or>
      2 * \<bar>rect_width p * rotatedHeight b - rotatedWidth b * dh\<bar> \<le> rotatedHeight b"
    unfolding p b using spec(6) by blast
  moreover have "columnOf b ! x = (2 * (int x - rect_x p) + 1) * rotatedWidth b div (2 * rect_width p) \<and>
      0 \<le> columnOf b ! x \<and> columnOf b ! x < rotatedWidth b" if x: "x0 b \<le> int x \<and> int x < x1 b" for x
  proof -
    have "sample_table dw (x0 b) (x1 b) (rect_x p) w ?rw ! nat (int x) =
        (2 * (int x - rect_x p) + 1) * ?rw div (2 * w)"
      using x pos(1) unfolding b(1,2) by (intro sample_table_nth) simp_all
    then have "columnOf b ! x = (2 * (int x - rect_x p) + 1) * rotatedWidth b div (2 * rect_width p)"
      unfolding b(5,7) p(3) nat_int .
    moreover have "0 \<le> columnOf b ! x" "columnOf b ! x < rotatedWidth b"
      using ok x unfolding blit_ok_def table_ok_def by blast+
    ultimately show ?thesis by blast
  qed
  ultimately show ?thesis by blast
qed

theorem placement_correct_witness:
  "x0 (configure 640 480 1920 1080 R90 Fill) = 0 \<and> x1 (configure 640 480 1920 1080 R90 Fill) = 1920"
  using placement_correct [of 640 480 1920 1080 Fill R90] by (simp add: sane_def)

section \<open>What a blit draws\<close>

definition visible :: "rotated_blit \<Rightarrow> nat \<Rightarrow> nat \<Rightarrow> bool" where
  "visible b x y \<longleftrightarrow> x0 b \<le> int x \<and> int x < x1 b \<and> y0 b \<le> int y \<and> int y < y1 b"

text \<open>The source pixel the turned picture has at column \<open>c\<close> and row \<open>r\<close>.\<close>

definition source_pixel :: "rotated_blit \<Rightarrow> nat \<Rightarrow> nat \<Rightarrow> nat \<times> nat" where
  "source_pixel b x y =
     (let c = nat (columnOf b ! x); r = nat (rowOf b ! y); w = nat (sourceWidth b); h = nat (sourceHeight b)
      in case blit_rotation b of R0 \<Rightarrow> (c, r) | R90 \<Rightarrow> (r, h - 1 - c) | R180 \<Rightarrow> (w - 1 - c, h - 1 - r) | R270 \<Rightarrow> (w - 1 - r, c))"

lemma visible_tables:
  assumes "blit_ok b" "visible b x y"
  shows "0 \<le> columnOf b ! x" "columnOf b ! x < rotatedWidth b" "0 \<le> rowOf b ! y" "rowOf b ! y < rotatedHeight b"
  using assms unfolding blit_ok_def table_ok_def visible_def by blast+

lemma source_pixel_inside:
  assumes "blit_ok b" "visible b x y"
  shows "fst (source_pixel b x y) < nat (sourceWidth b)" "snd (source_pixel b x y) < nat (sourceHeight b)"
proof -
  note t = visible_tables [OF assms]
  have r: "rotatedWidth b = (if turned (blit_rotation b) then sourceHeight b else sourceWidth b)"
    "rotatedHeight b = (if turned (blit_rotation b) then sourceWidth b else sourceHeight b)"
    using assms(1) by (simp_all add: blit_ok_def)
  show "fst (source_pixel b x y) < nat (sourceWidth b)" "snd (source_pixel b x y) < nat (sourceHeight b)"
    using t unfolding r source_pixel_def Let_def turned_def
    by (cases "blit_rotation b"; simp; linarith)+
qed

lemma source_offsets:
  "yOffset b stride y + xOffset b stride x = snd (source_pixel b x y) * stride + fst (source_pixel b x y) * 4"
  by (cases "blit_rotation b") (simp_all add: yOffset_def xOffset_def source_pixel_def Let_def)

lemma in_row:
  assumes "k < stride" "a + n \<le> (stride::nat)"
  shows "y * stride + a \<le> y' * stride + k \<and> y' * stride + k < y * stride + a + n \<longleftrightarrow> y' = y \<and> a \<le> k \<and> k < a + n"
proof (cases y y' rule: linorder_cases)
  case less
  then have "Suc y * stride \<le> y' * stride" by (intro mult_le_mono1) simp
  with less assms show ?thesis by auto
next
  case greater
  then have "Suc y' * stride \<le> y * stride" by (intro mult_le_mono1) simp
  with greater assms show ?thesis by auto
qed auto

interpretation turned_copy: raster_pass "\<lambda>(y, x) _. load (yo y + xo x) 4 source"
    "\<lambda>(y, x). y * ds + x * 4" 4 "\<lambda>_. {}"
  for yo xo :: "nat \<Rightarrow> nat" and source :: memory and ds
  by unfold_locales (auto split: prod.splits)

interpretation straight_copy: raster_pass "\<lambda>y _. load (so y) w source" "\<lambda>y. y * ds + o4" w "\<lambda>_. {}"
  for so :: "nat \<Rightarrow> nat" and w :: nat and source :: memory and ds o4 :: nat
  by unfold_locales auto

lemma store_nth:
  assumes "y * ds + a + length ys \<le> length m" "k < ds" "a + length ys \<le> ds" "y' * ds + k < length m"
  shows "store (y * ds + a) ys m ! (y' * ds + k) =
    (if y' = y \<and> a \<le> k \<and> k < a + length ys then ys ! (k - a) else m ! (y' * ds + k))"
  using nth_blit_at [of "y * ds + a" ys m "y' * ds + k"] in_row [of k ds a "length ys" y y'] assms
  by (auto simp: store_def)

lemma length_store [simp]: "i + length ys \<le> length m \<Longrightarrow> length (store i ys m) = length m"
  by (simp add: store_def)

lemma row_end: "y < h \<Longrightarrow> n \<le> ds \<Longrightarrow> h * ds \<le> bytes \<Longrightarrow> y * ds + n \<le> (bytes::nat)"
  using mult_le_mono1 [of "Suc y" h ds] by simp

text \<open>The display buffer: rows of \<open>ds\<close> bytes, each with the display's pixels.\<close>

definition display_fits :: "rotated_blit \<Rightarrow> memory \<Rightarrow> nat \<Rightarrow> bool" where
  "display_fits b m ds \<longleftrightarrow> nat (destWidth b) * 4 \<le> ds \<and> nat (destHeight b) * ds \<le> length m"

definition bar_byte :: "rotated_blit \<Rightarrow> nat \<Rightarrow> nat \<Rightarrow> bool" where
  "bar_byte b y k \<longleftrightarrow> \<not> (y0 b \<le> int y \<and> int y < y1 b \<and> nat (x0 b) * 4 \<le> k \<and> k < nat (x1 b) * 4)"

lemma clear_row_nth:
  assumes "blit_ok b" "display_fits b m ds" "y < nat (destHeight b)" "y' < nat (destHeight b)"
    and "k < nat (destWidth b) * 4" "x0 b \<le> x1 b"
  shows "clear_row b ds y m ! (y' * ds + k) = (if y' = y \<and> bar_byte b y k then 0 else m ! (y' * ds + k))"
    and "length (clear_row b ds y m) = length m"
proof -
  have d: "nat (destWidth b) * 4 \<le> ds" "nat (destHeight b) * ds \<le> length m"
    using assms(2) by (simp_all add: display_fits_def)
  have t: "0 \<le> x0 b" "x1 b \<le> destWidth b" using assms(1) by (simp_all add: blit_ok_def table_ok_def)
  have x: "nat (x0 b) * 4 \<le> nat (destWidth b) * 4" "nat (x1 b) * 4 + nat (destWidth b - x1 b) * 4 = nat (destWidth b) * 4"
    using t assms(6) by simp_all
  have kd: "k < ds" using assms(5) d by simp
  have e: "y * ds + n \<le> length m" if "n \<le> ds" for n using row_end [OF assms(3) that d(2)] .
  have i: "y' * ds + k < length m" using row_end [OF assms(4), of "Suc k" ds "length m"] kd d by simp
  let ?a = "replicate (nat (destWidth b) * 4) (0::int)" and ?l = "replicate (nat (x0 b) * 4) (0::int)"
    and ?r = "replicate (nat (destWidth b - x1 b) * 4) (0::int)"
  have l: "length (store (y * ds) ?l m) = length m" using e [of "nat (x0 b) * 4"] x d by simp
  have all: "store (y * ds) ?a m ! (y' * ds + k) = (if y' = y then 0 else m ! (y' * ds + k))"
    using store_nth [of y ds 0 ?a m k y'] e [of "nat (destWidth b) * 4"] kd d(1) i assms(5) by auto
  have left: "store (y * ds) ?l m ! (y' * ds + k) = (if y' = y \<and> k < nat (x0 b) * 4 then 0 else m ! (y' * ds + k))"
    using store_nth [of y ds 0 ?l m k y'] e [of "nat (x0 b) * 4"] kd d(1) x i assms(5) by auto
  have kr: "k - nat (x1 b) * 4 < nat (destWidth b - x1 b) * 4" if "nat (x1 b) * 4 \<le> k"
    using that x(2) assms(5) by linarith
  have right: "store (y * ds + nat (x1 b) * 4) ?r (store (y * ds) ?l m) ! (y' * ds + k) =
      (if y' = y \<and> nat (x1 b) * 4 \<le> k then 0 else store (y * ds) ?l m ! (y' * ds + k))"
    using store_nth [of y ds "nat (x1 b) * 4" ?r "store (y * ds) ?l m" k y'] l
      e [of "nat (destWidth b) * 4"] kd d(1) x i kr assms(5) by auto
  show "clear_row b ds y m ! (y' * ds + k) = (if y' = y \<and> bar_byte b y k then 0 else m ! (y' * ds + k))"
    using all left right by (auto simp: clear_row_def Let_def bar_byte_def)
  show "length (clear_row b ds y m) = length m"
    using l e [of "nat (destWidth b) * 4"] d x by (auto simp: clear_row_def Let_def)
qed

lemma clearBars_nth:
  assumes "blit_ok b" "display_fits b m ds" "y' < nat (destHeight b)" "k < nat (destWidth b) * 4" "x0 b \<le> x1 b"
  shows "clearBars b m ds ! (y' * ds + k) = (if bar_byte b y' k then 0 else m ! (y' * ds + k))"
    and "length (clearBars b m ds) = length m"
proof -
  have "fold (clear_row b ds) ys m ! (y' * ds + k) = (if y' \<in> set ys \<and> bar_byte b y' k then 0 else m ! (y' * ds + k)) \<and>
      length (fold (clear_row b ds) ys m) = length m"
    if "set ys \<subseteq> {..<nat (destHeight b)}" "display_fits b m ds" for ys m
    using that
  proof (induction ys arbitrary: m)
    case Nil
    then show ?case by simp
  next
    case (Cons y ys)
    have y: "y < nat (destHeight b)" using Cons.prems(1) by simp
    note c = clear_row_nth [OF assms(1) Cons.prems(2) y assms(3-5)]
    have "display_fits b (clear_row b ds y m) ds" using Cons.prems(2) c(2) by (simp add: display_fits_def)
    with Cons.IH [of "clear_row b ds y m"] Cons.prems(1) c show ?case by auto
  qed
  note f = this
  have "set [0..<nat (destHeight b)] \<subseteq> {..<nat (destHeight b)}" by auto
  from f [OF this assms(2)] assms(3)
  show "clearBars b m ds ! (y' * ds + k) = (if bar_byte b y' k then 0 else m ! (y' * ds + k))"
    "length (clearBars b m ds) = length m"
    by (simp_all add: clearBars_def)
qed

lemma blit_general:
  assumes "blit_ok b" "display_fits b m ds" "\<not> identity b" "x < nat (destWidth b)" "y < nat (destHeight b)"
  shows "load (y * ds + x * 4) 4 (blit b source ss m ds) =
    (if visible b x y then load (snd (source_pixel b x y) * ss + fst (source_pixel b x y) * 4) 4 source
     else load (y * ds + x * 4) 4 m)"
proof -
  let ?qs = "tiled (nat (y0 b)) (nat (y1 b)) (nat (x0 b)) (nat (x1 b))"
  let ?m = "pass (\<lambda>(y, x) _. load (yOffset b ss y + xOffset b ss x) 4 source) (\<lambda>(y, x). y * ds + x * 4) ?qs m"
  have d: "nat (destWidth b) * 4 \<le> ds" "nat (destHeight b) * ds \<le> length m"
    using assms(2) by (simp_all add: display_fits_def)
  have t: "0 \<le> x0 b" "x1 b \<le> destWidth b" "0 \<le> y0 b" "y1 b \<le> destHeight b"
    using assms(1) by (simp_all add: blit_ok_def table_ok_def)
  have q: "(v, u) \<in> set ?qs \<longleftrightarrow> visible b u v" for u v using t by (auto simp: set_tiled visible_def)
  have vis: "u < nat (destWidth b) \<and> v < nat (destHeight b)" if "visible b u v" for u v
    using that t by (auto simp: visible_def)
  have e: "v * ds + u * 4 + 4 \<le> length m" if "u < nat (destWidth b)" "v < nat (destHeight b)" for u v
    using group_in_picture [of v "nat (destHeight b)" u "nat (destWidth b)" 4 ds 0 "length m"] that d by simp
  have dest: "\<forall>p \<in> set ?qs. (case p of (v, u) \<Rightarrow> v * ds + u * 4) + 4 \<le> length m" using q vis e by auto
  have apart: "u * 4 + v * ds + 4 \<le> u' * 4 + v' * ds \<or> u' * 4 + v' * ds + 4 \<le> u * 4 + v * ds"
    if "(v, u) \<noteq> (v', u')" "u < nat (destWidth b)" "u' < nat (destWidth b)" for u v u' v'
    using groups_apart [of u "nat (destWidth b)" u' 4 ds v v'] that d(1) by (simp add: add.commute)
  have w: "turned_copy.written ds (v, u) = {v * ds + u * 4 ..< v * ds + u * 4 + 4}" for v u
    by (simp add: turned_copy.written_def)
  have m: "blit b source ss m ds = (if x1 b \<le> x0 b \<or> y1 b \<le> y0 b then m else ?m)" using assms(3) by (simp add: blit_def)
  show ?thesis
  proof (cases "visible b x y")
    case True
    then have "\<not> (x1 b \<le> x0 b \<or> y1 b \<le> y0 b)" by (auto simp: visible_def)
    moreover have "turned_copy.apart ds ?qs"
      unfolding turned_copy.apart_def
    proof (intro ballI conjI impI)
      fix p p' assume p: "p \<in> set ?qs" "p' \<in> set ?qs" "p \<noteq> p'"
      obtain v u v' u' where [simp]: "p = (v, u)" "p' = (v', u')" by (cases p; cases p') simp
      have "visible b u v" "visible b u' v'" using p q by simp_all
      then have "u * 4 + v * ds + 4 \<le> u' * 4 + v' * ds \<or> u' * 4 + v' * ds + 4 \<le> u * 4 + v * ds"
        using vis p(3) by (intro apart) auto
      then show "turned_copy.written ds p \<inter> turned_copy.written ds p' = {}" by (auto simp: w)
    qed simp
    ultimately show ?thesis
      using turned_copy.pass_spec_apart [of ds ?qs m "(y, x)" "yOffset b ss" "xOffset b ss" source] dest True q
      by (simp add: m source_offsets)
  next
    case False
    have "?m ! i = m ! i" if "y * ds + x * 4 \<le> i" "i < y * ds + x * 4 + 4" for i
    proof (rule turned_copy.pass_untouched [OF dest])
      show "i < length m" using that e [OF assms(4,5)] by simp
      show "\<forall>p \<in> set ?qs. i \<notin> turned_copy.written ds p"
      proof
        fix p assume p: "p \<in> set ?qs"
        obtain v u where [simp]: "p = (v, u)" by (cases p)
        have "visible b u v" using p q by simp
        moreover from this have "(v, u) \<noteq> (y, x)" using False by auto
        ultimately have "u * 4 + v * ds + 4 \<le> x * 4 + y * ds \<or> x * 4 + y * ds + 4 \<le> u * 4 + v * ds"
          using vis assms(4) by (intro apart) auto
        then have "\<not> (v * ds + u * 4 \<le> i \<and> i < v * ds + u * 4 + 4)" using that by linarith
        then show "i \<notin> turned_copy.written ds p" by (simp add: w)
      qed
    qed
    then have "load (y * ds + x * 4) 4 ?m = load (y * ds + x * 4) 4 m" by (rule load_cong)
    then show ?thesis using False unfolding m by simp
  qed
qed

text \<open>The row copies of an upright picture at its own size draw the same.\<close>

lemma blit_rows:
  assumes "blit_ok b" "display_fits b m ds" "identity b" "x < nat (destWidth b)" "y < nat (destHeight b)"
  shows "load (y * ds + x * 4) 4 (blit b source ss m ds) =
    (if visible b x y then load (snd (source_pixel b x y) * ss + fst (source_pixel b x y) * 4) 4 source
     else load (y * ds + x * 4) 4 m)"
proof (cases "x1 b \<le> x0 b \<or> y1 b \<le> y0 b")
  case True
  then show ?thesis by (auto simp: blit_def visible_def)
next
  case False
  let ?o = "nat (x0 b) * 4" and ?w = "nat (x1 b - x0 b) * 4" and ?ys = "[nat (y0 b)..<nat (y1 b)]"
  let ?so = "\<lambda>y. nat (rowOf b ! y) * ss + nat (columnOf b ! nat (x0 b)) * 4"
  let ?m = "pass (\<lambda>y _. load (?so y) ?w source) (\<lambda>y. y * ds + ?o) ?ys m"
  have d: "nat (destWidth b) * 4 \<le> ds" "nat (destHeight b) * ds \<le> length m"
    using assms(2) by (simp_all add: display_fits_def)
  have t: "0 \<le> x0 b" "x1 b \<le> destWidth b" "0 \<le> y0 b" "y1 b \<le> destHeight b"
    using assms(1) by (simp_all add: blit_ok_def table_ok_def)
  have rot: "blit_rotation b = R0"
    and col: "\<And>x. x0 b \<le> int x \<Longrightarrow> int x < x1 b \<Longrightarrow> columnOf b ! x = columnOf b ! nat (x0 b) + (int x - x0 b)"
    using assms(1,3) unfolding blit_ok_def by blast+
  have m: "blit b source ss m ds = ?m" using assms(3) False by (simp add: blit_def)
  have "?o + ?w \<le> nat (destWidth b) * 4" using t False by linarith
  then have ow: "?o + ?w \<le> ds" using d(1) by simp
  have ys: "v < nat (destHeight b)" if "v \<in> set ?ys" for v using that t by auto
  have e: "v * ds + ?o + ?w \<le> length m" if "v < nat (destHeight b)" for v
    using row_end [OF that ow d(2)] by simp
  have dest: "\<forall>v \<in> set ?ys. v * ds + ?o + ?w \<le> length m" using e ys by blast
  have w: "straight_copy.written ds ?o ?w v = {v * ds + ?o ..< v * ds + ?o + ?w}" for v
    by (simp add: straight_copy.written_def)
  have k: "x * 4 + j < ds" if "j < 4" for j using assms(4) d(1) that by simp
  have ap: "straight_copy.apart ds ?o ?w ?ys"
    unfolding straight_copy.apart_def
  proof (intro ballI conjI impI)
    fix v v' assume v: "v \<in> set ?ys" "v' \<in> set ?ys" "v \<noteq> v'"
    show "straight_copy.written ds ?o ?w v \<inter> straight_copy.written ds ?o ?w v' = {}"
    proof (rule equals0I)
      fix i assume i: "i \<in> straight_copy.written ds ?o ?w v \<inter> straight_copy.written ds ?o ?w v'"
      then obtain j where j: "i = v' * ds + (?o + j)" "j < ?w" using le_Suc_ex [of "v' * ds + ?o" i] by (auto simp: w)
      then have "v' = v" using in_row [of "?o + j" ds ?o ?w v v'] ow i by (simp add: w)
      with v(3) show False by simp
    qed
  qed simp
  show ?thesis
  proof (cases "visible b x y")
    case True
    then have vx: "x0 b \<le> int x" "int x < x1 b" and vy: "y \<in> set ?ys" using t by (auto simp: visible_def)
    have l: "load (y * ds + ?o) ?w ?m = load (?so y) ?w source"
      using straight_copy.pass_spec_apart [OF ap dest _ vy] by simp
    have row: "?m ! (y * ds + ?o + j) = source ! (?so y + j)" if "j < ?w" for j
      using arg_cong [OF l, of "\<lambda>l. l ! j"] unfolding load_nth [OF that] .
    have "load (y * ds + x * 4) 4 ?m = load (?so y + (x * 4 - ?o)) 4 source"
    proof (rule nth_equalityI)
      fix j assume "j < length (load (y * ds + x * 4) 4 ?m)"
      then have j: "j < 4" by simp
      have o: "?o \<le> x * 4" "x * 4 - ?o + j < ?w" using vx t j by linarith+
      then have "y * ds + x * 4 + j = y * ds + ?o + (x * 4 - ?o + j)" by simp
      with row [OF o(2)] j show "load (y * ds + x * 4) 4 ?m ! j = load (?so y + (x * 4 - ?o)) 4 source ! j"
        by (simp add: add.assoc)
    qed simp
    moreover have "?so y + (x * 4 - ?o) = snd (source_pixel b x y) * ss + fst (source_pixel b x y) * 4"
    proof -
      have "0 \<le> columnOf b ! nat (x0 b)"
      proof -
        have "visible b (nat (x0 b)) y" using True t False by (auto simp: visible_def)
        then show ?thesis by (rule visible_tables(1) [OF assms(1)])
      qed
      then have "nat (columnOf b ! x) * 4 = nat (columnOf b ! nat (x0 b)) * 4 + (x * 4 - ?o)"
        using col [OF vx] vx t by linarith
      then show ?thesis by (simp add: source_pixel_def rot Let_def)
    qed
    ultimately show ?thesis using True by (simp add: m)
  next
    case False
    have "?m ! i = m ! i" if i: "y * ds + x * 4 \<le> i" "i < y * ds + x * 4 + 4" for i
    proof (rule straight_copy.pass_untouched [OF dest])
      obtain j where j: "i = y * ds + (x * 4 + j)" "j < 4" using i le_Suc_ex [of "y * ds + x * 4" i] by auto
      show "i < length m"
        using row_end [OF assms(5), of "x * 4 + 4" ds "length m"] assms(4) d j by simp
      show "\<forall>v \<in> set ?ys. i \<notin> straight_copy.written ds ?o ?w v"
      proof
        fix v assume v: "v \<in> set ?ys"
        have "\<not> (y = v \<and> ?o \<le> x * 4 + j \<and> x * 4 + j < ?o + ?w)"
        proof
          assume a: "y = v \<and> ?o \<le> x * 4 + j \<and> x * 4 + j < ?o + ?w"
          then have "x0 b \<le> int x" "int x < x1 b" using j(2) t by linarith+
          moreover have "y0 b \<le> int y" "int y < y1 b" using a v t by auto
          ultimately show False using False by (simp add: visible_def)
        qed
        then show "i \<notin> straight_copy.written ds ?o ?w v"
          using in_row [of "x * 4 + j" ds ?o ?w v y] k [OF j(2)] ow j(1) by (simp add: w add.assoc)
      qed
    qed
    then have "load (y * ds + x * 4) 4 ?m = load (y * ds + x * 4) 4 m" by (rule load_cong)
    then show ?thesis using False unfolding m by simp
  qed
qed

lemma configure_ends:
  assumes "sane sw" "sane sh" "sane dw" "sane dh"
  shows "x0 (configure sw sh dw dh rot f) \<le> x1 (configure sw sh dw dh rot f)"
    and "sourceWidth (configure sw sh dw dh rot f) = sw" "sourceHeight (configure sw sh dw dh rot f) = sh"
    and "destWidth (configure sw sh dw dh rot f) = dw" "destHeight (configure sw sh dw dh rot f) = dh"
proof -
  let ?rw = "if turned rot then sh else sw" and ?rh = "if turned rot then sw else sh"
  obtain w h where fs: "fitted_size f ?rw ?rh dw dh = (w, h)" by fastforce
  have pos: "0 < ?rw" "0 < ?rh" "0 < dw" "0 < dh" using assms by (simp_all add: sane_def)
  note c = configure_sane [OF assms fs]
  have w: "0 \<le> w" using fitted_size_spec(1) [OF pos fs] by simp
  have "0 \<le> (dw - w) sdiv 2 + w \<and> (dw - w) sdiv 2 \<le> dw"
    using axis_inside [of w dw] axis_covers [of dw w] w pos by (cases "w \<le> dw") simp_all
  then show "x0 (configure sw sh dw dh rot f) \<le> x1 (configure sw sh dw dh rot f)"
    using w pos unfolding c by simp
  show "sourceWidth (configure sw sh dw dh rot f) = sw" "sourceHeight (configure sw sh dw dh rot f) = sh"
    "destWidth (configure sw sh dw dh rot f) = dw" "destHeight (configure sw sh dw dh rot f) = dh"
    unfolding c by simp_all
qed

lemma bars_pixel:
  assumes "blit_ok b" "display_fits b m ds" "y < nat (destHeight b)" "x < nat (destWidth b)" "x0 b \<le> x1 b"
  shows "load (y * ds + x * 4) 4 (clearBars b m ds) = (if visible b x y then load (y * ds + x * 4) 4 m else [0, 0, 0, 0])"
proof -
  have t: "0 \<le> x0 b" using assms(1) by (simp add: blit_ok_def table_ok_def)
  have byte: "clearBars b m ds ! (y * ds + (x * 4 + j)) = (if visible b x y then m ! (y * ds + (x * 4 + j)) else 0)"
    if j: "j < 4" for j
  proof -
    have k: "x * 4 + j < nat (destWidth b) * 4" using assms(4) j by simp
    have "nat (x0 b) * 4 \<le> x * 4 + j \<longleftrightarrow> x0 b \<le> int x" "x * 4 + j < nat (x1 b) * 4 \<longleftrightarrow> int x < x1 b"
      using t j by linarith+
    then have "bar_byte b y (x * 4 + j) \<longleftrightarrow> \<not> visible b x y" by (auto simp: bar_byte_def visible_def)
    with clearBars_nth(1) [OF assms(1-3) k assms(5)] show ?thesis by simp
  qed
  have zero: "[0, 0, 0, 0] ! j = (0::int)" if "j < 4" for j
    using that by (auto simp: less_Suc_eq nth_Cons' numeral_eq_Suc)
  show ?thesis
    by (rule nth_equalityI) (auto simp: byte add.assoc zero)
qed

text \<open>
  C19: after clearing the bars and one blit, every pixel of the display is either black, outside
  the placement, or the source pixel the rotation and the tables name, whose coordinates are inside
  the source; the row copies of the upright picture and the tiled turned copy give the same.
\<close>

theorem frame_complete:
  fixes rot :: rotation and f :: fit and sw sh dw dh :: int
  assumes "sane sw" "sane sh" "sane dw" "sane dh"
  defines "b \<equiv> configure sw sh dw dh rot f"
  assumes "nat dw * 4 \<le> ds" "nat dh * ds \<le> length dest" "x < nat dw" "y < nat dh"
  shows "load (y * ds + x * 4) 4 (blit b source ss (clearBars b dest ds) ds) =
      (if visible b x y
       then load (snd (source_pixel b x y) * ss + fst (source_pixel b x y) * 4) 4 source
       else [0, 0, 0, 0]) \<and>
    (visible b x y \<longrightarrow> fst (source_pixel b x y) < nat sw \<and> snd (source_pixel b x y) < nat sh)"
proof -
  have ok: "blit_ok b" unfolding b_def by (rule placement_ok [OF assms(1-4)])
  note e = configure_ends [OF assms(1-4), of rot f, folded b_def]
  have fits: "display_fits b dest ds" using assms(6,7) by (simp add: display_fits_def e)
  have xy: "x < nat (destWidth b)" "y < nat (destHeight b)" using assms(8,9) by (simp_all add: e)
  have "length (clearBars b dest ds) = length dest" if "0 < nat (destWidth b)" "0 < nat (destHeight b)"
    using clearBars_nth(2) [OF ok fits, of 0 0] that e(1) by simp
  then have fits': "display_fits b (clearBars b dest ds) ds" using fits xy by (simp add: display_fits_def)
  have "load (y * ds + x * 4) 4 (blit b source ss (clearBars b dest ds) ds) =
      (if visible b x y then load (snd (source_pixel b x y) * ss + fst (source_pixel b x y) * 4) 4 source
       else load (y * ds + x * 4) 4 (clearBars b dest ds))"
    using blit_rows [OF ok fits' _ xy] blit_general [OF ok fits' _ xy] by blast
  then show ?thesis
    using bars_pixel [OF ok fits xy(2,1) e(1)] source_pixel_inside [OF ok, of x y] by (simp add: e(2,3))
qed

theorem frame_complete_witness:
  "load 0 4 (blit (configure 1 1 1 1 R90 FitInside) [1, 2, 3, 4] 4 (clearBars (configure 1 1 1 1 R90 FitInside) [9, 9, 9, 9] 4) 4) \<in>
     {[0, 0, 0, 0], load (snd (source_pixel (configure 1 1 1 1 R90 FitInside) 0 0) * 4 +
        fst (source_pixel (configure 1 1 1 1 R90 FitInside) 0 0) * 4) 4 [1, 2, 3, 4]}"
  using frame_complete [of 1 1 1 1 4 "[9, 9, 9, 9]" 0 0 R90 FitInside "[1, 2, 3, 4]" 4]
  by (auto simp: sane_def split: if_splits)

section \<open>The names\<close>

lemma rotation_names: "rotationFromString (rotationToString rot) = Some rot"
  by (cases rot) (simp_all add: rotationFromString_def)

lemma fit_names: "fitFromString (fitToString f) = f"
  by (cases f) (simp_all add: fitFromString_def Let_def tolower_def code_def)

interpretation rotation_text: codec rotationToString rotationFromString "\<lambda>_. True"
  by unfold_locales (rule rotation_names)

interpretation fit_text: codec fitToString "\<lambda>s. Some (fitFromString s)" "\<lambda>_. True"
  by unfold_locales (simp add: fit_names)

end
