(* ===== verification/Source_Config.thy ===== *)
theory Source_Config
  imports Json Video_Format Pixel_Convert
begin

text \<open>
  \<open>core/source_config\<close>: outputs, sources and the whole configuration file as data, their JSON
  forms, validation and the preview rule. A failing read is \<open>Inl\<close> of the error message.
\<close>

section \<open>Enumerations and colours\<close>

definition colourMatrixToString :: "colour_matrix \<Rightarrow> string" where
  "colourMatrixToString m = (case m of MatrixBt601 \<Rightarrow> ''601'' | MatrixBt709 \<Rightarrow> ''709'' | MatrixAuto \<Rightarrow> ''auto'')"

definition colourMatrixFromString :: "string \<Rightarrow> colour_matrix" where
  "colourMatrixFromString s =
     (if s = ''601'' \<or> s = ''bt601'' then MatrixBt601
      else if s = ''709'' \<or> s = ''bt709'' then MatrixBt709 else MatrixAuto)"

record output_background =
  opaque :: bool
  red :: int
  green :: int
  blue :: int

definition default_background :: output_background where
  "default_background = \<lparr>opaque = False, red = 0, green = 177, blue = 64\<rparr>"

text \<open>\<open>packed\<close>: the three bytes are or-ed into disjoint bits.\<close>

definition packed :: "output_background \<Rightarrow> int" where
  "packed b = red b * 65536 + green b * 256 + blue b"

definition hexDigit :: "char \<Rightarrow> int" where
  "hexDigit c =
     (if 48 \<le> code c \<and> code c \<le> 57 then int (code c) - 48
      else if 97 \<le> code c \<and> code c \<le> 102 then int (code c) - 97 + 10
      else if 65 \<le> code c \<and> code c \<le> 70 then int (code c) - 65 + 10 else - 1)"

definition toHex :: "output_background \<Rightarrow> string" where
  "toHex b = CHR ''#'' # concat (map (\<lambda>channel. [hexdig (nat (channel div 16)), hexdig (nat (channel mod 16))])
     [red b, green b, blue b])"

definition hex_channel :: "string \<Rightarrow> nat \<Rightarrow> int option" where
  "hex_channel digits i =
     (let high = hexDigit (digits ! (i * 2)); low = hexDigit (digits ! (i * 2 + 1))
      in if high < 0 \<or> low < 0 then None else Some (high * 16 + low))"

text \<open>\<open>setHex\<close>: \<open>None\<close> is \<open>false\<close>, with the colour left alone.\<close>

definition setHex :: "string \<Rightarrow> output_background \<Rightarrow> output_background option" where
  "setHex text b =
     (let digits = (if text \<noteq> [] \<and> hd text = CHR ''#'' then tl text else text)
      in if length digits \<noteq> 6 then None
         else case hex_channel digits 0 of
           None \<Rightarrow> None
         | Some r \<Rightarrow> (case hex_channel digits 1 of
             None \<Rightarrow> None
           | Some g \<Rightarrow> (case hex_channel digits 2 of
               None \<Rightarrow> None
             | Some bl \<Rightarrow> Some (b\<lparr>red := u8 r, green := u8 g, blue := u8 bl\<rparr>))))"

section \<open>Outputs\<close>

record output_config =
  out_kind :: string
  out_name :: string
  deviceIndex :: int
  options :: json
  background :: output_background

definition double_quoted :: "string \<Rightarrow> string" where
  "double_quoted s = quote # s @ [quote]"

text \<open>\<open>value.set\<close> under a condition.\<close>

definition set_when :: "bool \<Rightarrow> string \<Rightarrow> json \<Rightarrow> json \<Rightarrow> json" where
  "set_when c k x v = (if c then set_key k x v else v)"

definition output_toJson :: "output_config \<Rightarrow> json" where
  "output_toJson o' =
     set_when (packed (background o') \<noteq> packed default_background) ''background_colour'' (String (toHex (background o')))
     (set_when (opaque (background o')) ''background'' (String ''colour'')
     (set_when (isObject (options o') \<and> 0 < size_of (options o')) ''options'' (options o')
     (set_when (out_kind o' = ''decklink'' \<or> out_kind o' = ''aja'') ''device_index'' (number_of_int (deviceIndex o'))
     (set_key ''name'' (String (out_name o'))
     (set_key ''kind'' (String (out_kind o')) (Object []))))))"

definition read_mode :: "string \<Rightarrow> output_background \<Rightarrow> string + output_background" where
  "read_mode mode b =
     (if mode = [] then Inr b
      else if mode = ''transparent'' then Inr (b\<lparr>opaque := False\<rparr>)
      else if mode = ''colour'' \<or> mode = ''color'' then Inr (b\<lparr>opaque := True\<rparr>)
      else case setHex mode b of
          Some b' \<Rightarrow> Inr (b'\<lparr>opaque := True\<rparr>)
        | None \<Rightarrow> Inl (double_quoted ''background'' @ '' must be '' @ double_quoted ''transparent'' @ '', '' @
            double_quoted ''colour'' @ '' or #rrggbb, not '' @ double_quoted mode))"

definition output_fromJson :: "json \<Rightarrow> string + output_config" where
  "output_fromJson value =
     (if \<not> isObject value then Inl ''an output must be an object''
      else let kind = asString [] (get_key value ''kind'')
           in if kind = [] then Inl (''an output needs a '' @ double_quoted ''kind'')
              else let opts = get_key value ''options'';
                       colour = asString [] (get_key value ''background_colour'');
                       coloured = (if colour = [] then Some default_background else setHex colour default_background)
                   in case coloured of
                        None \<Rightarrow> Inl (double_quoted ''background_colour'' @ '' must be #rrggbb, not '' @ double_quoted colour)
                      | Some b \<Rightarrow>
                          (case read_mode (asString [] (get_key value ''background'')) b of
                             Inl e \<Rightarrow> Inl e
                           | Inr b' \<Rightarrow> Inr \<lparr>out_kind = kind, out_name = asString kind (get_key value ''name''),
                               deviceIndex = asInt 0 (get_key value ''device_index''),
                               options = (if isObject opts then opts else Object []), background = b'\<rparr>))"

section \<open>Sources\<close>

record source_config =
  source_id :: string
  url :: string
  format :: video_format
  outputs :: "output_config list"
  audioEnabled :: bool
  matrix :: colour_matrix
  externalPacing :: bool
  interactiveByDefault :: bool
  popupPolicy :: string
  wantPreview :: bool

text \<open>The constructor parses \<open>1080p50\<close>; a zeroed format is what it leaves if that fails.\<close>

definition default_format :: video_format where
  "default_format = (case format_parse ''1080p50'' of
      Some f \<Rightarrow> f | None \<Rightarrow> \<lparr>width = 0, height = 0, rate = \<lparr>numerator = 0, denominator = 1\<rparr>, interlaced = False\<rparr>)"

definition default_source :: source_config where
  "default_source = \<lparr>source_id = [], url = ''about:blank'', format = default_format, outputs = [],
     audioEnabled = True, matrix = MatrixAuto, externalPacing = True, interactiveByDefault = True,
     popupPolicy = ''navigate'', wantPreview = True\<rparr>"

definition source_toJson :: "source_config \<Rightarrow> json" where
  "source_toJson s =
     set_key ''outputs'' (foldl (\<lambda>list o'. push (output_toJson o') list) (Array []) (outputs s))
     (set_key ''popups'' (String (popupPolicy s))
     (set_key ''interactive'' (Bool (interactiveByDefault s))
     (set_key ''pacing'' (String (if externalPacing s then ''external'' else ''internal''))
     (set_key ''matrix'' (String (colourMatrixToString (matrix s)))
     (set_key ''audio'' (Bool (audioEnabled s))
     (set_key ''format'' (String (format_toString (format s)))
     (set_key ''url'' (String (url s))
     (set_key ''id'' (String (source_id s)) (Object [])))))))))"

fun read_outputs :: "nat \<Rightarrow> json list \<Rightarrow> string + output_config list" where
  "read_outputs i [] = Inr []"
| "read_outputs i (v # vs) = (case output_fromJson v of
      Inl e \<Rightarrow> Inl (''outputs['' @ dec i @ '']: '' @ e)
    | Inr o' \<Rightarrow> (case read_outputs (i + 1) vs of Inl e \<Rightarrow> Inl e | Inr os \<Rightarrow> Inr (o' # os)))"

definition em_dash :: string where
  "em_dash = [CHR 0xE2, CHR 0x80, CHR 0x94]"

text \<open>The optional fields before the outputs, in the order they are read.\<close>

definition read_fields :: "json \<Rightarrow> source_config \<Rightarrow> source_config" where
  "read_fields value s =
     (let s1 = (if has value ''audio'' then s\<lparr>audioEnabled := asBool True (get_key value ''audio'')\<rparr> else s);
          s2 = (if has value ''matrix'' then s1\<lparr>matrix := colourMatrixFromString (asString [] (get_key value ''matrix''))\<rparr> else s1);
          s3 = (if has value ''pacing'' then s2\<lparr>externalPacing := (asString ''external'' (get_key value ''pacing'') \<noteq> ''internal'')\<rparr> else s2);
          s4 = (if has value ''interactive'' then s3\<lparr>interactiveByDefault := asBool True (get_key value ''interactive'')\<rparr> else s3);
          s5 = (if has value ''popups'' then s4\<lparr>popupPolicy := asString ''navigate'' (get_key value ''popups'')\<rparr> else s4)
      in if has value ''preview'' then s5\<lparr>wantPreview := asBool True (get_key value ''preview'')\<rparr> else s5)"

definition read_format :: "json \<Rightarrow> source_config \<Rightarrow> string + source_config" where
  "read_format value s =
     (if has value ''format''
      then let text = asString [] (get_key value ''format'')
           in (case format_parse text of
                 None \<Rightarrow> Inl (''cannot parse format '' @ single_quoted text @ '' '' @ em_dash @
                   '' try 1080p50, 720p59.94 or 1920x1080i25'')
               | Some f \<Rightarrow> Inr (s\<lparr>format := f\<rparr>))
      else Inr s)"

definition source_fromJson :: "json \<Rightarrow> string + source_config" where
  "source_fromJson value =
     (if \<not> isObject value then Inl ''a source must be an object''
      else let s0 = default_source\<lparr>source_id := asString [] (get_key value ''id''),
                      url := asString (url default_source) (get_key value ''url'')\<rparr>
           in case read_format value s0 of
                Inl e \<Rightarrow> Inl e
              | Inr s1 \<Rightarrow>
                  let s2 = read_fields value s1
                  in if has value ''outputs''
                     then (case get_key value ''outputs'' of
                         Array vs \<Rightarrow> (case read_outputs 0 vs of
                             Inl e \<Rightarrow> Inl e
                           | Inr os \<Rightarrow> Inr (s2\<lparr>outputs := os\<rparr>))
                       | _ \<Rightarrow> Inl (double_quoted ''outputs'' @ '' must be an array''))
                     else Inr s2)"

definition id_char :: "char \<Rightarrow> bool" where
  "id_char c \<longleftrightarrow> isalpha c \<or> isdigit c \<or> c = CHR ''-'' \<or> c = CHR ''_'' \<or> c = CHR ''.''"

text \<open>The loop over the output names, with the set of those seen.\<close>

fun check_names :: "string \<Rightarrow> string set \<Rightarrow> output_config list \<Rightarrow> string option" where
  "check_names sid seen [] = None"
| "check_names sid seen (o' # os) =
     (if out_name o' = [] then Some (''source '' @ single_quoted sid @ '' has an output with no name'')
      else if out_name o' \<in> seen
      then Some (''source '' @ single_quoted sid @ '' has two outputs called '' @ single_quoted (out_name o'))
      else check_names sid (insert (out_name o') seen) os)"

text \<open>\<open>validate\<close>: \<open>None\<close> is \<open>true\<close>, otherwise the first problem.\<close>

definition validate :: "source_config \<Rightarrow> string option" where
  "validate s =
     (let sid = source_id s; named = ''source '' @ single_quoted sid
      in if sid = [] then Some (''a source needs an '' @ double_quoted ''id'')
         else if \<not> list_all id_char sid
         then Some (''source id '' @ single_quoted sid @ '' may only contain letters, digits, '' @
           single_quoted ''-'' @ '', '' @ single_quoted ''_'' @ '' and '' @ single_quoted ''.'')
         else if width (format s) \<le> 0 \<or> height (format s) \<le> 0 then Some (named @ '' has an empty raster'')
         else if width (format s) smod 2 \<noteq> 0 then Some (named @ '' has an odd width, which 4:2:2 cannot carry'')
         else if numerator (rate (format s)) \<le> 0 \<or> denominator (rate (format s)) \<le> 0
         then Some (named @ '' has an invalid frame rate'')
         else if popupPolicy s \<noteq> ''navigate'' \<and> popupPolicy s \<noteq> ''block''
         then Some (named @ '' has an unknown popup policy '' @ single_quoted (popupPolicy s) @ '' '' @ em_dash @
           '' expected '' @ double_quoted ''navigate'' @ '' or '' @ double_quoted ''block'')
         else check_names sid {} (outputs s))"

definition outputKindIsPermanent :: "string \<Rightarrow> bool" where
  "outputKindIsPermanent kind \<longleftrightarrow> kind = ''preview''"

definition preview_output :: output_config where
  "preview_output = \<lparr>out_kind = ''preview'', out_name = ''preview'', deviceIndex = 0,
     options = set_key ''factor'' (number_of_int 4) (Object []), background = default_background\<rparr>"

definition ensurePreview :: "source_config \<Rightarrow> source_config" where
  "ensurePreview s =
     (if \<not> wantPreview s then s
      else if list_ex (\<lambda>o'. out_kind o' = ''preview'') (outputs s) then s
      else s\<lparr>outputs := preview_output # outputs s\<rparr>)"

section \<open>The configuration file\<close>

record app_config =
  sources :: "source_config list"
  httpBind :: string
  httpPort :: int
  httpToken :: string
  oscEnabled :: bool
  oscBind :: string
  oscPort :: int
  mdnsEnabled :: bool
  instanceName :: string

definition default_app :: app_config where
  "default_app = \<lparr>sources = [], httpBind = ''127.0.0.1'', httpPort = 7654, httpToken = [], oscEnabled = True,
     oscBind = ''0.0.0.0'', oscPort = 7655, mdnsEnabled = True, instanceName = []\<rparr>"

definition control_toJson :: "app_config \<Rightarrow> json" where
  "control_toJson c =
     set_when (instanceName c \<noteq> []) ''name'' (String (instanceName c))
     (set_key ''mdns_enabled'' (Bool (mdnsEnabled c))
     (set_key ''osc_port'' (number_of_int (oscPort c))
     (set_key ''osc_bind'' (String (oscBind c))
     (set_key ''osc_enabled'' (Bool (oscEnabled c))
     (set_when (httpToken c \<noteq> []) ''http_token'' (String (httpToken c))
     (set_key ''http_port'' (number_of_int (httpPort c))
     (set_key ''http_bind'' (String (httpBind c)) (Object []))))))))"

definition app_toJson :: "app_config \<Rightarrow> json" where
  "app_toJson c =
     set_key ''sources'' (foldl (\<lambda>list s. push (source_toJson s) list) (Array []) (sources c))
     (set_key ''control'' (control_toJson c) (Object []))"

definition read_control :: "json \<Rightarrow> app_config \<Rightarrow> app_config" where
  "read_control control c =
     c\<lparr>httpBind := asString (httpBind c) (get_key control ''http_bind''),
       httpPort := asInt (httpPort c) (get_key control ''http_port''),
       httpToken := asString (httpToken c) (get_key control ''http_token''),
       oscEnabled := (if has control ''osc_enabled'' then asBool True (get_key control ''osc_enabled'') else oscEnabled c),
       oscBind := asString (oscBind c) (get_key control ''osc_bind''),
       oscPort := asInt (oscPort c) (get_key control ''osc_port''),
       mdnsEnabled := (if has control ''mdns_enabled'' then asBool True (get_key control ''mdns_enabled'') else mdnsEnabled c),
       instanceName := asString (instanceName c) (get_key control ''name'')\<rparr>"

fun read_sources :: "nat \<Rightarrow> string set \<Rightarrow> json list \<Rightarrow> string + source_config list" where
  "read_sources i ids [] = Inr []"
| "read_sources i ids (v # vs) = (case source_fromJson v of
      Inl e \<Rightarrow> Inl (''sources['' @ dec i @ '']: '' @ e)
    | Inr s0 \<Rightarrow>
        let s = (if source_id s0 = [] then s0\<lparr>source_id := ''source'' @ dec (i + 1)\<rparr> else s0)
        in (case validate s of
              Some e \<Rightarrow> Inl (''sources['' @ dec i @ '']: '' @ e)
            | None \<Rightarrow>
                if source_id s \<in> ids then Inl (''two sources share the id '' @ single_quoted (source_id s))
                else (case read_sources (i + 1) (insert (source_id s) ids) vs of
                        Inl e \<Rightarrow> Inl e
                      | Inr ss \<Rightarrow> Inr (ensurePreview s # ss))))"

definition app_fromJson :: "json \<Rightarrow> string + app_config" where
  "app_fromJson value =
     (if \<not> isObject value then Inl ''the configuration must be an object''
      else let c = (if has value ''control'' then read_control (get_key value ''control'') default_app else default_app)
           in if \<not> has value ''sources'' then Inl (''the configuration needs a '' @ double_quoted ''sources'' @ '' array'')
              else (case get_key value ''sources'' of
                  Array vs \<Rightarrow> (case read_sources 0 {} vs of
                      Inl e \<Rightarrow> Inl e
                    | Inr ss \<Rightarrow> Inr (c\<lparr>sources := ss\<rparr>))
                | _ \<Rightarrow> Inl (double_quoted ''sources'' @ '' must be an array'')))"

definition app_parse :: "string \<Rightarrow> string + app_config" where
  "app_parse text = (case json_parse text of
      Inl e \<Rightarrow> Inl (''not valid JSON: '' @ e)
    | Inr value \<Rightarrow> app_fromJson value)"

section \<open>Reading back what was set\<close>

named_theorems json_set "reads of a value built with set"

lemma isObject_set [json_set]: "isObject (set_key k x v)"
  by (cases v) (simp_all add: set_key_def isObject_def)

lemma get_set [json_set]: "isObject v \<Longrightarrow> get_key (set_key k x v) j = (if j = k then x else get_key v j)"
  by (cases v) (simp_all add: isObject_def)

lemma has_set [json_set]: "isObject v \<Longrightarrow> has (set_key k x v) j = (j = k \<or> has v j)"
  by (cases v) (simp_all add: isObject_def has_def set_key_def map_of_set_member)

lemma isObject_when [json_set]: "isObject v \<Longrightarrow> isObject (set_when c k x v)"
  by (simp add: set_when_def isObject_set)

lemma get_when [json_set]:
  "isObject v \<Longrightarrow> get_key (set_when c k x v) j = (if c \<and> j = k then x else get_key v j)"
  by (simp add: set_when_def get_set)

lemma has_when [json_set]: "isObject v \<Longrightarrow> has (set_when c k x v) j = (c \<and> j = k \<or> has v j)"
  by (auto simp: set_when_def has_set)

lemma empty_object [json_set]: "isObject (Object [])" "get_key (Object []) j = Null" "has (Object []) j = False"
  by (simp_all add: isObject_def get_key_def has_def)

lemma as_simps [json_set]: "asString d (String s) = s" "asString d Null = d" "asBool e (Bool b) = b"
  by (simp_all add: asString_def asBool_def)

lemma asInt_Null [json_set]: "\<bar>d\<bar> < 2 ^ 31 \<Longrightarrow> asInt d Null = d"
  by (simp add: asInt_def asInt64_def i32_fits abs_less_iff)

lemma asInt_number [json_set]: "- (2 ^ 31) \<le> i \<Longrightarrow> i < 2 ^ 31 \<Longrightarrow> asInt d (number_of_int i) = i"
  using llround_of_i [of i] by (simp add: asInt_def asInt64_def number_of_int_def i32_fits abs_less_iff)

lemma foldl_push: "foldl (\<lambda>list x. push (f x) list) (Array ys) xs = Array (ys @ map f xs)"
  by (induction xs arbitrary: ys) (simp_all add: push_def)

section \<open>Colours\<close>

definition colour_ok :: "output_background \<Rightarrow> bool" where
  "colour_ok b \<longleftrightarrow> is_byte (red b) \<and> is_byte (green b) \<and> is_byte (blue b)"

lemma base_256:
  assumes "a * 256 + b = a' * 256 + b'" "is_byte b" "is_byte b'"
  shows "a = a'" "b = b'"
proof -
  have b: "0 \<le> b" "b \<le> 255" "0 \<le> b'" "b' \<le> 255" using assms(2,3) by (simp_all add: is_byte_def)
  show "a = a'" using assms(1) b by linarith
  with assms(1) show "b = b'" by simp
qed

lemma packed_inj:
  assumes "colour_ok b" "colour_ok c" "packed b = packed c"
  shows "red b = red c \<and> green b = green c \<and> blue b = blue c"
proof -
  have e: "(red b * 256 + green b) * 256 + blue b = (red c * 256 + green c) * 256 + blue c"
    using assms(3) by (simp add: packed_def)
  have "blue b = blue c" "red b * 256 + green b = red c * 256 + green c"
    using base_256 [OF e] assms(1,2) by (simp_all add: colour_ok_def)
  then show ?thesis using base_256 [of "red b" "green b"] assms(1,2) by (simp add: colour_ok_def)
qed

lemma hexDigit_hexdig: "d < 16 \<Longrightarrow> hexDigit (hexdig d) = int d"
  by (auto simp: hexDigit_def hexdig_def)

lemma hex_channel_written:
  assumes "is_byte v" "digits ! (i * 2) = hexdig (nat (v div 16))" "digits ! (i * 2 + 1) = hexdig (nat (v mod 16))"
  shows "hex_channel digits i = Some v"
proof -
  have r: "0 \<le> v div 16" "v div 16 < 16" "0 \<le> v mod 16" "v mod 16 < 16"
    using assms(1) unfolding is_byte_def by (auto intro: int_div_less)
  have "hexDigit (digits ! (i * 2)) = v div 16" "hexDigit (digits ! (i * 2 + 1)) = v mod 16"
    using r hexDigit_hexdig [of "nat (v div 16)"] hexDigit_hexdig [of "nat (v mod 16)"]
    unfolding assms(2,3) by simp_all
  moreover have "v div 16 * 16 + v mod 16 = v" by simp
  ultimately show ?thesis using r unfolding hex_channel_def Let_def by (simp only: not_less [symmetric]) simp
qed

lemma set_toHex:
  assumes "colour_ok b"
  shows "setHex (toHex b) c = Some (c\<lparr>red := red b, green := green b, blue := blue b\<rparr>)"
proof -
  define ds where "ds = concat (map (\<lambda>v. [hexdig (nat (v div 16)), hexdig (nat (v mod 16))]) [red b, green b, blue b])"
  have t: "toHex b = CHR ''#'' # ds" by (simp only: toHex_def ds_def)
  have b: "is_byte (red b)" "is_byte (green b)" "is_byte (blue b)" using assms by (simp_all add: colour_ok_def)
  have h: "hex_channel ds 0 = Some (red b)" "hex_channel ds 1 = Some (green b)" "hex_channel ds 2 = Some (blue b)"
    by (rule hex_channel_written [OF b(1)] hex_channel_written [OF b(2)] hex_channel_written [OF b(3)];
        simp add: ds_def)+
  have l: "length ds = 6" by (simp add: ds_def)
  have u: "u8 v = v" if "is_byte v" for v using that by (simp add: is_byte_def u8_fits)
  show ?thesis using h l b u by (simp add: setHex_def t)
qed

interpretation colour_text: codec toHex "\<lambda>s. setHex s \<lparr>opaque = True, red = 0, green = 0, blue = 0\<rparr>"
    "\<lambda>b. colour_ok b \<and> opaque b"
  by unfold_locales (simp add: set_toHex)

lemma matrix_text: "colourMatrixFromString (colourMatrixToString m) = m"
  by (cases m) (simp_all add: colourMatrixFromString_def colourMatrixToString_def)

interpretation matrix_names: codec colourMatrixToString "\<lambda>s. Some (colourMatrixFromString s)" "\<lambda>_. True"
  by unfold_locales (simp add: matrix_text)

section \<open>Round trips\<close>

text \<open>
  What every output in the program is: a kind, options that are an object, bytes for a colour and an \<open>int\<close>
  for a device. The device of a kind that has none is not written and reads back as 0.
\<close>

definition on_card :: "output_config \<Rightarrow> bool" where
  "on_card o' \<longleftrightarrow> out_kind o' = ''decklink'' \<or> out_kind o' = ''aja''"

definition fit_output :: "output_config \<Rightarrow> bool" where
  "fit_output o' \<longleftrightarrow> out_kind o' \<noteq> [] \<and> isObject (options o') \<and> colour_ok (background o') \<and>
     - (2 ^ 31) \<le> deviceIndex o' \<and> deviceIndex o' < 2 ^ 31"

definition output_as_read :: "output_config \<Rightarrow> output_config" where
  "output_as_read o' = (if on_card o' then o' else o'\<lparr>deviceIndex := 0\<rparr>)"

definition good_output :: "output_config \<Rightarrow> bool" where
  "good_output o' \<longleftrightarrow> fit_output o' \<and> (\<not> on_card o' \<longrightarrow> deviceIndex o' = 0)"

lemma output_as_read_simps [simp]:
  "out_kind (output_as_read o') = out_kind o'" "out_name (output_as_read o') = out_name o'"
  "output_as_read (output_as_read o') = output_as_read o'"
  by (simp_all add: output_as_read_def on_card_def)

lemma output_as_read_good: "good_output o' \<Longrightarrow> output_as_read o' = o'"
  by (cases o') (auto simp: good_output_def output_as_read_def)

lemma output_read_back:
  assumes "fit_output o'"
  shows "output_fromJson (output_toJson o') = Inr (output_as_read o')"
proof -
  let ?v = "output_toJson o'" and ?bg = "background o'"
  have obj: "isObject ?v" by (simp add: output_toJson_def json_set)
  have kind: "get_key ?v ''kind'' = String (out_kind o')" by (simp add: output_toJson_def json_set)
  have name: "get_key ?v ''name'' = String (out_name o')" by (simp add: output_toJson_def json_set)
  have dev: "asInt 0 (get_key ?v ''device_index'') = deviceIndex (output_as_read o')"
    using assms by (auto simp: output_toJson_def fit_output_def output_as_read_def on_card_def json_set)
  have opts: "(if isObject (get_key ?v ''options'') then get_key ?v ''options'' else Object []) = options o'"
  proof -
    have "get_key ?v ''options'' = (if isObject (options o') \<and> 0 < size_of (options o') then options o' else Null)"
      by (simp add: output_toJson_def json_set)
    then show ?thesis using assms
      by (cases "options o'") (simp_all add: fit_output_def isObject_def size_of_def)
  qed
  have mode: "asString [] (get_key ?v ''background'') = (if opaque ?bg then ''colour'' else [])"
    by (simp add: output_toJson_def json_set)
  have colour: "asString [] (get_key ?v ''background_colour'') =
      (if packed ?bg \<noteq> packed default_background then toHex ?bg else [])"
    by (simp add: output_toJson_def json_set)
  have ok: "colour_ok ?bg" "colour_ok default_background"
    using assms by (simp_all add: fit_output_def default_background_def colour_ok_def is_byte_def)
  define b where "b = ?bg\<lparr>opaque := False\<rparr>"
  have "(let colour = asString [] (get_key ?v ''background_colour'')
      in if colour = [] then Some default_background else setHex colour default_background) = Some b"
  proof (cases "packed ?bg = packed default_background")
    case True
    with packed_inj [OF ok] have "b = default_background"
      unfolding b_def by (cases ?bg) (simp add: default_background_def)
    with True show ?thesis by (simp add: colour)
  next
    case False
    have "toHex ?bg \<noteq> []" by (simp add: toHex_def)
    moreover have "default_background\<lparr>red := red ?bg, green := green ?bg, blue := blue ?bg\<rparr> = b"
      unfolding b_def by (cases ?bg) (simp add: default_background_def)
    ultimately show ?thesis using False by (simp add: colour set_toHex [OF ok(1)])
  qed
  moreover have "read_mode (asString [] (get_key ?v ''background'')) b = Inr ?bg"
    unfolding mode b_def by (cases ?bg) (simp add: read_mode_def)
  ultimately show ?thesis
    using assms by (simp add: output_fromJson_def Let_def obj kind name dev opts as_simps fit_output_def)
      (simp add: output_as_read_def)
qed

lemma output_roundtrip: "good_output o' \<Longrightarrow> output_fromJson (output_toJson o') = Inr o'"
  using output_read_back [of o'] output_as_read_good [of o'] by (simp add: good_output_def)

interpretation output_json: codec output_toJson "\<lambda>v. case output_fromJson v of Inr o' \<Rightarrow> Some o' | Inl _ \<Rightarrow> None" good_output
  by unfold_locales (simp add: output_roundtrip)

lemma read_outputs_written:
  "\<forall>o' \<in> set os. fit_output o' \<Longrightarrow> read_outputs i (map output_toJson os) = Inr (map output_as_read os)"
  by (induction os arbitrary: i) (simp_all add: output_read_back)

text \<open>
  \<open>storable\<close>: the format's text reads back and every output is as above. A \<open>writable\<close> source also numbers
  no device that is not written.
\<close>

definition storable :: "source_config \<Rightarrow> bool" where
  "storable s \<longleftrightarrow> good_format (format s) \<and> (\<forall>o' \<in> set (outputs s). fit_output o')"

definition writable :: "source_config \<Rightarrow> bool" where
  "writable s \<longleftrightarrow> good_format (format s) \<and> (\<forall>o' \<in> set (outputs s). good_output o')"

lemma writable_storable: "writable s \<Longrightarrow> storable s \<and> map output_as_read (outputs s) = outputs s"
  by (auto simp: writable_def storable_def good_output_def output_as_read_good intro: map_idI)

text \<open>
  \<open>toJson\<close> does not write \<open>wantPreview\<close>: whatever it was, the source read back wants a preview.
\<close>

lemma source_read_back:
  assumes "storable s"
  shows "source_fromJson (source_toJson s) = Inr (s\<lparr>wantPreview := True, outputs := map output_as_read (outputs s)\<rparr>)"
proof -
  let ?v = "source_toJson s"
  have obj: "isObject ?v" by (simp add: source_toJson_def json_set)
  have outs: "get_key ?v ''outputs'' = Array (map output_toJson (outputs s))" "has ?v ''outputs''"
    by (simp_all add: source_toJson_def json_set foldl_push)
  have keys: "get_key ?v ''id'' = String (source_id s)" "get_key ?v ''url'' = String (url s)"
    "get_key ?v ''format'' = String (format_toString (format s))" "has ?v ''format''"
    "get_key ?v ''audio'' = Bool (audioEnabled s)" "has ?v ''audio''"
    "get_key ?v ''matrix'' = String (colourMatrixToString (matrix s))" "has ?v ''matrix''"
    "get_key ?v ''pacing'' = String (if externalPacing s then ''external'' else ''internal'')" "has ?v ''pacing''"
    "get_key ?v ''interactive'' = Bool (interactiveByDefault s)" "has ?v ''interactive''"
    "get_key ?v ''popups'' = String (popupPolicy s)" "has ?v ''popups''" "\<not> has ?v ''preview''"
    by (simp_all add: source_toJson_def json_set)
  define s1 where "s1 = default_source\<lparr>source_id := source_id s, url := url s, format := format s\<rparr>"
  have "format_parse (format_toString (format s)) = Some (format s)"
    using assms by (simp add: storable_def format_roundtrip)
  then have f: "read_format ?v (default_source\<lparr>source_id := source_id s, url := url s\<rparr>) = Inr s1"
    by (simp add: read_format_def keys as_simps s1_def)
  have g: "read_fields ?v s1\<lparr>outputs := os\<rparr> = s\<lparr>wantPreview := True, outputs := os\<rparr>" for os
  proof -
    have "read_fields ?v s1 = s1\<lparr>audioEnabled := audioEnabled s, matrix := matrix s,
        externalPacing := externalPacing s, interactiveByDefault := interactiveByDefault s, popupPolicy := popupPolicy s\<rparr>"
      by (simp add: read_fields_def Let_def keys as_simps matrix_text)
    then show ?thesis unfolding s1_def default_source_def by (cases s) simp
  qed
  have o': "read_outputs 0 (map output_toJson (outputs s)) = Inr (map output_as_read (outputs s))"
    using assms by (simp add: storable_def read_outputs_written)
  show ?thesis
    unfolding source_fromJson_def Let_def keys as_simps f outs sum.case json.case o'
    using obj outs g by simp
qed

lemma preview_choice_not_written:
  assumes "writable s"
  shows "source_fromJson (source_toJson s) = Inr (s\<lparr>wantPreview := True\<rparr>)"
proof -
  have "s\<lparr>wantPreview := True, outputs := outputs s\<rparr> = s\<lparr>wantPreview := True\<rparr>" by (cases s) simp
  with source_read_back [of s] writable_storable [OF assms] show ?thesis by simp
qed

text \<open>A source as a file gives it back: it wants a preview and has one, in front if there was none.\<close>

definition as_read :: "source_config \<Rightarrow> source_config" where
  "as_read s = ensurePreview (s\<lparr>wantPreview := True, outputs := map output_as_read (outputs s)\<rparr>)"

definition good_source :: "source_config \<Rightarrow> bool" where
  "good_source s \<longleftrightarrow> storable s \<and> validate s = None"

interpretation source_json: codec source_toJson "\<lambda>v. case source_fromJson v of Inr s \<Rightarrow> Some s | Inl _ \<Rightarrow> None"
    "\<lambda>s. writable s \<and> wantPreview s"
proof unfold_locales
  fix s :: source_config assume s: "writable s \<and> wantPreview s"
  then have "s\<lparr>wantPreview := True\<rparr> = s" by (cases s) simp
  with s preview_choice_not_written [of s]
  show "(case source_fromJson (source_toJson s) of Inr s \<Rightarrow> Some s | Inl _ \<Rightarrow> None) = Some s" by simp
qed

lemma check_names_read: "check_names sid seen (map output_as_read os) = check_names sid seen os"
  by (induction os arbitrary: seen) simp_all

lemma validate_read: "validate (s\<lparr>wantPreview := b, outputs := map output_as_read (outputs s)\<rparr>) = validate s"
  by (simp add: validate_def Let_def check_names_read)

lemma as_read_id [simp]: "source_id (as_read s) = source_id s"
  by (simp add: as_read_def ensurePreview_def)

lemma validate_id: "validate s = None \<Longrightarrow> source_id s \<noteq> []"
  by (auto simp: validate_def Let_def)

lemma read_sources_written:
  assumes "\<forall>s \<in> set ss. good_source s" "distinct (map source_id ss)" "ids \<inter> source_id ` set ss = {}"
  shows "read_sources i ids (map source_toJson ss) = Inr (map as_read ss)"
  using assms
proof (induction ss arbitrary: i ids)
  case Nil
  then show ?case by simp
next
  case (Cons s ss)
  have s: "good_source s" using Cons.prems by simp
  then have "validate s = None" "source_id s \<noteq> []" "storable s" by (simp_all add: good_source_def validate_id)
  moreover have "source_id s \<notin> ids" using Cons.prems(3) by auto
  moreover have "read_sources (i + 1) (insert (source_id s) ids) (map source_toJson ss) = Inr (map as_read ss)"
    using Cons.prems by (intro Cons.IH) auto
  ultimately show ?case by (simp add: source_read_back validate_read as_read_def)
qed

definition good_app :: "app_config \<Rightarrow> bool" where
  "good_app c \<longleftrightarrow> (\<forall>s \<in> set (sources c). good_source s) \<and> distinct (map source_id (sources c)) \<and>
     - (2 ^ 31) \<le> httpPort c \<and> httpPort c < 2 ^ 31 \<and> - (2 ^ 31) \<le> oscPort c \<and> oscPort c < 2 ^ 31"

definition app_as_read :: "app_config \<Rightarrow> app_config" where
  "app_as_read c = c\<lparr>sources := map as_read (sources c)\<rparr>"

lemma app_roundtrip:
  assumes "good_app c"
  shows "app_fromJson (app_toJson c) = Inr (app_as_read c)"
proof -
  let ?v = "app_toJson c" and ?ctl = "control_toJson c"
  have v: "isObject ?v" "has ?v ''control''" "get_key ?v ''control'' = ?ctl" "has ?v ''sources''"
    "get_key ?v ''sources'' = Array (map source_toJson (sources c))"
    by (simp_all add: app_toJson_def json_set foldl_push)
  have k: "get_key ?ctl ''http_bind'' = String (httpBind c)" "get_key ?ctl ''http_port'' = number_of_int (httpPort c)"
    "asString [] (get_key ?ctl ''http_token'') = httpToken c"
    "get_key ?ctl ''osc_enabled'' = Bool (oscEnabled c)" "has ?ctl ''osc_enabled''"
    "get_key ?ctl ''osc_bind'' = String (oscBind c)" "get_key ?ctl ''osc_port'' = number_of_int (oscPort c)"
    "get_key ?ctl ''mdns_enabled'' = Bool (mdnsEnabled c)" "has ?ctl ''mdns_enabled''"
    "asString [] (get_key ?ctl ''name'') = instanceName c"
    by (simp_all add: control_toJson_def json_set)
  have ports: "asInt d (number_of_int (httpPort c)) = httpPort c" "asInt d (number_of_int (oscPort c)) = oscPort c" for d
    using assms by (simp_all add: good_app_def asInt_number)
  have "read_control ?ctl default_app = c\<lparr>sources := []\<rparr>"
    by (cases c) (use k ports in \<open>simp add: read_control_def default_app_def as_simps\<close>)
  moreover have "read_sources 0 {} (map source_toJson (sources c)) = Inr (map as_read (sources c))"
    using assms by (intro read_sources_written) (simp_all add: good_app_def)
  ultimately show ?thesis using v by (simp add: app_fromJson_def app_as_read_def)
qed

interpretation app_json: codec app_toJson "\<lambda>v. case app_fromJson v of Inr c \<Rightarrow> Some c | Inl _ \<Rightarrow> None"
    "\<lambda>c. good_app c \<and> app_as_read c = c"
  by unfold_locales (simp add: app_roundtrip)

subsection \<open>The JSON written is within what the parser reads\<close>

lemma plain_set:
  assumes "plain v" "isObject v" "plain x"
  shows "plain (set_key k x v)"
proof -
  obtain ms where v: "v = Object ms" using assms(2) by (cases v) (simp_all add: isObject_def)
  have "list_all (\<lambda>(k, v). plain v) ms \<Longrightarrow> list_all (\<lambda>(k, v). plain v) (set_member k x ms)"
    using assms(3) by (induction k x ms rule: set_member.induct) auto
  moreover have "distinct (map fst ms) \<Longrightarrow> distinct (map fst (set_member k x ms))"
    by (auto simp: keys_set_member)
  ultimately show ?thesis using assms(1) by (simp add: v set_key_def)
qed

lemma plain_when: "plain v \<Longrightarrow> isObject v \<Longrightarrow> (c \<Longrightarrow> plain x) \<Longrightarrow> plain (set_when c k x v)"
  by (simp add: set_when_def plain_set)

lemma plain_number: "\<bar>i\<bar> \<le> 2 ^ 31 \<Longrightarrow> plain (number_of_int i)"
proof -
  assume a: "\<bar>i\<bar> \<le> 2 ^ 31"
  then have e: "of_i i = Fin (of_int i)" by (intro of_i_exact) simp
  have "(of_int \<bar>i\<bar> :: rat) \<le> of_int (2 ^ 31)" using a by (simp only: of_int_le_iff)
  then show "plain (number_of_int i)" by (simp add: number_of_int_def e)
qed

lemma levels_set:
  assumes "isObject v"
  shows "levels (set_key k x v) \<le> max (levels v) (Suc (levels x))"
proof -
  obtain ms where v: "v = Object ms" using assms by (cases v) (simp_all add: isObject_def)
  have "foldr max (map (\<lambda>(k, v). levels v) (set_member k x ms)) 0 \<le> max (foldr max (map (\<lambda>(k, v). levels v) ms) 0) (levels x)"
    by (induction k x ms rule: set_member.induct) auto
  then show ?thesis by (simp add: v set_key_def)
qed

lemma levels_set_le: "isObject v \<Longrightarrow> levels v \<le> n \<Longrightarrow> Suc (levels x) \<le> n \<Longrightarrow> levels (set_key k x v) \<le> n"
  using levels_set [of v k x] by linarith

lemma levels_when_le:
  "isObject v \<Longrightarrow> levels v \<le> n \<Longrightarrow> (c \<Longrightarrow> Suc (levels x) \<le> n) \<Longrightarrow> levels (set_when c k x v) \<le> n"
  by (simp add: set_when_def levels_set_le)

lemma foldr_max_le: "(\<And>x. x \<in> set xs \<Longrightarrow> x \<le> n) \<Longrightarrow> foldr max xs (0::nat) \<le> n"
  by (induction xs) auto

lemma levels_array_le: "(\<And>x. x \<in> set xs \<Longrightarrow> levels x \<le> n) \<Longrightarrow> levels (Array xs) \<le> Suc n"
  by (auto intro!: foldr_max_le)

text \<open>Options that survive the text form: written losslessly and nested at most 59 deep.\<close>

definition options_fit :: "app_config \<Rightarrow> bool" where
  "options_fit c \<longleftrightarrow> (\<forall>s \<in> set (sources c). \<forall>o' \<in> set (outputs s). plain (options o') \<and> levels (options o') \<le> 59)"

lemma output_fits:
  assumes "fit_output o'" "plain (options o')" "levels (options o') \<le> 59"
  shows "plain (output_toJson o') \<and> levels (output_toJson o') \<le> 60"
  unfolding output_toJson_def
  by (intro conjI plain_when plain_set plain_number levels_when_le levels_set_le json_set)
    (use assms in \<open>auto simp: number_of_int_def fit_output_def\<close>)

lemma source_fits:
  assumes "\<And>o'. o' \<in> set (outputs s) \<Longrightarrow> plain (output_toJson o') \<and> levels (output_toJson o') \<le> 60"
  shows "plain (source_toJson s) \<and> levels (source_toJson s) \<le> 62"
proof -
  have "levels (Array (map output_toJson (outputs s))) \<le> Suc 60" using assms by (intro levels_array_le) auto
  then have "Suc (levels (Array (map output_toJson (outputs s)))) \<le> 62" by simp
  moreover have "plain (Array (map output_toJson (outputs s)))" using assms by (simp add: list_all_iff)
  ultimately show ?thesis unfolding source_toJson_def foldl_push append_Nil
    by (intro conjI plain_set levels_set_le json_set) simp_all
qed

lemma app_fits:
  assumes "good_app c" "options_fit c"
  shows "plain (app_toJson c) \<and> levels (app_toJson c) \<le> kMaxDepth"
proof -
  have s: "plain (source_toJson s) \<and> levels (source_toJson s) \<le> 62" if "s \<in> set (sources c)" for s
    using assms that by (intro source_fits output_fits) (auto simp: good_app_def good_source_def storable_def options_fit_def)
  have "levels (Array (map source_toJson (sources c))) \<le> Suc 62" using s by (intro levels_array_le) auto
  then have l: "Suc (levels (Array (map source_toJson (sources c)))) \<le> 64" by simp
  have p: "plain (Array (map source_toJson (sources c)))" using s by (simp add: list_all_iff)
  have "plain (control_toJson c) \<and> levels (control_toJson c) \<le> 2" unfolding control_toJson_def
    by (intro conjI plain_when plain_set plain_number levels_when_le levels_set_le json_set)
      (use assms in \<open>auto simp: number_of_int_def good_app_def\<close>)
  with l p show ?thesis unfolding app_toJson_def foldl_push append_Nil kMaxDepth_def
    by (intro conjI plain_set levels_set_le json_set) simp_all
qed

section \<open>What parsing promises\<close>

lemma check_names_None:
  "check_names sid seen os = None \<longleftrightarrow>
     distinct (map out_name os) \<and> [] \<notin> out_name ` set os \<and> seen \<inter> out_name ` set os = {}"
  by (induction sid seen os rule: check_names.induct) auto

lemma validate_None:
  "validate s = None \<longleftrightarrow> source_id s \<noteq> [] \<and> list_all id_char (source_id s) \<and>
     0 < width (format s) \<and> 0 < height (format s) \<and> width (format s) mod 2 = 0 \<and>
     0 < numerator (rate (format s)) \<and> 0 < denominator (rate (format s)) \<and>
     (popupPolicy s = ''navigate'' \<or> popupPolicy s = ''block'') \<and>
     distinct (map out_name (outputs s)) \<and> [] \<notin> out_name ` set (outputs s)"
  by (auto simp: validate_def Let_def check_names_None smod_nonneg not_le)

lemma ensurePreview_id [simp]: "source_id (ensurePreview s) = source_id s"
  by (simp add: ensurePreview_def)

lemma read_sources_sound:
  "read_sources i ids vs = Inr ss \<Longrightarrow>
   distinct (map source_id ss) \<and> ids \<inter> source_id ` set ss = {} \<and>
   (\<forall>s \<in> set ss. \<exists>s0. validate s0 = None \<and> s = ensurePreview s0)"
proof (induction i ids vs arbitrary: ss rule: read_sources.induct)
  case (1 i ids)
  then show ?case by simp
next
  case (2 i ids v vs)
  obtain s0 where s0: "source_fromJson v = Inr s0" using "2.prems" by (auto split: sum.splits)
  define s where "s = (if source_id s0 = [] then s0\<lparr>source_id := ''source'' @ dec (i + 1)\<rparr> else s0)"
  from "2.prems" s0 obtain ts where ts: "validate s = None" "source_id s \<notin> ids"
    "read_sources (i + 1) (insert (source_id s) ids) vs = Inr ts" "ss = ensurePreview s # ts"
    by (auto simp: s_def [symmetric] Let_def split: option.splits if_splits sum.splits)
  have "distinct (map source_id ts) \<and> insert (source_id s) ids \<inter> source_id ` set ts = {} \<and>
      (\<forall>t \<in> set ts. \<exists>s0. validate s0 = None \<and> t = ensurePreview s0)"
    using "2.IH" [OF s0 s_def ts(1,2)] ts(3) by simp
  with ts show ?case by auto
qed

lemma ensured_preview:
  assumes "validate s0 = None"
  shows "wantPreview (ensurePreview s0) \<longrightarrow> list_ex (\<lambda>o'. out_kind o' = ''preview'') (outputs (ensurePreview s0))"
    and "validate (ensurePreview s0) = None \<or>
      (\<exists>os. outputs (ensurePreview s0) = preview_output # os \<and> validate ((ensurePreview s0)\<lparr>outputs := os\<rparr>) = None)"
  using assms by (auto simp: ensurePreview_def preview_output_def)

text \<open>
  C39: a configuration the code accepts has sources with distinct, URL-safe ids, a positive even
  raster, a positive rate and a known popup policy; each that wants a preview has one; and the output names of
  each are distinct and not empty, but for a preview output the reader itself put in front.
\<close>

theorem parsed_config_sound:
  assumes "app_parse text = Inr c"
  shows "distinct (map source_id (sources c)) \<and>
    (\<forall>s \<in> set (sources c).
      source_id s \<noteq> [] \<and> list_all id_char (source_id s) \<and>
      0 < width (format s) \<and> 0 < height (format s) \<and> width (format s) mod 2 = 0 \<and>
      0 < numerator (rate (format s)) \<and> 0 < denominator (rate (format s)) \<and> popupPolicy s \<in> {''navigate'', ''block''} \<and>
      (wantPreview s \<longrightarrow> list_ex (\<lambda>o'. out_kind o' = ''preview'') (outputs s)) \<and>
      (\<exists>os. (outputs s = os \<or> outputs s = preview_output # os) \<and>
        distinct (map out_name os) \<and> [] \<notin> out_name ` set os))"
proof -
  obtain vs where "read_sources 0 {} vs = Inr (sources c)"
    using assms by (auto simp: app_parse_def app_fromJson_def Let_def split: sum.splits if_splits json.splits)
  note r = read_sources_sound [OF this]
  have "\<exists>os. (outputs s = os \<or> outputs s = preview_output # os) \<and> validate (s\<lparr>outputs := os\<rparr>) = None \<and>
      (wantPreview s \<longrightarrow> list_ex (\<lambda>o'. out_kind o' = ''preview'') (outputs s))" if s: "s \<in> set (sources c)" for s
  proof -
    obtain s0 where s0: "validate s0 = None" "s = ensurePreview s0" using r s by blast
    have "s\<lparr>outputs := outputs s\<rparr> = s" by simp
    with ensured_preview [OF s0(1)] show ?thesis unfolding s0(2) [symmetric] by metis
  qed
  then show ?thesis using r by (fastforce simp: validate_None)
qed

text \<open>A source, one that no file has kept its preview for, and a configuration with both.\<close>

definition witness_source :: source_config where
  "witness_source = \<lparr>source_id = ''a'', url = ''about:blank'',
     format = \<lparr>width = 1920, height = 1080, rate = \<lparr>numerator = 50, denominator = 1\<rparr>, interlaced = False\<rparr>,
     outputs = [preview_output], audioEnabled = True, matrix = MatrixBt709, externalPacing = False,
     interactiveByDefault = False, popupPolicy = ''block'', wantPreview = True\<rparr>"

lemma witness_source_good: "good_source witness_source" "plain (options preview_output)" "levels (options preview_output) \<le> 59"
proof -
  show "plain (options preview_output)"
    by (simp add: preview_output_def plain_set plain_number isObject_def)
  show "levels (options preview_output) \<le> 59"
    by (simp add: preview_output_def set_key_def number_of_int_def)
  have "fit_output preview_output"
    by (simp add: fit_output_def preview_output_def isObject_set colour_ok_def default_background_def is_byte_def)
  moreover have "validate witness_source = None"
    by (simp add: validate_None witness_source_def id_char_def isalpha_def code_def preview_output_def)
  ultimately show "good_source witness_source"
    by (simp add: good_source_def storable_def witness_source_def good_format_def standard_rate_def preview_output_def)
qed

lemma witness_source_writable: "writable witness_source" "wantPreview witness_source"
  using witness_source_good(1)
  by (simp_all add: good_source_def storable_def writable_def good_output_def on_card_def witness_source_def preview_output_def)

definition bare_source :: source_config where
  "bare_source = witness_source\<lparr>source_id := ''b'', outputs := [], wantPreview := False\<rparr>"

definition witness_app :: app_config where
  "witness_app = default_app\<lparr>sources := [witness_source, bare_source], httpToken := ''secret''\<rparr>"

lemma witness_app_good: "good_app witness_app" "options_fit witness_app"
proof -
  have "good_source bare_source"
    by (simp add: good_source_def storable_def validate_None bare_source_def witness_source_def good_format_def standard_rate_def
        id_char_def isalpha_def code_def)
  then show "good_app witness_app" "options_fit witness_app"
    using witness_source_good
    by (simp_all add: good_app_def options_fit_def witness_app_def default_app_def bare_source_def witness_source_def)
qed

lemma witness_app_read: "app_as_read witness_app = witness_app\<lparr>sources := [witness_source, bare_source\<lparr>wantPreview := True, outputs := [preview_output]\<rparr>]\<rparr>"
  by (simp add: app_as_read_def as_read_def witness_app_def witness_source_def bare_source_def ensurePreview_def output_as_read_def
      preview_output_def on_card_def)

theorem parsed_config_sound_witness:
  "\<exists>c. app_parse (serialize True (app_toJson witness_app)) = Inr c \<and> map source_id (sources c) = [''a'', ''b''] \<and>
     distinct (map source_id (sources c)) \<and>
     list_all (\<lambda>s. 0 < width (format s) \<and> list_ex (\<lambda>o'. out_kind o' = ''preview'') (outputs s)) (sources c)"
proof -
  have p: "app_parse (serialize True (app_toJson witness_app)) = Inr (app_as_read witness_app)"
    using app_fits [OF witness_app_good] app_roundtrip [OF witness_app_good(1)] by (simp add: app_parse_def json_roundtrip)
  have read: "sources (app_as_read witness_app) = [witness_source, bare_source\<lparr>wantPreview := True, outputs := [preview_output]\<rparr>]"
    by (simp add: witness_app_read)
  note sound = parsed_config_sound [OF p]
  show ?thesis
  proof (intro exI conjI)
    show "app_parse (serialize True (app_toJson witness_app)) = Inr (app_as_read witness_app)" by (rule p)
    show "map source_id (sources (app_as_read witness_app)) = [''a'', ''b'']"
      by (simp add: read witness_source_def bare_source_def)
    show "distinct (map source_id (sources (app_as_read witness_app)))" using sound by (rule conjunct1)
    show "list_all (\<lambda>s. 0 < width (format s) \<and> list_ex (\<lambda>o'. out_kind o' = ''preview'') (outputs s)) (sources (app_as_read witness_app))"
      using sound by (simp add: list_all_iff read witness_source_def bare_source_def)
  qed
qed



text \<open>
  The preview rule can undo the validation that came before it: a valid source that has an output
  of another kind called \<open>preview\<close> is given a second output of that name, and is then not valid.
\<close>

theorem preview_name_clash:
  assumes "validate s = None" "wantPreview s" "\<not> list_ex (\<lambda>o'. out_kind o' = ''preview'') (outputs s)"
    and "''preview'' \<in> out_name ` set (outputs s)"
  shows "validate (ensurePreview s) \<noteq> None"
  using assms by (simp add: ensurePreview_def validate_None preview_output_def)

theorem preview_name_clash_witness:
  "validate (ensurePreview (witness_source\<lparr>outputs := [preview_output\<lparr>out_kind := ''ndi''\<rparr>]\<rparr>)) \<noteq> None"
  by (rule preview_name_clash)
    (simp_all add: validate_None witness_source_def id_char_def isalpha_def code_def preview_output_def)

end
