(* ===== verification/Show_File.thy ===== *)
theory Show_File
  imports Source_Config
begin

text \<open>
  \<open>core/show_file\<close>: the show document an operator saves and recalls, in its two halves, tabs and
  outputs. \<open>recall\<close> gives the configuration to be left running with the notes it collects, or
  the error.
\<close>

section \<open>Writing\<close>

definition kFormatVersion :: int where "kFormatVersion = 1"

record parts =
  tabs :: bool
  rig :: bool      \<comment> \<open>\<open>Parts::outputs\<close>\<close>

definition tabJson :: "source_config \<Rightarrow> json" where
  "tabJson s =
     set_key ''popups'' (String (popupPolicy s))
     (set_key ''interactive'' (Bool (interactiveByDefault s))
     (set_key ''url'' (String (url s))
     (set_key ''id'' (String (source_id s)) (Object []))))"

definition outputsJson :: "source_config \<Rightarrow> json" where
  "outputsJson s =
     set_key ''outputs'' (foldl (\<lambda>list o'. push (output_toJson o') list) (Array []) (outputs s))
     (set_key ''pacing'' (String (if externalPacing s then ''external'' else ''internal''))
     (set_key ''matrix'' (String (colourMatrixToString (matrix s)))
     (set_key ''format'' (String (format_toString (format s)))
     (set_key ''tab'' (String (source_id s)) (Object [])))))"

definition capture :: "app_config \<Rightarrow> parts \<Rightarrow> json" where
  "capture running p =
     set_when (rig p) ''outputs'' (foldl (\<lambda>list s. push (outputsJson s) list) (Array []) (sources running))
     (set_when (tabs p) ''tabs'' (foldl (\<lambda>list s. push (tabJson s) list) (Array []) (sources running))
     (set_key ''weblinked_show'' (number_of_int kFormatVersion) (Object [])))"

definition present :: "json \<Rightarrow> parts" where
  "present document =
     \<lparr>tabs = isArray (get_key document ''tabs''), rig = isArray (get_key document ''outputs'')\<rparr>"

section \<open>Reading\<close>

definition applyTab :: "json \<Rightarrow> source_config \<Rightarrow> source_config" where
  "applyTab entry s =
     (let s1 = (if has entry ''url''
                then (let u = asString [] (get_key entry ''url'') in s\<lparr>url := (if u = [] then ''about:blank'' else u)\<rparr>)
                else s);
          s2 = (if has entry ''interactive''
                then s1\<lparr>interactiveByDefault := asBool True (get_key entry ''interactive'')\<rparr> else s1)
      in if has entry ''popups'' then s2\<lparr>popupPolicy := asString ''navigate'' (get_key entry ''popups'')\<rparr> else s2)"

definition tab_named :: "string \<Rightarrow> string" where
  "tab_named sid = ''tab '' @ single_quoted sid"

fun read_rig :: "string \<Rightarrow> nat \<Rightarrow> json list \<Rightarrow> string + output_config list" where
  "read_rig sid i [] = Inr []"
| "read_rig sid i (v # vs) = (case output_fromJson v of
      Inl e \<Rightarrow> Inl (tab_named sid @ '' output '' @ dec (i + 1) @ '': '' @ e)
    | Inr o' \<Rightarrow> (case read_rig sid (i + 1) vs of Inl e \<Rightarrow> Inl e | Inr os \<Rightarrow> Inr (o' # os)))"

definition applyOutputs :: "json \<Rightarrow> source_config \<Rightarrow> string + source_config" where
  "applyOutputs entry s =
     (let parsed = (if has entry ''format''
            then (let text = asString [] (get_key entry ''format'')
                  in case format_parse text of
                       None \<Rightarrow> Inl (tab_named (source_id s) @ '': cannot parse format '' @ single_quoted text)
                     | Some f \<Rightarrow> Inr (s\<lparr>format := f\<rparr>))
            else Inr s)
      in case parsed of
           Inl e \<Rightarrow> Inl e
         | Inr s1 \<Rightarrow>
             let s2 = (if has entry ''matrix''
                       then s1\<lparr>matrix := colourMatrixFromString (asString [] (get_key entry ''matrix''))\<rparr> else s1);
                 s3 = (if has entry ''pacing''
                       then s2\<lparr>externalPacing := (asString ''external'' (get_key entry ''pacing'') \<noteq> ''internal'')\<rparr> else s2)
             in if has entry ''outputs''
                then (case get_key entry ''outputs'' of
                    Array vs \<Rightarrow> (case read_rig (source_id s) 0 vs of
                        Inl e \<Rightarrow> Inl e
                      | Inr os \<Rightarrow> Inr (s3\<lparr>outputs := os\<rparr>))
                  | _ \<Rightarrow> Inl (tab_named (source_id s) @ '': '' @ double_quoted ''outputs'' @ '' must be a list''))
                else Inr s3)"

definition elements_of :: "json \<Rightarrow> json list" where
  "elements_of v = (case v of Array vs \<Rightarrow> vs | _ \<Rightarrow> [])"

definition findOutputs :: "json \<Rightarrow> string \<Rightarrow> json option" where
  "findOutputs list sid =
     (if \<not> isArray list then None
      else find (\<lambda>entry. asString [] (get_key entry ''tab'') = sid) (elements_of list))"

definition findSource :: "app_config \<Rightarrow> string \<Rightarrow> source_config option" where
  "findSource c sid = find (\<lambda>s. source_id s = sid) (sources c)"

definition template :: "app_config \<Rightarrow> source_config" where
  "template running = (case sources running of
      [] \<Rightarrow> default_source
    | s # _ \<Rightarrow> default_source\<lparr>format := format s, matrix := matrix s, externalPacing := externalPacing s\<rparr>)"

text \<open>The loop over the file's tabs.\<close>

fun recall_tabs :: "app_config \<Rightarrow> nat \<Rightarrow> string set \<Rightarrow> json list \<Rightarrow> string + source_config list" where
  "recall_tabs running i seen [] = Inr []"
| "recall_tabs running i seen (entry # es) =
     (let sid = asString [] (get_key entry ''id'')
      in if sid = [] then Inl (''tab '' @ dec (i + 1) @ '' has no id'')
         else if sid \<in> seen then Inl (''two tabs share the id '' @ single_quoted sid)
         else let s = (case findSource running sid of
                         Some existing \<Rightarrow> existing
                       | None \<Rightarrow> (template running)\<lparr>source_id := sid, outputs := []\<rparr>)
              in (case recall_tabs running (i + 1) (insert sid seen) es of
                    Inl e \<Rightarrow> Inl e
                  | Inr ss \<Rightarrow> Inr (applyTab entry s # ss)))"

text \<open>The loop that applies the rig, with the ids it was applied to.\<close>

fun recall_rig :: "json \<Rightarrow> source_config list \<Rightarrow> string + source_config list \<times> string list" where
  "recall_rig list [] = Inr ([], [])"
| "recall_rig list (s # ss) =
     (case findOutputs list (source_id s) of
        None \<Rightarrow> (case recall_rig list ss of Inl e \<Rightarrow> Inl e | Inr (ts, ids) \<Rightarrow> Inr (s # ts, ids))
      | Some entry \<Rightarrow> (case applyOutputs entry s of
          Inl e \<Rightarrow> Inl e
        | Inr t \<Rightarrow> (case recall_rig list ss of
            Inl e \<Rightarrow> Inl e
          | Inr (ts, ids) \<Rightarrow> Inr (t # ts, source_id t # ids))))"

definition skipped_notes :: "json \<Rightarrow> string list \<Rightarrow> string list" where
  "skipped_notes list applied =
     map (\<lambda>sid. ''no tab '' @ single_quoted sid @ '' is open, so its outputs were skipped'')
       (filter (\<lambda>sid. sid \<notin> set applied) (map (\<lambda>entry. asString [] (get_key entry ''tab'')) (elements_of list)))"

text \<open>The last loop: every source gets its preview and is checked.\<close>

fun finish :: "source_config list \<Rightarrow> string + source_config list" where
  "finish [] = Inr []"
| "finish (s # ss) =
     (let t = ensurePreview (s\<lparr>wantPreview := True\<rparr>)
      in case validate t of
           Some e \<Rightarrow> Inl e
         | None \<Rightarrow> (case finish ss of Inl e \<Rightarrow> Inl e | Inr ts \<Rightarrow> Inr (t # ts)))"

definition wanted_tabs :: "app_config \<Rightarrow> json \<Rightarrow> parts \<Rightarrow> string + source_config list" where
  "wanted_tabs running document p =
     (if tabs p
      then if size_of (get_key document ''tabs'') = 0 then Inl ''this show has no tabs in it''
           else recall_tabs running 0 {} (elements_of (get_key document ''tabs''))
      else Inr (sources running))"

definition recall :: "app_config \<Rightarrow> json \<Rightarrow> parts \<Rightarrow> string + app_config \<times> string list" where
  "recall running document p =
     (if \<not> isObject document \<or> \<not> has document ''weblinked_show'' then Inl ''not a WebLinked show file''
      else if kFormatVersion < asInt 0 (get_key document ''weblinked_show'')
      then Inl ''this show was saved by a newer WebLinked''
      else if \<not> tabs p \<and> \<not> rig p then Inl ''choose tabs, outputs or both''
      else if tabs p \<and> \<not> tabs (present document) then Inl ''this show has no tabs in it''
      else if rig p \<and> \<not> rig (present document) then Inl ''this show has no outputs in it''
      else case wanted_tabs running document p of
        Inl e \<Rightarrow> Inl e
      | Inr ss \<Rightarrow>
          (case (if rig p then recall_rig (get_key document ''outputs'') ss else Inr (ss, [])) of
             Inl e \<Rightarrow> Inl e
           | Inr (ts, applied) \<Rightarrow>
               (case finish ts of
                  Inl e \<Rightarrow> Inl e
                | Inr us \<Rightarrow> Inr (running\<lparr>sources := us\<rparr>,
                    if rig p then skipped_notes (get_key document ''outputs'') applied else []))))"

section \<open>Entries read back\<close>

lemma tab_entry:
  "get_key (tabJson s) ''id'' = String (source_id s)" "get_key (tabJson s) ''url'' = String (url s)"
  "get_key (tabJson s) ''interactive'' = Bool (interactiveByDefault s)" "get_key (tabJson s) ''popups'' = String (popupPolicy s)"
  "has (tabJson s) ''url''" "has (tabJson s) ''interactive''" "has (tabJson s) ''popups''"
  by (simp_all add: tabJson_def json_set)

lemma rig_entry:
  "get_key (outputsJson s) ''tab'' = String (source_id s)"
  "get_key (outputsJson s) ''format'' = String (format_toString (format s))" "has (outputsJson s) ''format''"
  "get_key (outputsJson s) ''matrix'' = String (colourMatrixToString (matrix s))" "has (outputsJson s) ''matrix''"
  "get_key (outputsJson s) ''pacing'' = String (if externalPacing s then ''external'' else ''internal'')" "has (outputsJson s) ''pacing''"
  "get_key (outputsJson s) ''outputs'' = Array (map output_toJson (outputs s))" "has (outputsJson s) ''outputs''"
  by (simp_all add: outputsJson_def json_set foldl_push)

text \<open>A tab's half and its rig, laid over another source: a tab without a page gets the blank one.\<close>

definition page_of :: "source_config \<Rightarrow> string" where
  "page_of s = (if url s = [] then ''about:blank'' else url s)"

definition with_tab :: "source_config \<Rightarrow> source_config \<Rightarrow> source_config" where
  "with_tab t s = s\<lparr>url := page_of t, interactiveByDefault := interactiveByDefault t, popupPolicy := popupPolicy t\<rparr>"

definition with_rig :: "source_config \<Rightarrow> source_config \<Rightarrow> source_config" where
  "with_rig t s = s\<lparr>format := format t, matrix := matrix t, externalPacing := externalPacing t,
     outputs := map output_as_read (outputs t)\<rparr>"

lemma applyTab_written: "applyTab (tabJson t) s = with_tab t s"
  by (simp add: applyTab_def tab_entry as_simps Let_def with_tab_def page_of_def)

lemma read_rig_written:
  "\<forall>o' \<in> set os. fit_output o' \<Longrightarrow> read_rig sid i (map output_toJson os) = Inr (map output_as_read os)"
  by (induction os arbitrary: i) (simp_all add: output_read_back)

lemma applyOutputs_written:
  assumes "storable t"
  shows "applyOutputs (outputsJson t) s = Inr (with_rig t s)"
  using assms by (simp add: applyOutputs_def rig_entry as_simps Let_def storable_def format_roundtrip read_rig_written
      matrix_text with_rig_def)

section \<open>The loops\<close>

definition base_of :: "app_config \<Rightarrow> string \<Rightarrow> source_config" where
  "base_of running sid = (case findSource running sid of
      Some existing \<Rightarrow> existing | None \<Rightarrow> (template running)\<lparr>source_id := sid, outputs := []\<rparr>)"

lemma base_id [simp]: "source_id (base_of running sid) = sid"
  by (auto simp: base_of_def findSource_def find_Some_iff split: option.splits)

lemma applyTab_keeps [simp]:
  "source_id (applyTab e s) = source_id s" "outputs (applyTab e s) = outputs s" "format (applyTab e s) = format s"
  "matrix (applyTab e s) = matrix s" "externalPacing (applyTab e s) = externalPacing s"
  "audioEnabled (applyTab e s) = audioEnabled s"
  by (simp_all add: applyTab_def Let_def)

definition entry_id :: "json \<Rightarrow> string" where
  "entry_id e = asString [] (get_key e ''id'')"

lemma recall_tabs_sound:
  "recall_tabs running i seen es = Inr ss \<Longrightarrow>
   ss = map (\<lambda>e. applyTab e (base_of running (entry_id e))) es \<and>
   distinct (map entry_id es) \<and> seen \<inter> entry_id ` set es = {}"
proof (induction running i seen es arbitrary: ss rule: recall_tabs.induct)
  case (1 running i seen)
  then show ?case by simp
next
  case (2 running i seen entry es)
  from "2.prems" obtain ts where ts: "entry_id entry \<noteq> []" "entry_id entry \<notin> seen"
    "recall_tabs running (i + 1) (insert (entry_id entry) seen) es = Inr ts"
    "ss = applyTab entry (base_of running (entry_id entry)) # ts"
    by (auto simp: Let_def entry_id_def base_of_def split: if_splits sum.splits)
  from "2.IH" [OF refl, folded entry_id_def, OF ts(1,2) refl ts(3)] ts show ?case by auto
qed

lemma recall_tabs_complete:
  "distinct (map entry_id es) \<Longrightarrow> seen \<inter> entry_id ` set es = {} \<Longrightarrow> [] \<notin> entry_id ` set es \<Longrightarrow>
   recall_tabs running i seen es = Inr (map (\<lambda>e. applyTab e (base_of running (entry_id e))) es)"
proof (induction es arbitrary: i seen)
  case Nil
  then show ?case by simp
next
  case (Cons e es)
  have "recall_tabs running (i + 1) (insert (entry_id e) seen) es =
      Inr (map (\<lambda>e. applyTab e (base_of running (entry_id e))) es)"
    using Cons.prems by (intro Cons.IH) auto
  moreover have "asString [] (get_key e ''id'') = entry_id e" "entry_id e \<noteq> []" "entry_id e \<notin> seen"
    using Cons.prems by (auto simp: entry_id_def)
  ultimately show ?case by (simp add: Let_def base_of_def)
qed

lemma finish_sound:
  "finish ss = Inr ts \<Longrightarrow> ts = map (\<lambda>s. ensurePreview (s\<lparr>wantPreview := True\<rparr>)) ss \<and> (\<forall>t \<in> set ts. validate t = None)"
  by (induction ss arbitrary: ts) (auto simp: Let_def split: option.splits sum.splits)

lemma finish_complete:
  "\<forall>s \<in> set ss. validate (ensurePreview (s\<lparr>wantPreview := True\<rparr>)) = None \<Longrightarrow>
   finish ss = Inr (map (\<lambda>s. ensurePreview (s\<lparr>wantPreview := True\<rparr>)) ss)"
  by (induction ss) simp_all

lemma find_of_map: "find P (map f xs) = map_option f (find (\<lambda>x. P (f x)) xs)"
  by (induction xs) simp_all

lemma find_distinct: "distinct (map f xs) \<Longrightarrow> x \<in> set xs \<Longrightarrow> find (\<lambda>y. f y = f x) xs = Some x"
  by (induction xs) (auto simp: image_iff)

lemma findOutputs_written:
  assumes "distinct (map source_id ss)" "s \<in> set ss"
  shows "findOutputs (Array (map outputsJson ss)) (source_id s) = Some (outputsJson s)"
  using find_distinct [OF assms]
  by (simp add: findOutputs_def isArray_def elements_of_def find_of_map rig_entry as_simps)

lemma recall_rig_written:
  assumes "distinct (map source_id ss)" "\<forall>s \<in> set ss. storable s" "set us \<subseteq> set ss"
    and "\<And>s. source_id (f s) = source_id s"
  shows "recall_rig (Array (map outputsJson ss)) (map f us) =
    Inr (map (\<lambda>s. with_rig s (f s)) us, map source_id us)"
  using assms(3)
proof (induction us)
  case Nil
  then show ?case by simp
next
  case (Cons u us)
  then have u: "u \<in> set ss" by simp
  have "source_id (with_rig u (f u)) = source_id u" by (simp add: with_rig_def assms(4))
  moreover have "applyOutputs (outputsJson u) (f u) = Inr (with_rig u (f u))"
    using assms(2) u by (intro applyOutputs_written) simp
  ultimately show ?case
    using Cons findOutputs_written [OF assms(1) u] by (simp add: assms(4))
qed

section \<open>Properties\<close>

text \<open>
  A tab as a recall leaves it: the saved page (the blank one for none), the running tab's audio switch, the saved
  rest, and a preview, put in front where the tab had none.
\<close>

definition recalled :: "app_config \<Rightarrow> source_config \<Rightarrow> source_config" where
  "recalled running s = ensurePreview (s\<lparr>url := page_of s, wantPreview := True,
     audioEnabled := (case findSource running (source_id s) of Some r \<Rightarrow> audioEnabled r | None \<Rightarrow> True),
     outputs := map output_as_read (outputs s)\<rparr>)"

lemma template_audio: "audioEnabled (template running) = True"
  by (simp add: template_def default_source_def split: list.splits)

lemma restored: "ensurePreview ((with_rig s (with_tab s (base_of running (source_id s))))\<lparr>wantPreview := True\<rparr>) = recalled running s"
proof -
  define b where "b = base_of running (source_id s)"
  have "audioEnabled b = (case findSource running (source_id s) of Some r \<Rightarrow> audioEnabled r | None \<Rightarrow> True)"
    by (simp add: b_def base_of_def template_audio split: option.splits)
  moreover have "source_id b = source_id s" by (simp add: b_def)
  ultimately show ?thesis
    unfolding b_def [symmetric] by (cases s; cases b) (simp add: with_rig_def with_tab_def recalled_def page_of_def)
qed

lemma recall_captured:
  assumes ids: "distinct (map source_id (sources saved))" "\<forall>s \<in> set (sources saved). source_id s \<noteq> []"
    and fit: "sources saved \<noteq> []" "\<forall>s \<in> set (sources saved). storable s \<and> validate (recalled running s) = None"
  shows "recall running (capture saved \<lparr>tabs = True, rig = True\<rparr>) \<lparr>tabs = True, rig = True\<rparr> =
    Inr (running\<lparr>sources := map (recalled running) (sources saved)\<rparr>, [])"
proof -
  let ?ss = "sources saved" and ?d = "capture saved \<lparr>tabs = True, rig = True\<rparr>"
  let ?f = "\<lambda>s. with_tab s (base_of running (source_id s))"
  have d: "isObject ?d" "has ?d ''weblinked_show''" "asInt 0 (get_key ?d ''weblinked_show'') = 1"
    "get_key ?d ''tabs'' = Array (map tabJson ?ss)" "get_key ?d ''outputs'' = Array (map outputsJson ?ss)"
    by (simp_all add: capture_def json_set foldl_push kFormatVersion_def)
  have e: "entry_id (tabJson s) = source_id s" for s by (simp add: entry_id_def tab_entry as_simps)
  have "[] \<notin> source_id ` set ?ss" using ids(2) by (metis imageE)
  then have "recall_tabs running 0 {} (map tabJson ?ss) =
      Inr (map (\<lambda>e. applyTab e (base_of running (entry_id e))) (map tabJson ?ss))"
    using ids(1) by (intro recall_tabs_complete) (simp_all add: e comp_def image_image)
  then have t: "recall_tabs running 0 {} (map tabJson ?ss) = Inr (map ?f ?ss)" by (simp add: e applyTab_written)
  have r: "recall_rig (Array (map outputsJson ?ss)) (map ?f ?ss) =
      Inr (map (\<lambda>s. with_rig s (?f s)) ?ss, map source_id ?ss)"
    using fit by (intro recall_rig_written ids) (simp_all add: with_tab_def)
  have f: "finish (map (\<lambda>s. with_rig s (?f s)) ?ss) = Inr (map (recalled running) ?ss)"
    using fit(2) by (subst finish_complete) (simp_all add: restored)
  have "skipped_notes (Array (map outputsJson ?ss)) (map source_id ?ss) = []"
    by (simp add: skipped_notes_def elements_of_def rig_entry as_simps comp_def filter_empty_conv)
  with t r f d fit(1) show ?thesis
    by (simp add: recall_def wanted_tabs_def present_def isArray_def elements_of_def size_of_def kFormatVersion_def)
qed

subsection \<open>The file's text\<close>

lemma tab_fits: "plain (tabJson s) \<and> levels (tabJson s) \<le> 62"
  unfolding tabJson_def by (intro conjI plain_set levels_set_le json_set) simp_all

lemma rig_fits:
  assumes "\<And>o'. o' \<in> set (outputs s) \<Longrightarrow> plain (output_toJson o') \<and> levels (output_toJson o') \<le> 60"
  shows "plain (outputsJson s) \<and> levels (outputsJson s) \<le> 62"
proof -
  have "levels (Array (map output_toJson (outputs s))) \<le> Suc 60" using assms by (intro levels_array_le) auto
  then have "Suc (levels (Array (map output_toJson (outputs s)))) \<le> 62" by simp
  moreover have "plain (Array (map output_toJson (outputs s)))" using assms by (simp add: list_all_iff)
  ultimately show ?thesis unfolding outputsJson_def foldl_push append_Nil
    by (intro conjI plain_set levels_set_le json_set) simp_all
qed

lemma capture_fits:
  assumes "\<forall>s \<in> set (sources c). storable s" "options_fit c"
  shows "plain (capture c p) \<and> levels (capture c p) \<le> kMaxDepth"
proof -
  have o': "plain (outputsJson s) \<and> levels (outputsJson s) \<le> 62" if "s \<in> set (sources c)" for s
    using assms that by (intro rig_fits output_fits) (auto simp: storable_def options_fit_def)
  have "levels (Array (map outputsJson (sources c))) \<le> Suc 62" "levels (Array (map tabJson (sources c))) \<le> Suc 62"
    using o' tab_fits by (intro levels_array_le; auto)+
  then have l: "Suc (levels (Array (map outputsJson (sources c)))) \<le> 64" "Suc (levels (Array (map tabJson (sources c)))) \<le> 64"
    by simp_all
  have pl: "plain (Array (map outputsJson (sources c)))" "plain (Array (map tabJson (sources c)))" "plain (number_of_int 1)"
    using o' tab_fits plain_number [of 1] by (simp_all add: list_all_iff)
  then show ?thesis using l unfolding capture_def foldl_push append_Nil kMaxDepth_def kFormatVersion_def
    by (intro conjI plain_when plain_set levels_when_le levels_set_le json_set) (simp_all add: number_of_int_def)
qed


lemma witness_app_recalled: "map (recalled default_app) (sources witness_app) =
  [witness_source, bare_source\<lparr>wantPreview := True, outputs := [preview_output]\<rparr>]"
  by (simp add: recalled_def page_of_def witness_app_def witness_source_def bare_source_def ensurePreview_def output_as_read_def
      preview_output_def on_card_def findSource_def default_app_def)


text \<open>
  Recalling only tabs cannot disturb the rig: whatever document succeeds, the tabs are those
  of the file, in its order and distinct, all valid; one already open keeps its format, matrix,
  pacing, audio and outputs (given a preview if it had none), and a new one has a preview and no other
  output; nothing else of the configuration changes.
\<close>

theorem tabs_recall_keeps_rig:
  assumes "recall running document \<lparr>tabs = True, rig = False\<rparr> = Inr (c, notes)"
  shows "notes = [] \<and> c = running\<lparr>sources := sources c\<rparr> \<and>
    map source_id (sources c) = map (\<lambda>e. asString [] (get_key e ''id'')) (elements_of (get_key document ''tabs'')) \<and>
    distinct (map source_id (sources c)) \<and>
    (\<forall>s \<in> set (sources c). validate s = None \<and>
      (case findSource running (source_id s) of
         Some r \<Rightarrow> format s = format r \<and> matrix s = matrix r \<and> externalPacing s = externalPacing r \<and>
           audioEnabled s = audioEnabled r \<and> outputs s = outputs (ensurePreview (r\<lparr>wantPreview := True\<rparr>))
       | None \<Rightarrow> outputs s = [preview_output]))"
proof -
  let ?es = "elements_of (get_key document ''tabs'')"
  let ?f = "\<lambda>e. applyTab e (base_of running (entry_id e))"
  let ?g = "\<lambda>s. ensurePreview (s\<lparr>wantPreview := True\<rparr>)"
  obtain ss where r: "recall_tabs running 0 {} ?es = Inr ss" and f: "finish ss = Inr (sources c)"
    and c: "notes = []" "c = running\<lparr>sources := sources c\<rparr>"
    using assms by (auto simp: recall_def wanted_tabs_def split: if_splits sum.splits)
  note s = recall_tabs_sound [OF r] finish_sound [OF f]
  have src: "sources c = map (\<lambda>e. ?g (?f e)) ?es" using s by simp
  have ids: "map source_id (sources c) = map entry_id ?es" unfolding src by simp
  have "case findSource running (source_id s) of
         Some r \<Rightarrow> format s = format r \<and> matrix s = matrix r \<and> externalPacing s = externalPacing r \<and>
           audioEnabled s = audioEnabled r \<and> outputs s = outputs (ensurePreview (r\<lparr>wantPreview := True\<rparr>))
       | None \<Rightarrow> outputs s = [preview_output]" if "s \<in> set (sources c)" for s
  proof -
    from that obtain e where e: "s = ?g (?f e)" unfolding src by auto
    then have "source_id s = entry_id e" by simp
    then show ?thesis
      unfolding e by (cases "findSource running (entry_id e)") (simp_all add: base_of_def ensurePreview_def)
  qed
  moreover have "distinct (map source_id (sources c))" unfolding ids using s(1) by blast
  moreover have "map source_id (sources c) = map (\<lambda>e. asString [] (get_key e ''id'')) ?es"
    unfolding ids by (simp add: entry_id_def)
  ultimately show ?thesis using s(2) c by blast
qed

text \<open>A document with one tab, recalled where that tab is open.\<close>

definition one_tab :: json where
  "one_tab = Object [(''weblinked_show'', number_of_int 1), (''tabs'', Array [Object [(''id'', String ''a'')]])]"

definition one_open :: app_config where
  "one_open = default_app\<lparr>sources := [witness_source]\<rparr>"

theorem tabs_recall_keeps_rig_witness:
  "\<exists>c skipped. recall one_open one_tab \<lparr>tabs = True, rig = False\<rparr> = Inr (c, skipped) \<and> skipped = [] \<and>
     map source_id (sources c) = [''a'']"
proof -
  have "applyTab (Object [(''id'', String ''a'')]) witness_source = witness_source"
    by (simp add: applyTab_def get_key_def has_def as_simps Let_def witness_source_def)
  then have "wanted_tabs one_open one_tab \<lparr>tabs = True, rig = False\<rparr> = Inr [witness_source]"
    by (simp add: wanted_tabs_def one_tab_def one_open_def findSource_def size_of_def get_key_def elements_of_def as_simps
        Let_def) (simp add: witness_source_def)
  moreover have "ensurePreview (witness_source\<lparr>wantPreview := True\<rparr>) = witness_source"
    by (simp add: witness_source_def preview_output_def ensurePreview_def)
  then have "finish [witness_source] = Inr [witness_source]"
    using witness_source_good(1) by (simp add: Let_def good_source_def)
  moreover have "tabs (present one_tab)" "isObject one_tab" "has one_tab ''weblinked_show''"
    "asInt 0 (get_key one_tab ''weblinked_show'') = 1"
    by (simp_all add: present_def one_tab_def isObject_def isArray_def has_def get_key_def size_of_def asInt_number)
  ultimately obtain c skipped where "recall one_open one_tab \<lparr>tabs = True, rig = False\<rparr> = Inr (c, skipped)"
    by (simp add: recall_def kFormatVersion_def)
  with tabs_recall_keeps_rig [OF this] show ?thesis
    by (auto simp: one_tab_def get_key_def elements_of_def as_simps)
qed

end
