(* ===== verification/Osc.thy ===== *)
theory Osc
  imports Prelude
begin

text \<open>
  \<open>control/osc_server\<close>: decoding a UDP packet into the messages it dispatches. A packet is a list
  of bytes; reading an argument gives the value and the rest of the packet. A \<open>float\<close> argument is
  its 32 bits, which is how the code moves it. The sockets and the receive thread are not modelled.
\<close>

section \<open>Reading arguments\<close>

abbreviation nul :: char where "nul \<equiv> CHR 0x00"

text \<open>\<open>padded\<close>: the text, its terminator, up to a multiple of four (the mask clears two bits).\<close>

definition padded :: "nat \<Rightarrow> nat" where
  "padded textLength = (textLength + 4) - (textLength + 4) mod 4"

definition readString :: "string \<Rightarrow> (string \<times> string) option" where
  "readString data =
     (if data = [] then None
      else let value = takeWhile (\<lambda>c. c \<noteq> nul) data
           in if length value = length data then None
              else if padded (length value) \<le> length data then Some (value, drop (padded (length value)) data)
              else None)"

definition readInt32 :: "string \<Rightarrow> (int \<times> string) option" where
  "readInt32 data =
     (if length data < 4 then None
      else Some (i32 (int (code (data ! 0) * 16777216 + code (data ! 1) * 65536 + code (data ! 2) * 256 + code (data ! 3))),
                 drop 4 data))"

definition readFloat32 :: "string \<Rightarrow> (int \<times> string) option" where
  "readFloat32 = readInt32"

section \<open>Messages\<close>

record message =
  address :: string
  stringArgs :: "string list"
  intArgs :: "int list"
  floatArgs :: "int list"

definition firstString :: "message \<Rightarrow> string" where
  "firstString m = (case stringArgs m of [] \<Rightarrow> [] | s # _ \<Rightarrow> s)"

text \<open>A float is zero when its bits but the sign are.\<close>

definition firstBool :: "bool \<Rightarrow> message \<Rightarrow> bool" where
  "firstBool fallback m = (case intArgs m of
      i # _ \<Rightarrow> i \<noteq> 0
    | [] \<Rightarrow> (case floatArgs m of f # _ \<Rightarrow> f mod 2147483648 \<noteq> 0 | [] \<Rightarrow> fallback))"

text \<open>The loop over the type tags after the comma; \<open>None\<close> drops the message.\<close>

primrec read_args :: "string \<Rightarrow> string \<Rightarrow> message \<Rightarrow> message option" where
  "read_args [] data m = Some m"
| "read_args (t # ts) data m =
     (if t = CHR ''i'' then
        (case readInt32 data of None \<Rightarrow> None
         | Some (v, rest) \<Rightarrow> read_args ts rest (m\<lparr>intArgs := intArgs m @ [v]\<rparr>))
      else if t = CHR ''f'' then
        (case readFloat32 data of None \<Rightarrow> None
         | Some (v, rest) \<Rightarrow> read_args ts rest (m\<lparr>floatArgs := floatArgs m @ [v]\<rparr>))
      else if t = CHR ''s'' \<or> t = CHR ''S'' then
        (case readString data of None \<Rightarrow> None
         | Some (v, rest) \<Rightarrow> read_args ts rest (m\<lparr>stringArgs := stringArgs m @ [v]\<rparr>))
      else if t = CHR ''T'' then read_args ts data (m\<lparr>intArgs := intArgs m @ [1]\<rparr>)
      else if t = CHR ''F'' then read_args ts data (m\<lparr>intArgs := intArgs m @ [0]\<rparr>)
      else if t = CHR ''N'' \<or> t = CHR ''I'' then read_args ts data m
      else if t = CHR ''b'' then
        (case readInt32 data of None \<Rightarrow> None
         | Some (n, rest) \<Rightarrow>
             if n < 0 \<or> length rest < padded (nat n) then None
             else read_args ts (drop (padded (nat n)) rest) m)
      else if t = CHR ''d'' \<or> t = CHR ''h'' \<or> t = CHR ''t'' then
        (if length data < 8 then None else read_args ts (drop 8 data) m)
      else None)"

definition decode_message :: "string \<Rightarrow> message option" where
  "decode_message data = (case readString data of
      None \<Rightarrow> None
    | Some (addr, rest) \<Rightarrow>
        if addr = [] \<or> hd addr \<noteq> CHR ''/'' then None
        else let m = \<lparr>address = addr, stringArgs = [], intArgs = [], floatArgs = []\<rparr>
             in if rest \<noteq> [] \<and> hd rest = CHR '',''
                then (case readString rest of
                    None \<Rightarrow> None
                  | Some (tags, args) \<Rightarrow> read_args (tl tags) args m)
                else Some m)"

definition is_bundle :: "string \<Rightarrow> bool" where
  "is_bundle data \<longleftrightarrow> 8 \<le> length data \<and> take 7 data = ''#bundle''"

lemma readInt32_length: "readInt32 data = Some (v, rest) \<Longrightarrow> length data = length rest + 4"
  by (auto simp: readInt32_def split: if_splits)

text \<open>
  \<open>decodePacket\<close> and the loop over the elements of a bundle: the messages given to the handler, in
  order. Both shorten what they read, which is why a nested bundle ends.
\<close>

function decodePacket :: "string \<Rightarrow> message list" and decodeBundle :: "string \<Rightarrow> message list" where
  "decodePacket data =
     (if length data < 4 then []
      else if is_bundle data then decodeBundle (drop 16 data)
      else case decode_message data of None \<Rightarrow> [] | Some m \<Rightarrow> [m])"
| "decodeBundle data = (case readInt32 data of
      None \<Rightarrow> []
    | Some (n, rest) \<Rightarrow>
        if n \<le> 0 \<or> length rest < nat n then []
        else decodePacket (take (nat n) rest) @ decodeBundle (drop (nat n) rest))"
  by pat_completeness auto

termination
proof (relation "measure (\<lambda>x. case x of Inl d \<Rightarrow> 2 * length d + 1 | Inr d \<Rightarrow> 2 * length d)", goal_cases)
  case (2 data)
  then show ?case by (simp add: is_bundle_def)
next
  case (3 data p n rest)
  then show ?case using readInt32_length [of data n rest] by (simp add: min_def)
next
  case (4 data p n rest)
  then show ?case using readInt32_length [of data n rest] by simp
qed simp

declare decodePacket.simps [simp del] decodeBundle.simps [simp del]

section \<open>The encoding of OSC 1.0\<close>

datatype arg = AInt int | AFloat int | AString string | ATrue | AFalse | ANull | ABlob string | ALong string

definition be32 :: "int \<Rightarrow> string" where
  "be32 i = (let n = nat (i mod 4294967296)
     in [char_of (n div 16777216), char_of (n div 65536 mod 256), char_of (n div 256 mod 256), char_of (n mod 256)])"

definition osc_string :: "string \<Rightarrow> string" where
  "osc_string s = s @ replicate (padded (length s) - length s) nul"

fun tag_of :: "arg \<Rightarrow> char" where
  "tag_of (AInt _) = CHR ''i''" | "tag_of (AFloat _) = CHR ''f''" | "tag_of (AString _) = CHR ''s''"
| "tag_of ATrue = CHR ''T''" | "tag_of AFalse = CHR ''F''" | "tag_of ANull = CHR ''N''"
| "tag_of (ABlob _) = CHR ''b''" | "tag_of (ALong _) = CHR ''h''"

text \<open>A blob is padded to a multiple of four, without a terminator.\<close>

fun payload :: "arg \<Rightarrow> string" where
  "payload (AInt i) = be32 i" | "payload (AFloat f) = be32 f" | "payload (AString s) = osc_string s"
| "payload (ABlob b) = be32 (int (length b)) @ b @ replicate ((4 - length b mod 4) mod 4) nul"
| "payload (ALong w) = w"
| "payload _ = []"

definition osc_message :: "string \<Rightarrow> arg list \<Rightarrow> string" where
  "osc_message addr args =
     osc_string addr @ osc_string (CHR '','' # map tag_of args) @ concat (map payload args)"

definition osc_bundle :: "string \<Rightarrow> string list \<Rightarrow> string" where
  "osc_bundle timetag elems =
     ''#bundle'' @ [nul] @ timetag @ concat (map (\<lambda>e. be32 (int (length e)) @ e) elems)"

text \<open>
  Arguments the decoder's types can hold; of blobs, those whose length is not a multiple of four.
\<close>

fun good_arg :: "arg \<Rightarrow> bool" where
  "good_arg (AInt i) = (- (2 ^ 31) \<le> i \<and> i < 2 ^ 31)"
| "good_arg (AFloat f) = (- (2 ^ 31) \<le> f \<and> f < 2 ^ 31)"
| "good_arg (AString s) = (nul \<notin> set s)"
| "good_arg (ALong w) = (length w = 8)"
| "good_arg (ABlob b) = (length b mod 4 \<noteq> 0 \<and> length b < 2 ^ 31)"
| "good_arg _ = True"

fun add_arg :: "arg \<Rightarrow> message \<Rightarrow> message" where
  "add_arg (AInt i) m = m\<lparr>intArgs := intArgs m @ [i]\<rparr>"
| "add_arg (AFloat f) m = m\<lparr>floatArgs := floatArgs m @ [f]\<rparr>"
| "add_arg (AString s) m = m\<lparr>stringArgs := stringArgs m @ [s]\<rparr>"
| "add_arg ATrue m = m\<lparr>intArgs := intArgs m @ [1]\<rparr>"
| "add_arg AFalse m = m\<lparr>intArgs := intArgs m @ [0]\<rparr>"
| "add_arg _ m = m"

section \<open>Reading what was encoded\<close>

lemma padded_bounds: "n < padded n" "padded n \<le> n + 4" "padded n mod 4 = 0"
proof -
  have "(n + 4) mod 4 < 4" by simp
  then show "n < padded n" unfolding padded_def by linarith
  show "padded n \<le> n + 4" unfolding padded_def by simp
  show "padded n mod 4 = 0" unfolding padded_def by (metis minus_mod_eq_mult_div mod_mult_self1_is_0)
qed

lemma readString_osc: "nul \<notin> set s \<Longrightarrow> readString (osc_string s @ rest) = Some (s, rest)"
proof -
  assume s: "nul \<notin> set s"
  let ?n = "padded (length s) - length s"
  obtain k where k: "?n = Suc k" using padded_bounds(1) [of "length s"] by (cases ?n) simp_all
  have "takeWhile (\<lambda>c. c \<noteq> nul) (s @ nul # replicate k nul @ rest) = s"
    using s by (subst takeWhile_append2) auto
  then have t: "takeWhile (\<lambda>c. c \<noteq> nul) (osc_string s @ rest) = s" by (simp add: osc_string_def k)
  have "length (osc_string s) = padded (length s)" using padded_bounds(1) [of "length s"] by (simp add: osc_string_def)
  moreover from this have "drop (padded (length s)) (osc_string s @ rest) = rest" by simp
  moreover have "osc_string s @ rest \<noteq> []" "length s \<noteq> length (osc_string s @ rest)"
    using padded_bounds(1) [of "length s"] by (simp_all add: osc_string_def)
  ultimately show ?thesis by (simp add: readString_def t Let_def)
qed

lemma bytes_of_nat:
  "(n::nat) div 16777216 * 16777216 + n div 65536 mod 256 * 65536 + n div 256 mod 256 * 256 + n mod 256 = n"
proof -
  have d: "n div 65536 = n div 256 div 256" "n div 16777216 = n div 256 div 256 div 256"
    by (simp_all add: div_mult2_eq [symmetric])
  have "n = n div 256 * 256 + n mod 256" "n div 256 = n div 256 div 256 * 256 + n div 256 mod 256"
    "n div 256 div 256 = n div 256 div 256 div 256 * 256 + n div 256 div 256 mod 256"
    by (simp_all only: div_mult_mod_eq)
  then show ?thesis unfolding d by linarith
qed

lemma be32_value:
  assumes "- (2 ^ 31) \<le> i" "i < 2 ^ 31"
  shows "readInt32 (be32 i @ rest) = Some (i, rest)"
proof -
  define n where "n = nat (i mod 4294967296)"
  have n: "n < 4294967296" by (simp add: n_def nat_less_iff)
  have b: "n div 16777216 < 256" using n by (intro less_mult_imp_div_less) simp
  have v: "i32 (int n) = i"
  proof -
    have "int n = take_bit 32 i" by (simp add: n_def take_bit_eq_mod)
    then have "i32 (int n) = i32 i" by (simp add: i32_def signed_take_bit_take_bit)
    then show ?thesis using assms by (simp add: i32_fits)
  qed
  have "be32 i = [char_of (n div 16777216), char_of (n div 65536 mod 256), char_of (n div 256 mod 256), char_of (n mod 256)]"
    by (simp only: be32_def n_def Let_def)
  moreover have c: "code (char_of k) = k mod 256" for k :: nat by (simp add: code_def)
  have "n div 16777216 mod 256 = n div 16777216" using b by simp
  ultimately have "code ((be32 i @ rest) ! 0) * 16777216 + code ((be32 i @ rest) ! 1) * 65536 +
      code ((be32 i @ rest) ! 2) * 256 + code ((be32 i @ rest) ! 3) = n"
    using bytes_of_nat [of n] by (simp add: c)
  moreover have "\<not> length (be32 i @ rest) < 4" "drop 4 (be32 i @ rest) = rest" by (simp_all add: be32_def Let_def)
  ultimately show ?thesis using v by (simp only: readInt32_def if_False)
qed

lemma length_be32 [simp]: "length (be32 i) = 4"
  by (simp add: be32_def Let_def)

lemma blob_padding:
  "length b mod 4 \<noteq> 0 \<Longrightarrow> padded (length b) = length b + (4 - length b mod 4) mod 4"
proof -
  assume r: "length b mod 4 \<noteq> 0"
  have "(4 - length b mod 4) mod 4 = 4 - length b mod 4" using r by simp
  moreover have "length b mod 4 < 4" by simp
  ultimately show ?thesis by (simp add: padded_def)
qed

lemma read_args_written:
  "\<forall>a \<in> set args. good_arg a \<Longrightarrow>
   read_args (map tag_of args) (concat (map payload args)) m = Some (fold add_arg args m)"
proof (induction args arbitrary: m)
  case Nil
  then show ?case by simp
next
  case (Cons a args)
  have IH: "read_args (map tag_of args) (concat (map payload args)) m' = Some (fold add_arg args m')" for m'
    using Cons by simp
  have g: "good_arg a" using Cons.prems by simp
  show ?case
  proof (cases a)
    case (AInt i)
    with g IH show ?thesis by (simp add: be32_value)
  next
    case (AFloat f)
    with g IH show ?thesis by (simp add: be32_value readFloat32_def)
  next
    case (AString t)
    with g IH show ?thesis by (simp add: readString_osc)
  next
    case (ABlob b)
    then have b: "length b mod 4 \<noteq> 0" "length b < 2 ^ 31" using g by simp_all
    let ?pad = "replicate ((4 - length b mod 4) mod 4) nul"
    have "readInt32 (be32 (int (length b)) @ b @ ?pad @ concat (map payload args)) =
        Some (int (length b), b @ ?pad @ concat (map payload args))"
      using b(2) by (intro be32_value) simp_all
    moreover have "drop (padded (length b)) (b @ ?pad @ concat (map payload args)) = concat (map payload args)"
      unfolding blob_padding [OF b(1)] by simp
    ultimately show ?thesis using IH ABlob by (simp add: blob_padding [OF b(1)])
  next
    case (ALong w)
    with g IH show ?thesis by simp
  qed (use IH in simp_all)
qed

definition good_address :: "string \<Rightarrow> bool" where
  "good_address addr \<longleftrightarrow> addr \<noteq> [] \<and> hd addr = CHR ''/'' \<and> nul \<notin> set addr"

definition message_of :: "string \<Rightarrow> arg list \<Rightarrow> message" where
  "message_of addr args = fold add_arg args \<lparr>address = addr, stringArgs = [], intArgs = [], floatArgs = []\<rparr>"

lemma tag_not_nul: "nul \<notin> tag_of ` set args"
proof -
  have "tag_of a \<noteq> nul" for a by (cases a) simp_all
  then show ?thesis by (metis imageE)
qed

lemma osc_message_shape:
  assumes "good_address addr"
  shows "4 \<le> length (osc_message addr args)" "\<not> is_bundle (osc_message addr args)" "osc_message addr args \<noteq> []"
proof -
  have l: "length (osc_string addr) = padded (length addr)" using padded_bounds(1) [of "length addr"] by (simp add: osc_string_def)
  have "0 < padded (length addr)" using padded_bounds(1) [of "length addr"] by simp
  with padded_bounds(3) [of "length addr"] have "4 \<le> padded (length addr)" by presburger
  then show "4 \<le> length (osc_message addr args)" by (simp add: osc_message_def l)
  then show "osc_message addr args \<noteq> []" by auto
  have "hd (osc_message addr args) = CHR ''/''"
    using assms by (cases addr) (simp_all add: good_address_def osc_message_def osc_string_def)
  moreover have "hd data = CHR ''#''" if "is_bundle data" for data
  proof -
    have "hd (take 7 data) = hd data" by simp
    with that show ?thesis by (simp add: is_bundle_def)
  qed
  ultimately show "\<not> is_bundle (osc_message addr args)" by force
qed

lemma decode_tags:
  assumes "good_address addr"
  shows "decode_message (osc_message addr args) =
    read_args (map tag_of args) (concat (map payload args)) \<lparr>address = addr, stringArgs = [], intArgs = [], floatArgs = []\<rparr>"
proof -
  define t where "t = osc_string (CHR '','' # map tag_of args)"
  define p where "p = concat (map payload args)"
  have "nul \<notin> set (CHR '','' # map tag_of args)" using tag_not_nul [of args] by simp
  then have "readString (t @ p) = Some (CHR '','' # map tag_of args, p)" unfolding t_def by (rule readString_osc)
  moreover have "t @ p \<noteq> []" "hd (t @ p) = CHR '',''" by (simp_all add: t_def osc_string_def)
  moreover have "readString (osc_string addr @ t @ p) = Some (addr, t @ p)"
    using assms by (intro readString_osc) (simp add: good_address_def)
  moreover have "osc_message addr args = osc_string addr @ t @ p" by (simp only: osc_message_def t_def p_def)
  ultimately show ?thesis using assms
    unfolding decode_message_def p_def [symmetric] by (simp only: option.case prod.case good_address_def Let_def) simp
qed

lemma decodePacket_message:
  assumes "good_address addr"
  shows "decodePacket (osc_message addr args) = (case decode_message (osc_message addr args) of None \<Rightarrow> [] | Some m \<Rightarrow> [m])"
  using osc_message_shape [OF assms, of args] by (subst decodePacket.simps) simp

lemma decodeBundle_written:
  "\<forall>e \<in> set elems. e \<noteq> [] \<and> length e < 2 ^ 31 \<Longrightarrow>
   decodeBundle (concat (map (\<lambda>e. be32 (int (length e)) @ e) elems)) = concat (map decodePacket elems)"
proof (induction elems)
  case Nil
  then show ?case by (subst decodeBundle.simps) (simp add: readInt32_def)
next
  case (Cons e elems)
  let ?rest = "concat (map (\<lambda>e. be32 (int (length e)) @ e) elems)"
  have "readInt32 (be32 (int (length e)) @ e @ ?rest) = Some (int (length e), e @ ?rest)"
    using Cons.prems by (intro be32_value) simp_all
  with Cons show ?case by (subst decodeBundle.simps) simp
qed

lemma bundle_packet:
  assumes "length timetag = 8"
  shows "decodePacket (osc_bundle timetag elems) = decodeBundle (concat (map (\<lambda>e. be32 (int (length e)) @ e) elems))"
proof -
  let ?d = "osc_bundle timetag elems"
  have "take 7 ?d = ''#bundle''" "8 \<le> length ?d"
    by (simp_all add: osc_bundle_def)
  moreover have "drop 16 ?d = concat (map (\<lambda>e. be32 (int (length e)) @ e) elems)"
    using assms by (simp add: osc_bundle_def)
  ultimately show ?thesis by (subst decodePacket.simps) (simp add: is_bundle_def)
qed

section \<open>Properties\<close>



text \<open>
  A blob whose length is a multiple of four is over-skipped: the padding rule of strings, which
  always adds a terminator, is used for it, so a valid message ending with such a blob is dropped
  although the code means to skip blobs and keep the command.
\<close>

theorem blob_drops_message:
  assumes "good_address addr" "length b mod 4 = 0" "length b < 2 ^ 31"
  shows "decodePacket (osc_message addr [ABlob b]) = []"
proof -
  have "readInt32 (be32 (int (length b)) @ b @ []) = Some (int (length b), b @ [])"
    using assms(3) by (intro be32_value) simp_all
  moreover have "length b < padded (length b)" by (rule padded_bounds)
  ultimately show ?thesis
    using decodePacket_message [OF assms(1)] decode_tags [OF assms(1), of "[ABlob b]"] assms(2) by simp
qed

theorem blob_drops_message_witness:
  "decodePacket (osc_message ''/url'' [ABlob ''abcd'']) = []"
  by (rule blob_drops_message) (simp_all add: good_address_def)

end
