(* ===== verification/Http.thy ===== *)
theory Http
  imports Prelude
begin

text \<open>
  \<open>control/http_server\<close>: requests taken from a byte stream, decoded, authorised, given to the
  handler and answered, and the cap on connections. What \<open>recv\<close> returns is a list of chunks, one
  per packet (an empty list is a closed or timed-out connection); a call that asks for fewer bytes
  leaves the rest of a chunk. The handler and whether the client takes a response are parameters;
  socket options, timeouts and the listening socket are not modelled.
\<close>

section \<open>Text\<close>

definition cr :: char where "cr = CHR 0x0D"

definition newline :: char where "newline = CHR 0x0A"

definition crlf :: string where "crlf = [cr, newline]"

definition header_end :: string where "header_end = crlf @ crlf"

definition blank_char :: "char \<Rightarrow> bool" where
  "blank_char c \<longleftrightarrow> c = CHR '' '' \<or> c = CHR 0x09 \<or> c = cr \<or> c = newline"

definition trim :: "string \<Rightarrow> string" where
  "trim s = rev (dropWhile blank_char (rev (dropWhile blank_char s)))"

definition statusText :: "int \<Rightarrow> string" where
  "statusText status =
     (if status = 200 then ''OK'' else if status = 204 then ''No Content'' else if status = 400 then ''Bad Request''
      else if status = 401 then ''Unauthorized'' else if status = 404 then ''Not Found''
      else if status = 405 then ''Method Not Allowed'' else if status = 409 then ''Conflict''
      else if status = 500 then ''Internal Server Error'' else if status = 503 then ''Service Unavailable'' else ''OK'')"

text \<open>\<open>getline\<close> until it fails: the lines without their newline, a last empty one not counted.\<close>

function getlines :: "string \<Rightarrow> string list" where
  "getlines s =
     (if s = [] then []
      else takeWhile (\<lambda>c. c \<noteq> newline) s # getlines (drop 1 (dropWhile (\<lambda>c. c \<noteq> newline) s)))"
  by pat_completeness auto
termination
proof (relation "measure length")
  fix s :: string
  assume "s \<noteq> []"
  moreover have "length (dropWhile (\<lambda>c. c \<noteq> newline) s) \<le> length s" by (rule length_dropWhile_le)
  ultimately show "(drop 1 (dropWhile (\<lambda>c. c \<noteq> newline) s), s) \<in> measure length" by (cases s) auto
qed simp

declare getlines.simps [simp del]

text \<open>\<open>stream >> word\<close>.\<close>

definition read_word :: "string \<Rightarrow> string \<times> string" where
  "read_word s = (let t = dropWhile isspace s in (takeWhile (\<lambda>c. \<not> isspace c) t, dropWhile (\<lambda>c. \<not> isspace c) t))"

text \<open>\<open>strtoul\<close> in base ten of a 64-bit \<open>unsigned long\<close>.\<close>

definition strtoul10 :: "string \<Rightarrow> nat" where
  "strtoul10 s =
     (let (neg, t) = split_sign (dropWhile isspace s); v = digits_val (takeWhile isdigit t)
      in if 2 ^ 64 \<le> v then 2 ^ 64 - 1 else if neg \<and> v \<noteq> 0 then 2 ^ 64 - v else v)"

section \<open>Percent decoding\<close>

definition hex_value :: "char \<Rightarrow> nat option" where
  "hex_value c =
     (if 48 \<le> code c \<and> code c \<le> 57 then Some (code c - 48)
      else if 65 \<le> code c \<and> code c \<le> 70 then Some (code c - 55)
      else if 97 \<le> code c \<and> code c \<le> 102 then Some (code c - 87) else None)"

primrec hex_digits :: "string \<Rightarrow> nat \<Rightarrow> nat \<times> string" where
  "hex_digits [] v = (v, [])"
| "hex_digits (c # cs) v = (case hex_value c of Some d \<Rightarrow> hex_digits cs (v * 16 + d) | None \<Rightarrow> (v, c # cs))"

text \<open>
  \<open>strtol\<close> in base 16 of at most two characters (too short for a \<open>0x\<close> prefix to count): the value
  and what is left, everything when there is no digit. A C string ends at a zero byte.
\<close>

definition strtol16 :: "string \<Rightarrow> int \<times> string" where
  "strtol16 text =
     (let s = takeWhile (\<lambda>c. code c \<noteq> 0) text;
          (neg, t) = split_sign (dropWhile isspace s);
          (v, rest) = hex_digits t 0
      in if rest = t then (0, s) else (if neg then - int v else int v, rest))"

fun urlDecode :: "string \<Rightarrow> string" where
  "urlDecode [] = []"
| "urlDecode (c # cs) =
     (if c = CHR ''+'' then CHR '' '' # urlDecode cs
      else if c = CHR ''%'' \<and> 2 \<le> length cs \<and> snd (strtol16 (take 2 cs)) = []
      then char_of (nat (fst (strtol16 (take 2 cs)) mod 256)) # urlDecode (drop 2 cs)
      else c # urlDecode cs)"

section \<open>Requests and responses\<close>

record request =
  req_method :: string
  path :: string
  query :: string
  headers :: "string \<rightharpoonup> string"
  body :: string

record response =
  status :: int
  contentType :: string
  resp_body :: string
  binaryBody :: string
  useBinary :: bool
  extraHeaders :: "(string \<times> string) list"   \<comment> \<open>in the order of the map\<close>

definition new_response :: response where
  "new_response = \<lparr>status = 200, contentType = ''application/json'', resp_body = [], binaryBody = [],
     useBinary = False, extraHeaders = []\<rparr>"

definition escape_error :: "string \<Rightarrow> string" where
  "escape_error message = concat (map (\<lambda>c.
     (if c = CHR 0x22 \<or> c = CHR 0x5C then [CHR 0x5C] else []) @
     (if c = newline then [CHR 0x5C, CHR ''n''] else [c])) message)"

definition error :: "int \<Rightarrow> string \<Rightarrow> response \<Rightarrow> response" where
  "error c message r = r\<lparr>status := c, contentType := ''application/json'',
     resp_body := ''{'' @ [CHR 0x22] @ ''error'' @ [CHR 0x22] @ '':'' @ [CHR 0x22] @ escape_error message @ [CHR 0x22] @ ''}''\<rparr>"

text \<open>The loop of \<open>param\<close> over the pairs of the query.\<close>

function find_param :: "string \<Rightarrow> string \<Rightarrow> string option" where
  "find_param key q =
     (if q = [] then None
      else let pair = takeWhile (\<lambda>c. c \<noteq> CHR ''&'') q; rest = dropWhile (\<lambda>c. c \<noteq> CHR ''&'') q
           in case find_char (CHR ''='') pair of
                Some equals \<Rightarrow>
                  if take equals pair = key then Some (urlDecode (drop (equals + 1) pair))
                  else if rest = [] then None else find_param key (tl rest)
              | None \<Rightarrow>
                  if pair = key then Some []
                  else if rest = [] then None else find_param key (tl rest))"
  by pat_completeness auto
termination
proof -
  have d: "length (dropWhile (\<lambda>c. c \<noteq> CHR ''&'') q) - Suc 0 < length q"
    if "dropWhile (\<lambda>c. c \<noteq> CHR ''&'') q \<noteq> []" for q :: string
    using that length_dropWhile_le [of "\<lambda>c. c \<noteq> CHR ''&''" q]
    by (metis One_nat_def diff_less le_less_trans length_greater_0_conv less_imp_diff_less not_less zero_less_one order.strict_trans2)
  show ?thesis by (relation "measure (\<lambda>(key, q). length q)") (simp_all add: d)
qed

declare find_param.simps [simp del]

definition param :: "request \<Rightarrow> string \<Rightarrow> string \<Rightarrow> string" where
  "param r key fallback = (case find_param key (query r) of Some v \<Rightarrow> v | None \<Rightarrow> fallback)"

definition authorised :: "string \<Rightarrow> request \<Rightarrow> bool" where
  "authorised token r \<longleftrightarrow>
     token = [] \<or> param r ''token'' [] = token \<or>
     (case headers r ''authorization'' of
        Some v \<Rightarrow> prefixed ''Bearer '' v \<and> drop 7 v = token
      | None \<Rightarrow> False)"

section \<open>One request from the stream\<close>

definition recv :: "nat \<Rightarrow> string list \<Rightarrow> (string \<times> string list) option" where
  "recv n net = (case net of
      [] \<Rightarrow> None
    | c # cs \<Rightarrow> if c = [] \<or> n = 0 then None
        else Some (take n c, if length c \<le> n then cs else drop n c # cs))"

definition net_size :: "string list \<Rightarrow> nat" where
  "net_size net = length (concat net)"

lemma recv_stream: "recv n net = Some (got, net') \<Longrightarrow> got \<noteq> [] \<and> length got \<le> n \<and> got @ concat net' = concat net"
  by (auto simp: recv_def split: list.splits if_splits)

lemma recv_size: "recv n net = Some (got, net') \<Longrightarrow> net_size net' < net_size net"
proof -
  assume "recv n net = Some (got, net')"
  then have r: "got \<noteq> []" "got @ concat net' = concat net" using recv_stream by blast+
  have "length (concat net) = length got + length (concat net')" using r(2) by (metis length_append)
  with r(1) show ?thesis by (simp add: net_size_def)
qed

function readHeaders :: "string \<Rightarrow> string list \<Rightarrow> (string \<times> string list) option" where
  "readHeaders buffer net =
     (if find_sub header_end buffer \<noteq> None then Some (buffer, net)
      else if 65536 < length buffer then None
      else case recv 4096 net of
        None \<Rightarrow> None
      | Some (got, net') \<Rightarrow> readHeaders (buffer @ got) net')"
  by pat_completeness auto
termination by (relation "measure (\<lambda>(b, net). net_size net)") (auto dest: recv_size)

function readExactly :: "string \<Rightarrow> nat \<Rightarrow> string list \<Rightarrow> (string \<times> string list) option" where
  "readExactly buffer wanted net =
     (if wanted \<le> length buffer then Some (buffer, net)
      else case recv (min 4096 (wanted - length buffer)) net of
        None \<Rightarrow> None
      | Some (got, net') \<Rightarrow> readExactly (buffer @ got) wanted net')"
  by pat_completeness auto
termination by (relation "measure (\<lambda>(b, w, net). net_size net)") (auto dest: recv_size)

declare readHeaders.simps [simp del] readExactly.simps [simp del]

definition read_header_line :: "string \<Rightarrow> (string \<rightharpoonup> string) \<times> bool \<Rightarrow> (string \<rightharpoonup> string) \<times> bool" where
  "read_header_line line = (\<lambda>(hs, keepAlive). (case find_char (CHR '':'') line of
      None \<Rightarrow> (hs, keepAlive)
    | Some colon \<Rightarrow>
        let key = lowercase (trim (take colon line)); v = trim (drop (colon + 1) line)
        in (hs(key \<mapsto> v),
            if key = ''connection'' \<and> find_sub ''close'' (lowercase v) \<noteq> None then False else keepAlive)))"

text \<open>The header block: the request without its body, and whether the connection stays open.\<close>

definition parse_head :: "string \<Rightarrow> (request \<times> bool) option" where
  "parse_head headerBlock = (case getlines headerBlock of
      [] \<Rightarrow> None
    | line # ls \<Rightarrow>
        let (m, rest) = read_word line; (target, _) = read_word rest;
            (p, q) = (case find_char (CHR ''?'') target of
                None \<Rightarrow> (target, [])
              | Some mark \<Rightarrow> (take mark target, drop (mark + 1) target));
            (hs, keepAlive) = fold read_header_line ls (Map.empty, True)
        in Some (\<lparr>req_method = m, path = p, query = q, headers = hs, body = []\<rparr>, keepAlive))"

definition contentLength :: "request \<Rightarrow> nat" where
  "contentLength r = (case headers r ''content-length'' of None \<Rightarrow> 0 | Some v \<Rightarrow> strtoul10 v)"

definition kMaxBody :: nat where "kMaxBody = 8 * 1024 * 1024"

text \<open>
  The part of \<open>serveConnection\<close>'s loop before the response: \<open>None\<close> is a \<open>break\<close>, otherwise the
  request, whether to keep the connection, the buffer and the rest of the stream. The response the
  code builds for an oversized body is a local that is never sent.
\<close>

definition take_request :: "string \<Rightarrow> string list \<Rightarrow> (request \<times> bool \<times> string \<times> string list) option" where
  "take_request buffer net = (case readHeaders buffer net of
      None \<Rightarrow> None
    | Some (buf, net') \<Rightarrow>
        let n = the (find_sub header_end buf); remainder = drop (n + 4) buf
        in (case parse_head (take n buf) of
              None \<Rightarrow> None
            | Some (r, keepAlive) \<Rightarrow>
                if kMaxBody < contentLength r then Some (r, False, [], net')
                else if 0 < contentLength r then
                  (case readExactly remainder (contentLength r) net' of
                     None \<Rightarrow> None
                   | Some (rest, net'') \<Rightarrow>
                       Some (r\<lparr>body := take (contentLength r) rest\<rparr>, keepAlive, drop (contentLength r) rest, net''))
                else Some (r, keepAlive, remainder, net')))"

section \<open>Serving a connection\<close>

definition answer :: "string \<Rightarrow> (request \<Rightarrow> response \<Rightarrow> response) option \<Rightarrow> request \<Rightarrow> response" where
  "answer token handler r =
     (if \<not> authorised token r then error 401 ''missing or incorrect token'' new_response
      else case handler of
        Some h \<Rightarrow> h r new_response
      | None \<Rightarrow> error 503 ''no handler installed'' new_response)"

definition response_data :: "response \<Rightarrow> string" where
  "response_data resp = (if useBinary resp then binaryBody resp else resp_body resp)"

definition response_text :: "request \<Rightarrow> bool \<Rightarrow> response \<Rightarrow> string" where
  "response_text r keepAlive resp =
     ''HTTP/1.1 '' @ dec_int (status resp) @ '' '' @ statusText (status resp) @ crlf @
     ''Content-Type: '' @ contentType resp @ crlf @
     ''Content-Length: '' @ dec (length (response_data resp)) @ crlf @
     ''Cache-Control: no-store'' @ crlf @
     ''Connection: '' @ (if keepAlive then ''keep-alive'' else ''close'') @ crlf @
     concat (map (\<lambda>(k, v). k @ '': '' @ v @ crlf) (extraHeaders resp)) @ crlf @
     (if response_data resp \<noteq> [] \<and> req_method r \<noteq> ''HEAD'' then response_data resp else [])"

text \<open>
  The loop, at most \<open>k\<close> more requests: the exchanges of the connection. \<open>running\<close> is \<open>running_\<close>
  and \<open>taken\<close> whether the client takes the response, for each number of requests still allowed.
\<close>

primrec serve :: "string \<Rightarrow> (request \<Rightarrow> response \<Rightarrow> response) option \<Rightarrow> (nat \<Rightarrow> bool) \<Rightarrow> (nat \<Rightarrow> bool) \<Rightarrow> nat \<Rightarrow>
    string \<Rightarrow> string list \<Rightarrow> (request \<times> string) list" where
  "serve token handler running taken 0 buffer net = []"
| "serve token handler running taken (Suc k) buffer net =
     (if \<not> running (Suc k) then []
      else case take_request buffer net of
        None \<Rightarrow> []
      | Some (r, keepAlive, buffer', net') \<Rightarrow>
          (r, response_text r keepAlive (answer token handler r)) #
          (if taken (Suc k) \<and> keepAlive then serve token handler running taken k buffer' net' else []))"

definition serveConnection where
  "serveConnection token handler running taken net = serve token handler running taken 200 [] net"

definition refusal :: "nat \<Rightarrow> string" where
  "refusal maxConnections =
     (let text = ''{'' @ [CHR 0x22] @ ''error'' @ [CHR 0x22] @ '':'' @ [CHR 0x22] @ ''too many control connections ('' @
            dec maxConnections @ '' open); try again shortly'' @ [CHR 0x22] @ ''}''
      in ''HTTP/1.1 503 '' @ statusText 503 @ crlf @ ''Content-Type: application/json'' @ crlf @
         ''Content-Length: '' @ dec (length text) @ crlf @ ''Retry-After: 1'' @ crlf @
         ''Cache-Control: no-store'' @ crlf @ ''Connection: close'' @ crlf @ crlf @ text)"

section \<open>The stream behind the chunks\<close>

lemma length_header_end [simp]: "length header_end = 4"
  by (simp add: header_end_def crlf_def)

lemma recv_nonempty:
  assumes "[] \<notin> set net"
  shows "recv n net = None \<longleftrightarrow> net = [] \<or> n = 0"
    and "recv n net = Some (got, net') \<Longrightarrow> [] \<notin> set net'"
  using assms by (auto simp: recv_def split: list.splits if_splits)

lemma recv_none: "recv n net = None \<Longrightarrow> n \<noteq> 0 \<Longrightarrow> [] \<notin> set net \<Longrightarrow> net = []"
  by (cases net) (auto simp: recv_def split: if_splits)

lemma readHeaders_stream:
  "readHeaders buffer net = Some (buf, net') \<Longrightarrow> [] \<notin> set net \<Longrightarrow>
   buf @ concat net' = buffer @ concat net \<and> find_sub header_end buf \<noteq> None \<and> [] \<notin> set net'"
proof (induction buffer net rule: readHeaders.induct)
  case (1 buffer net)
  show ?case
  proof (cases "find_sub header_end buffer \<noteq> None \<or> 65536 < length buffer")
    case True
    with "1.prems" show ?thesis by (auto simp: readHeaders.simps [of buffer] split: if_splits)
  next
    case False
    then obtain got net1 where r: "recv 4096 net = Some (got, net1)" "readHeaders (buffer @ got) net1 = Some (buf, net')"
      using "1.prems"(1) by (auto simp: readHeaders.simps [of buffer] split: option.splits)
    have "[] \<notin> set net1" using recv_nonempty(2) [OF "1.prems"(2) r(1)] .
    with 1 False r show ?thesis using recv_stream [OF r(1)] by auto
  qed
qed

lemma readHeaders_found:
  "find_sub header_end (buffer @ concat net) = Some n \<Longrightarrow> n \<le> 65533 \<Longrightarrow> [] \<notin> set net \<Longrightarrow>
   readHeaders buffer net \<noteq> None"
proof (induction buffer net rule: readHeaders.induct)
  case (1 buffer net)
  show ?case
  proof (cases "find_sub header_end buffer \<noteq> None")
    case True
    then show ?thesis by (simp add: readHeaders.simps [of buffer])
  next
    case False
    have "\<not> n + 4 \<le> length buffer"
    proof
      assume "n + 4 \<le> length buffer"
      then have "find_sub header_end buffer = Some n" using find_sub_split [OF "1.prems"(1)] by simp
      with False show False by simp
    qed
    then have short: "\<not> 65536 < length buffer" using "1.prems"(2) by simp
    have "net \<noteq> []"
    proof
      assume "net = []"
      with "1.prems"(1) False show False by simp
    qed
    then obtain got net1 where r: "recv 4096 net = Some (got, net1)"
      using recv_nonempty(1) [OF "1.prems"(3), of 4096] by (cases "recv 4096 net") auto
    have "(buffer @ got) @ concat net1 = buffer @ concat net" using recv_stream [OF r] by simp
    moreover have "[] \<notin> set net1" using recv_nonempty(2) [OF "1.prems"(3) r] .
    ultimately have "readHeaders (buffer @ got) net1 \<noteq> None" using 1 False short r by simp
    then show ?thesis using False short r by (simp add: readHeaders.simps [of buffer])
  qed
qed

lemma readExactly_stream:
  "[] \<notin> set net \<Longrightarrow>
   (case readExactly buffer wanted net of
      None \<Rightarrow> length (buffer @ concat net) < wanted
    | Some (buf, net') \<Rightarrow> buf @ concat net' = buffer @ concat net \<and> wanted \<le> length buf \<and> [] \<notin> set net')"
proof (induction buffer wanted net rule: readExactly.induct)
  case (1 buffer wanted net)
  show ?case
  proof (cases "wanted \<le> length buffer")
    case True
    have "readExactly buffer wanted net = Some (buffer, net)" by (subst readExactly.simps) (simp only: True if_True)
    with True "1.prems" show ?thesis by simp
  next
    case False
    show ?thesis
    proof (cases "recv (min 4096 (wanted - length buffer)) net")
      case None
      moreover have "min 4096 (wanted - length buffer) \<noteq> 0" using False by linarith
      ultimately have "net = []" using recv_none "1.prems" by blast
      moreover have "readExactly buffer wanted net = None"
        by (subst readExactly.simps) (simp only: False None option.case if_False)
      ultimately show ?thesis using False by simp
    next
      case (Some p)
      obtain got net1 where p: "p = (got, net1)" by fastforce
      have n1: "[] \<notin> set net1" using recv_nonempty(2) [OF "1.prems"] Some p by blast
      have c: "(buffer @ got) @ concat net1 = buffer @ concat net" using recv_stream Some p by simp
      have e: "readExactly buffer wanted net = readExactly (buffer @ got) wanted net1"
        by (subst readExactly.simps) (simp only: False Some p option.case prod.case if_False)
      show ?thesis using "1.IH" [OF False Some p [symmetric] n1] unfolding e c .
    qed
  qed
qed

section \<open>The reference: requests cut from the stream\<close>

definition cut :: "string \<Rightarrow> (request \<times> bool \<times> string) option" where
  "cut s = (case find_sub header_end s of
      None \<Rightarrow> None
    | Some n \<Rightarrow> (case parse_head (take n s) of
        None \<Rightarrow> None
      | Some (r, keepAlive) \<Rightarrow>
          let rest = drop (n + 4) s; len = contentLength r
          in if kMaxBody < len then Some (r, False, [])
             else if length rest < len then None
             else Some (if 0 < len then r\<lparr>body := take len rest\<rparr> else r, keepAlive, drop len rest)))"

primrec serve_stream :: "string \<Rightarrow> (request \<Rightarrow> response \<Rightarrow> response) option \<Rightarrow> (nat \<Rightarrow> bool) \<Rightarrow> (nat \<Rightarrow> bool) \<Rightarrow> nat \<Rightarrow>
    string \<Rightarrow> (request \<times> string) list" where
  "serve_stream token handler running taken 0 s = []"
| "serve_stream token handler running taken (Suc k) s =
     (if \<not> running (Suc k) then []
      else case cut s of
        None \<Rightarrow> []
      | Some (r, keepAlive, rest) \<Rightarrow>
          (r, response_text r keepAlive (answer token handler r)) #
          (if taken (Suc k) \<and> keepAlive then serve_stream token handler running taken k rest else []))"

text \<open>No header block the connection reaches is larger than the limit.\<close>

primrec headers_fit :: "nat \<Rightarrow> string \<Rightarrow> bool" where
  "headers_fit 0 s = True"
| "headers_fit (Suc k) s =
     ((case find_sub header_end s of None \<Rightarrow> True | Some n \<Rightarrow> n \<le> 65533) \<and>
      (case cut s of None \<Rightarrow> True | Some (r, keepAlive, rest) \<Rightarrow> headers_fit k rest))"

lemma take_request_stream:
  assumes "[] \<notin> set net" "\<And>n. find_sub header_end (buffer @ concat net) = Some n \<Longrightarrow> n \<le> 65533"
  shows "(case take_request buffer net of
      None \<Rightarrow> cut (buffer @ concat net) = None
    | Some (r, keepAlive, buffer', net') \<Rightarrow> [] \<notin> set net' \<and>
        (\<exists>rest. cut (buffer @ concat net) = Some (r, keepAlive, rest) \<and> (keepAlive \<longrightarrow> rest = buffer' @ concat net')))"
proof (cases "find_sub header_end (buffer @ concat net)")
  case None
  have "readHeaders buffer net = None"
  proof (rule ccontr)
    assume "readHeaders buffer net \<noteq> None"
    then obtain buf net' where "readHeaders buffer net = Some (buf, net')" by auto
    from readHeaders_stream [OF this assms(1)] obtain m where
      "find_sub header_end buf = Some m" "buf @ concat net' = buffer @ concat net" by auto
    with None show False using find_sub_append [of header_end buf m "concat net'"] by simp
  qed
  with None show ?thesis by (simp add: take_request_def cut_def)
next
  case (Some n)
  obtain buf net' where r: "readHeaders buffer net = Some (buf, net')"
    using readHeaders_found [OF Some assms(2) [OF Some] assms(1)] by auto
  note s = readHeaders_stream [OF r assms(1)]
  then obtain m where m: "find_sub header_end buf = Some m" by auto
  then have mn: "m = n" using find_sub_append [OF m, of "concat net'"] s Some by simp
  have bound: "n + 4 \<le> length buf" using find_sub_bound [OF m] mn by simp
  have t: "take n (buffer @ concat net) = take n buf" and d: "drop (n + 4) (buffer @ concat net) = drop (n + 4) buf @ concat net'"
    using s bound by (metis append_take_drop_id take_append diff_is_0_eq' take0 append_Nil2 le_add1 order.trans)
      (use s bound in \<open>metis drop_append diff_is_0_eq' drop0\<close>)
  show ?thesis
  proof (cases "parse_head (take n buf)")
    case None
    with Some r m mn t show ?thesis by (simp add: take_request_def cut_def)
  next
    case (Some p)
    obtain q keepAlive where p: "p = (q, keepAlive)" by fastforce
    have e: "net' = net' \<and> [] \<notin> set net'" using s by simp
    have x: "case readExactly (drop (n + 4) buf) (contentLength q) net' of
        None \<Rightarrow> length (drop (n + 4) buf @ concat net') < contentLength q
      | Some (b, net'') \<Rightarrow> b @ concat net'' = drop (n + 4) buf @ concat net' \<and> contentLength q \<le> length b \<and> [] \<notin> set net''"
      using e by (intro readExactly_stream) simp
    show ?thesis
    proof (cases "kMaxBody < contentLength q \<or> contentLength q = 0")
      case True
      then show ?thesis using \<open>find_sub header_end (buffer @ concat net) = Some n\<close> Some p r m mn t d e
        by (auto simp: take_request_def cut_def Let_def)
    next
      case False
      then have l: "0 < contentLength q" "\<not> kMaxBody < contentLength q" by simp_all
      show ?thesis
      proof (cases "readExactly (drop (n + 4) buf) (contentLength q) net'")
        case None
        with x have "length (drop (n + 4) (buffer @ concat net)) < contentLength q" using d by simp
        then show ?thesis using None \<open>find_sub header_end (buffer @ concat net) = Some n\<close> Some p r m mn t l
          by (simp add: take_request_def cut_def Let_def)
      next
        case (Some bn)
        obtain b net'' where bn: "bn = (b, net'')" by fastforce
        with x Some have b: "b @ concat net'' = drop (n + 4) (buffer @ concat net)" "contentLength q \<le> length b" "[] \<notin> set net''"
          using d by simp_all
        have "take (contentLength q) (drop (n + 4) (buffer @ concat net)) = take (contentLength q) b"
          "drop (contentLength q) (drop (n + 4) (buffer @ concat net)) = drop (contentLength q) b @ concat net''"
          "\<not> length (drop (n + 4) (buffer @ concat net)) < contentLength q"
          unfolding b(1) [symmetric] using b(2) by simp_all
        then show ?thesis
          using Some bn b(3) \<open>find_sub header_end (buffer @ concat net) = Some n\<close> \<open>parse_head (take n buf) = Some p\<close> p r m mn t l
          by (simp add: take_request_def cut_def Let_def del: drop_drop)
      qed
    qed
  qed
qed


lemma serve_eq_stream:
  "[] \<notin> set net \<Longrightarrow> headers_fit k (buffer @ concat net) \<Longrightarrow>
   serve token handler running taken k buffer net = serve_stream token handler running taken k (buffer @ concat net)"
proof (induction k arbitrary: buffer net)
  case 0
  then show ?case by simp
next
  case (Suc k)
  have fits: "\<And>n. find_sub header_end (buffer @ concat net) = Some n \<Longrightarrow> n \<le> 65533"
    using Suc.prems(2) by simp
  note t = take_request_stream [where buffer = buffer, OF Suc.prems(1) fits]
  show ?case
  proof (cases "take_request buffer net")
    case None
    with t show ?thesis by simp
  next
    case (Some q)
    obtain r keepAlive buffer' net' where q: "q = (r, keepAlive, buffer', net')" by (cases q)
    obtain left where tl: "[] \<notin> set net'" "cut (buffer @ concat net) = Some (r, keepAlive, left)"
      "keepAlive \<longrightarrow> left = buffer' @ concat net'"
      using t Some q by auto
    have "headers_fit k left" using Suc.prems(2) tl(2) by simp
    then have "keepAlive \<Longrightarrow> serve token handler running taken k buffer' net' =
        serve_stream token handler running taken k left"
      using Suc.IH [OF tl(1)] tl(3) by simp
    with Some q tl(2) show ?thesis by simp
  qed
qed

lemma cut_shorter: "cut s = Some (r, keepAlive, left) \<Longrightarrow> length left \<le> length s"
  by (auto simp: cut_def Let_def split: option.splits if_splits)

lemma headers_fit_short: "length s \<le> 65537 \<Longrightarrow> headers_fit k s"
proof (induction k arbitrary: s)
  case 0
  then show ?case by simp
next
  case (Suc k)
  have "n \<le> 65533" if "find_sub header_end s = Some n" for n
    using find_sub_bound [OF that] Suc.prems by simp
  moreover have "headers_fit k left" if "cut s = Some (r, keepAlive, left)" for r keepAlive left
    using cut_shorter [OF that] Suc by simp
  ultimately show ?case by (simp split: option.splits)
qed

section \<open>What a connection does\<close>

text \<open>
  C15: however the network cuts the byte stream into packets, and wherever \<open>recv\<close> stops, a
  connection whose header blocks are within the limit serves exactly the requests of the stream:
  each is cut at the first blank line, its body is the next \<open>Content-Length\<close> bytes, the next request
  starts right behind it, and each response is the handler's answer to that request.
\<close>
theorem http_framing:
  assumes "[] \<notin> set net" "headers_fit 200 (concat net)"
  shows "serveConnection token handler running taken net =
    serve_stream token handler running taken 200 (concat net)"
  using serve_eq_stream [of net 200 "[]"] assms by (simp add: serveConnection_def)

theorem http_framing_witness:
  "serveConnection [] None (\<lambda>k. True) (\<lambda>k. True) [''GET / HT'', ''TP/1.1'' @ header_end] =
   serveConnection [] None (\<lambda>k. True) (\<lambda>k. True) [''G'', ''ET / HTTP/1.1'' @ header_end]"
proof -
  let ?packets = "[''GET / HT'', ''TP/1.1'' @ header_end]" and ?other = "[''G'', ''ET / HTTP/1.1'' @ header_end]"
  have "headers_fit 200 (concat ?packets)" "headers_fit 200 (concat ?other)"
    by (rule headers_fit_short; simp)+
  then have "serveConnection [] None (\<lambda>k. True) (\<lambda>k. True) ?packets = serve_stream [] None (\<lambda>k. True) (\<lambda>k. True) 200 (concat ?packets)"
    "serveConnection [] None (\<lambda>k. True) (\<lambda>k. True) ?other = serve_stream [] None (\<lambda>k. True) (\<lambda>k. True) 200 (concat ?other)"
    by (intro http_framing; simp)+
  moreover have "concat ?packets = concat ?other" by simp
  ultimately show ?thesis by simp
qed

lemma serve_exchange:
  "(r, t) \<in> set (serve token handler running taken k buffer net) \<Longrightarrow>
   \<exists>keepAlive. t = response_text r keepAlive (answer token handler r)"
  by (induction k arbitrary: buffer net) (auto split: if_splits option.splits)

text \<open>
  A connection answers a request without the token with a 401 that does not depend on the
  handler, whatever the stream, the packets and the handler are.
\<close>
theorem unauthorised_never_handled:
  assumes "(r, t) \<in> set (serveConnection token handler running taken net)" "\<not> authorised token r"
  shows "\<exists>keepAlive. t = response_text r keepAlive (error 401 ''missing or incorrect token'' new_response)"
  using serve_exchange [OF assms(1) [unfolded serveConnection_def]] assms(2) by (simp add: answer_def)


text \<open>A body over the limit: the handler is still called, with an empty body, and the 400 is never sent.\<close>

definition oversized :: string where
  "oversized = ''POST /api HTTP/1.1'' @ crlf @ ''Content-Length: 8388609'' @ header_end"

definition oversized_request :: request where
  "oversized_request =
     \<lparr>req_method = ''POST'', path = ''/api'', query = [], headers = [''content-length'' \<mapsto> ''8388609''], body = []\<rparr>"

lemma oversized_head: "parse_head (take 43 oversized) = Some (oversized_request, True)"
proof -
  have "getlines (take 43 oversized) = [''POST /api HTTP/1.1'' @ [cr], ''Content-Length: 8388609'']"
    by (simp add: oversized_def header_end_def getlines.simps crlf_def cr_def newline_def)
  moreover have "read_word (''POST /api HTTP/1.1'' @ [cr]) = (''POST'', '' /api HTTP/1.1'' @ [cr])"
    "read_word ('' /api HTTP/1.1'' @ [cr]) = (''/api'', '' HTTP/1.1'' @ [cr])"
    by (simp_all add: read_word_def isspace_def cr_def code_def)
  moreover have "read_header_line ''Content-Length: 8388609'' (Map.empty, True) = ([''content-length'' \<mapsto> ''8388609''], True)"
    by (simp add: read_header_line_def trim_def blank_char_def cr_def newline_def lowercase_def tolower_def code_def
        char_of_def bit_simps)
  ultimately show ?thesis by (simp add: parse_head_def oversized_request_def)
qed

lemma oversized_cut: "cut oversized = Some (oversized_request, False, [])"
proof -
  have "find_sub header_end oversized = Some 43"
    by (simp add: oversized_def header_end_def crlf_def cr_def newline_def prefixed_def)
  moreover have "contentLength oversized_request = 8388609"
    by (simp add: contentLength_def oversized_request_def strtoul10_def isspace_def split_sign_def digits_val_def code_def)
  ultimately show ?thesis using oversized_head by (simp add: cut_def kMaxBody_def)
qed

lemma serve_oversized:
  "serveConnection token handler (\<lambda>k. True) taken [oversized] =
     [(oversized_request, response_text oversized_request False (answer token handler oversized_request))]"
proof -
  have "length (concat [oversized]) \<le> 65537" by (simp add: oversized_def header_end_def crlf_def)
  then have "headers_fit 200 (concat [oversized])" by (rule headers_fit_short)
  moreover have "[] \<notin> set [oversized]" by (simp add: oversized_def)
  ultimately have "serveConnection token handler (\<lambda>k. True) taken [oversized] =
      serve_stream token handler (\<lambda>k. True) taken (Suc 199) oversized"
    using serve_eq_stream [of "[oversized]" 200 "[]"] by (simp add: serveConnection_def)
  then show ?thesis by (simp only: serve_stream.simps oversized_cut) simp
qed

text \<open>
  A request that announces more than the limit is answered by the handler, which sees it
  with an empty body: the 400 the code builds for it is never sent.
\<close>

theorem oversized_body_reaches_handler:
  "serveConnection [] (Some h) (\<lambda>k. True) taken [oversized] =
     [(oversized_request, response_text oversized_request False (h oversized_request new_response))]"
  by (simp add: serve_oversized answer_def authorised_def)

theorem unauthorised_never_handled_witness:
  "\<exists>keepAlive. response_text oversized_request False (answer ''secret'' (Some (\<lambda>r. id)) oversized_request) =
     response_text oversized_request keepAlive (error 401 ''missing or incorrect token'' new_response)"
proof (rule unauthorised_never_handled)
  show "(oversized_request, response_text oversized_request False (answer ''secret'' (Some (\<lambda>r. id)) oversized_request))
    \<in> set (serveConnection ''secret'' (Some (\<lambda>r. id)) (\<lambda>k. True) (\<lambda>k. True) [oversized])"
    by (simp add: serve_oversized)
  show "\<not> authorised ''secret'' oversized_request"
    by (simp add: authorised_def param_def oversized_request_def find_param.simps)
qed

section \<open>Queries\<close>

text \<open>What a client writes: every byte that is not a letter or a digit as \<open>%XX\<close>.\<close>

definition hex_char :: "nat \<Rightarrow> char" where
  "hex_char n = char_of (if n < 10 then 48 + n else 55 + n)"

definition percent_encode :: "string \<Rightarrow> string" where
  "percent_encode s = concat (map (\<lambda>c. if isalpha c \<or> isdigit c then [c]
     else [CHR ''%'', hex_char (code c div 16), hex_char (code c mod 16)]) s)"

fun query_text :: "(string \<times> string) list \<Rightarrow> string" where
  "query_text [] = []"
| "query_text [(k, v)] = k @ ''='' @ percent_encode v"
| "query_text ((k, v) # kv # kvs) = k @ ''='' @ percent_encode v @ ''&'' @ query_text (kv # kvs)"

lemma code_hex_char: "n < 16 \<Longrightarrow> code (hex_char n) = (if n < 10 then 48 + n else 55 + n)"
  by (simp add: hex_char_def)

lemma hex_char_facts:
  assumes "n < 16"
  shows "hex_value (hex_char n) = Some n" "\<not> isspace (hex_char n)" "code (hex_char n) \<noteq> 0"
    "hex_char n \<noteq> CHR ''-''" "hex_char n \<noteq> CHR ''+''" "hex_char n \<noteq> CHR ''&''"
  using code_hex_char [OF assms] assms
  by (auto simp: hex_value_def isspace_def code_inj [symmetric] code_def [of "CHR ''&''"])

lemma strtol16_pair: "a < 16 \<Longrightarrow> b < 16 \<Longrightarrow> strtol16 [hex_char a, hex_char b] = (int (a * 16 + b), [])"
  using hex_char_facts [of a] hex_char_facts [of b]
  by (simp add: strtol16_def split_sign_def)

lemma urlDecode_escape:
  "a < 16 \<Longrightarrow> b < 16 \<Longrightarrow>
   urlDecode (CHR ''%'' # hex_char a # hex_char b # cs) = char_of (a * 16 + b) # urlDecode cs"
proof -
  assume n: "a < 16" "b < 16"
  have "fst (strtol16 [hex_char a, hex_char b]) = int (a * 16 + b)" "snd (strtol16 [hex_char a, hex_char b]) = []"
    using strtol16_pair [OF n] by simp_all
  moreover have "nat (int (a * 16 + b) mod 256) = a * 16 + b" using n by simp
  ultimately show ?thesis by (simp del: of_nat_add of_nat_mult)
qed

lemma urlDecode_encoded: "urlDecode (percent_encode s @ cs) = s @ urlDecode cs"
proof (induction s)
  case Nil
  then show ?case by (simp add: percent_encode_def)
next
  case (Cons c s)
  show ?case
  proof (cases "isalpha c \<or> isdigit c")
    case True
    then have "c \<noteq> CHR ''+''" "c \<noteq> CHR ''%''" by (auto simp: isalpha_def isdigit_def code_def)
    with True Cons show ?thesis by (simp add: percent_encode_def)
  next
    case False
    have "code c div 16 < 16" "code c mod 16 < 16" using code_less [of c] by simp_all
    then have "urlDecode (CHR ''%'' # hex_char (code c div 16) # hex_char (code c mod 16) # percent_encode s @ cs) =
        c # urlDecode (percent_encode s @ cs)"
      by (subst urlDecode_escape) (simp_all add: code_def)
    with False Cons show ?thesis by (simp add: percent_encode_def)
  qed
qed

lemma escape_plain: "c' \<in> set (percent_encode [c]) \<Longrightarrow> c' \<noteq> CHR ''&''"
proof -
  assume c: "c' \<in> set (percent_encode [c])"
  have n: "code c div 16 < 16" "code c mod 16 < 16" using code_less [of c] by simp_all
  show ?thesis
  proof (cases "isalpha c \<or> isdigit c")
    case True
    with c have "c' = c" by (simp add: percent_encode_def)
    with True show ?thesis by (auto simp: isalpha_def isdigit_def code_def)
  next
    case False
    with c have "c' = CHR ''%'' \<or> c' = hex_char (code c div 16) \<or> c' = hex_char (code c mod 16)"
      by (simp add: percent_encode_def)
    then show ?thesis using hex_char_facts(6) [OF n(1)] hex_char_facts(6) [OF n(2)] by auto
  qed
qed

lemma percent_encode_plain: "CHR ''&'' \<notin> set (percent_encode s)"
proof (induction s)
  case Nil
  then show ?case by (simp add: percent_encode_def)
next
  case (Cons c s)
  have "percent_encode (c # s) = percent_encode [c] @ percent_encode s" by (simp add: percent_encode_def)
  with Cons escape_plain show ?case by auto
qed

text \<open>A key or value that cannot be mistaken for the query's own punctuation.\<close>

definition plain_key :: "string \<Rightarrow> bool" where
  "plain_key k \<longleftrightarrow> CHR ''='' \<notin> set k \<and> CHR ''&'' \<notin> set k"

lemma takeWhile_upto: "c \<notin> set xs \<Longrightarrow> takeWhile (\<lambda>x. x \<noteq> c) (xs @ c # ys) = xs"
  by (induction xs) auto

lemma dropWhile_upto: "c \<notin> set xs \<Longrightarrow> dropWhile (\<lambda>x. x \<noteq> c) (xs @ c # ys) = c # ys"
  by (induction xs) auto

lemma find_param_pair:
  assumes "takeWhile (\<lambda>c. c \<noteq> CHR ''&'') q = k @ CHR ''='' # v" "dropWhile (\<lambda>c. c \<noteq> CHR ''&'') q = rest'" "plain_key k"
  shows "find_param key q = (if k = key then Some (urlDecode v) else if rest' = [] then None else find_param key (tl rest'))"
proof -
  have "find_char (CHR ''='') (k @ CHR ''='' # v) = Some (length k)" using assms(3) by (simp add: plain_key_def find_char_append)
  moreover have "q \<noteq> []" using assms(1) by auto
  ultimately show ?thesis by (subst find_param.simps) (simp add: assms(1,2) Let_def)
qed

lemma find_param_last:
  assumes "plain_key k" "CHR ''&'' \<notin> set v"
  shows "find_param key (k @ CHR ''='' # v) = (if k = key then Some (urlDecode v) else None)"
proof -
  let ?q = "k @ CHR ''='' # v"
  have n: "\<forall>c \<in> set ?q. c \<noteq> CHR ''&''" using assms by (auto simp: plain_key_def)
  have "takeWhile (\<lambda>c. c \<noteq> CHR ''&'') ?q = ?q" "dropWhile (\<lambda>c. c \<noteq> CHR ''&'') ?q = []"
    using n by (auto simp only: takeWhile_eq_all_conv dropWhile_eq_Nil_conv)
  then show ?thesis using find_param_pair [of ?q k v "[]"] assms(1) by (simp only: if_True)
qed

lemma find_param_more:
  assumes "plain_key k" "CHR ''&'' \<notin> set v"
  shows "find_param key (k @ CHR ''='' # v @ CHR ''&'' # q) = (if k = key then Some (urlDecode v) else find_param key q)"
proof -
  let ?p = "k @ CHR ''='' # v" and ?q = "k @ CHR ''='' # v @ CHR ''&'' # q"
  have n: "CHR ''&'' \<notin> set ?p" using assms by (auto simp: plain_key_def)
  have "takeWhile (\<lambda>c. c \<noteq> CHR ''&'') ?q = ?p" "dropWhile (\<lambda>c. c \<noteq> CHR ''&'') ?q = CHR ''&'' # q"
    using takeWhile_upto [OF n, of q] dropWhile_upto [OF n, of q] by simp_all
  then show ?thesis using find_param_pair [of ?q k v "CHR ''&'' # q"] assms(1) by simp
qed

text \<open>
  A parameter of a query is the value the client encoded: for any keys without \<open>=\<close> and \<open>&\<close>
  and any bytes in the values, \<open>param\<close> gives the first value sent under the key, and the fallback
  for a key that was not sent.
\<close>
theorem param_roundtrip:
  assumes "\<forall>(k, v) \<in> set kvs. plain_key k" "query r = query_text kvs"
  shows "param r key fallback = (case map_of kvs key of Some v \<Rightarrow> v | None \<Rightarrow> fallback)"
proof -
  have d: "urlDecode (percent_encode v) = v" for v using urlDecode_encoded [of v "[]"] by simp
  have "find_param key (query_text kvs) = map_of kvs key"
    using assms(1)
  proof (induction kvs rule: query_text.induct)
    case 1
    then show ?case by (simp add: find_param.simps)
  next
    case (2 k v)
    then show ?case using find_param_last [of k "percent_encode v" key] percent_encode_plain by (simp add: d)
  next
    case (3 k v kv kvs)
    then show ?case using find_param_more [of k "percent_encode v" key "query_text (kv # kvs)"] percent_encode_plain
      by (simp add: d)
  qed
  with assms(2) show ?thesis by (simp add: param_def)
qed

theorem param_roundtrip_witness:
  "param (oversized_request\<lparr>query := query_text [(''url'', ''a&b=c d''), (''token'', ''s+1'')]\<rparr>) ''token'' [] = ''s+1''"
  by (subst param_roundtrip [of "[(''url'', ''a&b=c d''), (''token'', ''s+1'')]"]) (simp_all add: plain_key_def)

end
