(* ===== verification/Http_Connections.thy ===== *)
theory Http_Connections
  imports Prelude
begin

text \<open>
  The connections of \<open>control/http_server\<close>: the accept thread, one thread per connection and
  the cap on them. The step relation interleaves the accept thread, the connection threads and the
  rest of the process, which opens and closes descriptors of its own; the kernel never hands out a
  descriptor number that is in use.
\<close>

section \<open>State and steps\<close>

text \<open>
  \<open>entering\<close>: accepted and counted, not yet in \<open>connections_\<close>. \<open>closing\<close>: taken out of
  \<open>connections_\<close>, not yet closed. \<open>leaving\<close>: threads that have closed their descriptor and have
  not yet counted themselves out. \<open>foreign\<close>: descriptors of the rest of the process.
\<close>

record listener =
  activeConnections :: nat
  connections :: "int set"
  refusedConnections :: nat
  entering :: "int set"
  closing :: "int set"
  leaving :: nat
  foreign :: "int set"

definition setMaxConnections :: "int \<Rightarrow> nat" where
  "setMaxConnections n = nat (max 1 n)"

definition listening :: listener where
  "listening = \<lparr>activeConnections = 0, connections = {}, refusedConnections = 0, entering = {}, closing = {},
     leaving = 0, foreign = {}\<rparr>"

definition in_use :: "listener \<Rightarrow> int set" where
  "in_use l = entering l \<union> connections l \<union> closing l \<union> foreign l"

inductive conn_step :: "nat \<Rightarrow> listener \<Rightarrow> listener \<Rightarrow> bool" for maxConnections where
  accept: "client \<notin> in_use l \<Longrightarrow> activeConnections l < maxConnections \<Longrightarrow>
    conn_step maxConnections l (l\<lparr>activeConnections := activeConnections l + 1, entering := insert client (entering l)\<rparr>)"
| refuse: "maxConnections \<le> activeConnections l \<Longrightarrow>
    conn_step maxConnections l (l\<lparr>refusedConnections := refusedConnections l + 1\<rparr>)"
| register: "client \<in> entering l \<Longrightarrow>
    conn_step maxConnections l (l\<lparr>entering := entering l - {client}, connections := insert client (connections l)\<rparr>)"
| forget: "client \<in> connections l \<Longrightarrow>
    conn_step maxConnections l (l\<lparr>connections := connections l - {client}, closing := insert client (closing l)\<rparr>)"
| close: "client \<in> closing l \<Longrightarrow>
    conn_step maxConnections l (l\<lparr>closing := closing l - {client}, leaving := leaving l + 1\<rparr>)"
| leave: "0 < leaving l \<Longrightarrow>
    conn_step maxConnections l (l\<lparr>leaving := leaving l - 1, activeConnections := activeConnections l - 1\<rparr>)"
| foreign_open: "fd \<notin> in_use l \<Longrightarrow> conn_step maxConnections l (l\<lparr>foreign := insert fd (foreign l)\<rparr>)"
| foreign_close: "conn_step maxConnections l (l\<lparr>foreign := foreign l - {fd}\<rparr>)"

inductive_cases conn_stepE: "conn_step maxConnections l l'"

section \<open>The invariant\<close>

definition apart :: "listener \<Rightarrow> bool" where
  "apart l \<longleftrightarrow> entering l \<inter> connections l = {} \<and> entering l \<inter> closing l = {} \<and> connections l \<inter> closing l = {} \<and>
     (entering l \<union> connections l \<union> closing l) \<inter> foreign l = {}"

definition counted :: "nat \<Rightarrow> listener \<Rightarrow> bool" where
  "counted maxConnections l \<longleftrightarrow>
     finite (entering l) \<and> finite (connections l) \<and> finite (closing l) \<and>
     activeConnections l = card (entering l) + card (connections l) + card (closing l) + leaving l \<and>
     activeConnections l \<le> maxConnections"

definition conn_inv :: "nat \<Rightarrow> listener \<Rightarrow> bool" where
  "conn_inv maxConnections l \<longleftrightarrow> apart l \<and> counted maxConnections l"

lemma card_out: "finite A \<Longrightarrow> x \<in> A \<Longrightarrow> card A = card (A - {x}) + 1"
  using card.remove [of A x] by simp

lemma card_in: "finite A \<Longrightarrow> x \<notin> A \<Longrightarrow> card (insert x A) = card A + 1"
  by simp

lemma apart_step: "conn_step n l l' \<Longrightarrow> apart l \<Longrightarrow> apart l'"
  by (induction rule: conn_step.induct) (auto simp: apart_def in_use_def)

lemma counted_step:
  assumes "conn_step n l l'" "apart l" "counted n l"
  shows "counted n l'"
  using assms(1)
proof cases
  case (accept client)
  with assms(3) show ?thesis by (simp add: counted_def in_use_def)
next
  case (register client)
  have "card (entering l) = card (entering l - {client}) + 1"
    using card_out [of "entering l" client] register(2) assms(3) by (simp only: counted_def)
  moreover have "client \<notin> connections l" using register(2) assms(2) unfolding apart_def by blast
  ultimately show ?thesis using register(1) assms(3) by (simp add: counted_def)
next
  case (forget client)
  have "card (connections l) = card (connections l - {client}) + 1"
    using card_out [of "connections l" client] forget(2) assms(3) by (simp only: counted_def)
  moreover have "client \<notin> closing l" using forget(2) assms(2) unfolding apart_def by blast
  ultimately show ?thesis using forget(1) assms(3) by (simp add: counted_def)
next
  case (close client)
  have "card (closing l) = card (closing l - {client}) + 1"
    using card_out [of "closing l" client] close(2) assms(3) by (simp only: counted_def)
  then show ?thesis using close(1) assms(3) by (simp add: counted_def)
qed (use assms(3) in \<open>auto simp: counted_def\<close>)

lemma conn_step_inv: "conn_inv n l \<Longrightarrow> conn_step n l l' \<Longrightarrow> conn_inv n l'"
  unfolding conn_inv_def using apart_step counted_step by blast

interpretation pool: transition_system "conn_step n" "conn_inv n" for n
  by unfold_locales (rule conn_step_inv)

lemma listening_inv: "conn_inv n listening"
  by (simp add: conn_inv_def apart_def counted_def listening_def)

section \<open>Properties\<close>

text \<open>
  The number of connection threads never passes the cap, however accepts, handlers and
  closes interleave; and every descriptor \<open>stop\<close> could shut down is a connection of this server,
  never one the kernel has already handed to something else in the process.
\<close>
theorem connections_capped:
  assumes "(conn_step (setMaxConnections n))\<^sup>*\<^sup>* listening l"
  shows "activeConnections l \<le> setMaxConnections n \<and> connections l \<inter> foreign l = {} \<and>
    card (connections l) \<le> activeConnections l"
  using pool.reachable_inv [OF assms listening_inv] unfolding conn_inv_def apart_def counted_def by auto

theorem connections_capped_witness:
  "let l = listening\<lparr>activeConnections := 1, connections := {5}\<rparr>
   in activeConnections l \<le> setMaxConnections 1 \<and> connections l \<inter> foreign l = {} \<and> card (connections l) \<le> activeConnections l"
proof -
  have "conn_step 1 listening (listening\<lparr>activeConnections := 1, entering := {5}\<rparr>)"
    using conn_step.accept [of 5 listening 1] by (simp add: listening_def in_use_def)
  moreover have "conn_step 1 (listening\<lparr>activeConnections := 1, entering := {5}\<rparr>) (listening\<lparr>activeConnections := 1, connections := {5}\<rparr>)"
    using conn_step.register [of 5 "listening\<lparr>activeConnections := 1, entering := {5}\<rparr>" 1] by (simp add: listening_def)
  ultimately have "(conn_step (setMaxConnections 1))\<^sup>*\<^sup>* listening (listening\<lparr>activeConnections := 1, connections := {5}\<rparr>)"
    by (simp add: setMaxConnections_def)
  then show ?thesis using connections_capped by (simp only: Let_def)
qed

text \<open>The steps a connection thread takes by itself, as a measure.\<close>

definition work :: "listener \<Rightarrow> nat" where
  "work l = 4 * card (entering l) + 3 * card (connections l) + 2 * card (closing l) + leaving l"

lemma work_progress:
  assumes "conn_inv n l" "0 < activeConnections l"
  shows "\<exists>l'. conn_step n l l' \<and> work l' < work l \<and> refusedConnections l' = refusedConnections l"
proof -
  have i: "apart l" "counted n l" using assms(1) by (simp_all add: conn_inv_def)
  have "0 < card (entering l) + card (connections l) + card (closing l) + leaving l"
    using assms(2) i(2) by (simp add: counted_def)
  then consider "entering l \<noteq> {}" | "connections l \<noteq> {}" | "closing l \<noteq> {}" | "0 < leaving l"
    by fastforce
  then show ?thesis
  proof cases
    case 1
    then obtain client where c: "client \<in> entering l" by blast
    let ?l' = "l\<lparr>entering := entering l - {client}, connections := insert client (connections l)\<rparr>"
    have "card (entering l) = card (entering l - {client}) + 1"
      using card_out [of "entering l" client] c i(2) by (simp only: counted_def)
    moreover have "client \<notin> connections l" using c i(1) unfolding apart_def by blast
    ultimately have "work ?l' < work l" using i(2) by (simp add: work_def counted_def)
    with conn_step.register [OF c, of n] show ?thesis by (intro exI [of _ ?l']) simp
  next
    case 2
    then obtain client where c: "client \<in> connections l" by blast
    let ?l' = "l\<lparr>connections := connections l - {client}, closing := insert client (closing l)\<rparr>"
    have "card (connections l) = card (connections l - {client}) + 1"
      using card_out [of "connections l" client] c i(2) by (simp only: counted_def)
    moreover have "client \<notin> closing l" using c i(1) unfolding apart_def by blast
    ultimately have "work ?l' < work l" using i(2) by (simp add: work_def counted_def)
    with conn_step.forget [OF c, of n] show ?thesis by (intro exI [of _ ?l']) simp
  next
    case 3
    then obtain client where c: "client \<in> closing l" by blast
    let ?l' = "l\<lparr>closing := closing l - {client}, leaving := leaving l + 1\<rparr>"
    have "card (closing l) = card (closing l - {client}) + 1"
      using card_out [of "closing l" client] c i(2) by (simp only: counted_def)
    then have "work ?l' < work l" by (simp add: work_def)
    with conn_step.close [OF c, of n] show ?thesis by (intro exI [of _ ?l']) simp
  next
    case 4
    let ?l' = "l\<lparr>leaving := leaving l - 1, activeConnections := activeConnections l - 1\<rparr>"
    have "work ?l' < work l" using 4 by (simp add: work_def)
    with conn_step.leave [OF 4, of n] show ?thesis by (intro exI [of _ ?l']) simp
  qed
qed

text \<open>
  No reachable state is stuck with connections: once their handlers return, the steps of the
  connection threads alone bring the count to zero, which is what \<open>stop\<close> waits for.
\<close>
theorem connections_drain:
  assumes "(conn_step n)\<^sup>*\<^sup>* listening l"
  shows "\<exists>l'. (conn_step n)\<^sup>*\<^sup>* l l' \<and> activeConnections l' = 0 \<and> connections l' = {} \<and>
    refusedConnections l' = refusedConnections l"
proof -
  have "\<exists>l'. (conn_step n)\<^sup>*\<^sup>* l l' \<and> activeConnections l' = 0 \<and> connections l' = {} \<and>
    refusedConnections l' = refusedConnections l" if "conn_inv n l" for l
    using that
  proof (induction "work l" arbitrary: l rule: less_induct)
    case less
    show ?case
    proof (cases "activeConnections l = 0")
      case True
      with less.prems show ?thesis by (intro exI [of _ l]) (auto simp: conn_inv_def counted_def)
    next
      case False
      then obtain l1 where l1: "conn_step n l l1" "work l1 < work l" "refusedConnections l1 = refusedConnections l"
        using work_progress less.prems by blast
      from less.hyps [OF l1(2) conn_step_inv [OF less.prems l1(1)]] l1(1,3) show ?thesis
        by (metis converse_rtranclp_into_rtranclp)
    qed
  qed
  then show ?thesis using pool.reachable_inv [OF assms listening_inv] by blast
qed

theorem connections_drain_witness:
  "\<exists>l'. (conn_step 1)\<^sup>*\<^sup>* (listening\<lparr>activeConnections := 1, entering := {5}\<rparr>) l' \<and> activeConnections l' = 0 \<and>
     connections l' = {} \<and> refusedConnections l' = 0"
proof -
  have "conn_step 1 listening (listening\<lparr>activeConnections := 1, entering := {5}\<rparr>)"
    using conn_step.accept [of 5 listening 1] by (simp add: listening_def in_use_def)
  then have "(conn_step 1)\<^sup>*\<^sup>* listening (listening\<lparr>activeConnections := 1, entering := {5}\<rparr>)" by simp
  from connections_drain [OF this] show ?thesis by (simp add: listening_def)
qed

end
