(* ===== verification/Source_Table.thy ===== *)
theory Source_Table
  imports Prelude
begin

text \<open>
  \<open>core/source_table.h\<close>: named things that requests reach into and that can be removed while
  those requests run. Each critical section of the code (a lock of the table's mutex or of an
  entry's) is one step of a thread, so every interleaving the locks allow is a path of the step
  relation. Entries are addresses; a thread's phase says where it is in the operation it runs.
\<close>

section \<open>State\<close>

record entry =
  entry_name :: string
  has_value :: bool
  users :: nat
  closing :: bool
  retired :: bool

text \<open>
  Where a thread is: \<open>with\<close> (found, inside), \<open>forEach\<close> (the rest of its snapshot), \<open>remove\<close>
  (found, waiting in \<open>close\<close>, timed out, empty, about to erase) and \<open>takeAll\<close> (the rest of what it took).
\<close>

datatype phase =
    Outside
  | Found nat | Inside nat
  | Each "nat list" | Inside_each nat "nat list"
  | To_close nat | Waiting nat | Timed_out nat | Emptied nat | Erasing nat
  | Taking "nat list" | Taking_close nat "nat list" | Taking_wait nat "nat list"

text \<open>
  \<open>stopping\<close> is what \<open>remove\<close> and \<open>takeAll\<close> handed back to be stopped, \<open>kept\<close> what \<open>takeAll\<close>
  handed back as busy.
\<close>

record table =
  entries :: "nat list"
  entry_at :: "nat \<Rightarrow> entry"
  allocated :: "nat set"
  threads :: "nat \<Rightarrow> phase"
  stopping :: "nat list"
  kept :: "nat list"

definition new_entry :: "string \<Rightarrow> bool \<Rightarrow> entry" where
  "new_entry name v = \<lparr>entry_name = name, has_value = v, users = 0, closing = False, retired = False\<rparr>"

definition empty_table :: table where
  "empty_table = \<lparr>entries = [], entry_at = (\<lambda>_. new_entry [] False), allocated = {}, threads = (\<lambda>_. Outside),
     stopping = [], kept = []\<rparr>"

definition findLocked :: "string \<Rightarrow> table \<Rightarrow> nat option" where
  "findLocked name s = find (\<lambda>e. entry_name (entry_at s e) = name) (entries s)"

definition has_id :: "string \<Rightarrow> table \<Rightarrow> bool" where
  "has_id name s \<longleftrightarrow> findLocked name s \<noteq> None"

definition ids :: "table \<Rightarrow> string list" where
  "ids s = map (\<lambda>e. entry_name (entry_at s e)) (entries s)"

definition firstId :: "table \<Rightarrow> string" where
  "firstId s = (case entries s of [] \<Rightarrow> [] | e # _ \<Rightarrow> entry_name (entry_at s e))"

definition table_insert :: "nat \<Rightarrow> string \<Rightarrow> bool \<Rightarrow> table \<Rightarrow> bool \<times> table" where
  "table_insert address name v s =
     (let s1 = s\<lparr>entry_at := (entry_at s)(address := new_entry name v), allocated := insert address (allocated s)\<rparr>
      in if findLocked name s1 \<noteq> None then (False, s1) else (True, s1\<lparr>entries := entries s1 @ [address]\<rparr>))"

section \<open>The critical sections of one entry\<close>

definition enter :: "entry \<Rightarrow> bool \<times> entry" where
  "enter x = (if closing x then (False, x) else (True, x\<lparr>users := users x + 1\<rparr>))"

definition leave :: "entry \<Rightarrow> entry" where
  "leave x = x\<lparr>users := users x - 1\<rparr>"

text \<open>\<open>close\<close> up to its wait: \<open>None\<close> is \<open>kAlready\<close>.\<close>

definition close_entry :: "entry \<Rightarrow> entry option" where
  "close_entry x = (if closing x \<and> \<not> retired x then None else Some (x\<lparr>closing := True\<rparr>))"

definition reopen :: "entry \<Rightarrow> entry" where
  "reopen x = (if retired x then x else x\<lparr>closing := False\<rparr>)"

definition retire :: "entry \<Rightarrow> entry" where
  "retire x = x\<lparr>retired := True\<rparr>"

text \<open>One section on entry \<open>e\<close>, by a thread in a phase.\<close>

inductive entry_step :: "nat \<Rightarrow> entry \<Rightarrow> phase \<Rightarrow> entry \<Rightarrow> phase \<Rightarrow> bool" for e where
  with_enter: "enter x = (True, x') \<Longrightarrow> entry_step e x (Found e) x' (Inside e)"
| with_refused: "enter x = (False, x') \<Longrightarrow> entry_step e x (Found e) x' Outside"
| with_leave: "entry_step e x (Inside e) (leave x) Outside"
| each_enter: "has_value x \<Longrightarrow> enter x = (True, x') \<Longrightarrow> entry_step e x (Each (e # es)) x' (Inside_each e es)"
| each_skip: "\<not> has_value x \<or> enter x = (False, x) \<Longrightarrow> entry_step e x (Each (e # es)) x (Each es)"
| each_leave: "entry_step e x (Inside_each e es) (leave x) (Each es)"
| already: "close_entry x = None \<Longrightarrow> entry_step e x (To_close e) x Outside"
| closed: "close_entry x = Some x' \<Longrightarrow> entry_step e x (To_close e) x' (Waiting e)"
| wait_empty: "users x = 0 \<Longrightarrow> entry_step e x (Waiting e) x (Emptied e)"
| wait_timeout: "users x \<noteq> 0 \<Longrightarrow> entry_step e x (Waiting e) x (Timed_out e)"
| reopened: "entry_step e x (Timed_out e) (reopen x) Outside"
| taken_meanwhile: "retired x \<Longrightarrow> entry_step e x (Emptied e) x Outside"
| not_taken: "\<not> retired x \<Longrightarrow> entry_step e x (Emptied e) x (Erasing e)"
| take_retire: "entry_step e x (Taking (e # es)) (retire x) (Taking_close e es)"
| take_close: "close_entry x = Some x' \<Longrightarrow> entry_step e x (Taking_close e es) x' (Taking_wait e es)"

section \<open>The table's steps\<close>

definition moved :: "nat \<Rightarrow> phase \<Rightarrow> table \<Rightarrow> table" where
  "moved t p s = s\<lparr>threads := (threads s)(t := p)\<rparr>"

inductive table_step :: "table \<Rightarrow> table \<Rightarrow> bool" where
  inserted: "address \<notin> allocated s \<Longrightarrow> table_insert address name v s = (ok, s') \<Longrightarrow> table_step s s'"
| on_entry: "entry_step e (entry_at s e) (threads s t) x p \<Longrightarrow>
    table_step s (moved t p s\<lparr>entry_at := (entry_at s)(e := x)\<rparr>)"
| with_found: "threads s t = Outside \<Longrightarrow> findLocked name s = Some e \<Longrightarrow> has_value (entry_at s e) \<Longrightarrow>
    table_step s (moved t (Found e) s)"
| snapshot: "threads s t = Outside \<Longrightarrow> table_step s (moved t (Each (entries s)) s)"
| each_done: "threads s t = Each [] \<Longrightarrow> table_step s (moved t Outside s)"
| remove_found: "threads s t = Outside \<Longrightarrow> findLocked name s = Some e \<Longrightarrow> table_step s (moved t (To_close e) s)"
| erased: "threads s t = Erasing e \<Longrightarrow>
    table_step s (moved t Outside s\<lparr>entries := removeAll e (entries s), stopping := stopping s @ [e]\<rparr>)"
| taken: "threads s t = Outside \<Longrightarrow> table_step s (moved t (Taking (entries s)) s\<lparr>entries := []\<rparr>)"
| taken_idle: "threads s t = Taking_wait e es \<Longrightarrow> users (entry_at s e) = 0 \<Longrightarrow>
    table_step s (moved t (Taking es) s\<lparr>stopping := stopping s @ [e]\<rparr>)"
| taken_busy: "threads s t = Taking_wait e es \<Longrightarrow> users (entry_at s e) \<noteq> 0 \<Longrightarrow>
    table_step s (moved t (Taking es) s\<lparr>kept := kept s @ [e]\<rparr>)"
| taken_already: "threads s t = Taking_close e es \<Longrightarrow> close_entry (entry_at s e) = None \<Longrightarrow>
    table_step s (moved t (Taking es) s\<lparr>kept := kept s @ [e]\<rparr>)"
| taken_all: "threads s t = Taking [] \<Longrightarrow> table_step s (moved t Outside s)"

inductive_cases table_stepE: "table_step s s'"

section \<open>Invariant\<close>

definition inside :: "nat \<Rightarrow> phase \<Rightarrow> bool" where
  "inside e p \<longleftrightarrow> p = Inside e \<or> (\<exists>es. p = Inside_each e es)"

definition removing :: "nat \<Rightarrow> phase \<Rightarrow> bool" where
  "removing e p \<longleftrightarrow> p = Waiting e \<or> p = Timed_out e \<or> p = Emptied e \<or> p = Erasing e"

definition emptied :: "nat \<Rightarrow> phase \<Rightarrow> bool" where
  "emptied e p \<longleftrightarrow> p = Emptied e \<or> p = Erasing e"

definition retiring :: "nat \<Rightarrow> phase \<Rightarrow> bool" where
  "retiring e p \<longleftrightarrow> (\<exists>es. p = Taking_close e es \<or> p = Taking_wait e es)"

definition waits :: "nat \<Rightarrow> phase \<Rightarrow> bool" where
  "waits e p \<longleftrightarrow> (\<exists>es. p = Taking_wait e es)"

text \<open>The addresses a phase may still use.\<close>

fun mentions :: "phase \<Rightarrow> nat set" where
  "mentions Outside = {}"
| "mentions (Found e) = {e}" | "mentions (Inside e) = {e}"
| "mentions (Each es) = set es" | "mentions (Inside_each e es) = insert e (set es)"
| "mentions (To_close e) = {e}" | "mentions (Waiting e) = {e}" | "mentions (Timed_out e) = {e}"
| "mentions (Emptied e) = {e}" | "mentions (Erasing e) = {e}"
| "mentions (Taking es) = set es"
| "mentions (Taking_close e es) = insert e (set es)" | "mentions (Taking_wait e es) = insert e (set es)"

definition known :: "table \<Rightarrow> bool" where
  "known s \<longleftrightarrow> set (entries s) \<subseteq> allocated s \<and> set (stopping s) \<subseteq> allocated s \<and>
     (\<forall>t e. e \<in> mentions (threads s t) \<longrightarrow> e \<in> allocated s)"

definition insiders :: "table \<Rightarrow> nat \<Rightarrow> nat set" where
  "insiders s e = {t. inside e (threads s t)}"

definition user_counts :: "table \<Rightarrow> bool" where
  "user_counts s \<longleftrightarrow> (\<forall>e. finite (insiders s e) \<and> (e \<in> allocated s \<longrightarrow> users (entry_at s e) = card (insiders s e)))"

definition closed_ones :: "table \<Rightarrow> bool" where
  "closed_ones s \<longleftrightarrow> (\<forall>e t.
     (removing e (threads s t) \<or> waits e (threads s t) \<longrightarrow> closing (entry_at s e)) \<and>
     (emptied e (threads s t) \<longrightarrow> users (entry_at s e) = 0) \<and>
     (retiring e (threads s t) \<longrightarrow> retired (entry_at s e)))"

definition one_remover :: "table \<Rightarrow> bool" where
  "one_remover s \<longleftrightarrow> (\<forall>e t u. \<not> retired (entry_at s e) \<and> removing e (threads s t) \<and> removing e (threads s u) \<longrightarrow> t = u)"

definition stopped_safe :: "table \<Rightarrow> bool" where
  "stopped_safe s \<longleftrightarrow> (\<forall>e \<in> set (stopping s). closing (entry_at s e) \<and> users (entry_at s e) = 0 \<and>
     (\<not> retired (entry_at s e) \<longrightarrow> (\<forall>t. \<not> removing e (threads s t))))"

definition table_inv :: "table \<Rightarrow> bool" where
  "table_inv s \<longleftrightarrow> known s \<and> user_counts s \<and> closed_ones s \<and> one_remover s \<and> stopped_safe s"

lemmas phase_defs = inside_def removing_def emptied_def retiring_def waits_def


lemmas section_defs = enter_def leave_def close_entry_def reopen_def retire_def

lemma findLocked_known: "findLocked name s = Some e \<Longrightarrow> e \<in> set (entries s)"
  by (auto simp: findLocked_def find_Some_iff)

lemma insert_frame:
  assumes "table_insert address name v s = (ok, s')"
  shows "threads s' = threads s" "stopping s' = stopping s" "entry_at s' = (entry_at s)(address := new_entry name v)"
    "allocated s' = insert address (allocated s)" "set (entries s') \<subseteq> insert address (set (entries s))"
  using assms by (auto simp: table_insert_def Let_def split: if_splits)

lemma moved_frame [simp]:
  "threads (moved t p s) = (threads s)(t := p)" "entries (moved t p s) = entries s" "entry_at (moved t p s) = entry_at s"
  "allocated (moved t p s) = allocated s" "stopping (moved t p s) = stopping s" "kept (moved t p s) = kept s"
  by (simp_all add: moved_def)

lemma entry_step_mentions: "entry_step e x p x' p' \<Longrightarrow> e \<in> mentions p \<and> mentions p' \<subseteq> mentions p"
  by (induction rule: entry_step.induct) auto

lemma knownD: "known s \<Longrightarrow> threads s t = p \<Longrightarrow> e \<in> mentions p \<Longrightarrow> e \<in> allocated s"
  unfolding known_def by blast

lemma known_moved: "known s \<Longrightarrow> mentions p \<subseteq> allocated s \<Longrightarrow> known (moved t p s)"
  by (auto simp: known_def)

lemma known_entries: "known s \<Longrightarrow> set es \<subseteq> set (entries s) \<Longrightarrow> known (s\<lparr>entries := es\<rparr>)"
  by (auto simp: known_def)

lemma known_stopping: "known s \<Longrightarrow> e \<in> allocated s \<Longrightarrow> known (s\<lparr>stopping := stopping s @ [e]\<rparr>)"
  by (auto simp: known_def)

lemma known_frame: "known s \<Longrightarrow> known (s\<lparr>entry_at := f\<rparr>)" "known s \<Longrightarrow> known (s\<lparr>kept := ks\<rparr>)"
  by (simp_all add: known_def)

lemma known_step: "table_step s s' \<Longrightarrow> known s \<Longrightarrow> known s'"
proof (induction rule: table_step.induct)
  case (inserted address s name v ok s')
  from inserted(1,3) insert_frame [OF inserted(2)] show ?case by (auto simp: known_def)
next
  case (on_entry e s t x p)
  have "mentions p \<subseteq> allocated s"
    using entry_step_mentions [OF on_entry(1)] knownD [OF on_entry(2) refl, of _ t] by blast
  with on_entry(2) show ?case by (intro known_frame known_moved)
next
  case (with_found s t name e)
  then show ?case using findLocked_known [of name s e] by (intro known_moved) (auto simp: known_def)
next
  case (snapshot s t)
  then show ?case by (intro known_moved) (auto simp: known_def)
next
  case (remove_found s t name e)
  then show ?case using findLocked_known [of name s e] by (intro known_moved) (auto simp: known_def)
next
  case (erased s t e)
  have e: "e \<in> allocated s" using knownD [OF erased(2,1)] by simp
  have "known (moved t Outside s)" using erased(2) by (intro known_moved) simp_all
  from known_stopping [OF known_entries [OF this, of "removeAll e (entries s)"]] e show ?case by auto
next
  case (taken s t)
  then have "known (moved t (Taking (entries s)) s)" by (intro known_moved) (auto simp: known_def)
  from known_entries [OF this, of "[]"] show ?case by simp
next
  case (taken_idle s t e es)
  have e: "e \<in> allocated s" "set es \<subseteq> allocated s" using knownD [OF taken_idle(3,1)] by auto
  then have "known (moved t (Taking es) s)" using taken_idle(3) by (intro known_moved) simp_all
  from known_stopping [OF this] e show ?case by simp
next
  case (taken_busy s t e es)
  have "set es \<subseteq> allocated s" using knownD [OF taken_busy(3,1)] by auto
  with taken_busy(3) show ?case by (intro known_frame known_moved) simp_all
next
  case (taken_already s t e es)
  have "set es \<subseteq> allocated s" using knownD [OF taken_already(3,1)] by auto
  with taken_already(3) show ?case by (intro known_frame known_moved) simp_all
qed (auto intro: known_moved)

text \<open>What a section does to the entry and to its thread's phase, as far as the invariant goes.\<close>

lemma entry_step_other: "entry_step e x p x' p' \<Longrightarrow> d \<noteq> e \<Longrightarrow>
    inside d p' = inside d p \<and> removing d p' = removing d p \<and> emptied d p' = emptied d p \<and>
    retiring d p' = retiring d p \<and> waits d p' = waits d p"
  by (induction rule: entry_step.induct) (auto simp: phase_defs)

lemma entry_step_users: "entry_step e x p x' p' \<Longrightarrow>
    (inside e p = inside e p' \<and> users x' = users x) \<or>
    (\<not> inside e p \<and> inside e p' \<and> users x' = users x + 1 \<and> \<not> closing x) \<or>
    (inside e p \<and> \<not> inside e p' \<and> users x' = users x - 1)"
  by (induction rule: entry_step.induct) (auto simp: phase_defs section_defs split: if_splits)

lemma entry_step_closing: "entry_step e x p x' p' \<Longrightarrow> closing x \<Longrightarrow>
    closing x' \<or> (p = Timed_out e \<and> \<not> retired x)"
  by (induction rule: entry_step.induct) (auto simp: section_defs split: if_splits)

lemma entry_step_retired: "entry_step e x p x' p' \<Longrightarrow> retired x \<Longrightarrow> retired x'"
  by (induction rule: entry_step.induct) (auto simp: section_defs split: if_splits)

lemma entry_step_removing: "entry_step e x p x' p' \<Longrightarrow> removing e p' \<Longrightarrow>
    (removing e p \<longrightarrow> closing x) \<Longrightarrow> closing x' \<and> (removing e p \<or> (closing x \<longrightarrow> retired x))"
  by (induction rule: entry_step.induct) (auto simp: phase_defs section_defs split: if_splits)

text \<open>Steps that leave the entries alone and end in a phase that claims nothing.\<close>

definition calm :: "phase \<Rightarrow> bool" where
  "calm p \<longleftrightarrow> (\<forall>d. \<not> inside d p \<and> \<not> removing d p \<and> \<not> emptied d p \<and> \<not> retiring d p \<and> \<not> waits d p)"

lemma calm_phases [simp]:
  "calm Outside" "calm (Found e)" "calm (Each es)" "calm (To_close e)" "calm (Taking es)"
  by (simp_all add: calm_def phase_defs)

definition core :: "table \<Rightarrow> bool" where
  "core s \<longleftrightarrow> user_counts s \<and> closed_ones s \<and> one_remover s \<and> stopped_safe s"

lemma insiders_same:
  "(\<And>d. inside d p = inside d (threads s t)) \<Longrightarrow> insiders (moved t p s) e = insiders s e"
  by (auto simp: insiders_def)

lemma core_calm:
  assumes "core s" "calm p" "\<forall>d. \<not> inside d (threads s t)"
  shows "core (moved t p s)"
proof -
  have "user_counts (moved t p s)"
    using assms insiders_same [of p s t] by (simp add: core_def user_counts_def calm_def)
  moreover have "closed_ones (moved t p s)" using assms by (simp add: core_def closed_ones_def calm_def)
  moreover have "one_remover (moved t p s)" using assms by (auto simp: core_def one_remover_def calm_def)
  moreover have "stopped_safe (moved t p s)" using assms by (simp add: core_def stopped_safe_def calm_def)
  ultimately show ?thesis by (simp add: core_def)
qed

lemma core_frame [simp]: "core (s\<lparr>entries := es\<rparr>) = core s" "core (s\<lparr>kept := ks\<rparr>) = core s"
  "core (s\<lparr>entries := es, stopping := ss\<rparr>) = core (s\<lparr>stopping := ss\<rparr>)"
  by (simp_all add: core_def user_counts_def closed_ones_def one_remover_def stopped_safe_def insiders_def)

lemma core_stopping:
  assumes "core s" "closing (entry_at s e)" "users (entry_at s e) = 0"
    "\<not> retired (entry_at s e) \<Longrightarrow> \<forall>t. \<not> removing e (threads s t)"
  shows "core (s\<lparr>stopping := stopping s @ [e]\<rparr>)"
  using assms by (simp add: core_def user_counts_def closed_ones_def one_remover_def stopped_safe_def insiders_def)

lemma core_inserted:
  assumes "core s" "known s" "address \<notin> allocated s" "table_insert address name v s = (ok, s')"
  shows "core s'"
proof -
  note f = insert_frame [OF assms(4)]
  have no: "\<not> inside address (threads s t) \<and> \<not> removing address (threads s t) \<and> \<not> emptied address (threads s t) \<and>
      \<not> retiring address (threads s t) \<and> \<not> waits address (threads s t)" for t
    using knownD [OF assms(2) refl, of address t] assms(3) by (auto simp: phase_defs)
  then have "insiders s address = {}" by (simp add: insiders_def)
  moreover have "insiders s' = insiders s" by (simp add: insiders_def f fun_eq_iff)
  ultimately have "user_counts s'"
    using assms(1) by (auto simp: core_def user_counts_def f new_entry_def)
  moreover have "closed_ones s'" using assms(1) no by (auto simp: core_def closed_ones_def f)
  moreover have "one_remover s'" using assms(1) no by (auto simp: core_def one_remover_def f)
  moreover have "address \<notin> set (stopping s)" using assms(2,3) by (auto simp: known_def)
  then have "stopped_safe s'" using assms(1) by (auto simp: core_def stopped_safe_def f)
  ultimately show ?thesis by (simp add: core_def)
qed

section \<open>Sections keep the invariant\<close>

lemma users_step:
  assumes "core s" "known s" "entry_step e (entry_at s e) (threads s t) x p"
  shows "user_counts (moved t p s\<lparr>entry_at := (entry_at s)(e := x)\<rparr>)"
proof -
  let ?s = "moved t p s\<lparr>entry_at := (entry_at s)(e := x)\<rparr>"
  have fin: "finite (insiders s d)" "d \<in> allocated s \<Longrightarrow> users (entry_at s d) = card (insiders s d)" for d
    using assms(1) by (simp_all add: core_def user_counts_def)
  have e: "e \<in> allocated s"
    using entry_step_mentions [OF assms(3)] knownD [OF assms(2) refl] by blast
  have ins: "insiders ?s d = (if inside d p then insert t (insiders s d) else insiders s d - {t})" for d
    by (auto simp: insiders_def)
  have t: "t \<in> insiders s d \<longleftrightarrow> inside d (threads s t)" for d by (simp add: insiders_def)
  have "users (entry_at ?s d) = card (insiders ?s d)" if "d \<in> allocated s" for d
  proof (cases "d = e")
    case False
    have i: "inside d p = inside d (threads s t)" using entry_step_other [OF assms(3) False] by blast
    then have "insiders ?s d = insiders s d" unfolding ins using t [of d] by auto
    with fin(2) [OF that] False show ?thesis by simp
  next
    case True
    from entry_step_users [OF assms(3)] consider
      "inside e (threads s t) = inside e p" "users x = users (entry_at s e)"
      | "\<not> inside e (threads s t)" "inside e p" "users x = users (entry_at s e) + 1"
      | "inside e (threads s t)" "\<not> inside e p" "users x = users (entry_at s e) - 1"
      by blast
    then show ?thesis
    proof cases
      case 1
      then have "insiders ?s e = insiders s e" unfolding ins using t [of e] by auto
      with fin(2) [OF e] 1(2) True show ?thesis by simp
    next
      case 2
      then show ?thesis using fin [of e] e t [of e] True by (simp add: ins)
    next
      case 3
      then show ?thesis using fin [of e] e t [of e] True by (simp add: ins)
    qed
  qed
  moreover have "finite (insiders ?s d)" for d unfolding ins using fin(1) by simp
  ultimately show ?thesis by (simp add: user_counts_def)
qed

lemma entry_step_waits: "entry_step e x p x' p' \<Longrightarrow> waits e p' \<Longrightarrow> (waits e p \<longrightarrow> closing x) \<Longrightarrow> closing x'"
  by (induction rule: entry_step.induct) (auto simp: phase_defs section_defs split: if_splits)

lemma entry_step_emptied: "entry_step e x p x' p' \<Longrightarrow> emptied e p' \<Longrightarrow> (emptied e p \<longrightarrow> users x = 0) \<Longrightarrow> users x' = 0"
  by (induction rule: entry_step.induct) (auto simp: phase_defs section_defs split: if_splits)

lemma entry_step_retiring: "entry_step e x p x' p' \<Longrightarrow> retiring e p' \<Longrightarrow> (retiring e p \<longrightarrow> retired x) \<Longrightarrow> retired x'"
  by (induction rule: entry_step.induct) (auto simp: phase_defs section_defs split: if_splits)

lemma emptied_removing: "emptied e p \<Longrightarrow> removing e p"
  by (auto simp: phase_defs)

lemma waits_retiring: "waits e p \<Longrightarrow> retiring e p"
  by (auto simp: phase_defs)

lemma timed_out_removing: "removing e (Timed_out e)"
  by (simp add: phase_defs)

lemma stays_closed:
  assumes "core s" "entry_step e (entry_at s e) (threads s t) x p" "closing (entry_at s e)"
    and "retired (entry_at s e) \<or> (\<forall>u. removing e (threads s u) \<longrightarrow> u \<noteq> t)"
  shows "closing x"
  using entry_step_closing [OF assms(2,3)] assms(4) timed_out_removing by metis

lemma closed_step:
  assumes "core s" "entry_step e (entry_at s e) (threads s t) x p"
  shows "closed_ones (moved t p s\<lparr>entry_at := (entry_at s)(e := x)\<rparr>)"
proof -
  let ?s = "moved t p s\<lparr>entry_at := (entry_at s)(e := x)\<rparr>"
  have c: "removing d (threads s u) \<or> waits d (threads s u) \<Longrightarrow> closing (entry_at s d)"
    "emptied d (threads s u) \<Longrightarrow> users (entry_at s d) = 0"
    "retiring d (threads s u) \<Longrightarrow> retired (entry_at s d)" for d u
    using assms(1) by (auto simp: core_def closed_ones_def)
  have one: "\<not> retired (entry_at s d) \<Longrightarrow> removing d (threads s u) \<Longrightarrow> removing d (threads s v) \<Longrightarrow> u = v" for d u v
    using assms(1) by (auto simp: core_def one_remover_def)
  have "(removing d (threads ?s u) \<or> waits d (threads ?s u) \<longrightarrow> closing (entry_at ?s d)) \<and>
     (emptied d (threads ?s u) \<longrightarrow> users (entry_at ?s d) = 0) \<and>
     (retiring d (threads ?s u) \<longrightarrow> retired (entry_at ?s d))" for d u
  proof (cases "d = e")
    case False
    then show ?thesis using c [of d] entry_step_other [OF assms(2) False] by auto
  next
    case d: True
    show ?thesis
    proof (cases "u = t")
      case True
      then show ?thesis
        using d c [of e t] entry_step_removing [OF assms(2)] entry_step_waits [OF assms(2)]
          entry_step_emptied [OF assms(2)] entry_step_retiring [OF assms(2)] by auto
    next
      case False
      have "closing x" if r: "removing e (threads s u) \<or> waits e (threads s u)"
      proof (rule stays_closed [OF assms c(1) [OF r]])
        show "retired (entry_at s e) \<or> (\<forall>v. removing e (threads s v) \<longrightarrow> v \<noteq> t)"
          using r one [of e u] False c(3) waits_retiring by blast
      qed
      moreover have "users x = 0" if m: "emptied e (threads s u)"
      proof -
        have "users (entry_at s e) = 0" "closing (entry_at s e)" using c [of e u] m emptied_removing by blast+
        with entry_step_users [OF assms(2)] show ?thesis by auto
      qed
      moreover have "retired x" if "retiring e (threads s u)"
        using entry_step_retired [OF assms(2)] c(3) that by blast
      ultimately show ?thesis using d False by simp
    qed
  qed
  then show ?thesis unfolding closed_ones_def by blast
qed

lemma one_step:
  assumes "core s" "entry_step e (entry_at s e) (threads s t) x p"
  shows "one_remover (moved t p s\<lparr>entry_at := (entry_at s)(e := x)\<rparr>)"
proof -
  let ?s = "moved t p s\<lparr>entry_at := (entry_at s)(e := x)\<rparr>"
  have c: "removing d (threads s u) \<Longrightarrow> closing (entry_at s d)" for d u
    using assms(1) by (auto simp: core_def closed_ones_def)
  have one: "\<not> retired (entry_at s d) \<Longrightarrow> removing d (threads s u) \<Longrightarrow> removing d (threads s v) \<Longrightarrow> u = v" for d u v
    using assms(1) by (auto simp: core_def one_remover_def)
  have "u = v" if r: "\<not> retired (entry_at ?s d)" "removing d (threads ?s u)" "removing d (threads ?s v)" for d u v
  proof (cases "d = e")
    case False
    then show ?thesis using r one [of d u v] entry_step_other [OF assms(2) False] by (auto split: if_splits)
  next
    case True
    have nr: "\<not> retired (entry_at s e)" using r(1) True entry_step_retired [OF assms(2)] by auto
    have "removing e (threads s t) \<or> \<not> closing (entry_at s e)" if "removing e p"
      using entry_step_removing [OF assms(2) that] c nr by blast
    then show ?thesis using r True nr one [of e] c [of e] by (auto split: if_splits)
  qed
  then show ?thesis unfolding one_remover_def by blast
qed

lemma stopped_step:
  assumes "core s" "entry_step e (entry_at s e) (threads s t) x p"
  shows "stopped_safe (moved t p s\<lparr>entry_at := (entry_at s)(e := x)\<rparr>)"
proof -
  let ?s = "moved t p s\<lparr>entry_at := (entry_at s)(e := x)\<rparr>"
  have s: "closing (entry_at s d)" "users (entry_at s d) = 0"
    "\<not> retired (entry_at s d) \<Longrightarrow> \<not> removing d (threads s u)" if "d \<in> set (stopping s)" for d u
    using assms(1) that by (auto simp: core_def stopped_safe_def)
  have "closing (entry_at ?s d) \<and> users (entry_at ?s d) = 0 \<and>
     (\<not> retired (entry_at ?s d) \<longrightarrow> (\<forall>u. \<not> removing d (threads ?s u)))" if d: "d \<in> set (stopping s)" for d
  proof (cases "d = e")
    case False
    then show ?thesis using s [OF d] entry_step_other [OF assms(2) False] by simp
  next
    case True
    have "closing x" using stays_closed [OF assms] s [of e] d True by blast
    moreover have "users x = 0" using entry_step_users [OF assms(2)] s [of e] d True by auto
    moreover have "\<not> removing e (threads ?s u)" if "\<not> retired x" for u
    proof -
      have nr: "\<not> retired (entry_at s e)" using entry_step_retired [OF assms(2)] that by blast
      then have "\<not> removing e p" using entry_step_removing [OF assms(2)] s [of e] d True by blast
      then show ?thesis using s(3) [of e u] d True nr by simp
    qed
    ultimately show ?thesis using True by simp
  qed
  then show ?thesis by (simp add: stopped_safe_def)
qed

lemma core_step: "table_step s s' \<Longrightarrow> core s \<Longrightarrow> known s \<Longrightarrow> core s'"
proof (induction rule: table_step.induct)
  case (inserted address s name v ok s')
  then show ?case using core_inserted by blast
next
  case (on_entry e s t x p)
  then show ?case using users_step closed_step one_step stopped_step by (simp add: core_def)
next
  case (erased s t e)
  have c: "closing (entry_at s e)" "users (entry_at s e) = 0"
    using erased by (auto simp: core_def closed_ones_def phase_defs)
  have "core (moved t Outside s)" using erased by (intro core_calm) (simp_all add: phase_defs)
  moreover have "\<not> removing e (threads (moved t Outside s) u)" if "\<not> retired (entry_at s e)" for u
  proof (cases "u = t")
    case True
    then show ?thesis by (simp add: phase_defs)
  next
    case False
    have "removing e (threads s t)" using erased(1) by (simp add: phase_defs)
    with False that erased(2) show ?thesis by (auto simp: core_def one_remover_def)
  qed
  ultimately have "core (moved t Outside s\<lparr>stopping := stopping (moved t Outside s) @ [e]\<rparr>)"
    using c by (intro core_stopping) simp_all
  then show ?case by simp
next
  case (taken_idle s t e es)
  have "core (moved t (Taking es) s)" using taken_idle by (intro core_calm) (simp_all add: phase_defs)
  moreover have "closing (entry_at s e)" "retired (entry_at s e)"
    using taken_idle by (auto simp: core_def closed_ones_def phase_defs)
  ultimately have "core (moved t (Taking es) s\<lparr>stopping := stopping (moved t (Taking es) s) @ [e]\<rparr>)"
    using taken_idle by (intro core_stopping) simp_all
  then show ?case by simp
qed (auto intro!: core_calm simp: phase_defs)

lemma table_inv_step: "table_inv s \<Longrightarrow> table_step s s' \<Longrightarrow> table_inv s'"
  using known_step core_step by (simp add: table_inv_def core_def)

interpretation sources: transition_system table_step table_inv
  by unfold_locales (rule table_inv_step)

lemma empty_table_inv: "table_inv empty_table"
  by (simp add: table_inv_def known_def user_counts_def closed_ones_def one_remover_def stopped_safe_def
      insiders_def empty_table_def phase_defs)

text \<open>Handing over once: only an entry \<open>takeAll\<close> retired can be handed over again.\<close>

definition handed_once :: "table \<Rightarrow> bool" where
  "handed_once s \<longleftrightarrow> (\<forall>e. \<not> retired (entry_at s e) \<longrightarrow> count_list (stopping s) e \<le> 1)"

lemma handed_step: "table_step s s' \<Longrightarrow> table_inv s \<Longrightarrow> handed_once s \<Longrightarrow> handed_once s'"
proof (induction rule: table_step.induct)
  case (inserted address s name v ok s')
  note f = insert_frame [OF inserted(2)]
  have "address \<notin> set (stopping s)" using inserted(1,3) by (auto simp: table_inv_def known_def)
  then have "count_list (stopping s) address = 0" by (simp add: count_list_0_iff)
  with inserted(4) show ?case by (simp add: handed_once_def f)
next
  case (on_entry e s t x p)
  then show ?case using entry_step_retired [OF on_entry(1)] by (auto simp: handed_once_def)
next
  case (erased s t e)
  have "removing e (threads s t)" using erased(1) by (simp add: phase_defs)
  then have "\<not> retired (entry_at s e) \<Longrightarrow> e \<notin> set (stopping s)"
    using erased(2) by (auto simp: table_inv_def stopped_safe_def)
  then have "\<not> retired (entry_at s e) \<Longrightarrow> count_list (stopping s) e = 0" by (simp add: count_list_0_iff)
  with erased(3) show ?case by (simp add: handed_once_def)
next
  case (taken_idle s t e es)
  then have "retired (entry_at s e)" by (auto simp: table_inv_def closed_ones_def phase_defs)
  with taken_idle(4) show ?case by (auto simp: handed_once_def)
qed (simp_all add: handed_once_def)

lemma reachable_handed:
  assumes "table_step\<^sup>*\<^sup>* empty_table s"
  shows "table_inv s \<and> handed_once s"
  using assms
proof (induction rule: rtranclp_induct)
  case base
  show ?case using empty_table_inv by (simp add: handed_once_def empty_table_def)
next
  case (step s s')
  then show ?case using table_inv_step handed_step by blast
qed

section \<open>Properties\<close>

text \<open>
  C10: under every interleaving of requests, walks over the table, removals and the shutdown, an
  engine that was handed over to be stopped has no call inside it, and none can ever enter it
  again: it is closed, its count of users is zero and no thread is in it, in every later state too.
\<close>

theorem nothing_stopped_in_use:
  assumes "table_step\<^sup>*\<^sup>* empty_table s" "table_step\<^sup>*\<^sup>* s s'" "e \<in> set (stopping s)"
  shows "users (entry_at s' e) = 0 \<and> (\<forall>t. threads s' t \<noteq> Inside e \<and> (\<forall>es. threads s' t \<noteq> Inside_each e es)) \<and>
    enter (entry_at s' e) = (False, entry_at s' e)"
proof -
  have i: "table_inv s'"
    using sources.reachable_inv [OF rtranclp_trans [OF assms(1,2)] empty_table_inv] .
  have grows: "table_step r r' \<Longrightarrow> set (stopping r) \<subseteq> set (stopping r')" for r r'
    by (induction rule: table_step.induct) (auto simp: insert_frame)
  have e: "e \<in> set (stopping s')"
    using assms(2,3) by (induction rule: rtranclp_induct) (use grows in blast)+
  then have c: "closing (entry_at s' e)" "users (entry_at s' e) = 0"
    using i by (auto simp: table_inv_def stopped_safe_def)
  have "e \<in> allocated s'" using e i by (auto simp: table_inv_def known_def)
  then have "insiders s' e = {}" using i c(2) by (simp add: table_inv_def user_counts_def)
  then show ?thesis using c by (auto simp: insiders_def inside_def enter_def)
qed

text \<open>
  Without a shutdown under way an engine is handed over to be stopped at most once, however
  many removals of it race, and an entry whose removal gave up is as it was.
\<close>

theorem removed_once:
  assumes "table_step\<^sup>*\<^sup>* empty_table s" "\<not> retired (entry_at s e)"
  shows "count_list (stopping s) e \<le> 1 \<and>
    (\<forall>x. \<not> closing (entry_at s e) \<longrightarrow> close_entry (entry_at s e) = Some x \<longrightarrow> reopen x = entry_at s e)"
  using reachable_handed [OF assms(1)] assms(2)
  by (auto simp: handed_once_def close_entry_def reopen_def intro: entry.equality)

text \<open>
  The shutdown can hand over an engine a removal is about to hand over too: the removal's check that
  the entry is not retired and its erasure are two critical sections, and \<open>takeAll\<close> fits between them.
\<close>

definition on_entry_to :: "nat \<Rightarrow> nat \<Rightarrow> entry \<Rightarrow> phase \<Rightarrow> table \<Rightarrow> table" where
  "on_entry_to t e x p s = moved t p s\<lparr>entry_at := (entry_at s)(e := x)\<rparr>"

lemma on_entryI:
  "entry_step e (entry_at s e) (threads s t) x p \<Longrightarrow> table_step s (on_entry_to t e x p s)"
  unfolding on_entry_to_def by (rule on_entry)

theorem shutdown_hands_over_twice:
  "\<exists>s. table_step\<^sup>*\<^sup>* empty_table s \<and> stopping s = [0, 0]"
proof -
  define x where "x = new_entry ''a'' True"
  define s1 where "s1 = snd (table_insert 0 ''a'' True empty_table)"
  define s2 where "s2 = moved 1 (To_close 0) s1"
  define s3 where "s3 = on_entry_to 1 0 (x\<lparr>closing := True\<rparr>) (Waiting 0) s2"
  define s4 where "s4 = on_entry_to 1 0 (x\<lparr>closing := True\<rparr>) (Emptied 0) s3"
  define s5 where "s5 = on_entry_to 1 0 (x\<lparr>closing := True\<rparr>) (Erasing 0) s4"
  define s6 where "s6 = moved 2 (Taking (entries s5)) s5\<lparr>entries := []\<rparr>"
  define s7 where "s7 = on_entry_to 2 0 (x\<lparr>closing := True, retired := True\<rparr>) (Taking_close 0 []) s6"
  define s8 where "s8 = on_entry_to 2 0 (x\<lparr>closing := True, retired := True\<rparr>) (Taking_wait 0 []) s7"
  define s9 where "s9 = moved 2 (Taking []) s8\<lparr>stopping := stopping s8 @ [0]\<rparr>"
  define s10 where "s10 = moved 1 Outside s9\<lparr>entries := removeAll 0 (entries s9), stopping := stopping s9 @ [0]\<rparr>"
  note ds = s1_def s2_def s3_def s4_def s5_def s6_def s7_def s8_def s9_def on_entry_to_def x_def new_entry_def
    table_insert_def empty_table_def findLocked_def section_defs
  have "table_step empty_table s1"
    by (rule inserted [of 0 _ "''a''" True True]) (simp_all add: ds)
  moreover have "table_step s1 s2" unfolding s2_def by (rule remove_found [of _ _ "''a''"]) (simp_all add: ds)
  moreover have "table_step s2 s3" unfolding s3_def by (rule on_entryI) (simp add: ds entry_step.simps)
  moreover have "table_step s3 s4" unfolding s4_def by (rule on_entryI) (simp add: ds entry_step.simps)
  moreover have "table_step s4 s5" unfolding s5_def by (rule on_entryI) (simp add: ds entry_step.simps)
  moreover have "table_step s5 s6" unfolding s6_def by (rule taken) (simp add: ds)
  moreover have "table_step s6 s7" unfolding s7_def by (rule on_entryI) (simp add: ds entry_step.simps)
  moreover have "table_step s7 s8" unfolding s8_def by (rule on_entryI) (simp add: ds entry_step.simps)
  moreover have "table_step s8 s9" unfolding s9_def by (rule taken_idle) (simp_all add: ds)
  moreover have "table_step s9 s10" unfolding s10_def by (rule erased) (simp add: ds)
  ultimately have "table_step\<^sup>*\<^sup>* empty_table s10" by (meson converse_rtranclp_into_rtranclp rtranclp.rtrancl_refl)
  moreover have "stopping s10 = [0, 0]" by (simp add: s10_def ds)
  ultimately show ?thesis by blast
qed

theorem nothing_stopped_in_use_witness:
  "\<exists>s :: table. stopping s = [0, 0] \<and> users (entry_at s 0) = 0 \<and> enter (entry_at s 0) = (False, entry_at s 0)"
proof -
  obtain s where s: "table_step\<^sup>*\<^sup>* empty_table s" "stopping s = [0, 0]" using shutdown_hands_over_twice by blast
  then have "0 \<in> set (stopping s)" by simp
  from nothing_stopped_in_use [OF s(1) rtranclp.rtrancl_refl this] s(2) show ?thesis by blast
qed

theorem removed_once_witness:
  "reopen ((new_entry ''a'' True)\<lparr>closing := True\<rparr>) = new_entry ''a'' True"
proof -
  let ?s = "snd (table_insert 0 ''a'' True empty_table)"
  have e: "entry_at ?s 0 = new_entry ''a'' True"
    by (simp add: table_insert_def empty_table_def findLocked_def)
  have "table_step empty_table ?s"
    by (rule inserted [of 0 _ "''a''" True True]) (simp_all add: table_insert_def empty_table_def findLocked_def)
  then have r: "table_step\<^sup>*\<^sup>* empty_table ?s" by simp
  have "\<not> retired (entry_at ?s 0)" unfolding e by (simp add: new_entry_def)
  from removed_once [OF r this] show ?thesis unfolding e by (simp add: new_entry_def close_entry_def)
qed

end
