(* ===== verification/Output_Slot.thy ===== *)
theory Output_Slot
  imports Json Video_Format
begin

text \<open>
  \<open>core/call_gate.h\<close> and \<open>outputs/output_slot.h\<close>: one output, the gate every call into it goes
  through, its generation and the description the clock plans with. Threads interleave at the
  gate's mutex and at the mutex of the published description; an output is an identity that is never
  used twice, even where its address is.
\<close>

section \<open>The gate\<close>

text \<open>A reading of the clock that is never zero, and what the gate tells from it.\<close>

definition nowNanos :: "int \<Rightarrow> int" where
  "nowNanos now = (if now = 0 then 1 else now)"

definition busyNanos :: "int \<Rightarrow> int \<Rightarrow> int" where
  "busyNanos since now = (if since = 0 then 0 else nowNanos now - since)"

definition wedged :: "int \<Rightarrow> int \<Rightarrow> int \<Rightarrow> bool" where
  "wedged wedgedAfter since now \<longleftrightarrow> wedgedAfter < busyNanos since now"

text \<open>Until when \<open>tryRun\<close> waits for the mutex.\<close>

definition gate_deadline :: "int \<Rightarrow> int \<Rightarrow> int \<Rightarrow> int \<Rightarrow> int" where
  "gate_deadline wedgedAfter since now deadline = (if wedged wedgedAfter since now then now else deadline)"

definition atLeast :: "int \<Rightarrow> int \<Rightarrow> int \<Rightarrow> int" where
  "atLeast now shared minimum = (let least = now + minimum in if least < shared then shared else least)"

section \<open>State\<close>

text \<open>What an output says of itself, fixed for its life.\<close>

record traits =
  out_format :: pixel_format
  out_straight :: bool
  out_audio :: bool

record description =
  generation_of :: nat
  present :: bool
  pixelFormat :: pixel_format
  straightAlpha :: bool
  wantsAudio :: bool

definition describe :: "(nat \<Rightarrow> traits) \<Rightarrow> nat \<Rightarrow> nat option \<Rightarrow> description" where
  "describe of_object gen object = (case object of
      None \<Rightarrow> \<lparr>generation_of = gen, present = False, pixelFormat = BGRA, straightAlpha = False, wantsAudio = False\<rparr>
    | Some obj \<Rightarrow> \<lparr>generation_of = gen, present = True, pixelFormat = out_format (of_object obj),
        straightAlpha = out_straight (of_object obj), wantsAudio = out_audio (of_object obj)\<rparr>)"

text \<open>What a caller wants the gate for.\<close>

datatype job = Call nat | Exclusive | Replace "nat option" | Status

text \<open>
  A thread that has the mutex: before it has marked the gate busy, inside the output, inside the
  function of \<open>replace\<close>, after it, after the function, and with the mark cleared.
\<close>

datatype at_gate =
    Away | Locked job | Calling job nat | Replacing "nat option" | Refreshing | Finishing | Unlocking

record output_slot =
  holder :: "nat option"
  busySince :: int
  refusals :: nat
  the_output :: "nat option"
  generation :: nat
  slot_description :: description
  callers :: "nat \<Rightarrow> at_gate"
  destroyed :: "nat set"
  history :: "nat \<Rightarrow> nat option"   \<comment> \<open>the output of each generation\<close>

definition mk_slot :: "(nat \<Rightarrow> traits) \<Rightarrow> nat option \<Rightarrow> output_slot" where
  "mk_slot of_object object = \<lparr>holder = None, busySince = 0, refusals = 0, the_output = object, generation = 1,
     slot_description = describe of_object 1 object, callers = (\<lambda>_. Away), destroyed = {}, history = (\<lambda>_. object)\<rparr>"

section \<open>Steps\<close>

definition goes :: "nat \<Rightarrow> at_gate \<Rightarrow> output_slot \<Rightarrow> output_slot" where
  "goes t p s = s\<lparr>callers := (callers s)(t := p)\<rparr>"

text \<open>Where the function given to the gate goes once it runs.\<close>

fun run_job :: "output_slot \<Rightarrow> job \<Rightarrow> at_gate" where
  "run_job s (Call gen) = (case the_output s of
      Some obj \<Rightarrow> if generation s = gen then Calling (Call gen) obj else Finishing
    | None \<Rightarrow> Finishing)"
| "run_job s (Replace new) = Replacing new"
| "run_job s j = (case the_output s of Some obj \<Rightarrow> Calling j obj | None \<Rightarrow> Finishing)"

inductive slot_step :: "(nat \<Rightarrow> traits) \<Rightarrow> output_slot \<Rightarrow> output_slot \<Rightarrow> bool" for of_object where
  refused: "callers s t = Away \<Longrightarrow> slot_step of_object s (s\<lparr>refusals := refusals s + 1\<rparr>)"
| lock: "callers s t = Away \<Longrightarrow> holder s = None \<Longrightarrow> slot_step of_object s (goes t (Locked j) s\<lparr>holder := Some t\<rparr>)"
| run: "callers s t = Locked j \<Longrightarrow> slot_step of_object s (goes t (run_job s j) s\<lparr>busySince := nowNanos now\<rparr>)"
| returned: "callers s t = Calling j obj \<Longrightarrow> slot_step of_object s (goes t Finishing s)"
| replace: "callers s t = Replacing new \<Longrightarrow>
    new = the_output s \<or> new = None \<or> (\<exists>obj. new = Some obj \<and> obj \<notin> destroyed s \<and> (\<forall>g \<le> generation s. history s g \<noteq> Some obj)) \<Longrightarrow>
    slot_step of_object s (goes t Refreshing s\<lparr>the_output := new,
      destroyed := (if new = the_output s then destroyed s else destroyed s \<union> set_option (the_output s))\<rparr>)"
| refresh: "callers s t = Refreshing \<Longrightarrow>
    slot_step of_object s (goes t Finishing s\<lparr>generation := generation s + 1,
      history := (history s)(generation s + 1 := the_output s),
      slot_description := describe of_object (generation s + 1) (the_output s)\<rparr>)"
| finish: "callers s t = Finishing \<Longrightarrow> slot_step of_object s (goes t Unlocking s\<lparr>busySince := 0\<rparr>)"
| unlock: "callers s t = Unlocking \<Longrightarrow> slot_step of_object s (goes t Away s\<lparr>holder := None\<rparr>)"

inductive_cases slot_stepE: "slot_step of_object s s'"

section \<open>Invariant\<close>

definition one_holder :: "(nat \<Rightarrow> at_gate) \<Rightarrow> nat option \<Rightarrow> bool" where
  "one_holder c h \<longleftrightarrow> (\<forall>t. (c t \<noteq> Away) = (h = Some t))"

definition held_by_one :: "output_slot \<Rightarrow> bool" where
  "held_by_one s \<longleftrightarrow> one_holder (callers s) (holder s)"

definition busy_marked :: "output_slot \<Rightarrow> bool" where
  "busy_marked s \<longleftrightarrow> (busySince s \<noteq> 0 \<longrightarrow>
     (\<exists>t. holder s = Some t \<and> callers s t \<noteq> Unlocking \<and> (\<forall>j. callers s t \<noteq> Locked j)))"

definition alive :: "output_slot \<Rightarrow> bool" where
  "alive s \<longleftrightarrow> (\<forall>obj. the_output s = Some obj \<longrightarrow> obj \<notin> destroyed s) \<and>
     (\<forall>t j obj. callers s t = Calling j obj \<longrightarrow> the_output s = Some obj \<and> (\<forall>g. j = Call g \<longrightarrow> g = generation s))"

text \<open>The generation names the output, except while \<open>replace\<close> is at work.\<close>

definition named :: "(nat \<Rightarrow> traits) \<Rightarrow> output_slot \<Rightarrow> bool" where
  "named of_object s \<longleftrightarrow> ((\<forall>t. callers s t \<noteq> Refreshing) \<longrightarrow> history s (generation s) = the_output s) \<and>
     slot_description s = describe of_object (generation s) (history s (generation s))"

definition slot_inv :: "(nat \<Rightarrow> traits) \<Rightarrow> output_slot \<Rightarrow> bool" where
  "slot_inv of_object s \<longleftrightarrow> held_by_one s \<and> busy_marked s \<and> alive s \<and> named of_object s"

lemma goes_frame [simp]:
  "callers (goes t p s) = (callers s)(t := p)" "holder (goes t p s) = holder s" "busySince (goes t p s) = busySince s"
  "the_output (goes t p s) = the_output s" "generation (goes t p s) = generation s" "destroyed (goes t p s) = destroyed s"
  "history (goes t p s) = history s" "slot_description (goes t p s) = slot_description s"
  by (simp_all add: goes_def)

lemma run_job_not_away [simp]: "run_job s j \<noteq> Away" "run_job s j \<noteq> Unlocking" "run_job s j \<noteq> Locked k"
  "run_job s j \<noteq> Refreshing"
  by (cases j; simp split: option.splits)+

lemma run_job_calling: "run_job s j = Calling k obj \<Longrightarrow> k = j \<and> the_output s = Some obj \<and> (\<forall>g. j = Call g \<longrightarrow> g = generation s)"
  by (cases j) (auto split: option.splits if_splits)

lemma alone: "held_by_one s \<Longrightarrow> callers s t \<noteq> Away \<Longrightarrow> u \<noteq> t \<Longrightarrow> callers s u = Away"
  unfolding held_by_one_def one_holder_def by (metis option.inject)

lemma holds: "held_by_one s \<Longrightarrow> callers s t \<noteq> Away \<Longrightarrow> holder s = Some t"
  unfolding held_by_one_def one_holder_def by blast

lemma one_holder_upd: "one_holder c h \<Longrightarrow> c t \<noteq> Away \<Longrightarrow> p \<noteq> Away \<Longrightarrow> one_holder (c(t := p)) h"
  unfolding one_holder_def by (metis fun_upd_apply)

lemma held_goes: "held_by_one s \<Longrightarrow> callers s t \<noteq> Away \<Longrightarrow> p \<noteq> Away \<Longrightarrow> held_by_one (goes t p s)"
  by (simp add: held_by_one_def one_holder_upd)

lemma held_frame [simp]:
  "held_by_one (s\<lparr>busySince := b\<rparr>) = held_by_one s" "held_by_one (s\<lparr>refusals := n\<rparr>) = held_by_one s"
  "held_by_one (s\<lparr>the_output := x, destroyed := d\<rparr>) = held_by_one s"
  "held_by_one (s\<lparr>generation := g, history := h, slot_description := e\<rparr>) = held_by_one s"
  "held_by_one (s\<lparr>generation := g, slot_description := e, history := h\<rparr>) = held_by_one s"
  by (simp_all add: held_by_one_def)

lemma held_step: "slot_step of_object s s' \<Longrightarrow> held_by_one s \<Longrightarrow> held_by_one s'"
proof (induction rule: slot_step.induct)
  case (lock s t j)
  then have "\<forall>u. callers s u = Away" unfolding held_by_one_def one_holder_def by (metis option.distinct(1))
  then show ?case by (simp add: held_by_one_def one_holder_def)
next
  case (unlock s t)
  then have "\<forall>u. u \<noteq> t \<longrightarrow> callers s u = Away" using alone by fastforce
  then show ?case by (simp add: held_by_one_def one_holder_def)
qed (auto intro: held_goes)

lemma busy_step: "slot_step of_object s s' \<Longrightarrow> held_by_one s \<Longrightarrow> busy_marked s \<Longrightarrow> busy_marked s'"
proof (induction rule: slot_step.induct)
  case (lock s t j)
  then show ?case by (auto simp: busy_marked_def)
next
  case (run s t j now)
  then show ?case using holds [of s t] by (auto simp: busy_marked_def)
next
  case (unlock s t)
  then have "holder s = Some t" using holds by simp
  with unlock have "busySince s = 0" by (auto simp: busy_marked_def)
  then show ?case by (simp add: busy_marked_def)
qed (use holds in \<open>auto simp: busy_marked_def\<close>)


lemma alive_goes:
  "alive s \<Longrightarrow> (\<And>j obj. p = Calling j obj \<Longrightarrow> the_output s = Some obj \<and> (\<forall>g. j = Call g \<longrightarrow> g = generation s)) \<Longrightarrow>
   alive (goes t p s)"
  by (simp add: alive_def)

lemma alive_frame [simp]:
  "alive (s\<lparr>busySince := b\<rparr>) = alive s" "alive (s\<lparr>refusals := n\<rparr>) = alive s" "alive (s\<lparr>holder := h\<rparr>) = alive s"
  by (simp_all add: alive_def)

lemma named_goes:
  assumes "named of_object s" "callers s t \<noteq> Refreshing" "p \<noteq> Refreshing"
  shows "named of_object (goes t p s)"
proof -
  have "\<forall>u. callers s u \<noteq> Refreshing" if "\<forall>u. callers (goes t p s) u \<noteq> Refreshing"
  proof
    fix u
    show "callers s u \<noteq> Refreshing" using that [rule_format, of u] assms(2) by (cases "u = t") simp_all
  qed
  with assms(1) show ?thesis by (simp add: named_def)
qed

lemma named_frame [simp]:
  "named of_object (s\<lparr>busySince := b\<rparr>) = named of_object s" "named of_object (s\<lparr>refusals := n\<rparr>) = named of_object s"
  "named of_object (s\<lparr>holder := h\<rparr>) = named of_object s"
  by (simp_all add: named_def)

lemma nobody_calls:
  assumes "held_by_one s" "callers s t \<noteq> Away" "\<And>j obj. callers s t \<noteq> Calling j obj"
  shows "callers s u \<noteq> Calling j obj"
  using alone [OF assms(1,2), of u] assms(3) by (cases "u = t") simp_all

lemma alive_step:
  assumes "slot_step of_object s s'" "slot_inv of_object s"
  shows "alive s'"
proof -
  have i: "held_by_one s" "alive s" "named of_object s" using assms(2) by (simp_all add: slot_inv_def)
  show ?thesis
    using assms(1)
  proof cases
    case (run t j now)
    then show ?thesis using i(2) run_job_calling [of s j] by (auto intro!: alive_goes)
  next
    case (replace t new)
    have calls: "callers s u \<noteq> Calling j obj" for u j obj
      using nobody_calls [OF i(1), of t] replace(2) by simp
    have "callers s u \<noteq> Refreshing" for u using alone [OF i(1), of t u] replace(2) by (cases "u = t") simp_all
    then have h: "history s (generation s) = the_output s" using i(3) by (simp add: named_def)
    have o1: "obj \<notin> destroyed s" if "the_output s = Some obj" for obj using i(2) that by (simp add: alive_def)
    have "obj \<notin> destroyed s'" if "new = Some obj" for obj
      using replace(1,3) that o1 h by (cases "new = the_output s") auto
    moreover have "the_output s' = new" "\<forall>u j obj. callers s' u \<noteq> Calling j obj"
      using replace(1) calls by simp_all
    ultimately show ?thesis unfolding alive_def by (simp split: option.splits)
  next
    case (refresh t)
    have "callers s u \<noteq> Calling j obj" for u j obj
      using nobody_calls [OF i(1), of t] refresh(2) by simp
    then have "\<forall>u j obj. callers s' u \<noteq> Calling j obj" using refresh(1) by simp
    moreover have "the_output s' = the_output s" "destroyed s' = destroyed s" using refresh(1) by simp_all
    ultimately show ?thesis using i(2) by (simp add: alive_def)
  qed (use i(2) in \<open>auto intro!: alive_goes\<close>)
qed

lemma named_step:
  assumes "slot_step of_object s s'" "slot_inv of_object s"
  shows "named of_object s'"
proof -
  have i: "held_by_one s" "named of_object s" using assms(2) by (simp_all add: slot_inv_def)
  show ?thesis
    using assms(1)
  proof cases
    case (replace t new)
    have "callers s' t = Refreshing" using replace(1) by simp
    with replace(1) i(2) show ?thesis by (simp add: named_def) blast
  next
    case (refresh t)
    then show ?thesis by (simp add: named_def)
  qed (use i(2) in \<open>simp_all add: named_goes\<close>)
qed

lemma slot_step_inv: "slot_inv of_object s \<Longrightarrow> slot_step of_object s s' \<Longrightarrow> slot_inv of_object s'"
  using held_step busy_step alive_step named_step by (simp add: slot_inv_def)

interpretation slots: transition_system "slot_step of_object" "slot_inv of_object" for of_object
  by unfold_locales (rule slot_step_inv)

lemma mk_slot_inv: "slot_inv of_object (mk_slot of_object object)"
  by (auto simp: slot_inv_def held_by_one_def one_holder_def busy_marked_def alive_def named_def mk_slot_def split: option.splits)

section \<open>Generations\<close>

lemma generation_grows: "slot_step of_object s s' \<Longrightarrow> g \<le> generation s \<Longrightarrow> g \<le> generation s' \<and> history s' g = history s g"
  by (induction rule: slot_step.induct) simp_all

lemma history_fixed: "(slot_step of_object)\<^sup>*\<^sup>* s s' \<Longrightarrow> g \<le> generation s \<Longrightarrow> g \<le> generation s' \<and> history s' g = history s g"
  by (induction rule: rtranclp_induct) (use generation_grows in fastforce)+

lemma calling_history:
  assumes "slot_inv of_object s" "callers s t = Calling (Call g) obj"
  shows "g = generation s \<and> history s g = Some obj"
proof -
  have "callers s u \<noteq> Refreshing" for u
    using alone [of s t u] assms by (cases "u = t") (simp_all add: slot_inv_def)
  with assms show ?thesis by (auto simp: slot_inv_def named_def alive_def)
qed

section \<open>The status report\<close>

text \<open>How an attempt to ask the output ended.\<close>

datatype asked = Not_asked | Slot_empty | Answered json

definition slot_status :: "asked \<Rightarrow> bool \<Rightarrow> int \<Rightarrow> json option \<Rightarrow> json \<times> json option" where
  "slot_status a stuck busyMillis last_status = (case a of
      Answered v \<Rightarrow> (let fresh = set_key ''stale'' (Bool False) v in (fresh, Some fresh))
    | Slot_empty \<Rightarrow> (Object [], last_status)
    | Not_asked \<Rightarrow>
        (let v = set_key ''stale'' (Bool stuck) (case last_status of Some l \<Rightarrow> l | None \<Rightarrow> Object [])
         in (if stuck then set_key ''driver_busy_ms'' (number_of_int busyMillis) v else v, last_status)))"

section \<open>Properties\<close>

text \<open>
  C9: whatever the threads do, a call into an output is the only one in it, its object has not been
  destroyed and is the one in the slot, and the gate is marked busy only while it is held; a caller that
  finds it wedged does not wait.
\<close>

theorem call_exclusive_and_alive:
  assumes "(slot_step of_object)\<^sup>*\<^sup>* (mk_slot of_object object) s" "callers s t = Calling j obj"
  shows "obj \<notin> destroyed s \<and> the_output s = Some obj \<and> (\<forall>u. u \<noteq> t \<longrightarrow> callers s u = Away) \<and>
    (busySince s \<noteq> 0 \<longrightarrow> holder s = Some t) \<and>
    (wedged after (busySince s) now \<longrightarrow> gate_deadline after (busySince s) now deadline = now)"
proof -
  have i: "slot_inv of_object s" using slots.reachable_inv [OF assms(1) mk_slot_inv] .
  then have "obj \<notin> destroyed s \<and> the_output s = Some obj" using assms(2) by (auto simp: slot_inv_def alive_def)
  moreover have "\<forall>u. u \<noteq> t \<longrightarrow> callers s u = Away" "holder s = Some t"
    using i assms(2) alone [of s t] holds [of s t] by (auto simp: slot_inv_def)
  ultimately show ?thesis by (simp add: gate_deadline_def)
qed

text \<open>
  A tick planned with a description of the slot, however old, reaches the output that
  description was taken of or none: the object a call with the description's generation runs on has
  exactly the pixel format, the alpha and the audio the plan was made for, even if the output was replaced
  by another at the same address in between.
\<close>

theorem planned_call_matches:
  assumes "(slot_step of_object)\<^sup>*\<^sup>* (mk_slot of_object object) s" "(slot_step of_object)\<^sup>*\<^sup>* s s'"
    and "callers s' t = Calling (Call (generation_of (slot_description s))) obj"
  shows "slot_description s = describe of_object (generation_of (slot_description s)) (Some obj) \<and>
    pixelFormat (slot_description s) = out_format (of_object obj) \<and>
    straightAlpha (slot_description s) = out_straight (of_object obj) \<and>
    wantsAudio (slot_description s) = out_audio (of_object obj)"
proof -
  have i: "slot_inv of_object s" using slots.reachable_inv [OF assms(1) mk_slot_inv] .
  have i': "slot_inv of_object s'" using slots.reachable_inv [OF assms(2) i] .
  have d: "slot_description s = describe of_object (generation s) (history s (generation s))"
    using i by (simp add: slot_inv_def named_def)
  then have g: "generation_of (slot_description s) = generation s" by (simp add: describe_def split: option.splits)
  have "history s' (generation s) = Some obj" by (rule conjunct2 [OF calling_history [OF i' assms(3) [unfolded g]]])
  then have "history s (generation s) = Some obj" using history_fixed [OF assms(2), of "generation s"] by simp
  with d g show ?thesis by (simp add: describe_def)
qed

text \<open>A slot whose clock calls it.\<close>

definition plain_traits :: "nat \<Rightarrow> traits" where
  "plain_traits obj = \<lparr>out_format = BGRA, out_straight = False, out_audio = True\<rparr>"

definition called_slot :: output_slot where
  "called_slot = (mk_slot plain_traits (Some 7))\<lparr>holder := Some 3, busySince := 5,
     callers := (\<lambda>_. Away)(3 := Calling (Call 1) 7)\<rparr>"

lemma called_slot_reached: "(slot_step plain_traits)\<^sup>*\<^sup>* (mk_slot plain_traits (Some 7)) called_slot"
proof -
  let ?s = "mk_slot plain_traits (Some 7)"
  have "slot_step plain_traits ?s (goes 3 (Locked (Call 1)) ?s\<lparr>holder := Some 3\<rparr>)"
    by (rule lock) (simp_all add: mk_slot_def)
  moreover have "slot_step plain_traits (goes 3 (Locked (Call 1)) ?s\<lparr>holder := Some 3\<rparr>) called_slot"
    using run [of "goes 3 (Locked (Call 1)) ?s\<lparr>holder := Some 3\<rparr>" 3 "Call 1" plain_traits 5]
    by (simp add: called_slot_def mk_slot_def goes_def nowNanos_def)
  ultimately show ?thesis by simp
qed

theorem call_exclusive_and_alive_witness:
  "the_output called_slot = Some 7 \<and> holder called_slot = Some 3"
proof -
  have "callers called_slot 3 = Calling (Call 1) 7" "busySince called_slot \<noteq> 0"
    by (simp_all add: called_slot_def)
  with call_exclusive_and_alive [OF called_slot_reached] show ?thesis by blast
qed

theorem planned_call_matches_witness:
  "pixelFormat (slot_description (mk_slot plain_traits (Some 7))) = BGRA"
proof -
  have "callers called_slot 3 =
      Calling (Call (generation_of (slot_description (mk_slot plain_traits (Some 7))))) 7"
    by (simp add: called_slot_def mk_slot_def describe_def)
  from planned_call_matches [OF rtranclp.rtrancl_refl called_slot_reached this] show ?thesis by (simp add: plain_traits_def)
qed

text \<open>
  A report is never marked stale for an output that is merely busy: it is the fresh status marked not
  stale, the last one with the mark that says whether the call in the way is stuck, or an empty object.
\<close>

lemma set_read: "get_key (set_key k x v) k = x" "k \<noteq> j \<Longrightarrow> isObject v \<Longrightarrow> get_key (set_key k x v) j = get_key v j"
  "isObject (set_key k x v)"
  by (cases v; simp add: get_key_def set_key_def map_of_set_member isObject_def)+

lemma status_stale:
  "fst (slot_status (Answered v) stuck ms l) = set_key ''stale'' (Bool False) v"
  "get_key (fst (slot_status Not_asked stuck ms l)) ''stale'' = Bool stuck"
  "snd (slot_status Not_asked stuck ms l) = l"
  by (simp_all add: slot_status_def Let_def set_read)

end
