(* ===== verification/Mdns.thy ===== *)
theory Mdns
  imports Prelude "HOL-Library.Word"
begin

text \<open>
  \<open>core/mdns_service.cpp\<close>: the instance name, the instance id, what may be advertised and the TXT
  record. The host's own name and the responder of the platform are not modelled.
\<close>

section \<open>Definitions\<close>

definition kMaxNameBytes :: nat where "kMaxNameBytes = 63"

definition kMaxTxtEntryBytes :: nat where "kMaxTxtEntryBytes = 255"

definition continuation :: "char \<Rightarrow> bool" where
  "continuation c \<longleftrightarrow> code c div 64 = 2"   \<comment> \<open>\<open>(c & 0xC0) == 0x80\<close>\<close>

primrec back_up :: "string \<Rightarrow> nat \<Rightarrow> nat" where
  "back_up s 0 = 0"
| "back_up s (Suc n) = (if continuation (s ! Suc n) then back_up s n else Suc n)"

definition utf8SafeLength :: "string \<Rightarrow> nat \<Rightarrow> nat" where
  "utf8SafeLength s limit = (if length s \<le> limit then length s else back_up s limit)"

definition clean_char :: "char \<Rightarrow> string" where
  "clean_char c = (if c = CHR ''.'' then ''-'' else if code c < 32 \<or> code c = 127 then [] else [c])"

definition trimmed :: "string \<Rightarrow> string" where
  "trimmed s = rev (dropWhile isspace (rev (dropWhile isspace s)))"

definition sanitiseInstanceName :: "string \<Rightarrow> string" where
  "sanitiseInstanceName raw =
     (let cleaned = trimmed (concat (map clean_char raw));
          short = take (utf8SafeLength cleaned kMaxNameBytes) cleaned
      in if short = [] then ''WebLinked'' else short)"

definition instanceNameFor :: "string \<Rightarrow> string \<Rightarrow> nat \<Rightarrow> string" where
  "instanceNameFor configured host httpPort =
     (if configured \<noteq> [] then sanitiseInstanceName configured
      else sanitiseInstanceName ((if host = [] then ''WebLinked'' else host) @ '' ('' @ dec httpPort @ '')''))"

text \<open>FNV-1a on 32 bits.\<close>

definition fnv_step :: "32 word \<Rightarrow> char \<Rightarrow> 32 word" where
  "fnv_step hash c = (xor hash (word_of_nat (code c))) * 16777619"

definition hex_digit :: "nat \<Rightarrow> char" where
  "hex_digit n = char_of (if n < 10 then 48 + n else 87 + n)"

text \<open>\<open>%08x\<close>.\<close>

definition hex8 :: "32 word \<Rightarrow> string" where
  "hex8 w = map (\<lambda>i. hex_digit (unat (drop_bit (28 - 4 * i) w) mod 16)) [0..<8]"

definition instanceId :: "string \<Rightarrow> nat \<Rightarrow> string" where
  "instanceId host httpPort = hex8 (foldl fnv_step 2166136261 (host @ '':'' @ dec httpPort))"

definition bindIsAdvertisable :: "string \<Rightarrow> bool" where
  "bindIsAdvertisable bindAddress \<longleftrightarrow>
     \<not> (bindAddress = ''localhost'' \<or> bindAddress = ''::1'' \<or> prefixed ''127.'' bindAddress)"

record txt_inputs =
  version :: string
  inst_name :: string
  inst_id :: string
  tokenRequired :: bool
  oscEnabled :: bool
  oscPort :: nat
  oscPrefix :: string

definition buildTxt :: "txt_inputs \<Rightarrow> (string \<times> string) list" where
  "buildTxt inputs =
     [(''txtvers'', ''1''), (''ver'', version inputs), (''name'', inst_name inputs), (''id'', inst_id inputs),
      (''path'', ''/api/state''), (''token'', if tokenRequired inputs then ''1'' else ''0''),
      (''osc'', if oscEnabled inputs then ''1'' else ''0'')] @
     (if oscEnabled inputs then [(''oscport'', dec (oscPort inputs)), (''oscprefix'', oscPrefix inputs)] else [])"

definition encode_entry :: "string \<times> string \<Rightarrow> string" where
  "encode_entry = (\<lambda>(k, v).
     if k = [] \<or> CHR ''='' \<in> set k then []
     else let text' = k @ ''='' @ v
          in if kMaxTxtEntryBytes < length text' then [] else char_of (length text') # text')"

definition encodeTxt :: "(string \<times> string) list \<Rightarrow> string" where
  "encodeTxt records =
     (let encoded = concat (map encode_entry records) in if encoded = [] then [char_of (0::nat)] else encoded)"

section \<open>UTF-8\<close>

text \<open>The shape of UTF-8: a lead byte and as many continuation bytes as it announces.\<close>

definition tail_length :: "char \<Rightarrow> nat option" where
  "tail_length c =
     (if code c < 128 then Some 0
      else if 194 \<le> code c \<and> code c < 224 then Some 1
      else if 224 \<le> code c \<and> code c < 240 then Some 2
      else if 240 \<le> code c \<and> code c < 245 then Some 3 else None)"

definition utf8_char :: "string \<Rightarrow> bool" where
  "utf8_char s = (case s of [] \<Rightarrow> False
     | c # cs \<Rightarrow> tail_length c = Some (length cs) \<and> list_all continuation cs)"

definition utf8 :: "string \<Rightarrow> bool" where
  "utf8 s \<longleftrightarrow> (\<exists>cs. s = concat cs \<and> list_all utf8_char cs)"

lemma utf8_Nil [simp]: "utf8 []"
  unfolding utf8_def by (rule exI [of _ "[]"]) simp

lemma utf8_append: "utf8 s \<Longrightarrow> utf8 t \<Longrightarrow> utf8 (s @ t)"
  unfolding utf8_def by (metis concat_append list_all_append)

lemma utf8_one: "utf8_char s \<Longrightarrow> utf8 s"
  unfolding utf8_def by (rule exI [of _ "[s]"]) simp

lemma tail_not_continuation: "tail_length c \<noteq> None \<Longrightarrow> \<not> continuation c"
  by (auto simp: tail_length_def continuation_def split: if_splits)

lemma utf8_char_ascii: "utf8_char [c] \<longleftrightarrow> code c < 128"
  by (auto simp: utf8_char_def tail_length_def split: if_splits)

text \<open>A character of more than one byte has no ASCII byte, so cleaning leaves it alone.\<close>

lemma utf8_char_high:
  assumes "utf8_char s" "length s \<noteq> 1" "c \<in> set s"
  shows "128 \<le> code c"
proof -
  obtain d ds where s: "s = d # ds" using assms(1) by (auto simp: utf8_char_def split: list.splits)
  then have "tail_length d = Some (length ds)" "ds \<noteq> []" "list_all continuation ds"
    using assms(1,2) by (auto simp: utf8_char_def)
  then have "128 \<le> code d" "\<forall>c \<in> set ds. 128 \<le> code c"
    by (auto simp: tail_length_def continuation_def list_all_iff split: if_splits)
  with s assms(3) show ?thesis by auto
qed

lemma utf8_cases:
  assumes "utf8_char s"
  shows "(\<exists>c. s = [c] \<and> code c < 128) \<or> (\<forall>c \<in> set s. 128 \<le> code c)"
proof (cases "length s = 1")
  case True
  then obtain c where "s = [c]" by (auto simp: length_Suc_conv)
  with assms show ?thesis using utf8_char_ascii by auto
next
  case False
  with assms utf8_char_high show ?thesis by blast
qed

lemma clean_high: "\<forall>c \<in> set s. 128 \<le> code c \<Longrightarrow> concat (map clean_char s) = s"
proof (induction s)
  case Nil
  then show ?case by simp
next
  case (Cons c s)
  then have "clean_char c = [c]" by (auto simp: clean_char_def)
  with Cons show ?case by simp
qed

lemma clean_utf8_char: "utf8_char s \<Longrightarrow> utf8 (concat (map clean_char s))"
proof -
  assume s: "utf8_char s"
  from utf8_cases [OF s] show ?thesis
  proof
    assume "\<exists>c. s = [c] \<and> code c < 128"
    then obtain c where c: "s = [c]" "code c < 128" by blast
    have "utf8 ''-''" "utf8 [c]" using c(2) by (intro utf8_one; simp add: utf8_char_ascii)+
    with c show ?thesis by (simp add: clean_char_def)
  next
    assume "\<forall>c \<in> set s. 128 \<le> code c"
    with clean_high utf8_one [OF s] show ?thesis by simp
  qed
qed

lemma clean_utf8: "utf8 s \<Longrightarrow> utf8 (concat (map clean_char s))"
proof -
  assume "utf8 s"
  then obtain cs where s: "s = concat cs" "list_all utf8_char cs" unfolding utf8_def by blast
  have "utf8 (concat (map clean_char (concat cs)))" using s(2)
    by (induction cs) (simp_all add: utf8_append clean_utf8_char)
  with s(1) show ?thesis by simp
qed

lemma utf8_Cons_char: "utf8_char c \<Longrightarrow> utf8 s \<Longrightarrow> utf8 (c @ s)"
  by (rule utf8_append [OF utf8_one])

lemma high_not_space: "128 \<le> code c \<Longrightarrow> \<not> isspace c"
  by (simp add: isspace_def)

lemma dropWhile_utf8: "list_all utf8_char cs \<Longrightarrow> utf8 (dropWhile isspace (concat cs))"
proof (induction cs)
  case Nil
  then show ?case by simp
next
  case (Cons c cs)
  then have c: "utf8_char c" and s: "utf8 (concat cs)" by (auto simp: utf8_def)
  from utf8_cases [OF c] show ?case
  proof
    assume "\<exists>d. c = [d] \<and> code d < 128"
    then obtain d where "c = [d]" by blast
    with Cons c s show ?thesis using utf8_Cons_char [OF c s] by simp
  next
    assume h: "\<forall>d \<in> set c. 128 \<le> code d"
    from c obtain d ds where d: "c = d # ds" by (auto simp: utf8_char_def split: list.splits)
    with h have "\<not> isspace d" using high_not_space by simp
    with d show ?thesis using utf8_Cons_char [OF c s] by simp
  qed
qed

lemma dropWhile_end_utf8: "list_all utf8_char cs \<Longrightarrow> utf8 (rev (dropWhile isspace (rev (concat cs))))"
proof (induction cs rule: rev_induct)
  case Nil
  then show ?case by simp
next
  case (snoc c cs)
  then have c: "utf8_char c" and s: "utf8 (concat cs)" by (auto simp: utf8_def)
  have all: "utf8 (concat cs @ c)" using utf8_append [OF s utf8_one [OF c]] .
  from utf8_cases [OF c] show ?case
  proof
    assume "\<exists>d. c = [d] \<and> code d < 128"
    then obtain d where "c = [d]" by blast
    with snoc all show ?thesis by simp
  next
    assume h: "\<forall>d \<in> set c. 128 \<le> code d"
    from c have "c \<noteq> []" by (auto simp: utf8_char_def)
    then obtain ds d where d: "c = ds @ [d]" by (cases c rule: rev_cases) auto
    with h have "\<not> isspace d" using high_not_space by simp
    with d all show ?thesis by simp
  qed
qed

lemma trimmed_utf8: "utf8 s \<Longrightarrow> utf8 (trimmed s)"
proof -
  assume "utf8 s"
  then obtain cs where "s = concat cs" "list_all utf8_char cs" unfolding utf8_def by blast
  then have "utf8 (dropWhile isspace s)" using dropWhile_utf8 by simp
  then obtain ds where "dropWhile isspace s = concat ds" "list_all utf8_char ds" unfolding utf8_def by blast
  then show ?thesis using dropWhile_end_utf8 by (simp add: trimmed_def)
qed

lemma take_utf8: "list_all utf8_char cs \<Longrightarrow> n = 0 \<or> length (concat cs) \<le> n \<or> \<not> continuation (concat cs ! n) \<Longrightarrow>
   utf8 (take n (concat cs))"
proof (induction cs arbitrary: n)
  case Nil
  then show ?case by simp
next
  case (Cons c cs)
  then have c: "utf8_char c" by simp
  show ?case
  proof (cases "n < length c")
    case True
    have "n = 0"
    proof (rule ccontr)
      assume n: "n \<noteq> 0"
      with c True have "continuation (c ! n)"
        by (cases c; cases n) (auto simp: utf8_char_def list_all_length)
      with Cons.prems(2) True n show False by (simp add: nth_append)
    qed
    then show ?thesis by simp
  next
    case False
    have "utf8 (take (n - length c) (concat cs))"
      using Cons.prems False by (intro Cons.IH) (auto simp: nth_append)
    with False show ?thesis using utf8_Cons_char [OF c] by simp
  qed
qed

lemma back_up_ends: "back_up s n \<le> n \<and> (back_up s n = 0 \<or> \<not> continuation (s ! back_up s n))"
  by (induction n) auto

lemma short_utf8: "utf8 s \<Longrightarrow> utf8 (take (utf8SafeLength s limit) s)"
proof -
  assume "utf8 s"
  then obtain cs where s: "s = concat cs" "list_all utf8_char cs" unfolding utf8_def by blast
  show ?thesis
    unfolding s(1) by (rule take_utf8 [OF s(2)]) (use back_up_ends [of s limit] in \<open>auto simp: utf8SafeLength_def s(1)\<close>)
qed

lemma short_length: "length (take (utf8SafeLength s limit) s) \<le> limit"
  using back_up_ends [of s limit] by (auto simp: utf8SafeLength_def)

lemma set_trimmed: "set (trimmed s) \<subseteq> set s"
  unfolding trimmed_def by (auto dest!: set_dropWhileD)

lemma clean_chars: "c \<in> set (concat (map clean_char s)) \<Longrightarrow> c \<noteq> CHR ''.'' \<and> 32 \<le> code c \<and> code c \<noteq> 127"
  by (auto simp: clean_char_def split: if_splits)

lemma trimmed_id:
  assumes "s \<noteq> []" "\<not> isspace (hd s)" "\<not> isspace (last s)"
  shows "trimmed s = s"
proof -
  have "dropWhile P t = t" if "t \<noteq> []" "\<not> P (hd t)" for P and t :: string
    using that by (cases t) simp_all
  then have "dropWhile isspace s = s" "dropWhile isspace (rev s) = rev s" using assms by (simp_all add: hd_rev)
  then show ?thesis by (simp add: trimmed_def)
qed

lemma clean_id: "\<forall>c \<in> set s. c \<noteq> CHR ''.'' \<and> 32 \<le> code c \<and> code c \<noteq> 127 \<Longrightarrow> concat (map clean_char s) = s"
  by (induction s) (simp_all add: clean_char_def)

section \<open>TXT records\<close>

text \<open>What a reader of RFC 6763 makes of a record: its strings, split at the first \<open>=\<close>.\<close>

function txt_strings :: "string \<Rightarrow> string list option" where
  "txt_strings [] = Some []"
| "txt_strings (c # s) =
     (if length s < code c then None
      else map_option (\<lambda>ts. if code c = 0 then ts else take (code c) s # ts) (txt_strings (drop (code c) s)))"
  by pat_completeness auto
termination by (relation "measure length") auto

definition read_txt :: "string \<Rightarrow> (string \<times> string) list option" where
  "read_txt s = map_option (map (\<lambda>t. case find_char (CHR ''='') t of
      Some n \<Rightarrow> (take n t, drop (n + 1) t) | None \<Rightarrow> (t, []))) (txt_strings s)"

definition entry_fits :: "string \<times> string \<Rightarrow> bool" where
  "entry_fits = (\<lambda>(k, v). k \<noteq> [] \<and> CHR ''='' \<notin> set k \<and> length k + 1 + length v \<le> kMaxTxtEntryBytes)"

lemma read_txt_Cons:
  assumes "entry_fits (k, v)" "read_txt s = Some rs"
  shows "read_txt (encode_entry (k, v) @ s) = Some ((k, v) # rs)"
proof -
  let ?t = "k @ ''='' @ v"
  have n: "length ?t < 256" "code (char_of (length ?t)) = length ?t" "length ?t \<noteq> 0"
    using assms(1) by (auto simp: entry_fits_def kMaxTxtEntryBytes_def)
  have e: "encode_entry (k, v) = char_of (length ?t) # ?t"
    using assms(1) by (simp add: encode_entry_def entry_fits_def kMaxTxtEntryBytes_def)
  obtain ts where ts: "txt_strings s = Some ts" using assms(2) by (auto simp: read_txt_def)
  have "txt_strings (encode_entry (k, v) @ s) = Some (?t # ts)"
    unfolding e using n ts by (simp del: append_assoc)
  moreover have "find_char (CHR ''='') (k @ CHR ''='' # v) = Some (length k)"
    using assms(1) by (intro find_char_append) (simp add: entry_fits_def)
  ultimately show ?thesis using assms(2) ts by (simp add: read_txt_def)
qed

lemma encode_dropped: "\<not> entry_fits kv \<Longrightarrow> encode_entry kv = []"
  by (cases kv) (auto simp: encode_entry_def entry_fits_def)

lemma read_encoded: "read_txt (concat (map encode_entry rs)) = Some (filter entry_fits rs)"
proof (induction rs)
  case Nil
  then show ?case by (simp add: read_txt_def)
next
  case (Cons kv rs)
  then show ?case using read_txt_Cons [of "fst kv" "snd kv"] encode_dropped by (cases kv) simp
qed

section \<open>Properties\<close>

text \<open>
  Whatever name an operator types, the instance name is a DNS label: not empty, at most 63
  bytes, without dots and control characters; text in UTF-8 stays text in UTF-8, never cut inside a
  character; and a name that is already one is advertised as typed.
\<close>

theorem instance_name_label:
  "sanitiseInstanceName raw \<noteq> [] \<and> length (sanitiseInstanceName raw) \<le> 63 \<and>
   (\<forall>c \<in> set (sanitiseInstanceName raw). c \<noteq> CHR ''.'' \<and> 32 \<le> code c \<and> code c \<noteq> 127) \<and>
   (utf8 raw \<longrightarrow> utf8 (sanitiseInstanceName raw)) \<and>
   (raw \<noteq> [] \<and> length raw \<le> 63 \<and> \<not> isspace (hd raw) \<and> \<not> isspace (last raw) \<and>
      (\<forall>c \<in> set raw. c \<noteq> CHR ''.'' \<and> 32 \<le> code c \<and> code c \<noteq> 127) \<longrightarrow> sanitiseInstanceName raw = raw)"
proof -
  define cleaned where "cleaned = trimmed (concat (map clean_char raw))"
  define short where "short = take (utf8SafeLength cleaned kMaxNameBytes) cleaned"
  have r: "sanitiseInstanceName raw = (if short = [] then ''WebLinked'' else short)"
    by (simp add: sanitiseInstanceName_def cleaned_def short_def Let_def)
  have l: "length short \<le> 63" using short_length [of cleaned kMaxNameBytes] by (simp add: short_def kMaxNameBytes_def)
  have "set short \<subseteq> set (concat (map clean_char raw))"
    unfolding short_def cleaned_def using set_take_subset set_trimmed by fast
  then have c: "\<forall>c \<in> set short. c \<noteq> CHR ''.'' \<and> 32 \<le> code c \<and> code c \<noteq> 127" using clean_chars by blast
  have w: "\<forall>c \<in> set ''WebLinked''. c \<noteq> CHR ''.'' \<and> 32 \<le> code c \<and> code c \<noteq> 127" by (simp add: code_def)
  have "utf8 raw \<Longrightarrow> utf8 short"
    unfolding short_def cleaned_def by (intro short_utf8 trimmed_utf8 clean_utf8)
  moreover have "utf8 ''WebLinked''"
    unfolding utf8_def by (rule exI [of _ "map (\<lambda>c. [c]) ''WebLinked''"]) (simp add: utf8_char_ascii code_def)
  moreover have "sanitiseInstanceName raw = raw" if "raw \<noteq> []" "length raw \<le> 63" "\<not> isspace (hd raw)" "\<not> isspace (last raw)"
    "\<forall>c \<in> set raw. c \<noteq> CHR ''.'' \<and> 32 \<le> code c \<and> code c \<noteq> 127"
  proof -
    have "cleaned = raw" unfolding cleaned_def clean_id [OF that(5)] using trimmed_id that(1,3,4) by blast
    then have "short = raw" using that(2) by (simp add: short_def utf8SafeLength_def kMaxNameBytes_def)
    with r that(1) show ?thesis by simp
  qed
  ultimately show ?thesis using r l c w by auto
qed

theorem instance_name_label_witness:
  "sanitiseInstanceName ''Stage-1'' = ''Stage-1''"
  using instance_name_label [of "''Stage-1''"] by (simp add: code_def isspace_def)

text \<open>
  The TXT record is read back as the records put in, in order, without those that cannot be
  written whole (an empty key, a key with \<open>=\<close>, more than 255 bytes): none is cut; a record
  with nothing in it is the one zero byte the standard asks for, and reads as empty.
\<close>

theorem txt_roundtrip:
  "read_txt (encodeTxt rs) = Some (filter entry_fits rs) \<and> encodeTxt rs \<noteq> [] \<and>
   (length (inst_name i) \<le> 200 \<and> length (version i) \<le> 200 \<and> length (inst_id i) \<le> 200 \<and>
      length (oscPrefix i) \<le> 200 \<and> length (dec (oscPort i)) \<le> 200 \<longrightarrow>
    read_txt (encodeTxt (buildTxt i)) = Some (buildTxt i))"
proof -
  have r: "read_txt (encodeTxt rs) = Some (filter entry_fits rs)" for rs
  proof (cases "concat (map encode_entry rs) = []")
    case True
    have "read_txt [] = Some (filter entry_fits rs)" using read_encoded [of rs] unfolding True .
    then show ?thesis by (simp only: encodeTxt_def True Let_def if_True) (simp add: read_txt_def)
  next
    case False
    then show ?thesis by (simp only: encodeTxt_def Let_def if_False read_encoded)
  qed
  moreover have "list_all entry_fits (buildTxt i)"
    if "length (inst_name i) \<le> 200" "length (version i) \<le> 200" "length (inst_id i) \<le> 200"
      "length (oscPrefix i) \<le> 200" "length (dec (oscPort i)) \<le> 200"
    using that by (simp add: buildTxt_def entry_fits_def kMaxTxtEntryBytes_def)
  ultimately show ?thesis by (auto simp: encodeTxt_def Let_def list_all_iff filter_True)
qed

theorem txt_roundtrip_witness:
  "read_txt (encodeTxt [(''name'', ''Stage 1''), ([], ''x'')]) = Some [(''name'', ''Stage 1'')]"
  using txt_roundtrip [of "[(''name'', ''Stage 1''), ([], ''x'')]"] by (simp add: entry_fits_def kMaxTxtEntryBytes_def)

end
