(* ===== verification/Stream_Args.thy ===== *)
theory Stream_Args
  imports Video_Format
begin

text \<open>
  \<open>core/stream_args\<close>: the command line of the stream output's encoder, the container guessed from a
  URL, and the URL without its stream key.
\<close>

section \<open>Definitions\<close>

record stream_settings =
  stream_url :: string
  container :: string
  ffmpegPath :: string
  videoCodec :: string
  videoBitrate :: string
  preset :: string
  tune :: string
  gopSeconds :: double
  audioCodec :: string
  audioBitrate :: string
  audioChannels :: int
  audioSampleRate :: int
  extraArgs :: "string list"

definition containerForUrl :: "string \<Rightarrow> string" where
  "containerForUrl url =
     (let lowered = lowercase url
      in if prefixed ''rtmp://'' lowered \<or> prefixed ''rtmps://'' lowered \<or> prefixed ''rtmpt://'' lowered then ''flv''
         else if prefixed ''srt://'' lowered \<or> prefixed ''udp://'' lowered \<or> prefixed ''rtp://'' lowered then ''mpegts''
         else ''flv'')"

definition find_from :: "char \<Rightarrow> nat \<Rightarrow> string \<Rightarrow> nat option" where
  "find_from c n s = map_option (\<lambda>i. i + n) (find_char c (drop n s))"

definition find_last :: "char \<Rightarrow> string \<Rightarrow> nat option" where
  "find_last c s = map_option (\<lambda>i. length s - 1 - i) (find_char c (rev s))"

definition redactStreamUrl :: "string \<Rightarrow> string" where
  "redactStreamUrl url =
     (let start = (case find_sub ''://'' url of None \<Rightarrow> 0 | Some scheme \<Rightarrow> scheme + 3)
      in case find_from (CHR ''/'') start url of
           None \<Rightarrow> url
         | Some pathStart \<Rightarrow> (case find_last (CHR ''/'') url of
             None \<Rightarrow> url
           | Some lastSlash \<Rightarrow>
               if lastSlash \<le> pathStart then url
               else if drop (lastSlash + 1) url = [] then url
               else take (lastSlash + 1) url @ ''<key>''))"

definition doubleBitrate :: "string \<Rightarrow> string" where
  "doubleBitrate bitrate =
     (if bitrate = [] then bitrate
      else let suffix = last bitrate; hasSuffix = (suffix \<in> set ''kKmM'');
               digits = (if hasSuffix then butlast bitrate else bitrate)
           in if digits = [] \<or> \<not> list_all isdigit digits then bitrate
              else let v = min (int (digits_val digits)) (2 ^ 63 - 1)
                   in if v \<le> 0 then bitrate else dec_int (i64 (v * 2)) @ (if hasSuffix then [suffix] else []))"

text \<open>The product of two doubles.\<close>

fun mul :: "double \<Rightarrow> double \<Rightarrow> double" where
  "mul (Fin a) (Fin b) = fl64 (a * b)"
| "mul (Inf s) (Inf t) = Inf (s \<noteq> t)"
| "mul (Inf s) (Fin b) = (if b = 0 then NaN else Inf (s \<noteq> (b < 0)))"
| "mul (Fin a) (Inf s) = (if a = 0 then NaN else Inf (s \<noteq> (a < 0)))"
| "mul _ _ = NaN"

definition gop_length :: "stream_settings \<Rightarrow> video_format \<Rightarrow> int" where
  "gop_length s f =
     (let gop = llround (mul (rate_toDouble (rate f)) (if lt (Fin 0) (gopSeconds s) then gopSeconds s else Fin 2))
      in if 0 < gop then gop else 1)"

definition input_args :: "stream_settings \<Rightarrow> video_format \<Rightarrow> int \<Rightarrow> int \<Rightarrow> string list" where
  "input_args s f videoPort audioPort =
     [ffmpegPath s, ''-hide_banner'', ''-nostdin'', ''-loglevel'', ''warning'',
      ''-f'', ''rawvideo'', ''-pix_fmt'', ''uyvy422'', ''-s'', dec_int (width f) @ ''x'' @ dec_int (height f),
      ''-r'', dec_int (numerator (rate f)) @ ''/'' @ dec_int (denominator (rate f)),
      ''-i'', ''tcp://127.0.0.1:'' @ dec_int videoPort,
      ''-f'', ''f32le'', ''-ar'', dec_int (audioSampleRate s), ''-ac'', dec_int (audioChannels s),
      ''-i'', ''tcp://127.0.0.1:'' @ dec_int audioPort, ''-map'', ''0:v:0'', ''-map'', ''1:a:0'']"

definition encoder_args :: "stream_settings \<Rightarrow> video_format \<Rightarrow> string list" where
  "encoder_args s f =
     [''-c:v'', videoCodec s] @
     (if videoCodec s = ''copy'' then []
      else [''-preset'', preset s] @ (if tune s = [] then [] else [''-tune'', tune s]) @
           [''-pix_fmt'', ''yuv420p'', ''-b:v'', videoBitrate s, ''-maxrate'', videoBitrate s,
            ''-bufsize'', doubleBitrate (videoBitrate s), ''-g'', dec_int (gop_length s f), ''-sc_threshold'', ''0'']) @
     [''-c:a'', audioCodec s] @ (if audioCodec s = ''copy'' then [] else [''-b:a'', audioBitrate s])"

definition buildFfmpegArgs :: "stream_settings \<Rightarrow> video_format \<Rightarrow> int \<Rightarrow> int \<Rightarrow> string list" where
  "buildFfmpegArgs s f videoPort audioPort =
     (let muxer = (if container s = [] then containerForUrl (stream_url s) else container s)
      in input_args s f videoPort audioPort @ encoder_args s f @ extraArgs s @ [''-f'', muxer, stream_url s])"

section \<open>Searching from both ends\<close>

lemma find_last_append: "c \<notin> set ys \<Longrightarrow> find_last c (xs @ c # ys) = Some (length xs)"
  by (simp add: find_last_def find_char_append)

lemma find_from_skip: "n = length xs \<Longrightarrow> c \<notin> set ys \<Longrightarrow> find_from c n (xs @ ys @ c # zs) = Some (length xs + length ys)"
  by (simp add: find_from_def find_char_append)

lemma find_scheme: "CHR '':'' \<notin> set s \<Longrightarrow> find_sub ''://'' (s @ ''://'' @ t) = Some (length s)"
  by (induction s) (auto simp: prefixed_def)

lemma split_at_length: "drop (length xs) (xs @ ys) = ys" "take (length xs) (xs @ ys) = xs"
  by simp_all

section \<open>Properties\<close>

text \<open>
  The stream key of a publishing URL never reaches a log: whatever the scheme, the host and the
  path before it, the last segment is replaced and nothing else changes, so two URLs that differ in the
  key only are shown alike.
\<close>

theorem key_redacted:
  assumes "CHR '':'' \<notin> set scheme" "CHR ''/'' \<notin> set host" "CHR ''/'' \<notin> set key" "key \<noteq> []"
  shows "redactStreamUrl (scheme @ ''://'' @ host @ ''/'' @ app @ ''/'' @ key) =
    scheme @ ''://'' @ host @ ''/'' @ app @ ''/<key>''"
proof -
  let ?p = "scheme @ ''://'' @ host @ ''/'' @ app"
  let ?url = "scheme @ ''://'' @ host @ ''/'' @ app @ ''/'' @ key"
  have "find_sub ''://'' ?url = Some (length scheme)" using find_scheme [OF assms(1)] by simp
  moreover have "find_from (CHR ''/'') (length scheme + 3) ?url = Some (length scheme + 3 + length host)"
    using find_from_skip [of "length scheme + 3" "scheme @ ''://''" "CHR ''/''" host "app @ ''/'' @ key"] assms(2) by simp
  moreover have "find_last (CHR ''/'') ?url = Some (length ?p)"
    using find_last_append [OF assms(3), of ?p] by simp
  moreover have e: "?url = (?p @ ''/'') @ key" "length ?p + 1 = length (?p @ ''/'')" by simp_all
  have "drop (length ?p + 1) ?url = key" "take (length ?p + 1) ?url = ?p @ ''/''"
    unfolding e by (rule split_at_length)+
  moreover have "\<not> length ?p \<le> length scheme + 3 + length host" by simp
  ultimately show ?thesis using assms(4)
    by (simp only: redactStreamUrl_def Let_def option.case if_False) simp
qed

theorem key_redacted_witness:
  "redactStreamUrl ''rtmps://live.example/app/s3cret'' = ''rtmps://live.example/app/<key>''"
  using key_redacted [of "''rtmps''" "''live.example''" "''s3cret''" "''app''"] by simp

text \<open>A key that is the only segment of the path is shown as it is, although the header promises a URL safe to log.\<close>

lemma key_not_redacted: "redactStreamUrl ''rtmp://host/s3cret'' = ''rtmp://host/s3cret''"
  by (simp add: redactStreamUrl_def find_from_def find_last_def prefixed_def)

text \<open>The encoder's buffer is twice the bit rate.\<close>

lemma doubled_bitrate:
  assumes "0 < n" "n < 2 ^ 62"
  shows "doubleBitrate (dec n @ ''k'') = dec (2 * n) @ ''k''" "doubleBitrate (dec n) = dec (2 * n)"
proof -
  have d: "list_all isdigit (dec n)" using dec_digits by (simp add: list_all_iff)
  obtain ds c where s: "dec n = ds @ [c]" "isdigit c"
    using dec_digits [of _ n] by (cases "dec n" rule: rev_cases) auto
  have c: "c \<notin> set ''kKmM''" using s(2) by (auto simp: isdigit_def code_def)
  have i: "i64 (int n * 2) = int (2 * n)" using assms(2) i64_fits [of "int n * 2"] by simp
  show "doubleBitrate (dec n @ ''k'') = dec (2 * n) @ ''k''"
    using assms d i by (simp add: doubleBitrate_def digits_val_dec dec_int_def nat_mult_distrib)
  have "last (dec n) \<notin> set ''kKmM''" using c s(1) by simp
  then show "doubleBitrate (dec n) = dec (2 * n)"
    using assms d i by (simp add: doubleBitrate_def digits_val_dec dec_int_def nat_mult_distrib Let_def)
qed

lemma rational_text:
  assumes "0 < n" "n < 2 ^ 31" "0 < d" "d < 2 ^ 31"
  shows "rate_parse (dec_int n @ ''/'' @ dec_int d) = Some \<lparr>numerator = n, denominator = d\<rparr>"
proof -
  have t: "dec_int n = dec (nat n)" "dec_int d = dec (nat d)" using assms by (simp_all add: dec_int_def)
  have "find_char (CHR ''/'') (dec (nat n) @ CHR ''/'' # dec (nat d)) = Some (length (dec (nat n)))"
    by (rule find_char_append) simp
  moreover have "stoi (dec (nat n)) = Some n" "stoi (dec (nat d)) = Some d"
    using stoi_dec [of "[]" "nat n"] stoi_dec [of "[]" "nat d"] assms by simp_all
  ultimately show ?thesis using assms by (simp add: rate_parse_def t)
qed

text \<open>
  The encoder is told the exact rational rate of the format, which parses back to it, right
  before the video input, the first input of the command; the URL is the last argument, behind its
  container; and copying a codec passes no option that would encode.
\<close>

theorem encoder_gets_exact_rate:
  assumes "0 < numerator (rate f)" "numerator (rate f) < 2 ^ 31" "0 < denominator (rate f)" "denominator (rate f) < 2 ^ 31"
  shows "\<exists>before after rate_text. rate_parse rate_text = Some (rate f) \<and> ''-i'' \<notin> set (tl before) \<and>
      buildFfmpegArgs s f vp ap = before @ [''-r'', rate_text, ''-i'', ''tcp://127.0.0.1:'' @ dec_int vp] @ after \<and>
      last (buildFfmpegArgs s f vp ap) = stream_url s \<and>
      (videoCodec s = ''copy'' \<and> audioCodec s = ''copy'' \<longrightarrow> encoder_args s f = [''-c:v'', ''copy'', ''-c:a'', ''copy''])"
proof (intro exI conjI)
  let ?t = "dec_int (numerator (rate f)) @ ''/'' @ dec_int (denominator (rate f))"
  show "rate_parse ?t = Some (rate f)" using rational_text [OF assms] by simp
  show "buildFfmpegArgs s f vp ap = take 11 (input_args s f vp ap) @ [''-r'', ?t, ''-i'', ''tcp://127.0.0.1:'' @ dec_int vp] @
      drop 15 (buildFfmpegArgs s f vp ap)"
    by (simp add: buildFfmpegArgs_def input_args_def)
  have n: "dec_int i \<noteq> []" for i by (simp add: dec_int_def)
  have "length (dec_int (width f) @ ''x'' @ dec_int (height f)) \<noteq> length ''-i''"
    using n [of "width f"] n [of "height f"] by (cases "dec_int (width f)"; cases "dec_int (height f)") simp_all
  then have "dec_int (width f) @ ''x'' @ dec_int (height f) \<noteq> ''-i''" by metis
  then show "''-i'' \<notin> set (tl (take 11 (input_args s f vp ap)))"
    by (simp add: input_args_def)
  show "last (buildFfmpegArgs s f vp ap) = stream_url s" by (simp add: buildFfmpegArgs_def Let_def)
  show "videoCodec s = ''copy'' \<and> audioCodec s = ''copy'' \<longrightarrow> encoder_args s f = [''-c:v'', ''copy'', ''-c:a'', ''copy'']"
    by (simp add: encoder_args_def)
qed

definition example_settings :: stream_settings where
  "example_settings = \<lparr>stream_url = ''srt://host:6000'', container = [], ffmpegPath = ''ffmpeg'', videoCodec = ''libx264'',
     videoBitrate = ''6000k'', preset = ''veryfast'', tune = [], gopSeconds = Fin 2, audioCodec = ''aac'',
     audioBitrate = ''128k'', audioChannels = 2, audioSampleRate = 48000, extraArgs = []\<rparr>"

theorem encoder_gets_exact_rate_witness:
  "\<exists>before after rate_text. rate_parse rate_text = Some \<lparr>numerator = 60000, denominator = 1001\<rparr> \<and>
     buildFfmpegArgs example_settings
       \<lparr>width = 1280, height = 720, rate = \<lparr>numerator = 60000, denominator = 1001\<rparr>, interlaced = False\<rparr> 5000 5001 =
     before @ [''-r'', rate_text, ''-i'', ''tcp://127.0.0.1:'' @ dec_int 5000] @ after"
  using encoder_gets_exact_rate [of "\<lparr>width = 1280, height = 720, rate = \<lparr>numerator = 60000, denominator = 1001\<rparr>, interlaced = False\<rparr>"
      example_settings 5000 5001] by auto

end
