(* ===== verification/Clock_Park.thy ===== *)
theory Clock_Park
  imports Prelude
begin

text \<open>
  The handshake of \<open>engine/engine.cpp\<close> between the clock thread and a format change:
  \<open>pauseClock\<close>, \<open>resumeClock\<close>, the waits of \<open>clockLoop\<close> and the store of \<open>halt\<close>. Format
  changes take turns on the control queue, so at most one thread is past \<open>pauseClock\<close>; that turn
  taking is the only thing assumed of it.
\<close>

section \<open>State\<close>

text \<open>
  The clock thread: waiting for its next tick, about to look at the pause request, parked in the
  condition variable's wait, in the body of a tick (where it uses the pools and frames), or gone.
\<close>

datatype clock_at = Between | Checking | Parked | In_tick | Exited

text \<open>
  The thread that changes the format: elsewhere, waiting in \<open>pauseClock\<close>, rebuilding what the
  clock owns (\<open>parked()\<close> was true), or giving up (it was false).
\<close>

datatype changer_at = Outside | Asking | Swapping | Giving_up

record park =
  running :: bool
  pauseRequested :: bool
  paused :: bool
  clock_at :: clock_at
  changer_at :: changer_at

definition parked_start :: park where
  "parked_start = \<lparr>running = True, pauseRequested = False, paused = False, clock_at = Between, changer_at = Outside\<rparr>"

section \<open>Steps\<close>

inductive park_step :: "park \<Rightarrow> park \<Rightarrow> bool" where
  tick_due: "clock_at s = Between \<Longrightarrow> park_step s (s\<lparr>clock_at := (if running s then Checking else Exited)\<rparr>)"
| no_pause: "clock_at s = Checking \<Longrightarrow> \<not> pauseRequested s \<Longrightarrow>
    park_step s (s\<lparr>clock_at := (if running s then In_tick else Exited)\<rparr>)"
| parks: "clock_at s = Checking \<Longrightarrow> pauseRequested s \<Longrightarrow> park_step s (s\<lparr>paused := True, clock_at := Parked\<rparr>)"
| wakes: "clock_at s = Parked \<Longrightarrow> \<not> pauseRequested s \<or> \<not> running s \<Longrightarrow>
    park_step s (s\<lparr>paused := False, clock_at := (if running s then In_tick else Exited)\<rparr>)"
| tick_done: "clock_at s = In_tick \<Longrightarrow> park_step s (s\<lparr>clock_at := (if running s then Between else Exited)\<rparr>)"
| asks: "changer_at s = Outside \<Longrightarrow> park_step s (s\<lparr>pauseRequested := True, changer_at := Asking\<rparr>)"
| granted: "changer_at s = Asking \<Longrightarrow> paused s \<or> \<not> running s \<Longrightarrow> park_step s (s\<lparr>changer_at := Swapping\<rparr>)"
| timed_out: "changer_at s = Asking \<Longrightarrow> \<not> paused s \<Longrightarrow> running s \<Longrightarrow> park_step s (s\<lparr>changer_at := Giving_up\<rparr>)"
| resumes: "changer_at s = Swapping \<or> changer_at s = Giving_up \<Longrightarrow>
    park_step s (s\<lparr>pauseRequested := False, changer_at := Outside\<rparr>)"
| halts: "park_step s (s\<lparr>running := False\<rparr>)"

inductive_cases park_stepE: "park_step s s'"

inductive_simps halted_step: "park_step s (s\<lparr>running := False\<rparr>)"

definition park_inv :: "park \<Rightarrow> bool" where
  "park_inv s \<longleftrightarrow> (paused s \<longleftrightarrow> clock_at s = Parked) \<and> (changer_at s \<noteq> Outside \<longleftrightarrow> pauseRequested s) \<and>
     (running s \<longrightarrow> changer_at s = Swapping \<longrightarrow> clock_at s = Parked)"

lemma park_inv_step: "park_inv s \<Longrightarrow> park_step s s' \<Longrightarrow> park_inv s'"
  by (erule park_stepE) (auto simp: park_inv_def)

interpretation park: transition_system park_step park_inv
  by unfold_locales (rule park_inv_step)

lemma parked_start_inv: "park_inv parked_start"
  by (simp add: park_inv_def parked_start_def)

section \<open>Properties\<close>

text \<open>
  C5: while the engine runs, the clock thread is inside its wait whenever a format change rebuilds
  the pools, the black frame and the scratch frames: no tick overlaps the rebuild, whatever the timing
  of requests, time-outs and wake-ups; and from every such state the clock can reach its next tick once
  the change has resumed it.
\<close>

theorem rebuild_excludes_ticks:
  assumes "park_step\<^sup>*\<^sup>* parked_start s" "running s" "changer_at s = Swapping"
  shows "clock_at s = Parked \<and> paused s \<and>
    (\<exists>s'. park_step\<^sup>*\<^sup>* s s' \<and> clock_at s' = In_tick \<and> changer_at s' = Outside \<and> running s')"
proof -
  have i: "park_inv s" using park.reachable_inv [OF assms(1) parked_start_inv] .
  then have c: "clock_at s = Parked" "paused s" using assms(2,3) by (auto simp: park_inv_def)
  let ?s1 = "s\<lparr>pauseRequested := False, changer_at := Outside\<rparr>"
  have "park_step s ?s1" using resumes [of s] assms(3) by simp
  moreover have "park_step ?s1 (?s1\<lparr>paused := False, clock_at := In_tick\<rparr>)"
    using wakes [of ?s1] c(1) assms(2) by simp
  ultimately have "park_step\<^sup>*\<^sup>* s (?s1\<lparr>paused := False, clock_at := In_tick\<rparr>)"
    by (meson converse_rtranclp_into_rtranclp rtranclp.rtrancl_refl)
  with c assms(2) show ?thesis by (intro conjI exI [of _ "?s1\<lparr>paused := False, clock_at := In_tick\<rparr>"]) simp_all
qed

theorem rebuild_excludes_ticks_witness:
  "let s = \<lparr>running = True, pauseRequested = True, paused = True, clock_at = Parked, changer_at = Swapping\<rparr>
   in \<exists>s'. park_step\<^sup>*\<^sup>* s s' \<and> clock_at s' = In_tick"
proof -
  let ?s = "\<lparr>running = True, pauseRequested = True, paused = True, clock_at = Parked, changer_at = Swapping\<rparr>"
  define s1 where "s1 = parked_start\<lparr>pauseRequested := True, changer_at := Asking\<rparr>"
  define s2 where "s2 = s1\<lparr>clock_at := Checking\<rparr>"
  define s3 where "s3 = s2\<lparr>paused := True, clock_at := Parked\<rparr>"
  note ds = s1_def s2_def s3_def parked_start_def
  have "park_step parked_start s1" unfolding s1_def by (rule asks) (simp add: parked_start_def)
  moreover have "park_step s1 s2" using tick_due [of s1] by (simp add: ds)
  moreover have "park_step s2 s3" unfolding s3_def by (rule parks) (simp_all add: ds)
  moreover have "park_step s3 ?s" using granted [of s3] by (simp add: ds)
  ultimately have "park_step\<^sup>*\<^sup>* parked_start ?s" by (meson converse_rtranclp_into_rtranclp rtranclp.rtrancl_refl)
  from rebuild_excludes_ticks [OF this] show ?thesis by auto
qed

text \<open>
  With \<open>halt\<close> under way \<open>pauseClock\<close> also succeeds while the clock thread is still in the middle of a
  tick: its condition accepts a cleared \<open>running_\<close> as if the thread were parked.
\<close>

lemma halted_rebuild_overlaps_tick:
  "\<exists>s. park_step\<^sup>*\<^sup>* parked_start s \<and> changer_at s = Swapping \<and> clock_at s = In_tick"
proof -
  define s1 where "s1 = parked_start\<lparr>clock_at := Checking\<rparr>"
  define s2 where "s2 = s1\<lparr>clock_at := In_tick\<rparr>"
  define s3 where "s3 = s2\<lparr>running := False\<rparr>"
  define s4 where "s4 = s3\<lparr>pauseRequested := True, changer_at := Asking\<rparr>"
  define s5 where "s5 = s4\<lparr>changer_at := Swapping\<rparr>"
  note ds = s1_def s2_def s3_def s4_def s5_def parked_start_def
  have "park_step parked_start s1" using tick_due [of parked_start] by (simp add: ds)
  moreover have "park_step s1 s2" using no_pause [of s1] by (simp add: ds)
  moreover have "park_step s2 s3" unfolding s3_def by (rule halts)
  moreover have "park_step s3 s4" unfolding s4_def by (rule asks) (simp add: ds)
  moreover have "park_step s4 s5" unfolding s5_def by (rule granted) (simp_all add: ds)
  ultimately have "park_step\<^sup>*\<^sup>* parked_start s5" by (meson converse_rtranclp_into_rtranclp rtranclp.rtrancl_refl)
  then show ?thesis by (intro exI [of _ s5]) (simp add: ds)
qed

end
