(* ===== verification/Tick_Audio.thy ===== *)
theory Tick_Audio
  imports Prelude Video_Format
begin

text \<open>
  \<open>Engine::audioFramesForTick\<close>: how many sample frames of audio belong to a tick.
\<close>

definition audioFramesForTick :: "int \<Rightarrow> frame_rate \<Rightarrow> int \<Rightarrow> int" where
  "audioFramesForTick sampleRate r tick =
     (if sampleRate \<le> 0 then 0
      else if numerator r \<le> 0 then 0
      else let start = i64 (i64 (tick * sampleRate) * denominator r) sdiv numerator r;
               finish = i64 (i64 ((tick + 1) * sampleRate) * denominator r) sdiv numerator r
           in i32 (finish - start))"

lemma position_exact:
  assumes "0 \<le> t" "0 < sr" "0 < d" "0 < n" "t * sr * d < 2 ^ 63"
  shows "i64 (i64 (t * sr) * d) sdiv n = t * sr * d div n"
proof -
  have "0 \<le> t * sr" using assms by simp
  then have "t * sr * 1 \<le> t * sr * d" using assms(3) by (intro mult_left_mono) simp_all
  then have "i64 (t * sr) = t * sr" using assms(5) \<open>0 \<le> t * sr\<close> by (intro i64_fits) simp_all
  moreover have "0 \<le> t * sr * d" using \<open>0 \<le> t * sr\<close> assms(3) by simp
  then have "i64 (t * sr * d) = t * sr * d" using assms(5) by (intro i64_fits) simp_all
  ultimately show ?thesis using \<open>0 \<le> t * sr * d\<close> assms(4) by (simp add: sdiv_nonneg)
qed

lemma div_add_bounds:
  assumes "0 < (n :: int)"
  shows "a div n + b div n \<le> (a + b) div n" "(a + b) div n \<le> a div n + b div n + 1"
proof -
  have "a = a div n * n + a mod n" "b = b div n * n + b mod n" by simp_all
  then have "(a + b) div n = a div n + b div n + (a mod n + b mod n) div n"
    using assms by (metis div_add1_eq)
  moreover have "0 \<le> a mod n" "a mod n < n" "0 \<le> b mod n" "b mod n < n" using assms by simp_all
  then have "0 \<le> a mod n + b mod n" "a mod n + b mod n < 2 * n" by linarith+
  then have "0 \<le> (a mod n + b mod n) div n" "(a mod n + b mod n) div n < 2"
    using assms int_div_less [of n "a mod n + b mod n" 2] by (simp_all add: pos_imp_zdiv_nonneg_iff)
  ultimately show "a div n + b div n \<le> (a + b) div n" "(a + b) div n \<le> a div n + b div n + 1" by linarith+
qed

lemma tick_share:
  assumes "0 \<le> t" "0 < sr" "0 < denominator r" "0 < numerator r" "(t + 1) * sr * denominator r < 2 ^ 63"
    and "sr * denominator r div numerator r < 2 ^ 31 - 1"
  shows "audioFramesForTick sr r t =
      (t + 1) * sr * denominator r div numerator r - t * sr * denominator r div numerator r"
    and "sr * denominator r div numerator r \<le> audioFramesForTick sr r t"
    and "audioFramesForTick sr r t \<le> sr * denominator r div numerator r + 1"
proof -
  let ?d = "denominator r" and ?n = "numerator r"
  have step: "(t + 1) * sr * ?d = t * sr * ?d + sr * ?d" by (simp add: algebra_simps)
  have "0 < sr * ?d" using assms by simp
  then have lt: "t * sr * ?d < 2 ^ 63" using assms(5) step by linarith
  let ?x = "(t + 1) * sr * ?d div ?n - t * sr * ?d div ?n"
  note b = div_add_bounds [OF assms(4), of "t * sr * ?d" "sr * ?d"]
  have lo: "sr * ?d div ?n \<le> ?x" "?x \<le> sr * ?d div ?n + 1" using b unfolding step by linarith+
  have "0 \<le> sr * ?d div ?n" using \<open>0 < sr * ?d\<close> assms(4) by (simp add: pos_imp_zdiv_nonneg_iff)
  with lo assms(6) have fits: "i32 ?x = ?x" by (intro i32_fits) simp_all
  have "i64 (i64 ((t + 1) * sr) * ?d) sdiv ?n = (t + 1) * sr * ?d div ?n"
    by (rule position_exact) (use assms in simp_all)
  moreover have "i64 (i64 (t * sr) * ?d) sdiv ?n = t * sr * ?d div ?n"
    by (rule position_exact) (use assms lt in simp_all)
  ultimately show e: "audioFramesForTick sr r t = ?x"
    using assms(2,4) fits by (simp only: audioFramesForTick_def Let_def) simp
  show "sr * ?d div ?n \<le> audioFramesForTick sr r t" "audioFramesForTick sr r t \<le> sr * ?d div ?n + 1"
    using lo unfolding e by simp_all
qed

section \<open>Property\<close>

text \<open>
  C36: audio never drifts from the picture: the shares of the first \<open>k\<close> ticks add up to exactly
  the samples that belong to them, and each share is the exact quotient or one more, at every rate
  and for as long as a position fits in 64 bits (over a century at 48 kHz and 1001 denominators).
\<close>

theorem audio_shares_exact:
  assumes "0 < sr" "0 < denominator r" "0 < numerator r" "int k * sr * denominator r < 2 ^ 63"
    and "sr * denominator r div numerator r < 2 ^ 31 - 1"
  shows "(\<Sum>t<k. audioFramesForTick sr r (int t)) = int k * sr * denominator r div numerator r \<and>
    (\<forall>t<k. audioFramesForTick sr r (int t) - sr * denominator r div numerator r \<in> {0, 1})"
proof -
  have fits: "(int t + 1) * sr * denominator r < 2 ^ 63" if "t < k" for t
  proof -
    have "(int t + 1) * (sr * denominator r) \<le> int k * (sr * denominator r)"
      using that assms by (intro mult_right_mono) simp_all
    with assms(4) show ?thesis by (simp add: mult.assoc)
  qed
  note s = tick_share [OF _ assms(1-3) fits assms(5)]
  have "j \<le> k \<Longrightarrow> (\<Sum>t<j. audioFramesForTick sr r (int t)) = int j * sr * denominator r div numerator r" for j
  proof (induction j)
    case 0
    then show ?case by simp
  next
    case (Suc j)
    then have "j < k" by simp
    from s(1) [OF _ this] Suc show ?case by (simp add: add.commute)
  qed
  moreover have "audioFramesForTick sr r (int t) - sr * denominator r div numerator r \<in> {0, 1}" if "t < k" for t
    using s(2,3) [OF _ that] by fastforce
  ultimately show ?thesis by blast
qed

theorem audio_shares_exact_witness:
  "(\<Sum>t<5. audioFramesForTick 48000 \<lparr>numerator = 60000, denominator = 1001\<rparr> (int t)) = 4004"
  using audio_shares_exact [of 48000 "\<lparr>numerator = 60000, denominator = 1001\<rparr>" 5] by simp

end
