(* ===== verification/Engine_Model.thy ===== *)
theory Engine_Model
  imports Source_Config Output_Slot
begin

text \<open>
  The control operations of \<open>engine/engine.cpp\<close> and \<open>outputs/output.cpp\<close>: the list of outputs,
  what is opened and closed, and what the clock is told to feed. Control operations take turns on the
  control queue, so each is one function here; the list as it stands at every release of the engine's
  mutex, which is all the clock thread sees, is kept in \<open>published\<close>. What drivers, gates and the clock
  answer is a parameter: an answer for every question, in the order they are asked.
\<close>

section \<open>Outputs\<close>

record output_spec =
  spec_kind :: string
  spec_name :: string
  spec_device :: int
  spec_options :: json
  spec_background :: output_background

definition outputSpecFromConfig :: "output_config \<Rightarrow> output_spec" where
  "outputSpecFromConfig c = \<lparr>spec_kind = out_kind c, spec_name = out_name c, spec_device = deviceIndex c,
     spec_options = options c, spec_background = background c\<rparr>"

definition outputConfigFromSpec :: "output_spec \<Rightarrow> output_config" where
  "outputConfigFromSpec s = \<lparr>out_kind = spec_kind s, out_name = spec_name s, deviceIndex = spec_device s,
     options = spec_options s, background = spec_background s\<rparr>"

text \<open>
  An object a backend's constructor returned: the spec it was made from, what it says of itself, and
  the raster \<open>start\<close> last opened it at (\<open>None\<close> when \<open>stop\<close> ran or it never started).
\<close>

record output_object =
  its_spec :: output_spec
  its_traits :: traits
  opened :: "video_format option"

text \<open>
  What the outside answers to the \<open>n\<close>-th question: whether the control queue lets the change in,
  whether an output's gate is had in time and for how long it has been busy, what a constructor makes,
  whether \<open>start\<close> fails, whether a backend's own threads have left it running, whether the clock parks,
  and how long ago it ticked when it counts as stuck.
\<close>

record drivers =
  compiled_in :: "string set"
  admission :: "nat \<Rightarrow> string option"
  gate :: "nat \<Rightarrow> bool"
  busyMillis :: "nat \<Rightarrow> int"
  built :: "nat \<Rightarrow> traits"
  start_error :: "nat \<Rightarrow> string option"
  still_running :: "nat \<Rightarrow> bool"
  parks :: "nat \<Rightarrow> bool"
  stuck_for :: "nat \<Rightarrow> int option"

definition backendKinds :: "string list" where
  "backendKinds = [''ndi'', ''omt'', ''decklink'', ''aja'', ''screen'', ''kms'', ''shared'', ''stream'']"

definition compiledOutputKinds :: "string set \<Rightarrow> string list" where
  "compiledOutputKinds built_in = ''preview'' # filter (\<lambda>k. k \<in> built_in) backendKinds"

definition createOutput :: "drivers \<Rightarrow> nat \<Rightarrow> output_spec \<Rightarrow> string + output_object" where
  "createOutput d n s =
     (if spec_kind s \<in> set (compiledOutputKinds (compiled_in d))
      then Inr \<lparr>its_spec = s, its_traits = built d n, opened = None\<rparr>
      else if spec_kind s \<in> set backendKinds
      then Inl (''output kind '' @ [CHR 0x27] @ spec_kind s @ [CHR 0x27] @ '' was not compiled into this build'')
      else Inl (''unknown output kind '' @ [CHR 0x27] @ spec_kind s @ [CHR 0x27]))"

text \<open>
  \<open>start\<close>: the backends of displays and shared surfaces return at once when they are running, at
  whatever raster they were opened; the others open at the raster they are given. A failed start leaves
  nothing open.
\<close>

definition returns_when_running :: "string \<Rightarrow> bool" where
  "returns_when_running k \<longleftrightarrow> k = ''screen'' \<or> k = ''kms'' \<or> k = ''shared''"

definition isRunning :: "drivers \<Rightarrow> nat \<Rightarrow> output_object \<Rightarrow> bool" where
  "isRunning d n obj \<longleftrightarrow> opened obj \<noteq> None \<and> still_running d n"

definition start_output :: "drivers \<Rightarrow> nat \<Rightarrow> video_format \<Rightarrow> output_object \<Rightarrow> string option \<times> output_object" where
  "start_output d n f obj =
     (if isRunning d n obj \<and> returns_when_running (spec_kind (its_spec obj)) then (None, obj)
      else case start_error d n of
        None \<Rightarrow> (None, obj\<lparr>opened := Some f\<rparr>)
      | Some e \<Rightarrow> (Some e, obj\<lparr>opened := None\<rparr>))"

definition stop_output :: "output_object \<Rightarrow> output_object" where
  "stop_output obj = obj\<lparr>opened := None\<rparr>"

section \<open>The engine\<close>

record engine_entry =
  entry_spec :: output_spec
  slot_object :: "output_object option"
  slot_generation :: nat
  entry_desc :: description
  entry_enabled :: bool
  lastError :: string

record engine =
  engine_id :: string
  raster :: video_format
  entries :: "engine_entry list"
  the_url :: string
  the_matrix :: colour_matrix
  external_pacing :: bool
  interactive :: bool
  blocks_popups :: bool
  audio_on :: bool
  asked :: nat
  fell_back :: "video_format option"   \<comment> \<open>the raster a failed change of format reopened the outputs at, where it is not the engine's\<close>
  published :: "(video_format \<times> video_format option \<times> engine_entry list) list"   \<comment> \<open>the list at each release of the mutex\<close>

definition entry_name :: "engine_entry \<Rightarrow> string" where
  "entry_name e = spec_name (entry_spec e)"

definition findEntry :: "string \<Rightarrow> engine_entry list \<Rightarrow> engine_entry option" where
  "findEntry name es = find (\<lambda>e. entry_name e = name) es"

text \<open>Assigning through the pointer \<open>findEntry\<close> returns, erasing at it, and releasing the mutex.\<close>

primrec on_entry :: "string \<Rightarrow> (engine_entry \<Rightarrow> engine_entry) \<Rightarrow> engine_entry list \<Rightarrow> engine_entry list" where
  "on_entry name f [] = []"
| "on_entry name f (e # es) = (if entry_name e = name then f e # es else e # on_entry name f es)"

primrec erase_entry :: "string \<Rightarrow> engine_entry list \<Rightarrow> engine_entry list" where
  "erase_entry name [] = []"
| "erase_entry name (e # es) = (if entry_name e = name then es else e # erase_entry name es)"

definition release :: "engine \<Rightarrow> engine" where
  "release s = s\<lparr>published := published s @ [(raster s, fell_back s, entries s)]\<rparr>"

definition assign :: "string \<Rightarrow> (engine_entry \<Rightarrow> engine_entry) \<Rightarrow> engine \<Rightarrow> engine" where
  "assign name f s = release (s\<lparr>entries := on_entry name f (entries s)\<rparr>)"

definition ask :: "engine \<Rightarrow> engine" where
  "ask s = s\<lparr>asked := asked s + 1\<rparr>"

text \<open>\<open>OutputSlot::description\<close> of a slot holding this object.\<close>

definition described :: "nat \<Rightarrow> output_object option \<Rightarrow> description" where
  "described g obj = describe (\<lambda>_. its_traits (the obj)) g (map_option (\<lambda>_. 0) obj)"

section \<open>Messages\<close>

definition quoted :: "string \<Rightarrow> string" where
  "quoted s = CHR 0x27 # s @ [CHR 0x27]"

definition busyMessage :: "string \<Rightarrow> int \<Rightarrow> string" where
  "busyMessage name busy = ''output '' @ quoted name @ '' is not answering'' @
     (if busy > 0 then '': a call into its driver has been running for '' @ dec_int (busy sdiv 1000) @ ''.'' @
        dec_int (busy smod 1000 sdiv 100) @ '' s'' else []) @ ''; nothing was changed''"

definition no_output :: "string \<Rightarrow> string" where
  "no_output name = ''no output named '' @ quoted name"

definition no_device :: "string \<Rightarrow> string" where
  "no_device name = ''output '' @ quoted name @ '' has no device''"

definition name_taken :: "string \<Rightarrow> string" where
  "name_taken name = ''an output named '' @ quoted name @ '' already exists''"

section \<open>Operations\<close>

text \<open>
  The result of an operation: whether it succeeded and the caller's \<open>error\<close>, which it may leave as
  it was.
\<close>

type_synonym reply = "bool \<times> string"

text \<open>
  Inside the gate: nothing if the output is as asked already, else \<open>start\<close> or \<open>stop\<close>. Then, back
  under the mutex, the entry and the reply.
\<close>

definition switch_object ::
  "drivers \<Rightarrow> nat \<Rightarrow> video_format \<Rightarrow> bool \<Rightarrow> bool \<Rightarrow> output_object \<Rightarrow> string option \<times> output_object" where
  "switch_object d n f was enable obj =
     (if enable = was \<and> isRunning d n obj = enable then (None, obj)
      else if enable then start_output d n f obj else (None, stop_output obj))"

definition switched :: "bool \<Rightarrow> string option \<Rightarrow> engine_entry \<Rightarrow> engine_entry" where
  "switched enable failed x =
     (if \<not> enable then x\<lparr>entry_enabled := False\<rparr>
      else case failed of
        Some e \<Rightarrow> x\<lparr>lastError := e, entry_enabled := False\<rparr>
      | None \<Rightarrow> x\<lparr>lastError := [], entry_enabled := True\<rparr>)"

definition outcome :: "string option \<Rightarrow> string \<Rightarrow> reply" where
  "outcome failed err = (case failed of Some e \<Rightarrow> (False, e) | None \<Rightarrow> (True, err))"

definition setOutputEnabled :: "drivers \<Rightarrow> string \<Rightarrow> bool \<Rightarrow> string \<Rightarrow> engine \<Rightarrow> reply \<times> engine" where
  "setOutputEnabled d name enable err s0 =
     (let s = ask s0
      in case admission d (asked s0) of
        Some refused \<Rightarrow> ((False, refused), s)
      | None \<Rightarrow>
        (case findEntry name (entries s) of
          None \<Rightarrow> ((False, no_output name), s)
        | Some e \<Rightarrow>
          if \<not> present (entry_desc e) then ((False, ''output '' @ quoted name @ '' was never created: '' @ lastError e), s)
          else
            let s1 = (if enable then s else assign name (\<lambda>x. x\<lparr>entry_enabled := False\<rparr>) s);
                n = asked s1;
                s2 = ask s1;
                restored = assign name (\<lambda>x. x\<lparr>entry_enabled := entry_enabled e\<rparr>) s2
            in if \<not> gate d n then ((False, busyMessage name (busyMillis d n)), restored)
               else (case slot_object e of
                   None \<Rightarrow> ((False, no_device name), restored)
                 | Some obj \<Rightarrow>
                   (case switch_object d n (raster s) (entry_enabled e) enable obj of
                     (failed, obj') \<Rightarrow> (outcome failed err,
                       assign name (switched enable failed) (assign name (\<lambda>x. x\<lparr>slot_object := Some obj'\<rparr>) s2))))))"

text \<open>A new entry holding an object \<open>start\<close> was called on.\<close>

definition opened_entry :: "drivers \<Rightarrow> nat \<Rightarrow> video_format \<Rightarrow> output_spec \<Rightarrow> output_object \<Rightarrow> string option \<times> engine_entry" where
  "opened_entry d n f spec obj =
     (let (failed, obj') = start_output d n f obj
      in (failed, \<lparr>entry_spec = spec, slot_object = Some obj', slot_generation = 1, entry_desc = described 1 (Some obj'),
            entry_enabled = (failed = None), lastError = (case failed of None \<Rightarrow> [] | Some e \<Rightarrow> e)\<rparr>))"

definition addOutput :: "drivers \<Rightarrow> output_spec \<Rightarrow> string \<Rightarrow> engine \<Rightarrow> reply \<times> engine" where
  "addOutput d spec err s0 =
     (let s = ask s0
      in case admission d (asked s0) of
        Some refused \<Rightarrow> ((False, refused), s)
      | None \<Rightarrow>
        if \<exists>e \<in> set (entries s). entry_name e = spec_name spec then ((False, name_taken (spec_name spec)), s)
        else if outputKindIsPermanent (spec_kind spec) \<and> (\<exists>e \<in> set (entries s). outputKindIsPermanent (spec_kind (entry_spec e)))
        then ((False, ''there is already a preview output''), s)
        else (case createOutput d (asked s) spec of
            Inl e \<Rightarrow> ((False, e), ask s)
          | Inr obj \<Rightarrow>
            (case opened_entry d (asked s) (raster s) spec obj of
              (failed, entry) \<Rightarrow> (outcome failed err,
                release (ask s\<lparr>entries := entries s @ [entry]\<rparr>)))))"

definition setOutputBackground :: "string \<Rightarrow> output_background \<Rightarrow> string \<Rightarrow> engine \<Rightarrow> reply \<times> engine" where
  "setOutputBackground name bg err s =
     (case findEntry name (entries s) of
        None \<Rightarrow> ((False, no_output name), s)
      | Some _ \<Rightarrow> ((True, err), assign name (\<lambda>x. x\<lparr>entry_spec := entry_spec x\<lparr>spec_background := bg\<rparr>\<rparr>) s))"

text \<open>What decides whether a device has to be reopened.\<close>

definition same_device :: "output_spec \<Rightarrow> output_spec \<Rightarrow> bool" where
  "same_device x y \<longleftrightarrow> spec_kind x = spec_kind y \<and> spec_device x = spec_device y \<and>
     serialize False (spec_options x) = serialize False (spec_options y)"

text \<open>\<open>updateOutput\<close>'s checks before it touches anything.\<close>

definition update_refusal :: "string \<Rightarrow> output_spec \<Rightarrow> engine_entry \<Rightarrow> engine_entry list \<Rightarrow> string option" where
  "update_refusal name spec e es =
     (let was = outputKindIsPermanent (spec_kind (entry_spec e)); will = outputKindIsPermanent (spec_kind spec)
      in if was \<and> spec_kind spec \<noteq> spec_kind (entry_spec e)
         then Some (''the preview cannot become a '' @ quoted (spec_kind spec) @ '' output '' @ em_dash @ '' add a second output instead'')
         else if \<not> was \<and> will then Some ''there is already a preview output''
         else if spec_name spec \<noteq> name \<and> (\<exists>x \<in> set es. entry_name x = spec_name spec) then Some (name_taken (spec_name spec))
         else None)"

text \<open>
  What \<open>updateOutput\<close> does to the object behind the gate: stop and destroy it, open the new one, and
  failing that rebuild the old one. The result is the object, whether it was replaced, whether the old
  one was put back running, and the error.
\<close>

definition replace_object ::
  "drivers \<Rightarrow> nat \<Rightarrow> video_format \<Rightarrow> output_spec \<Rightarrow> output_spec \<Rightarrow> bool \<Rightarrow> output_object option \<times> bool \<times> bool \<times> string" where
  "replace_object d n f spec previous wasEnabled =
     (let restore = (\<lambda>e. case createOutput d (n + 1) previous of
              Inl _ \<Rightarrow> (None, False, False, e)
            | Inr old \<Rightarrow> if wasEnabled
                then (case start_output d (n + 1) f old of (failed, old') \<Rightarrow> (Some old', False, failed = None, e))
                else (Some old, False, False, e))
      in case createOutput d n spec of
           Inl e \<Rightarrow> restore e
         | Inr obj \<Rightarrow> (case start_output d n f obj of
             (None, obj') \<Rightarrow> (Some obj', True, False, [])
           | (Some e, _) \<Rightarrow> restore e))"

text \<open>
  \<open>OutputSlot::replace\<close>: the object and the generation move behind the gate, before the engine's mutex is
  taken again and the description in the entry follows.
\<close>

definition replace_in_slot :: "string \<Rightarrow> output_object option \<Rightarrow> engine \<Rightarrow> engine" where
  "replace_in_slot name obj s = assign name (\<lambda>x. x\<lparr>slot_object := obj, slot_generation := slot_generation x + 1\<rparr>) s"

definition updateOutput :: "drivers \<Rightarrow> string \<Rightarrow> output_spec \<Rightarrow> string \<Rightarrow> engine \<Rightarrow> reply \<times> engine" where
  "updateOutput d name spec err s0 =
     (let s = ask s0
      in case admission d (asked s0) of
        Some refused \<Rightarrow> ((False, refused), s)
      | None \<Rightarrow>
        (case findEntry name (entries s) of
          None \<Rightarrow> ((False, no_output name), s)
        | Some e \<Rightarrow>
          (case update_refusal name spec e (entries s) of
            Some refused \<Rightarrow> ((False, refused), s)
          | None \<Rightarrow>
            let n = asked s;
                healthy = (entry_enabled e \<and> lastError e = []);
                running = (if \<not> present (entry_desc e) then False
                  else if gate d n \<and> slot_object e \<noteq> None then isRunning d n (the (slot_object e))
                  else healthy);
                s1 = ask s
            in if running \<and> spec_name spec = name \<and> same_device spec (entry_spec e)
               then ((True, err), assign name (\<lambda>x. x\<lparr>entry_spec := entry_spec x\<lparr>spec_background := spec_background spec\<rparr>\<rparr>) s1)
               else
                 let s2 = assign name (\<lambda>x. x\<lparr>entry_enabled := False\<rparr>) s1;
                     m = asked s2;
                     s3 = ask (ask s2)
                 in if \<not> gate d m
                    then ((False, busyMessage name (busyMillis d m)), assign name (\<lambda>x. x\<lparr>entry_enabled := entry_enabled e\<rparr>) s3)
                    else (case replace_object d m (raster s) spec (entry_spec e) (entry_enabled e) of
                      (obj, replaced, restored, why) \<Rightarrow>
                        let s4 = replace_in_slot name obj s3;
                            told = (\<lambda>x. x\<lparr>entry_desc := described (slot_generation x) (slot_object x)\<rparr>)
                        in if replaced
                           then ((True, err), assign name (\<lambda>x. (told x)\<lparr>entry_spec := spec, entry_enabled := True, lastError := []\<rparr>) s4)
                           else ((False, why), assign name (\<lambda>x. (told x)\<lparr>entry_enabled := restored, lastError := why\<rparr>) s4)))))"

definition removeOutput :: "drivers \<Rightarrow> string \<Rightarrow> engine \<Rightarrow> reply \<times> engine" where
  "removeOutput d name s0 =
     (let s = ask s0
      in case admission d (asked s0) of
        Some refused \<Rightarrow> ((False, refused), s)
      | None \<Rightarrow>
        (case findEntry name (entries s) of
          None \<Rightarrow> ((False, no_output name), s)
        | Some e \<Rightarrow>
          if outputKindIsPermanent (spec_kind (entry_spec e))
          then ((False, ''the preview cannot be removed '' @ em_dash @ '' it is what the control page shows''), s)
          else
            let s1 = assign name (\<lambda>x. x\<lparr>entry_enabled := False\<rparr>) s; n = asked s1; s2 = ask s1
            in if \<not> gate d n
               then ((False, busyMessage name (busyMillis d n)), assign name (\<lambda>x. x\<lparr>entry_enabled := entry_enabled e\<rparr>) s2)
               else (let s3 = replace_in_slot name None s2 in ((True, []), release (s3\<lparr>entries := erase_entry name (entries s3)\<rparr>)))))"

section \<open>Changing the format\<close>

record item =
  item_name :: string
  wasEnabled :: bool
  stopped :: bool
  started :: bool
  startError :: string

definition list_items :: "engine_entry list \<Rightarrow> item list" where
  "list_items es = map (\<lambda>e. \<lparr>item_name = entry_name e, wasEnabled = entry_enabled e, stopped = False, started = False, startError = []\<rparr>) es"

definition unfeed_all :: "engine \<Rightarrow> engine" where
  "unfeed_all s = release (s\<lparr>entries := map (\<lambda>x. x\<lparr>entry_enabled := False\<rparr>) (entries s)\<rparr>)"

primrec stop_items :: "drivers \<Rightarrow> item list \<Rightarrow> engine \<Rightarrow> item list \<times> engine" where
  "stop_items d [] s = ([], s)"
| "stop_items d (i # is) s =
     (let ok = gate d (asked s);
          s1 = (if ok then assign (item_name i) (\<lambda>x. x\<lparr>slot_object := map_option stop_output (slot_object x)\<rparr>) (ask s) else ask s);
          (js, s2) = stop_items d is s1
      in (i\<lparr>stopped := ok\<rparr> # js, s2))"

text \<open>Reopening one output: the object, if its gate was had, and the error, if it did not start.\<close>

definition reopen_one :: "drivers \<Rightarrow> nat \<Rightarrow> video_format \<Rightarrow> string \<Rightarrow> output_object option \<Rightarrow> string option \<times> output_object option" where
  "reopen_one d n f name object =
     (if \<not> gate d n then (Some (busyMessage name (busyMillis d n)), object)
      else case object of
        None \<Rightarrow> (Some (no_device name), None)
      | Some obj \<Rightarrow> (case start_output d n f obj of (failed, obj') \<Rightarrow> (failed, Some obj')))"

primrec reopen_items :: "drivers \<Rightarrow> video_format \<Rightarrow> item list \<Rightarrow> engine \<Rightarrow> item list \<times> engine" where
  "reopen_items d f [] s = ([], s)"
| "reopen_items d f (i # is) s =
     (if \<not> wasEnabled i \<or> \<not> stopped i
      then (let (js, s2) = reopen_items d f is s in (i # js, s2))
      else case findEntry (item_name i) (entries s) of
        None \<Rightarrow> (let (js, s2) = reopen_items d f is s in (i # js, s2))
      | Some e \<Rightarrow>
        (let (failed, obj) = reopen_one d (asked s) f (item_name i) (slot_object e);
             s1 = assign (item_name i) (\<lambda>x. x\<lparr>slot_object := obj\<rparr>) (ask s);
             (js, s2) = reopen_items d f is s1
         in (i\<lparr>started := (failed = None), startError := (case failed of None \<Rightarrow> [] | Some e' \<Rightarrow> e')\<rparr> # js, s2)))"

text \<open>One item of the last loop: what it makes of its entry, and of the error so far.\<close>

definition feed_one :: "drivers \<Rightarrow> nat \<Rightarrow> item \<Rightarrow> (engine_entry \<Rightarrow> engine_entry) \<times> bool \<times> (string \<Rightarrow> string)" where
  "feed_one d n i =
     (if \<not> stopped i then
        let message = ''did not stop for the format change: '' @ busyMessage (item_name i) (busyMillis d n)
        in (\<lambda>x. x\<lparr>lastError := message\<rparr>, False, \<lambda>err. if err = [] then quoted (item_name i) @ '' '' @ message else err)
      else if \<not> wasEnabled i then (\<lambda>x. x, True, \<lambda>err. err)
      else if started i then (\<lambda>x. x\<lparr>entry_enabled := True, lastError := []\<rparr>, True, \<lambda>err. err)
      else (\<lambda>x. x\<lparr>lastError := startError i\<rparr>, False,
            \<lambda>err. if err = [] then quoted (item_name i) @ '': '' @ startError i else err))"

primrec feed_items :: "drivers \<Rightarrow> nat \<Rightarrow> item list \<Rightarrow> reply \<Rightarrow> engine_entry list \<Rightarrow> reply \<times> engine_entry list" where
  "feed_items d n [] r es = (r, es)"
| "feed_items d n (i # is) r es =
     (if findEntry (item_name i) es = None then feed_items d n is r es
      else case feed_one d n i of
        (f, fine, why) \<Rightarrow> feed_items d n is (fst r \<and> fine, why (snd r)) (on_entry (item_name i) f es))"

text \<open>
  \<open>setFormat\<close> once it has the queue; \<open>previous\<close> is the raster it read before it waited.
\<close>

definition change_format :: "drivers \<Rightarrow> video_format \<Rightarrow> video_format \<Rightarrow> string \<Rightarrow> engine \<Rightarrow> reply \<times> engine" where
  "change_format d previous f err s =
     (case stuck_for d (asked s) of
        Some millis \<Rightarrow> ((False, ''the format was not changed: the clock has not ticked for '' @ dec_int millis @
          '' ms, which usually means an output'' @ [CHR 0x27] @ ''s driver is not answering''), ask s)
      | None \<Rightarrow>
        (let (items1, s1) = stop_items d (list_items (entries s)) (unfeed_all (ask s));
             parked = parks d (asked s1);
             s2 = (if parked then release (ask s1\<lparr>raster := f, fell_back := None\<rparr>)
                   else ask s1\<lparr>fell_back := (if previous = raster s1 then None else Some previous)\<rparr>);
             openAt = (if parked then f else previous);
             (items2, s3) = reopen_items d openAt items1 s2;
             ((allStarted, err'), es) = feed_items d (asked s3) items2 (True, err) (entries s3);
             s4 = release (ask s3\<lparr>entries := es\<rparr>)
         in if parked then ((allStarted, err'), s4)
            else ((False, ''the format was not changed: the clock did not stop for it, which usually means an output'' @ [CHR 0x27] @
              ''s driver is not answering; the outputs were reopened at '' @ format_toString previous), s4)))"

text \<open>
  The whole of \<open>setFormat\<close>. \<open>previous\<close> is the raster as it read it under the mutex; other control operations
  may have had their turn before it got its own, so it need not be the raster of the state it acts on.
\<close>

definition setFormat :: "drivers \<Rightarrow> video_format \<Rightarrow> video_format \<Rightarrow> string \<Rightarrow> engine \<Rightarrow> reply \<times> engine" where
  "setFormat d previous f err s =
     (if same_format previous f then ((True, err), s)
      else case admission d (asked s) of
        Some refused \<Rightarrow> ((False, refused), ask s)
      | None \<Rightarrow> change_format d previous f err (ask s))"

section \<open>Configurations\<close>

definition configuration :: "engine \<Rightarrow> source_config" where
  "configuration s = \<lparr>source_id = engine_id s, url = the_url s, format = raster s,
     outputs = map (outputConfigFromSpec \<circ> entry_spec) (entries s), audioEnabled = audio_on s, matrix = the_matrix s,
     externalPacing = external_pacing s, interactiveByDefault = interactive s,
     popupPolicy = (if blocks_popups s then ''block'' else ''navigate''), wantPreview = False\<rparr>"

text \<open>The first loop: outputs the configuration does not name go.\<close>

primrec drop_unwanted :: "drivers \<Rightarrow> string list \<Rightarrow> string list \<Rightarrow> engine \<Rightarrow> engine" where
  "drop_unwanted d wanted [] s = s"
| "drop_unwanted d wanted (name # names) s =
     drop_unwanted d wanted names (if name \<in> set wanted then s else snd (removeOutput d name s))"

text \<open>The second loop; \<open>note\<close> keeps the first message.\<close>

definition apply_one :: "drivers \<Rightarrow> output_spec \<Rightarrow> engine \<Rightarrow> reply \<times> engine" where
  "apply_one d spec s =
     (case findEntry (spec_name spec) (entries s) of
        Some e \<Rightarrow>
          if same_device (entry_spec e) spec \<and> spec_background (entry_spec e) = spec_background spec then ((True, []), s)
          else updateOutput d (spec_name spec) spec [] s
      | None \<Rightarrow> addOutput d spec [] s)"

definition noted :: "string \<Rightarrow> reply \<Rightarrow> string" where
  "noted first r = (if \<not> fst r \<and> first = [] then snd r else first)"

primrec apply_outputs :: "drivers \<Rightarrow> output_spec list \<Rightarrow> string \<Rightarrow> engine \<Rightarrow> string \<times> engine" where
  "apply_outputs d [] first s = (first, s)"
| "apply_outputs d (spec # specs) first s =
     (let (r, s1) = apply_one d spec s in apply_outputs d specs (noted first r) s1)"

definition apply_settings :: "source_config \<Rightarrow> engine \<Rightarrow> engine" where
  "apply_settings c s = s\<lparr>the_matrix := matrix c, external_pacing := externalPacing c, interactive := interactiveByDefault c,
     blocks_popups := (popupPolicy c = ''block'')\<rparr>"

definition applyConfiguration :: "drivers \<Rightarrow> source_config \<Rightarrow> engine \<Rightarrow> reply \<times> engine" where
  "applyConfiguration d c s0 =
     (let (r, s1) = (if same_format (format c) (raster s0) then ((True, []), s0) else setFormat d (raster s0) (format c) [] s0);
          s2 = apply_settings c s1;
          s3 = drop_unwanted d (map out_name (outputs c)) (map entry_name (entries s2)) s2;
          (first, s4) = apply_outputs d (map outputSpecFromConfig (outputs c)) (noted [] r) s3;
          s5 = (if url c \<noteq> the_url s4 then s4\<lparr>the_url := url c\<rparr> else s4)
      in ((first = [], first), s5))"

section \<open>Start\<close>

text \<open>Opening the configured outputs; a failure is recorded against the output.\<close>

definition open_one :: "drivers \<Rightarrow> nat \<Rightarrow> video_format \<Rightarrow> output_spec \<Rightarrow> engine_entry" where
  "open_one d n f spec = (case createOutput d n spec of
      Inl e \<Rightarrow> \<lparr>entry_spec = spec, slot_object = None, slot_generation = 1, entry_desc = described 1 None,
        entry_enabled = False, lastError = e\<rparr>
    | Inr obj \<Rightarrow> snd (opened_entry d n f spec obj))"

primrec open_all :: "drivers \<Rightarrow> nat \<Rightarrow> video_format \<Rightarrow> output_spec list \<Rightarrow> engine_entry list" where
  "open_all d n f [] = []"
| "open_all d n f (spec # specs) = open_one d n f spec # open_all d (n + 1) f specs"

text \<open>\<open>Engine::start\<close> with the configuration \<open>engineConfigFromSource\<close> makes, once the browser is open.\<close>

definition engine_start :: "drivers \<Rightarrow> source_config \<Rightarrow> engine" where
  "engine_start d c =
     release \<lparr>engine_id = (if source_id c = [] then ''main'' else source_id c), raster = format c,
       entries = open_all d 0 (format c) (map outputSpecFromConfig (outputs c)),
       the_url = url c, the_matrix = matrix c, external_pacing = externalPacing c, interactive = interactiveByDefault c,
       blocks_popups = (popupPolicy c = ''block''), audio_on = audioEnabled c, asked = length (outputs c), fell_back = None, published = []\<rparr>"

end
