(* ===== verification/Engine_Outputs.thy ===== *)
theory Engine_Outputs
  imports Engine_Model
begin

text \<open>
  What every control operation of \<open>Engine_Model\<close> keeps of the output list, at every moment the clock
  can see it; what a configuration that was applied leaves; what a failed operation leaves.
\<close>

section \<open>Lists of entries\<close>

definition permanent :: "engine_entry \<Rightarrow> bool" where
  "permanent e \<longleftrightarrow> outputKindIsPermanent (spec_kind (entry_spec e))"

lemma findEntry_SomeD: "findEntry nm es = Some e \<Longrightarrow> e \<in> set es \<and> entry_name e = nm"
  by (auto simp: findEntry_def find_Some_iff)

lemma findEntry_None: "findEntry nm es = None \<longleftrightarrow> nm \<notin> entry_name ` set es"
  by (auto simp: findEntry_def find_None_iff)

lemma findEntry_simps [simp]:
  "findEntry nm [] = None"
  "findEntry nm (e # es) = (if entry_name e = nm then Some e else findEntry nm es)"
  by (simp_all add: findEntry_def)

lemma findEntry_distinct:
  "distinct (map entry_name es) \<Longrightarrow> e \<in> set es \<Longrightarrow> findEntry (entry_name e) es = Some e"
  by (induction es) auto

lemma on_entry_None: "findEntry nm es = None \<Longrightarrow> on_entry nm f es = es"
  by (induction es) (auto split: if_splits)

lemma on_entry_all:
  "list_all P es \<Longrightarrow> findEntry nm es = Some e \<Longrightarrow> P (f e) \<Longrightarrow> list_all P (on_entry nm f es)"
  by (induction es) (auto split: if_splits)

lemma on_entry_find:
  "findEntry nm es = Some e \<Longrightarrow> entry_name (f e) = nm \<Longrightarrow> findEntry nm (on_entry nm f es) = Some (f e)"
  by (induction es) (auto split: if_splits)

lemma on_entry_find_other:
  "findEntry nm es = Some e \<Longrightarrow> entry_name (f e) = nm \<Longrightarrow> other \<noteq> nm \<Longrightarrow>
   findEntry other (on_entry nm f es) = findEntry other es"
  by (induction es) (auto split: if_splits)

lemma on_entry_set: "set (on_entry nm f es) \<subseteq> set es \<union> f ` {e. findEntry nm es = Some e}"
  by (induction es) auto

lemma on_entry_names:
  "findEntry nm es = Some e \<Longrightarrow> entry_name (f e) = nm \<Longrightarrow> map entry_name (on_entry nm f es) = map entry_name es"
  by (induction es) (auto split: if_splits)

lemma on_entry_distinct:
  "distinct (map entry_name es) \<Longrightarrow> findEntry nm es = Some e \<Longrightarrow>
   entry_name (f e) = nm \<or> entry_name (f e) \<notin> entry_name ` set es \<Longrightarrow> distinct (map entry_name (on_entry nm f es))"
proof (induction es)
  case (Cons x xs)
  show ?case
  proof (cases "entry_name x = nm")
    case False
    have "entry_name x \<notin> entry_name ` set (on_entry nm f xs)"
      using Cons.prems False on_entry_set [of nm f xs] by auto
    with Cons False show ?thesis by auto
  qed (use Cons.prems in auto)
qed simp

lemma on_entry_permanent:
  "findEntry nm es = Some e \<Longrightarrow> permanent (f e) = permanent e \<Longrightarrow>
   length (filter permanent (on_entry nm f es)) = length (filter permanent es)"
  by (induction es) (auto split: if_splits)

lemma erase_entry_all: "list_all P es \<Longrightarrow> list_all P (erase_entry nm es)"
  by (induction es) auto

lemma erase_entry_set: "set (erase_entry nm es) \<subseteq> set es"
  by (induction es) auto

lemma erase_entry_distinct: "distinct (map entry_name es) \<Longrightarrow> distinct (map entry_name (erase_entry nm es))"
  using erase_entry_set by (induction es) fastforce+

lemma erase_entry_permanent: "length (filter permanent (erase_entry nm es)) \<le> length (filter permanent es)"
  by (induction es) auto

section \<open>Invariant\<close>

text \<open>
  Where an output may be open while it is fed: at the engine's raster, at the one a failed change of format
  fell back to, or anywhere if its backend does not reopen on \<open>start\<close>.
\<close>

definition open_at :: "video_format \<Rightarrow> video_format option \<Rightarrow> string \<Rightarrow> video_format \<Rightarrow> bool" where
  "open_at r fb kind f \<longleftrightarrow> returns_when_running kind \<or> f = r \<or> fb = Some f"

text \<open>
  An entry between operations: the description the clock plans with is its slot's, the object was made from its spec (up
  to the background), and while it is fed there is an object and it is open. What the clock sees of it at any
  moment is the same of an entry that is fed, except that a failing \<open>start\<close> may just have closed the object.
\<close>

definition entry_ok :: "video_format \<Rightarrow> video_format option \<Rightarrow> engine_entry \<Rightarrow> bool" where
  "entry_ok r fb e \<longleftrightarrow> entry_desc e = described (slot_generation e) (slot_object e) \<and>
     (\<forall>obj. slot_object e = Some obj \<longrightarrow> same_device (its_spec obj) (entry_spec e)) \<and>
     (entry_enabled e \<longrightarrow> (\<exists>obj f. slot_object e = Some obj \<and> opened obj = Some f \<and> open_at r fb (spec_kind (entry_spec e)) f))"

definition entry_seen :: "video_format \<Rightarrow> video_format option \<Rightarrow> engine_entry \<Rightarrow> bool" where
  "entry_seen r fb e \<longleftrightarrow> (entry_enabled e \<longrightarrow> entry_desc e = described (slot_generation e) (slot_object e) \<and>
     (\<exists>obj. slot_object e = Some obj \<and> (\<forall>f. opened obj = Some f \<longrightarrow> open_at r fb (spec_kind (entry_spec e)) f)))"

definition shape :: "engine_entry list \<Rightarrow> bool" where
  "shape es \<longleftrightarrow> distinct (map entry_name es) \<and> length (filter permanent es) \<le> 1"

definition list_ok :: "video_format \<Rightarrow> video_format option \<Rightarrow> engine_entry list \<Rightarrow> bool" where
  "list_ok r fb es \<longleftrightarrow> shape es \<and> list_all (entry_ok r fb) es"

definition list_seen :: "video_format \<Rightarrow> video_format option \<Rightarrow> engine_entry list \<Rightarrow> bool" where
  "list_seen r fb es \<longleftrightarrow> shape es \<and> list_all (entry_seen r fb) es"

definition engine_ok :: "engine \<Rightarrow> bool" where
  "engine_ok s \<longleftrightarrow> list_ok (raster s) (fell_back s) (entries s) \<and> list_all (\<lambda>(r, fb, es). list_seen r fb es) (published s)"

lemma entry_ok_seen: "entry_ok r fb e \<Longrightarrow> entry_seen r fb e"
  by (auto simp: entry_ok_def entry_seen_def)

lemma list_ok_seen: "list_ok r fb es \<Longrightarrow> list_seen r fb es"
  using entry_ok_seen by (auto simp: list_ok_def list_seen_def list_all_iff)

lemma open_at_here [simp]: "open_at r fb kind r" "open_at r (Some f) kind f"
  by (simp_all add: open_at_def)

lemma frame_simps [simp]:
  "raster (release s) = raster s" "entries (release s) = entries s" "asked (release s) = asked s"
  "raster (assign nm f s) = raster s" "entries (assign nm f s) = on_entry nm f (entries s)" "asked (assign nm f s) = asked s"
  "fell_back (release s) = fell_back s" "fell_back (assign nm f s) = fell_back s" "fell_back (ask s) = fell_back s"
  "raster (ask s) = raster s" "entries (ask s) = entries s" "published (ask s) = published s" "asked (ask s) = asked s + 1"
  "published (release s) = published s @ [(raster s, fell_back s, entries s)]"
  "raster (replace_in_slot nm obj s) = raster s" "fell_back (replace_in_slot nm obj s) = fell_back s"
  "asked (replace_in_slot nm obj s) = asked s"
  "entries (replace_in_slot nm obj s) =
    on_entry nm (\<lambda>x. x\<lparr>slot_object := obj, slot_generation := slot_generation x + 1\<rparr>) (entries s)"
  by (simp_all add: release_def assign_def ask_def replace_in_slot_def)

lemma engine_ok_ask [simp]: "engine_ok (ask s) = engine_ok s"
  by (simp add: engine_ok_def)

lemma engine_ok_release [simp]: "engine_ok (release s) = engine_ok s"
  by (auto simp: engine_ok_def intro: list_ok_seen)

lemma same_device_refl [simp]: "same_device x x"
  by (simp add: same_device_def)

lemma same_device_background [simp]:
  "same_device x (y\<lparr>spec_background := b\<rparr>) = same_device x y"
  by (simp add: same_device_def)

text \<open>A control operation at work on the entry it found.\<close>

definition holding :: "string \<Rightarrow> engine_entry \<Rightarrow> engine \<Rightarrow> bool" where
  "holding nm e s \<longleftrightarrow> engine_ok s \<and> findEntry nm (entries s) = Some e"

lemma holdingI: "engine_ok s \<Longrightarrow> findEntry nm (entries s) = Some e \<Longrightarrow> holding nm e s"
  by (simp add: holding_def)

lemma holding_ask [simp]: "holding nm e (ask s) = holding nm e s"
  by (simp add: holding_def)

lemma holding_ok: "holding nm e s \<Longrightarrow> engine_ok s"
  by (simp add: holding_def)

lemma holding_entry_ok: "holding nm e s \<Longrightarrow> entry_ok (raster s) (fell_back s) e \<and> entry_name e = nm"
  using findEntry_SomeD by (fastforce simp: holding_def engine_ok_def list_ok_def list_all_iff)

lemma shape_on_entry:
  assumes "shape es" "findEntry nm es = Some e" "permanent (f e) = permanent e"
    and "entry_name (f e) = nm \<or> entry_name (f e) \<notin> entry_name ` set es"
  shows "shape (on_entry nm f es)"
  using assms on_entry_distinct on_entry_permanent by (simp add: shape_def)

lemma list_ok_on_entry:
  assumes "list_ok r fb es" "findEntry nm es = Some e" "entry_ok r fb (f e)" "permanent (f e) = permanent e"
    and "entry_name (f e) = nm \<or> entry_name (f e) \<notin> entry_name ` set es"
  shows "list_ok r fb (on_entry nm f es)"
  using assms on_entry_all shape_on_entry by (simp add: list_ok_def)

lemma assign_ok:
  assumes "holding nm e s" "entry_ok (raster s) (fell_back s) (f e)" "permanent (f e) = permanent e"
    and "entry_name (f e) = nm \<or> entry_name (f e) \<notin> entry_name ` set (entries s)"
  shows "engine_ok (assign nm f s)"
  using assms list_ok_on_entry [of "raster s" "fell_back s" "entries s" nm e f]
  by (auto simp: holding_def engine_ok_def assign_def intro: list_ok_seen)

lemma holding_assign:
  assumes "holding nm e s" "entry_ok (raster s) (fell_back s) (f e)" "permanent (f e) = permanent e" "entry_name (f e) = nm"
  shows "holding nm (f e) (assign nm f s)"
  using assms assign_ok [of nm e s f] on_entry_find by (simp add: holding_def)

lemma on_entry_twice:
  "findEntry nm es = Some e \<Longrightarrow> entry_name (f e) = nm \<Longrightarrow> on_entry nm g (on_entry nm f es) = on_entry nm (\<lambda>_. g (f e)) es"
  by (induction es) (auto split: if_splits)

text \<open>Two assignments of which only the second leaves the entry in order.\<close>

lemma assign_twice_ok:
  assumes "holding nm e s" "entry_seen (raster s) (fell_back s) (f e)" "permanent (f e) = permanent e" "entry_name (f e) = nm"
    and "entry_ok (raster s) (fell_back s) (g (f e))" "permanent (g (f e)) = permanent e"
    and "entry_name (g (f e)) = nm \<or> entry_name (g (f e)) \<notin> entry_name ` set (entries s)"
  shows "engine_ok (assign nm g (assign nm f s))"
proof -
  have s: "list_ok (raster s) (fell_back s) (entries s)" "findEntry nm (entries s) = Some e"
    using assms(1) by (simp_all add: holding_def engine_ok_def)
  then have "list_all (entry_seen (raster s) (fell_back s)) (entries s)" using list_ok_seen list_seen_def by blast
  then have "list_all (entry_seen (raster s) (fell_back s)) (on_entry nm f (entries s))"
    using on_entry_all s(2) assms(2) by blast
  moreover have "shape (on_entry nm f (entries s))"
    using s assms(3,4) by (intro shape_on_entry [of "entries s" nm e f]) (simp_all add: list_ok_def)
  ultimately have "list_seen (raster s) (fell_back s) (on_entry nm f (entries s))" by (simp add: list_seen_def)
  moreover have "list_ok (raster s) (fell_back s) (on_entry nm (\<lambda>_. g (f e)) (entries s))"
    using list_ok_on_entry [OF s, of "\<lambda>_. g (f e)"] assms(5-7) by simp
  then have "list_ok (raster s) (fell_back s) (on_entry nm g (on_entry nm f (entries s)))"
    using on_entry_twice [where f = f and g = g, OF s(2) assms(4)] by simp
  ultimately show ?thesis using assms(1)
    by (auto simp: holding_def engine_ok_def assign_def intro: list_ok_seen)
qed

section \<open>Operations\<close>

lemma described_cong: "its_traits obj = its_traits obj' \<Longrightarrow> described g (Some obj) = described g (Some obj')"
  by (simp add: described_def describe_def)

lemma entry_ok_quiet:
  "entry_ok r fb e \<Longrightarrow> entry_ok r fb (e\<lparr>entry_enabled := False\<rparr>)" "entry_ok r fb e \<Longrightarrow> entry_ok r fb (e\<lparr>lastError := m\<rparr>)"
  "entry_ok r fb e \<Longrightarrow> \<not> entry_enabled e \<Longrightarrow> entry_ok r' fb' e" "\<not> entry_enabled e \<Longrightarrow> entry_seen r' fb' e"
  by (simp_all add: entry_ok_def entry_seen_def)

lemma entry_ok_background:
  "entry_ok r fb (e\<lparr>entry_spec := entry_spec e\<lparr>spec_background := b\<rparr>\<rparr>) = entry_ok r fb e"
  by (simp add: entry_ok_def)

lemma entry_fields [simp]:
  "entry_name (e\<lparr>entry_enabled := b\<rparr>) = entry_name e" "permanent (e\<lparr>entry_enabled := b\<rparr>) = permanent e"
  "entry_name (e\<lparr>lastError := m\<rparr>) = entry_name e" "permanent (e\<lparr>lastError := m\<rparr>) = permanent e"
  "entry_name (e\<lparr>slot_object := obj\<rparr>) = entry_name e" "permanent (e\<lparr>slot_object := obj\<rparr>) = permanent e"
  "entry_name (e\<lparr>slot_generation := g\<rparr>) = entry_name e" "permanent (e\<lparr>slot_generation := g\<rparr>) = permanent e"
  "entry_name (e\<lparr>entry_desc := t\<rparr>) = entry_name e" "permanent (e\<lparr>entry_desc := t\<rparr>) = permanent e"
  "entry_name (e\<lparr>entry_spec := p\<rparr>) = spec_name p" "permanent (e\<lparr>entry_spec := p\<rparr>) = outputKindIsPermanent (spec_kind p)"
  by (simp_all add: entry_name_def permanent_def)

lemma start_output_opened:
  "start_output d n f obj = (failed, obj') \<Longrightarrow>
   its_spec obj' = its_spec obj \<and> its_traits obj' = its_traits obj \<and>
   (opened obj' = opened obj \<and> returns_when_running (spec_kind (its_spec obj)) \<or> opened obj' = None \<or> opened obj' = Some f)"
  by (auto simp: start_output_def split: if_splits option.splits)

lemma switch_object_spec:
  "switch_object d n f was enable obj = (failed, obj') \<Longrightarrow>
   its_spec obj' = its_spec obj \<and> its_traits obj' = its_traits obj \<and>
   (opened obj' = opened obj \<and> (was = enable \<or> returns_when_running (spec_kind (its_spec obj))) \<or> opened obj' = None \<or> opened obj' = Some f)"
  using start_output_opened [of d n f obj failed obj'] by (auto simp: switch_object_def stop_output_def split: if_splits)

text \<open>Starting an object that succeeds leaves it open; so does leaving one that runs alone.\<close>

lemma start_output_opens: "start_output d n f obj = (None, obj') \<Longrightarrow> opened obj' \<noteq> None"
  by (auto simp: start_output_def isRunning_def split: if_splits option.splits)

lemma switch_object_opens: "switch_object d n f was True obj = (None, obj') \<Longrightarrow> opened obj' \<noteq> None"
  using start_output_opens [of d n f obj obj'] by (auto simp: switch_object_def isRunning_def split: if_splits)

text \<open>An object replaced in place by one made from the same spec, at no other raster than the engine's.\<close>

lemma entry_seen_placed:
  assumes "entry_ok r fb e" "slot_object e = Some obj" "its_traits obj' = its_traits obj"
    and "opened obj' = opened obj \<or> opened obj' = None \<or> opened obj' = Some r"
  shows "entry_seen r fb (e\<lparr>slot_object := Some obj'\<rparr>)"
  using assms described_cong [of obj' obj] by (auto simp: entry_ok_def entry_seen_def)

lemma entry_ok_switched:
  assumes "entry_ok r fb e" "slot_object e = Some obj" "switch_object d n r (entry_enabled e) enable obj = (failed, obj')"
  shows "entry_ok r fb (switched enable failed (e\<lparr>entry_enabled := b, slot_object := Some obj'\<rparr>))"
proof -
  note spec = switch_object_spec [OF assms(3)]
  have "entry_desc e = described (slot_generation e) (Some obj')" "same_device (its_spec obj') (entry_spec e)"
    using assms(1,2) spec described_cong [of obj' obj] by (simp_all add: entry_ok_def)
  moreover have "\<exists>f. opened obj' = Some f \<and> open_at r fb (spec_kind (entry_spec e)) f" if "enable" "failed = None"
  proof -
    have "switch_object d n r (entry_enabled e) True obj = (None, obj')" using assms(3) that by simp
    from switch_object_opens [OF this] obtain f where f: "opened obj' = Some f" by auto
    have "spec_kind (its_spec obj) = spec_kind (entry_spec e)" using assms(1,2) by (simp add: entry_ok_def same_device_def)
    with f spec assms(1,2) that show ?thesis by (auto simp: entry_ok_def open_at_def)
  qed
  ultimately show ?thesis by (auto simp: entry_ok_def switched_def split: option.splits)
qed

lemma holding_quiet: "holding nm e s \<Longrightarrow> holding nm (e\<lparr>entry_enabled := False\<rparr>) (assign nm (\<lambda>x. x\<lparr>entry_enabled := False\<rparr>) s)"
  using holding_entry_ok [of nm e s] by (intro holding_assign) (simp_all add: entry_ok_quiet)

text \<open>Taking back what an operation that changed nothing had switched off.\<close>

lemma restore_ok:
  assumes "holding nm (e\<lparr>entry_enabled := b\<rparr>) s" "entry_ok (raster s) (fell_back s) e" "entry_name e = nm"
  shows "engine_ok (assign nm (\<lambda>x. x\<lparr>entry_enabled := entry_enabled e\<rparr>) s)"
  using assms by (intro assign_ok [OF assms(1)]) (simp_all)

lemma switched_fields [simp]:
  "permanent (switched enable failed e) = permanent e" "entry_name (switched enable failed e) = entry_name e"
  by (auto simp: switched_def split: option.splits)

lemma setOutputEnabled_ok:
  assumes "engine_ok s"
  shows "engine_ok (snd (setOutputEnabled d nm enable err s))"
proof (cases "admission d (asked s) = None \<and> findEntry nm (entries s) \<noteq> None")
  case False
  with assms show ?thesis by (auto simp: setOutputEnabled_def Let_def split: option.splits)
next
  case True
  then obtain e where e: "findEntry nm (entries s) = Some e" and a: "admission d (asked s) = None" by auto
  have h: "holding nm e (ask s)" using assms e by (simp add: holding_def)
  define b where "b = (enable \<and> entry_enabled e)"
  define s1 where "s1 = (if enable then ask s else assign nm (\<lambda>x. x\<lparr>entry_enabled := False\<rparr>) (ask s))"
  have h1: "holding nm (e\<lparr>entry_enabled := b\<rparr>) (ask s1)" using h holding_quiet [OF h] by (simp add: b_def s1_def)
  have ok: "entry_ok (raster (ask s1)) (fell_back (ask s1)) e" "entry_name e = nm" using holding_entry_ok [OF h] by (simp_all add: s1_def)
  note restored = restore_ok [OF h1 ok]
  have acted: "engine_ok (assign nm (switched enable failed) (assign nm (\<lambda>x. x\<lparr>slot_object := Some obj'\<rparr>) (ask s1)))"
    if obj: "slot_object e = Some obj"
      and did: "switch_object d n (raster (ask s1)) (entry_enabled e) enable obj = (failed, obj')" for n obj failed obj'
  proof -
    note at = conjunct1 [OF holding_entry_ok [OF h1]]
    have "entry_seen (raster (ask s1)) (fell_back (ask s1)) ((e\<lparr>entry_enabled := b\<rparr>)\<lparr>slot_object := Some obj'\<rparr>)"
      using at obj switch_object_spec [OF did] by (intro entry_seen_placed [of _ _ _ obj]) auto
    with entry_ok_switched [OF ok(1) obj did, of b] ok(2) show ?thesis
      by (intro assign_twice_ok [OF h1]) simp_all
  qed
  have "raster (ask s) = raster (ask s1)" by (simp add: s1_def)
  with restored acted a e h show ?thesis
    by (auto simp: setOutputEnabled_def Let_def s1_def [symmetric] holding_def split: option.splits prod.splits)
qed

lemma setOutputBackground_ok:
  assumes "engine_ok s"
  shows "engine_ok (snd (setOutputBackground nm bg err s))"
proof (cases "findEntry nm (entries s)")
  case (Some e)
  then have "holding nm e s" using assms by (simp add: holding_def)
  with Some show ?thesis
    using holding_entry_ok [of nm e s]
    by (auto simp: setOutputBackground_def entry_ok_background entry_name_def permanent_def intro!: assign_ok)
qed (use assms in \<open>simp add: setOutputBackground_def\<close>)

lemma removeOutput_ok:
  assumes "engine_ok s"
  shows "engine_ok (snd (removeOutput d nm s))"
proof (cases "admission d (asked s) = None \<and> findEntry nm (entries s) \<noteq> None")
  case False
  with assms show ?thesis by (auto simp: removeOutput_def Let_def split: option.splits)
next
  case True
  then obtain e where e: "findEntry nm (entries s) = Some e" and a: "admission d (asked s) = None" by auto
  have h: "holding nm e (ask s)" using assms e by (simp add: holding_def)
  let ?s = "ask (assign nm (\<lambda>x. x\<lparr>entry_enabled := False\<rparr>) (ask s))"
  have h1: "holding nm (e\<lparr>entry_enabled := False\<rparr>) ?s" using holding_quiet [OF h] by simp
  have restored: "engine_ok (assign nm (\<lambda>x. x\<lparr>entry_enabled := entry_enabled e\<rparr>) ?s)"
    using holding_entry_ok [OF h] by (intro restore_ok [OF h1]) simp_all
  let ?gone = "\<lambda>x. x\<lparr>slot_object := None, slot_generation := slot_generation x + 1\<rparr>"
  have "engine_ok (replace_in_slot nm None ?s\<lparr>entries := erase_entry nm (entries (replace_in_slot nm None ?s))\<rparr>)"
  proof -
    have es: "findEntry nm (entries ?s) = Some (e\<lparr>entry_enabled := False\<rparr>)" "list_ok (raster ?s) (fell_back ?s) (entries ?s)"
      using h1 by (simp_all add: holding_def engine_ok_def)
    then have seen: "list_all (entry_seen (raster ?s) (fell_back ?s)) (entries ?s)" "shape (entries ?s)"
      using list_ok_seen list_seen_def list_ok_def by blast+
    have "list_seen (raster ?s) (fell_back ?s) (on_entry nm ?gone (entries ?s))"
      unfolding list_seen_def
      by (intro conjI shape_on_entry [OF seen(2) es(1)] on_entry_all [OF seen(1) es(1)])
        (use holding_entry_ok [OF h1] in \<open>simp_all add: entry_ok_quiet(4)\<close>)
    moreover have "erase_entry nm (on_entry nm ?gone xs) = erase_entry nm xs" for xs by (induction xs) (auto simp: entry_name_def)
    moreover have "list_ok (raster ?s) (fell_back ?s) (erase_entry nm (entries ?s))"
      using es(2) erase_entry_all erase_entry_distinct le_trans [OF erase_entry_permanent] by (auto simp: list_ok_def shape_def)
    ultimately show ?thesis using holding_ok [OF h1]
      by (simp add: engine_ok_def replace_in_slot_def assign_def release_def)
  qed
  with restored assms a e show ?thesis by (auto simp: removeOutput_def Let_def split: option.splits)
qed

section \<open>Opening\<close>

lemma createOutput_spec: "createOutput d n spec = Inr obj \<Longrightarrow> its_spec obj = spec \<and> opened obj = None"
  by (auto simp: createOutput_def split: if_splits)

lemma opened_entry_spec:
  assumes "opened_entry d n r spec obj = (failed, e)" "its_spec obj = spec" "opened obj = None"
  shows "entry_ok r fb e \<and> entry_spec e = spec \<and> entry_enabled e = (failed = None)"
proof -
  obtain obj' where o: "start_output d n r obj = (failed, obj')"
    using assms(1) by (cases "start_output d n r obj") (simp add: opened_entry_def Let_def)
  note spec = start_output_opened [OF o]
  have "e = \<lparr>entry_spec = spec, slot_object = Some obj', slot_generation = 1, entry_desc = described 1 (Some obj'),
      entry_enabled = (failed = None), lastError = (case failed of None \<Rightarrow> [] | Some e \<Rightarrow> e)\<rparr>"
    using assms(1) o by (simp add: opened_entry_def Let_def)
  moreover have "failed = None \<Longrightarrow> opened obj' = Some r"
    using start_output_opens [of d n r obj obj'] spec assms(3) o by auto
  ultimately show ?thesis using spec assms(2) by (auto simp: entry_ok_def)
qed

lemma open_one_spec: "entry_ok r fb (open_one d n r spec) \<and> entry_spec (open_one d n r spec) = spec"
proof (cases "createOutput d n spec")
  case (Inl e)
  then show ?thesis by (simp add: open_one_def entry_ok_def)
next
  case (Inr obj)
  then show ?thesis
    using opened_entry_spec [of d n r spec obj] createOutput_spec [OF Inr]
    by (cases "opened_entry d n r spec obj") (simp add: open_one_def)
qed

lemma open_all_spec: "list_all (entry_ok r fb) (open_all d n r specs) \<and> map entry_spec (open_all d n r specs) = specs"
  by (induction specs arbitrary: n) (simp_all add: open_one_spec)

lemma names_of_specs: "map entry_name es = map spec_name (map entry_spec es)"
  by (simp add: entry_name_def)

lemma permanent_of_specs:
  "length (filter permanent es) = length (filter (\<lambda>p. outputKindIsPermanent (spec_kind p)) (map entry_spec es))"
  by (induction es) (auto simp: permanent_def)

text \<open>The outputs a valid configuration names.\<close>

definition outputs_valid :: "output_config list \<Rightarrow> bool" where
  "outputs_valid os \<longleftrightarrow> distinct (map out_name os) \<and> length (filter (\<lambda>o'. outputKindIsPermanent (out_kind o')) os) \<le> 1"

lemma engine_start_ok:
  assumes "outputs_valid (outputs c)"
  shows "engine_ok (engine_start d c)"
proof -
  let ?specs = "map outputSpecFromConfig (outputs c)"
  have "map spec_name ?specs = map out_name (outputs c)"
    and "filter (\<lambda>p. outputKindIsPermanent (spec_kind p)) ?specs =
      map outputSpecFromConfig (filter (\<lambda>o'. outputKindIsPermanent (out_kind o')) (outputs c))"
    by (simp_all add: outputSpecFromConfig_def filter_map comp_def)
  then have "shape (open_all d 0 (format c) ?specs)"
    using assms open_all_spec [of "format c" None d 0 ?specs]
    unfolding shape_def names_of_specs permanent_of_specs by (metis length_map outputs_valid_def)
  then show ?thesis using open_all_spec [of "format c" None d 0 ?specs]
    by (simp add: engine_start_def engine_ok_def list_ok_def list_ok_seen)
qed

lemma addOutput_ok:
  assumes "engine_ok s"
  shows "engine_ok (snd (addOutput d spec err s))"
proof (cases "createOutput d (asked s + 1) spec")
  case (Inl e)
  with assms show ?thesis by (auto simp: addOutput_def Let_def split: option.splits)
next
  case (Inr obj)
  obtain failed e where o: "opened_entry d (asked s + 1) (raster s) spec obj = (failed, e)" by fastforce
  note e = opened_entry_spec [OF o] createOutput_spec [OF Inr]
  have "engine_ok (ask (ask s)\<lparr>entries := entries s @ [e]\<rparr>)"
    if "\<not> (\<exists>e \<in> set (entries s). entry_name e = spec_name spec)"
      "\<not> (outputKindIsPermanent (spec_kind spec) \<and> (\<exists>e \<in> set (entries s). outputKindIsPermanent (spec_kind (entry_spec e))))"
    using assms that e by (auto simp: engine_ok_def list_ok_def shape_def entry_name_def permanent_def filter_empty_conv)
  with assms Inr o show ?thesis by (simp add: addOutput_def Let_def split: option.split)
qed

lemma replace_object_spec:
  assumes "replace_object d n r spec previous was = (obj, replaced, restored, why)"
  shows "(replaced \<longrightarrow> (\<exists>o'. obj = Some o' \<and> its_spec o' = spec \<and> opened o' = Some r)) \<and>
    (\<not> replaced \<longrightarrow> (\<forall>o'. obj = Some o' \<longrightarrow> its_spec o' = previous) \<and> (restored \<longrightarrow> was \<and> (\<exists>o'. obj = Some o' \<and> opened o' = Some r)))"
  using assms createOutput_spec [of d n spec] createOutput_spec [of d "n + 1" previous]
  by (auto simp: replace_object_def Let_def start_output_def isRunning_def split: sum.splits prod.splits option.splits if_splits)

lemma refusal_keeps_kind:
  assumes "update_refusal nm spec e es = None" "entry_name e = nm"
  shows "outputKindIsPermanent (spec_kind spec) = permanent e \<and> (spec_name spec = nm \<or> spec_name spec \<notin> entry_name ` set es)"
  using assms by (auto simp: update_refusal_def Let_def permanent_def split: if_splits)

lemma updateOutput_ok:
  assumes "engine_ok s"
  shows "engine_ok (snd (updateOutput d nm spec err s))"
proof (cases "admission d (asked s) = None \<and> (\<exists>e. findEntry nm (entries s) = Some e \<and> update_refusal nm spec e (entries s) = None)")
  case False
  with assms show ?thesis by (auto simp: updateOutput_def Let_def split: option.splits)
next
  case True
  then obtain e where e: "findEntry nm (entries s) = Some e" "update_refusal nm spec e (entries s) = None"
    and a: "admission d (asked s) = None" by auto
  have h: "holding nm e (ask (ask s))" using assms e by (simp add: holding_def)
  have ok: "entry_ok (raster s) (fell_back s) e" "entry_name e = nm" using holding_entry_ok [OF h] by simp_all
  note kind = refusal_keeps_kind [OF e(2) ok(2)]
  have background: "engine_ok (assign nm (\<lambda>x. x\<lparr>entry_spec := entry_spec x\<lparr>spec_background := b\<rparr>\<rparr>) (ask (ask s)))" for b
    using ok by (intro assign_ok [OF h]) (simp_all add: entry_ok_background entry_name_def permanent_def)
  let ?s3 = "ask (ask (assign nm (\<lambda>x. x\<lparr>entry_enabled := False\<rparr>) (ask (ask s))))"
  have h3: "holding nm (e\<lparr>entry_enabled := False\<rparr>) ?s3" using holding_quiet [OF h] by simp
  have restored: "engine_ok (assign nm (\<lambda>x. x\<lparr>entry_enabled := entry_enabled e\<rparr>) ?s3)"
    using ok by (intro restore_ok [OF h3]) simp_all
  have names: "entry_name ` set (entries ?s3) = entry_name ` set (entries s)"
    using on_entry_names [OF e(1), of "\<lambda>x. x\<lparr>entry_enabled := False\<rparr>"] ok(2) by (metis entry_fields(1) frame_simps(5,11) list.set_map)
  let ?told = "\<lambda>x. x\<lparr>entry_desc := described (slot_generation x) (slot_object x)\<rparr>"
  have swapped: "engine_ok (assign nm (\<lambda>x. (?told x)\<lparr>entry_spec := spec, entry_enabled := True, lastError := []\<rparr>) (replace_in_slot nm obj ?s3))"
    if "replace_object d n (raster s) spec (entry_spec e) (entry_enabled e) = (obj, True, put, why)" for n obj put why
    unfolding replace_in_slot_def
    by (rule assign_twice_ok [OF h3])
      (use replace_object_spec [OF that] kind names ok in \<open>auto simp: entry_ok_def entry_seen_def\<close>)
  have put_back: "engine_ok (assign nm (\<lambda>x. (?told x)\<lparr>entry_enabled := put, lastError := why\<rparr>) (replace_in_slot nm obj ?s3))"
    if "replace_object d n (raster s) spec (entry_spec e) (entry_enabled e) = (obj, False, put, why)" for n obj put why
    unfolding replace_in_slot_def
    by (rule assign_twice_ok [OF h3])
      (use replace_object_spec [OF that] ok in \<open>auto simp: entry_ok_def entry_seen_def\<close>)
  show ?thesis
  proof (cases "snd (updateOutput d nm spec err s) = assign nm (\<lambda>x. x\<lparr>entry_spec := entry_spec x\<lparr>spec_background := spec_background spec\<rparr>\<rparr>) (ask (ask s))")
    case True
    then show ?thesis using background by simp
  next
    case False
    with a e restored swapped put_back show ?thesis
      by (auto simp: updateOutput_def Let_def split: if_splits prod.splits)
  qed
qed

section \<open>Changing the format\<close>

definition idle :: "engine_entry list \<Rightarrow> bool" where
  "idle es \<longleftrightarrow> list_all (\<lambda>e. \<not> entry_enabled e) es"

text \<open>An entry whose object is open where it may be fed.\<close>

definition ready :: "video_format \<Rightarrow> video_format option \<Rightarrow> engine_entry \<Rightarrow> bool" where
  "ready r fb e \<longleftrightarrow> (\<exists>obj f. slot_object e = Some obj \<and> opened obj = Some f \<and> open_at r fb (spec_kind (its_spec obj)) f)"

lemma idle_list_ok: "list_ok r fb es \<Longrightarrow> idle es \<Longrightarrow> list_ok r' fb' es"
  using entry_ok_quiet(3) by (fastforce simp: list_ok_def idle_def list_all_iff)

lemma idle_found: "idle es \<Longrightarrow> findEntry nm es = Some e \<Longrightarrow> \<not> entry_enabled e"
  using findEntry_SomeD by (fastforce simp: idle_def list_all_iff)

lemma unfeed_ok:
  assumes "engine_ok s"
  shows "engine_ok (unfeed_all s) \<and> idle (entries (unfeed_all s)) \<and> map entry_name (entries (unfeed_all s)) = map entry_name (entries s)"
proof -
  let ?f = "\<lambda>x. x\<lparr>entry_enabled := False\<rparr>"
  have "filter permanent (map ?f es) = map ?f (filter permanent es)" for es by (simp add: filter_map comp_def)
  then have "list_ok (raster s) (fell_back s) (map ?f (entries s))"
    using assms entry_ok_quiet(1) by (auto simp: engine_ok_def list_ok_def shape_def list_all_iff comp_def)
  with assms show ?thesis by (auto simp: unfeed_all_def engine_ok_def idle_def list_all_iff comp_def intro: list_ok_seen)
qed

text \<open>Placing an object made from the same spec in an entry that is not fed.\<close>

lemma idle_placed:
  assumes "engine_ok s" "idle (entries s)" "findEntry nm (entries s) = Some e"
    and "\<And>obj'. g (slot_object e) = Some obj' \<Longrightarrow> \<exists>obj. slot_object e = Some obj \<and> its_spec obj' = its_spec obj \<and> its_traits obj' = its_traits obj"
    and "g (slot_object e) = None \<Longrightarrow> slot_object e = None"
  shows "engine_ok (assign nm (\<lambda>x. x\<lparr>slot_object := g (slot_object x)\<rparr>) s) \<and> idle (on_entry nm (\<lambda>x. x\<lparr>slot_object := g (slot_object x)\<rparr>) (entries s))"
proof -
  have h: "holding nm e s" using assms(1,3) by (simp add: holding_def)
  note ok = holding_entry_ok [OF h] idle_found [OF assms(2,3)]
  have "entry_ok (raster s) (fell_back s) (e\<lparr>slot_object := g (slot_object e)\<rparr>)"
  proof (cases "g (slot_object e)")
    case None
    with assms(5) ok show ?thesis by (simp add: entry_ok_def)
  next
    case (Some obj')
    with assms(4) obtain obj where "slot_object e = Some obj" "its_spec obj' = its_spec obj" "its_traits obj' = its_traits obj" by blast
    with Some ok show ?thesis using described_cong [of obj' obj] by (simp add: entry_ok_def)
  qed
  with ok have "engine_ok (assign nm (\<lambda>x. x\<lparr>slot_object := g (slot_object x)\<rparr>) s)" by (intro assign_ok [OF h]) simp_all
  moreover have "idle (on_entry nm (\<lambda>x. x\<lparr>slot_object := g (slot_object x)\<rparr>) (entries s))"
    using assms(2) on_entry_all [OF _ assms(3), of "\<lambda>e. \<not> entry_enabled e"] ok by (simp add: idle_def)
  ultimately show ?thesis by simp
qed

lemma names_placed: "map entry_name (on_entry nm (\<lambda>x. x\<lparr>slot_object := h x\<rparr>) es) = map entry_name es"
  by (induction es) auto

lemma stop_items_ok:
  "engine_ok s \<Longrightarrow> idle (entries s) \<Longrightarrow> stop_items d is s = (js, s') \<Longrightarrow>
   engine_ok s' \<and> idle (entries s') \<and> raster s' = raster s \<and> fell_back s' = fell_back s \<and>
   map entry_name (entries s') = map entry_name (entries s) \<and>
   map item_name js = map item_name is \<and> map started js = map started is \<and> map wasEnabled js = map wasEnabled is"
proof (induction "is" arbitrary: s js s')
  case (Cons i "is")
  define s1 where "s1 = (if gate d (asked s)
    then assign (item_name i) (\<lambda>x. x\<lparr>slot_object := map_option stop_output (slot_object x)\<rparr>) (ask s) else ask s)"
  obtain js' s2 where r: "stop_items d is s1 = (js', s2)" by fastforce
  have s1: "engine_ok s1 \<and> idle (entries s1) \<and> raster s1 = raster s \<and> fell_back s1 = fell_back s \<and> map entry_name (entries s1) = map entry_name (entries s)"
  proof (cases "gate d (asked s) \<and> findEntry (item_name i) (entries s) \<noteq> None")
    case True
    then obtain e where "findEntry (item_name i) (entries (ask s)) = Some e" by auto
    then have "engine_ok (assign (item_name i) (\<lambda>x. x\<lparr>slot_object := map_option stop_output (slot_object x)\<rparr>) (ask s)) \<and>
        idle (on_entry (item_name i) (\<lambda>x. x\<lparr>slot_object := map_option stop_output (slot_object x)\<rparr>) (entries (ask s)))"
      by (intro idle_placed [of "ask s" "item_name i" e]) (use Cons.prems in \<open>auto simp: stop_output_def\<close>)
    with True names_placed show ?thesis by (simp add: s1_def)
  next
    case False
    with Cons.prems on_entry_None [of "item_name i" "entries s"] have "s1 = ask s \<or> s1 = release (ask s)"
      by (auto simp: s1_def assign_def ask_def)
    with Cons.prems show ?thesis by auto
  qed
  with Cons.IH [of s1 js' s2] r Cons.prems(3) show ?case by (auto simp: Let_def s1_def [symmetric])
qed simp

lemma reopen_one_spec:
  assumes "reopen_one d n f nm object = (failed, object')"
  shows "(object' = None \<longleftrightarrow> object = None) \<and>
    (\<forall>obj'. object' = Some obj' \<longrightarrow> (\<exists>obj. object = Some obj \<and> its_spec obj' = its_spec obj \<and> its_traits obj' = its_traits obj \<and>
      (failed = None \<longrightarrow> (\<exists>g. opened obj' = Some g \<and> (returns_when_running (spec_kind (its_spec obj)) \<or> g = f))))) \<and>
    (failed = None \<longrightarrow> object \<noteq> None)"
proof (cases "gate d n \<and> object \<noteq> None")
  case True
  then obtain obj obj' where o: "object = Some obj" "start_output d n f obj = (failed, obj')" "object' = Some obj'"
    using assms by (auto simp: reopen_one_def split: prod.splits)
  have "failed = None \<Longrightarrow> \<exists>g. opened obj' = Some g \<and> (returns_when_running (spec_kind (its_spec obj)) \<or> g = f)"
    using start_output_opened [OF o(2)] start_output_opens [of d n f obj obj'] o(2) by auto
  with start_output_opened [OF o(2)] o show ?thesis by auto
qed (use assms in \<open>auto simp: reopen_one_def split: if_splits\<close>)

lemma find_placed_other:
  "other \<noteq> nm \<Longrightarrow> findEntry other (on_entry nm (\<lambda>x. x\<lparr>slot_object := h x\<rparr>) es) = findEntry other es"
  by (induction es) auto

lemma reopen_items_ok:
  assumes "engine_ok s" "idle (entries s)" "f = raster s \<or> fell_back s = Some f" "distinct (map item_name is)" "\<forall>i \<in> set is. \<not> started i"
    and "reopen_items d f is s = (js, s')"
  shows "engine_ok s' \<and> idle (entries s') \<and> raster s' = raster s \<and> fell_back s' = fell_back s \<and> map item_name js = map item_name is \<and>
    (\<forall>j \<in> set js. started j \<longrightarrow> (\<forall>e. findEntry (item_name j) (entries s') = Some e \<longrightarrow> ready (raster s) (fell_back s) e)) \<and>
    (\<forall>nm. nm \<notin> item_name ` set is \<longrightarrow> findEntry nm (entries s') = findEntry nm (entries s))"
  using assms
proof (induction "is" arbitrary: s js s')
  case (Cons i "is")
  show ?case
  proof (cases "wasEnabled i \<and> stopped i \<and> findEntry (item_name i) (entries s) \<noteq> None")
    case False
    obtain js' s2 where r: "reopen_items d f is s = (js', s2)" by fastforce
    from False r Cons.prems have "js = i # js'" "s' = s2" by (auto split: option.splits)
    with Cons.IH [OF _ _ _ _ _ r] Cons.prems show ?thesis by auto
  next
    case True
    then obtain e where e: "findEntry (item_name i) (entries s) = Some e" by auto
    obtain failed obj' where o: "reopen_one d (asked s) f (item_name i) (slot_object e) = (failed, obj')" by fastforce
    note spec = reopen_one_spec [OF o]
    define s1 where "s1 = assign (item_name i) (\<lambda>x. x\<lparr>slot_object := obj'\<rparr>) (ask s)"
    obtain js' s2 where r: "reopen_items d f is s1 = (js', s2)" by fastforce
    have s1: "engine_ok s1 \<and> idle (entries s1) \<and> raster s1 = raster s \<and> fell_back s1 = fell_back s"
      using idle_placed [of "ask s" "item_name i" e "\<lambda>_. obj'"] Cons.prems e spec by (auto simp: s1_def)
    have at: "findEntry (item_name i) (entries s1) = Some (e\<lparr>slot_object := obj'\<rparr>)"
      using on_entry_find [OF e, of "\<lambda>x. x\<lparr>slot_object := obj'\<rparr>"] findEntry_SomeD [OF e] by (simp add: s1_def)
    note IH = Cons.IH [OF _ _ _ _ _ r]
    have tail: "engine_ok s2 \<and> idle (entries s2) \<and> raster s2 = raster s1 \<and> fell_back s2 = fell_back s1 \<and> map item_name js' = map item_name is \<and>
      (\<forall>j \<in> set js'. started j \<longrightarrow> (\<forall>e. findEntry (item_name j) (entries s2) = Some e \<longrightarrow> ready (raster s1) (fell_back s1) e)) \<and>
      (\<forall>nm. nm \<notin> item_name ` set is \<longrightarrow> findEntry nm (entries s2) = findEntry nm (entries s1))"
      by (rule IH) (use s1 Cons.prems in simp_all)
    have mine: "findEntry (item_name i) (entries s2) = Some (e\<lparr>slot_object := obj'\<rparr>)"
      using tail at Cons.prems(4) by simp
    have "failed = None \<Longrightarrow> ready (raster s) (fell_back s) (e\<lparr>slot_object := obj'\<rparr>)" using spec Cons.prems(3) by (auto simp: ready_def open_at_def)
    moreover have "js = i\<lparr>started := (failed = None), startError := (case failed of None \<Rightarrow> [] | Some e' \<Rightarrow> e')\<rparr> # js'" "s' = s2"
      using Cons.prems(6) True e o r by (auto simp: s1_def [symmetric])
    moreover have "findEntry nm (entries s1) = findEntry nm (entries s)" if "nm \<noteq> item_name i" for nm
      using find_placed_other [OF that] by (simp add: s1_def)
    ultimately show ?thesis using tail mine s1 by auto
  qed
qed simp

text \<open>The last loop feeds entries whose object came back at the engine's raster.\<close>

lemma on_entry_id: "on_entry nm (\<lambda>x. x) es = es"
  by (induction es) simp_all

lemma feed_one_spec:
  assumes "feed_one d n i = (f, fine, why)" "entry_ok r fb e" "started i \<longrightarrow> ready r fb e"
  shows "entry_ok r fb (f e) \<and> entry_name (f e) = entry_name e \<and> permanent (f e) = permanent e \<and> slot_object (f x) = slot_object x"
  using assms by (auto simp: feed_one_def Let_def entry_ok_def ready_def same_device_def split: if_splits)

lemma feed_items_ok:
  assumes "list_ok r fb es" "\<forall>i \<in> set is. started i \<longrightarrow> (\<forall>e. findEntry (item_name i) es = Some e \<longrightarrow> ready r fb e)"
    and "feed_items d n is re es = (re', es')"
  shows "list_ok r fb es'"
  using assms
proof (induction "is" arbitrary: re es)
  case (Cons i "is")
  show ?case
  proof (cases "findEntry (item_name i) es")
    case None
    with Cons show ?thesis by simp
  next
    case (Some e)
    obtain f fine why where f: "feed_one d n i = (f, fine, why)" by (cases "feed_one d n i")
    have e: "entry_ok r fb e" "entry_name e = item_name i" "started i \<longrightarrow> ready r fb e"
      using Cons.prems Some findEntry_SomeD [OF Some] by (auto simp: list_ok_def list_all_iff)
    note spec = feed_one_spec [OF f e(1,3)]
    have ok: "list_ok r fb (on_entry (item_name i) f es)"
      by (rule list_ok_on_entry [where f = f, OF Cons.prems(1) Some]) (use spec e in simp_all)
    have "ready r fb x" if "findEntry nm (on_entry (item_name i) f es) = Some x" "\<forall>e. findEntry nm es = Some e \<longrightarrow> ready r fb e" for nm x
    proof (cases "nm = item_name i")
      case True
      with that Some spec e on_entry_find [OF Some, of f] have "x = f e" "ready r fb e" by auto
      with spec show ?thesis by (simp add: ready_def)
    next
      case False
      with that spec e on_entry_find_other [OF Some, of f nm] show ?thesis by auto
    qed
    with Cons.IH [OF ok] Cons.prems(2,3) Some f show ?thesis by auto
  qed
qed simp

lemma change_format_ok:
  assumes "engine_ok s"
  shows "engine_ok (snd (change_format d previous f err s))"
proof (cases "stuck_for d (asked s)")
  case None
  let ?s0 = "unfeed_all (ask s)"
  have s0: "engine_ok ?s0" "idle (entries ?s0)" "map entry_name (entries ?s0) = map entry_name (entries s)" "raster ?s0 = raster s"
    using unfeed_ok [of "ask s"] assms by (simp_all add: unfeed_all_def)
  obtain items1 s1 where i1: "stop_items d (list_items (entries s)) ?s0 = (items1, s1)" by fastforce
  from stop_items_ok [OF s0(1,2) i1] s0
  have s1: "engine_ok s1" "idle (entries s1)" "raster s1 = raster s" "map item_name items1 = map entry_name (entries s)"
    "map started items1 = map (\<lambda>_. False) (entries s)"
    by (simp_all add: list_items_def comp_def)
  define parked where "parked = parks d (asked s1)"
  define openAt where "openAt = (if parked then f else previous)"
  define s2 where "s2 = (if parked then release (ask s1\<lparr>raster := f, fell_back := None\<rparr>)
    else ask s1\<lparr>fell_back := (if previous = raster s1 then None else Some previous)\<rparr>)"
  have ok: "list_ok r fb (entries s1)" for r fb using s1(1,2) idle_list_ok by (auto simp: engine_ok_def)
  then have s2: "engine_ok s2" "idle (entries s2)" "openAt = raster s2 \<or> fell_back s2 = Some openAt"
    using s1(1,2) list_ok_seen [OF ok] by (auto simp: s2_def openAt_def engine_ok_def ask_def)
  obtain items2 s3 where i2: "reopen_items d openAt items1 s2 = (items2, s3)" by fastforce
  have "distinct (map entry_name (entries s))" using assms by (simp add: engine_ok_def list_ok_def shape_def)
  moreover have "\<forall>i \<in> set items1. \<not> started i" using s1(5) by (metis (no_types, lifting) image_eqI imageE list.set_map)
  ultimately have s3: "engine_ok s3 \<and> idle (entries s3) \<and> raster s3 = raster s2 \<and> fell_back s3 = fell_back s2 \<and> map item_name items2 = map item_name items1 \<and>
     (\<forall>j \<in> set items2. started j \<longrightarrow> (\<forall>e. findEntry (item_name j) (entries s3) = Some e \<longrightarrow> ready (raster s2) (fell_back s2) e)) \<and>
     (\<forall>nm. nm \<notin> item_name ` set items1 \<longrightarrow> findEntry nm (entries s3) = findEntry nm (entries s2))"
    by (intro reopen_items_ok [OF s2 _ _ i2]) (simp_all add: s1(4))
  obtain re es where fed: "feed_items d (asked s3) items2 (True, err) (entries s3) = (re, es)" by fastforce
  have "list_ok (raster s3) (fell_back s3) es"
    by (rule feed_items_ok [OF _ _ fed]) (use s3 in \<open>auto simp: engine_ok_def\<close>)
  then have "engine_ok (ask s3\<lparr>entries := es\<rparr>)" using s3 by (simp add: engine_ok_def ask_def)
  with None i1 i2 fed show ?thesis
    by (simp add: change_format_def Let_def parked_def [symmetric] s2_def [symmetric] openAt_def [symmetric] split: prod.split)
qed (use assms in \<open>simp add: change_format_def\<close>)

lemma setFormat_ok: "engine_ok s \<Longrightarrow> engine_ok (snd (setFormat d previous f err s))"
  using change_format_ok [of "ask s"] by (auto simp: setFormat_def split: option.splits)

section \<open>Configurations\<close>

lemma drop_unwanted_ok: "engine_ok s \<Longrightarrow> engine_ok (drop_unwanted d wanted names s)"
  by (induction names arbitrary: s) (simp_all add: removeOutput_ok)

lemma apply_one_ok: "engine_ok s \<Longrightarrow> engine_ok (snd (apply_one d spec s))"
  by (auto simp: apply_one_def addOutput_ok updateOutput_ok split: option.splits)

lemma apply_outputs_ok: "engine_ok s \<Longrightarrow> engine_ok (snd (apply_outputs d specs first s))"
proof (induction specs arbitrary: first s)
  case (Cons spec specs)
  then show ?case using apply_one_ok [of s d spec] by (cases "apply_one d spec s") simp
qed simp

lemma applyConfiguration_ok:
  assumes "engine_ok s"
  shows "engine_ok (snd (applyConfiguration d c s))"
proof -
  obtain r s1 where f: "(if same_format (format c) (raster s) then ((True, []), s) else setFormat d (raster s) (format c) [] s) = (r, s1)"
    by (cases "if same_format (format c) (raster s) then ((True, []), s) else setFormat d (raster s) (format c) [] s")
  have "engine_ok s1" using f assms setFormat_ok [of s d "raster s" "format c" "[]"] by (auto split: if_splits)
  define s3 where "s3 = drop_unwanted d (map out_name (outputs c)) (map entry_name (entries (apply_settings c s1))) (apply_settings c s1)"
  have "engine_ok s3" unfolding s3_def
    by (rule drop_unwanted_ok) (use \<open>engine_ok s1\<close> in \<open>simp add: engine_ok_def apply_settings_def\<close>)
  obtain first s4 where l: "apply_outputs d (map outputSpecFromConfig (outputs c)) (noted [] r) s3 = (first, s4)" by fastforce
  have "engine_ok s4" using apply_outputs_ok [OF \<open>engine_ok s3\<close>] l by (metis snd_conv)
  then have "engine_ok (s4\<lparr>the_url := u\<rparr>)" for u by (simp add: engine_ok_def)
  with \<open>engine_ok s4\<close> show ?thesis
    by (simp add: applyConfiguration_def f Let_def s3_def [symmetric] l)
qed

text \<open>
  Any request of the control interface. A change of format comes with the raster it read before its turn;
  besides whole configurations there are the pieces one is applied in, so that other requests can come between.
\<close>

datatype control_request =
    Set_enabled string bool | Add_output output_spec | Set_background string output_background
  | Update_output string output_spec | Remove_output string | Set_format video_format video_format | Apply source_config
  | Settings source_config | Go_to string

fun control_step :: "drivers \<Rightarrow> engine \<Rightarrow> control_request \<Rightarrow> engine" where
  "control_step d s (Set_enabled nm b) = snd (setOutputEnabled d nm b [] s)"
| "control_step d s (Add_output p) = snd (addOutput d p [] s)"
| "control_step d s (Set_background nm bg) = snd (setOutputBackground nm bg [] s)"
| "control_step d s (Update_output nm p) = snd (updateOutput d nm p [] s)"
| "control_step d s (Remove_output nm) = snd (removeOutput d nm s)"
| "control_step d s (Set_format previous f) = snd (setFormat d previous f [] s)"
| "control_step d s (Apply c) = snd (applyConfiguration d c s)"
| "control_step d s (Settings c) = apply_settings c s"
| "control_step d s (Go_to u) = s\<lparr>the_url := u\<rparr>"

lemma settings_ok: "engine_ok s \<Longrightarrow> engine_ok (apply_settings c s)" "engine_ok s \<Longrightarrow> engine_ok (s\<lparr>the_url := u\<rparr>)"
  by (simp_all add: engine_ok_def apply_settings_def)

interpretation controlled: machine "control_step d" engine_ok for d
proof
  show "engine_ok s \<Longrightarrow> engine_ok (control_step d s r)" for s r
    by (cases r) (simp_all add: setOutputEnabled_ok addOutput_ok setOutputBackground_ok updateOutput_ok removeOutput_ok
        setFormat_ok applyConfiguration_ok settings_ok)
qed

section \<open>What a change leaves alone\<close>

lemma find_on_other:
  assumes "other \<noteq> nm" "\<And>e. findEntry nm es = Some e \<Longrightarrow> entry_name (f e) \<noteq> other"
  shows "findEntry other (on_entry nm f es) = findEntry other es"
  using assms(2) by (induction es) (use assms(1) in \<open>auto split: if_splits\<close>)

lemma find_erase_other: "other \<noteq> nm \<Longrightarrow> findEntry other (erase_entry nm es) = findEntry other es"
  by (induction es) auto

lemma find_append: "findEntry nm (es @ fs) = (case findEntry nm es of Some e \<Rightarrow> Some e | None \<Rightarrow> findEntry nm fs)"
  by (induction es) auto

lemma removeOutput_other:
  "other \<noteq> nm \<Longrightarrow> findEntry other (entries (snd (removeOutput d nm s))) = findEntry other (entries s)"
  using findEntry_SomeD
  by (fastforce simp: removeOutput_def Let_def find_on_other find_erase_other split: option.splits)

lemma addOutput_other:
  "other \<noteq> spec_name spec \<Longrightarrow> findEntry other (entries (snd (addOutput d spec err s))) = findEntry other (entries s)"
  by (auto simp: addOutput_def Let_def opened_entry_def find_append entry_name_def split: option.splits prod.splits sum.splits)

lemma removeOutput_raster [simp]: "raster (snd (removeOutput d nm s)) = raster s"
  by (auto simp: removeOutput_def Let_def split: option.splits)

lemma addOutput_raster [simp]: "raster (snd (addOutput d spec err s)) = raster s"
  by (auto simp: addOutput_def Let_def split: option.splits prod.splits sum.splits)

lemma updateOutput_raster [simp]: "raster (snd (updateOutput d nm spec err s)) = raster s"
  by (auto simp: updateOutput_def Let_def split: option.splits prod.splits)

lemma on_entry_same: "findEntry nm es = Some e \<Longrightarrow> on_entry nm f es = on_entry nm (\<lambda>_. f e) es"
  by (induction es) (auto split: if_splits)

lemma on_entry_keep: "findEntry nm es = Some e \<Longrightarrow> on_entry nm (\<lambda>_. e) es = es"
  by (induction es) (auto split: if_splits)

text \<open>The entry an update leaves in the place of the one it found.\<close>

definition swapped_in :: "output_object option \<Rightarrow> engine_entry \<Rightarrow> engine_entry" where
  "swapped_in obj e = e\<lparr>slot_object := obj, slot_generation := slot_generation e + 1,
     entry_desc := described (slot_generation e + 1) obj\<rparr>"

lemma updateOutput_result:
  assumes e: "findEntry nm (entries s) = Some e" and u: "updateOutput d nm spec err s = (r, s')"
  shows "\<exists>e'. entries s' = on_entry nm (\<lambda>_. e') (entries s) \<and>
    ((\<not> fst r \<and> e' = e \<and> (snd r = [] \<longrightarrow> admission d (asked s) = Some [])) \<or>
     (r = (True, err) \<and> spec_name spec = nm \<and> same_device spec (entry_spec e) \<and>
        e' = e\<lparr>entry_spec := entry_spec e\<lparr>spec_background := spec_background spec\<rparr>\<rparr>) \<or>
     (\<exists>obj replaced restored why. update_refusal nm spec e (entries s) = None \<and>
        replace_object d (asked s + 2) (raster s) spec (entry_spec e) (entry_enabled e) = (obj, replaced, restored, why) \<and>
        (if replaced then r = (True, err) \<and> e' = swapped_in obj e\<lparr>entry_spec := spec, entry_enabled := True, lastError := []\<rparr>
         else r = (False, why) \<and> e' = swapped_in obj e\<lparr>entry_enabled := restored, lastError := why\<rparr>)))"
proof (cases "admission d (asked s) = None \<and> update_refusal nm spec e (entries s) = None")
  case False
  with u e have "entries s' = entries s" "\<not> fst r" "snd r = [] \<longrightarrow> admission d (asked s) = Some []"
    by (auto simp: updateOutput_def Let_def update_refusal_def name_taken_def split: option.splits if_splits)
  with on_entry_keep [OF e] show ?thesis by (intro exI [of _ e]) simp
next
  case True
  note nm = conjunct2 [OF findEntry_SomeD [OF e]]
  have quiet: "on_entry nm g (on_entry nm (\<lambda>x. x\<lparr>entry_enabled := False\<rparr>) (entries s)) = on_entry nm (\<lambda>_. g (e\<lparr>entry_enabled := False\<rparr>)) (entries s)" for g
    using on_entry_twice [OF e] nm by simp
  have kept: "e\<lparr>entry_enabled := entry_enabled e\<rparr> = e" by simp
  define at_slot where "at_slot obj = on_entry nm (\<lambda>x. x\<lparr>slot_object := obj, slot_generation := slot_generation x + 1\<rparr>)
      (on_entry nm (\<lambda>x. x\<lparr>entry_enabled := False\<rparr>) (entries s))" for obj
  have placed: "on_entry nm g (at_slot obj) =
      on_entry nm (\<lambda>_. g (e\<lparr>entry_enabled := False, slot_object := obj, slot_generation := slot_generation e + 1\<rparr>)) (entries s)" for g obj
    unfolding at_slot_def quiet by (subst on_entry_twice [OF e]) (simp_all add: nm)
  consider (background) "spec_name spec = nm" "same_device spec (entry_spec e)" "r = (True, err)"
      "entries s' = on_entry nm (\<lambda>x. x\<lparr>entry_spec := entry_spec x\<lparr>spec_background := spec_background spec\<rparr>\<rparr>) (entries s)"
    | (busy) "\<not> fst r" "snd r \<noteq> []" "entries s' = on_entry nm (\<lambda>x. x\<lparr>entry_enabled := entry_enabled e\<rparr>) (on_entry nm (\<lambda>x. x\<lparr>entry_enabled := False\<rparr>) (entries s))"
    | (acted) obj replaced restored why where
      "replace_object d (asked s + 2) (raster s) spec (entry_spec e) (entry_enabled e) = (obj, replaced, restored, why)"
      "if replaced then r = (True, err) \<and> entries s' = on_entry nm (\<lambda>x. x\<lparr>entry_desc := described (slot_generation x) (slot_object x),
           entry_spec := spec, entry_enabled := True, lastError := []\<rparr>) (at_slot obj)
         else r = (False, why) \<and> entries s' = on_entry nm (\<lambda>x. x\<lparr>entry_desc := described (slot_generation x) (slot_object x),
           entry_enabled := restored, lastError := why\<rparr>) (at_slot obj)"
    using u e True by (auto simp: updateOutput_def Let_def busyMessage_def at_slot_def split: if_splits prod.splits)
  then show ?thesis
  proof cases
    case background
    then show ?thesis
      using on_entry_same [OF e, of "\<lambda>x. x\<lparr>entry_spec := entry_spec x\<lparr>spec_background := spec_background spec\<rparr>\<rparr>"]
      by (intro exI [of _ "e\<lparr>entry_spec := entry_spec e\<lparr>spec_background := spec_background spec\<rparr>\<rparr>"]) simp
  next
    case busy
    with quiet kept on_entry_keep [OF e] show ?thesis by (intro exI [of _ e]) simp
  next
    case acted
    show ?thesis
    proof (cases replaced)
      case True
      with acted \<open>admission d (asked s) = None \<and> _\<close> show ?thesis unfolding placed
        by (intro exI [of _ "swapped_in obj e\<lparr>entry_spec := spec, entry_enabled := True, lastError := []\<rparr>"]) (auto simp: swapped_in_def)
    next
      case False
      with acted \<open>admission d (asked s) = None \<and> _\<close> show ?thesis unfolding placed
        by (intro exI [of _ "swapped_in obj e\<lparr>entry_enabled := restored, lastError := why\<rparr>"]) (auto simp: swapped_in_def)
    qed
  qed
qed

lemma updateOutput_other:
  assumes "other \<noteq> nm" "other \<noteq> spec_name spec"
  shows "findEntry other (entries (snd (updateOutput d nm spec err s))) = findEntry other (entries s)"
proof (cases "findEntry nm (entries s)")
  case None
  then show ?thesis by (auto simp: updateOutput_def Let_def split: option.splits)
next
  case (Some e)
  obtain r s' where u: "updateOutput d nm spec err s = (r, s')" by fastforce
  from updateOutput_result [OF Some u] obtain e' where e': "entries s' = on_entry nm (\<lambda>_. e') (entries s)"
    "entry_name e' = nm \<or> entry_name e' = spec_name spec"
    using findEntry_SomeD [OF Some] by (auto simp: swapped_in_def entry_name_def split: if_splits)
  with assms show ?thesis unfolding u by (auto intro: find_on_other)
qed

end
