(* ===== verification/Tick_Plan.thy ===== *)
theory Tick_Plan
  imports Source_Config Output_Slot
begin

text \<open>
  One tick of \<open>Engine::clockLoop\<close> between reading the newest paint and the calls into the outputs:
  which outputs it goes to, which conversions they need, and what each is handed. The conversions are
  those of \<open>Pixel_Convert\<close>; here they are a parameter, so that the caching of \<open>uyvyScratch_\<close>,
  \<open>straightScratch_\<close> and the background variants is checked for every picture type. A buffer is
  rewritten whole by each conversion, so a scratch frame is the picture last written into it.
\<close>

section \<open>State\<close>

record 'p picture =
  pic_format :: video_format
  pic_pixels :: pixel_format
  content :: 'p
  sequence :: int
  captureNanos :: int

record 'p converter =
  to_uyvy :: "'p \<Rightarrow> 'p"
  straighten :: "'p \<Rightarrow> 'p"
  over :: "int \<Rightarrow> 'p \<Rightarrow> 'p"

record 'p background_variant =
  colour :: int
  v_bgra :: "'p picture option"
  v_uyvy :: "'p picture option"
  bgraTick :: int
  uyvyTick :: int

text \<open>The pools' formats stand for the pools; \<open>jobs\<close> records the conversions made this tick.\<close>

datatype job = Over int | Over_uyvy int | Uyvy | Straighten

record 'p tick_state =
  uyvyPool :: video_format
  straightPool :: video_format
  backgroundPool :: video_format
  uyvyScratch :: "'p picture option"
  straightScratch :: "'p picture option"
  backgrounds :: "'p background_variant list"
  jobs :: "job list"

record target =
  target_desc :: description
  target_background :: output_background

text \<open>The planning fields of an entry of the output list.\<close>

record planned =
  enabled :: bool
  desc :: description
  backdrop :: output_background

section \<open>Conversions\<close>

text \<open>The scratch frame written next: the one at hand if its format is the source's, else a pooled one.\<close>

definition scratch_format :: "'p picture option \<Rightarrow> video_format \<Rightarrow> 'p picture \<Rightarrow> video_format" where
  "scratch_format scratch pool source = (case scratch of
      Some f \<Rightarrow> if same_format (pic_format f) (pic_format source) then pic_format f else pool
    | None \<Rightarrow> pool)"

definition converted :: "'p picture option \<Rightarrow> video_format \<Rightarrow> 'p picture \<Rightarrow> pixel_format \<Rightarrow> 'p \<Rightarrow> 'p picture" where
  "converted scratch pool source px c =
     \<lparr>pic_format = scratch_format scratch pool source, pic_pixels = px, content = c,
      sequence = sequence source, captureNanos = captureNanos source\<rparr>"

definition frameInFormat ::
  "'p converter \<Rightarrow> 'p picture \<Rightarrow> pixel_format \<Rightarrow> 'p tick_state \<Rightarrow> 'p picture option \<times> 'p tick_state" where
  "frameInFormat cv source target s =
     (if pic_pixels source = target then (Some source, s)
      else if target = UYVY then
        if \<not> same_format (uyvyPool s) (pic_format source) then (None, s)
        else let f = converted (uyvyScratch s) (uyvyPool s) source UYVY (to_uyvy cv (content source))
             in (Some f, s\<lparr>uyvyScratch := Some f, jobs := jobs s @ [Uyvy]\<rparr>)
      else (Some source, s))"

definition unpremultiplied :: "'p converter \<Rightarrow> 'p picture \<Rightarrow> 'p tick_state \<Rightarrow> 'p picture option \<times> 'p tick_state" where
  "unpremultiplied cv source s =
     (if \<not> same_format (straightPool s) (pic_format source) then (None, s)
      else let f = converted (straightScratch s) (straightPool s) source BGRA (straighten cv (content source))
           in (Some f, s\<lparr>straightScratch := Some f, jobs := jobs s @ [Straighten]\<rparr>))"

definition new_variant :: "int \<Rightarrow> 'p background_variant" where
  "new_variant c = \<lparr>colour = c, v_bgra = None, v_uyvy = None, bgraTick = - 1, uyvyTick = - 1\<rparr>"

definition backgroundVariant :: "int \<Rightarrow> 'p background_variant list \<Rightarrow> 'p background_variant" where
  "backgroundVariant c vs = (case find (\<lambda>v. colour v = c) vs of Some v \<Rightarrow> v | None \<Rightarrow> new_variant c)"

text \<open>Writing through the reference \<open>backgroundVariant\<close> returns.\<close>

fun store_variant :: "'p background_variant \<Rightarrow> 'p background_variant list \<Rightarrow> 'p background_variant list" where
  "store_variant v [] = [v]"
| "store_variant v (w # ws) = (if colour w = colour v then v # ws else w # store_variant v ws)"

definition compositedBgra ::
  "'p converter \<Rightarrow> 'p picture \<Rightarrow> int \<Rightarrow> int \<Rightarrow> 'p tick_state \<Rightarrow> 'p picture option \<times> 'p tick_state" where
  "compositedBgra cv source c tick s =
     (if \<not> same_format (backgroundPool s) (pic_format source) then (None, s)
      else let v = backgroundVariant c (backgrounds s)
           in if bgraTick v = tick \<and> v_bgra v \<noteq> None then (v_bgra v, s\<lparr>backgrounds := store_variant v (backgrounds s)\<rparr>)
              else let f = converted (v_bgra v) (backgroundPool s) source BGRA (over cv c (content source))
                   in (Some f, s\<lparr>backgrounds := store_variant (v\<lparr>v_bgra := Some f, bgraTick := tick\<rparr>) (backgrounds s),
                                 jobs := jobs s @ [Over c]\<rparr>))"

definition compositedUyvy ::
  "'p converter \<Rightarrow> 'p picture \<Rightarrow> int \<Rightarrow> int \<Rightarrow> 'p tick_state \<Rightarrow> 'p picture option \<times> 'p tick_state" where
  "compositedUyvy cv source c tick s = (case compositedBgra cv source c tick s of
      (None, s1) \<Rightarrow> (None, s1)
    | (Some bgra, s1) \<Rightarrow>
        let v = backgroundVariant c (backgrounds s1)
        in if uyvyTick v = tick \<and> v_uyvy v \<noteq> None then (v_uyvy v, s1\<lparr>backgrounds := store_variant v (backgrounds s1)\<rparr>)
           else let f = converted (v_uyvy v) (uyvyPool s1) bgra UYVY (to_uyvy cv (content bgra))
                in (Some f, s1\<lparr>backgrounds := store_variant (v\<lparr>v_uyvy := Some f, uyvyTick := tick\<rparr>) (backgrounds s1),
                               jobs := jobs s1 @ [Over_uyvy c]\<rparr>))"

section \<open>The tick\<close>

definition plan_targets :: "planned list \<Rightarrow> target list" where
  "plan_targets entries =
     map (\<lambda>e. \<lparr>target_desc = desc e, target_background = backdrop e\<rparr>) (filter (\<lambda>e. enabled e \<and> present (desc e)) entries)"

definition wants_composite :: "target \<Rightarrow> bool" where
  "wants_composite t \<longleftrightarrow> opaque (target_background t)"

definition wants_uyvy :: "target \<Rightarrow> bool" where
  "wants_uyvy t \<longleftrightarrow> \<not> wants_composite t \<and> pixelFormat (target_desc t) = UYVY"

definition wants_straight :: "target \<Rightarrow> bool" where
  "wants_straight t \<longleftrightarrow> \<not> wants_composite t \<and> pixelFormat (target_desc t) \<noteq> UYVY \<and> straightAlpha (target_desc t)"

definition background_keys :: "target list \<Rightarrow> int list" where
  "background_keys ts =
     foldl (\<lambda>ks t. if wants_composite t \<and> packed (target_background t) \<notin> set ks then ks @ [packed (target_background t)] else ks) [] ts"

definition payload ::
  "'p converter \<Rightarrow> 'p picture \<Rightarrow> 'p picture option \<Rightarrow> 'p picture option \<Rightarrow> int \<Rightarrow> target \<Rightarrow> 'p tick_state \<Rightarrow>
   'p picture option \<times> 'p tick_state" where
  "payload cv frame uyvy straight tick t s =
     (if wants_composite t
      then (if pixelFormat (target_desc t) = UYVY then compositedUyvy cv frame (packed (target_background t)) tick s
            else compositedBgra cv frame (packed (target_background t)) tick s)
      else if pixelFormat (target_desc t) = UYVY then (uyvy, s)
      else if straightAlpha (target_desc t) then (straight, s)
      else (Some frame, s))"

primrec deliver ::
  "'p converter \<Rightarrow> 'p picture \<Rightarrow> 'p picture option \<Rightarrow> 'p picture option \<Rightarrow> int \<Rightarrow> target list \<Rightarrow> 'p tick_state \<Rightarrow>
   (target \<times> 'p picture) list \<times> 'p tick_state" where
  "deliver cv frame uyvy straight tick [] s = ([], s)"
| "deliver cv frame uyvy straight tick (t # ts) s =
     (let (p, s1) = payload cv frame uyvy straight tick t s;
          (ds, s2) = deliver cv frame uyvy straight tick ts s1
      in (case p of None \<Rightarrow> ds | Some f \<Rightarrow> (t, f) # ds, s2))"

text \<open>The tick from the stale-raster check on: the payloads handed over, none when it is skipped.\<close>

definition run_tick ::
  "'p converter \<Rightarrow> video_format \<Rightarrow> planned list \<Rightarrow> 'p picture \<Rightarrow> int \<Rightarrow> 'p tick_state \<Rightarrow>
   (target \<times> 'p picture) list \<times> 'p tick_state" where
  "run_tick cv raster entries frame tick s0 =
     (let s = s0\<lparr>jobs := []\<rparr>
      in if \<not> same_format (pic_format frame) raster then ([], s)
         else let ts = plan_targets entries;
                  keys = background_keys ts;
                  s1 = s\<lparr>backgrounds := filter (\<lambda>v. colour v \<in> set keys) (backgrounds s)\<rparr>;
                  (uyvy, s2) = (if list_ex wants_uyvy ts then frameInFormat cv frame UYVY s1 else (None, s1))
              in if list_ex wants_uyvy ts \<and> uyvy = None then ([], s2)
                 else let (straight, s3) = (if list_ex wants_straight ts then unpremultiplied cv frame s2 else (None, s2))
                      in if list_ex wants_straight ts \<and> straight = None then ([], s3)
                         else deliver cv frame uyvy straight tick ts s3)"

section \<open>What a target is owed\<close>

definition owed :: "'p converter \<Rightarrow> 'p picture \<Rightarrow> target \<Rightarrow> 'p" where
  "owed cv frame t =
     (let x = content frame; u = (pixelFormat (target_desc t) = UYVY)
      in if wants_composite t
         then (let y = over cv (packed (target_background t)) x in if u then to_uyvy cv y else y)
         else if u then to_uyvy cv x else if straightAlpha (target_desc t) then straighten cv x else x)"

text \<open>The right payload: the conversion of this very frame, in the output's format and the source's raster.\<close>

definition right_payload :: "'p converter \<Rightarrow> 'p picture \<Rightarrow> target \<times> 'p picture \<Rightarrow> bool" where
  "right_payload cv frame = (\<lambda>(t, f). content f = owed cv frame t \<and> pic_pixels f = pixelFormat (target_desc t) \<and>
     same_format (pic_format f) (pic_format frame) \<and> sequence f = sequence frame \<and> captureNanos f = captureNanos frame)"

section \<open>Formats\<close>

definition reduced :: "frame_rate \<Rightarrow> int \<times> int" where
  "reduced r = (let a = gcd (numerator r) (denominator r)
     in if a = 0 then (0, 0) else (numerator r sdiv a, denominator r sdiv a))"

lemma same_rate_reduced: "same_rate x y \<longleftrightarrow> reduced x = reduced y"
proof -
  have zero: "numerator r = 0 \<and> denominator r = 0" if "reduced r = (0, 0)" for r
  proof (rule ccontr)
    assume n: "\<not> (numerator r = 0 \<and> denominator r = 0)"
    define a where "a = gcd (numerator r) (denominator r)"
    have a: "0 < a" using n by (auto simp: a_def)
    have z: "x = 0" if "a dvd x" "x sdiv a = 0" for x :: int
      using that a by (auto simp: signed_divide_int_def dvd_def sgn_mult abs_mult sgn_eq_0_iff split: if_splits)
    have "numerator r sdiv a = 0" "denominator r sdiv a = 0"
      using that a by (auto simp: reduced_def Let_def a_def [symmetric] split: if_splits)
    with z n show False by (auto simp: a_def)
  qed
  have r0: "reduced r = (0, 0) \<longleftrightarrow> numerator r = 0 \<and> denominator r = 0" for r
  proof
    assume "reduced r = (0, 0)"
    then show "numerator r = 0 \<and> denominator r = 0" by (rule zero)
  qed (simp add: reduced_def)
  show ?thesis
  proof (cases "gcd (numerator x) (denominator x) = 0 \<or> gcd (numerator y) (denominator y) = 0")
    case True
    then have "reduced x = (0, 0) \<or> reduced y = (0, 0)" by (auto simp: r0)
    moreover have "same_rate x y \<longleftrightarrow> numerator x = numerator y \<and> denominator x = denominator y"
      using True by (simp only: same_rate_def Let_def if_True)
    ultimately show ?thesis using r0 [of x] r0 [of y] by metis
  next
    case False
    then show ?thesis by (simp only: same_rate_def reduced_def Let_def if_False de_Morgan_disj prod.inject)
        simp
  qed
qed

lemma same_format_refl [simp]: "same_format x x"
  by (simp add: same_format_def same_rate_reduced)

lemma same_format_sym: "same_format x y \<Longrightarrow> same_format y x"
  by (simp add: same_format_def same_rate_reduced)

lemma same_format_trans: "same_format x y \<Longrightarrow> same_format y z \<Longrightarrow> same_format x z"
  by (simp add: same_format_def same_rate_reduced)

lemma scratch_format_same: "same_format pool (pic_format source) \<Longrightarrow> same_format (scratch_format scratch pool source) (pic_format source)"
  by (simp add: scratch_format_def split: option.splits)

section \<open>The variants\<close>

definition lookup :: "int \<Rightarrow> 'p background_variant list \<Rightarrow> 'p background_variant option" where
  "lookup c vs = find (\<lambda>v. colour v = c) vs"

lemma lookup_Nil [simp]: "lookup c [] = None"
  by (simp add: lookup_def)

lemma lookup_Cons [simp]: "lookup c (v # vs) = (if colour v = c then Some v else lookup c vs)"
  by (simp add: lookup_def)

lemma lookup_store [simp]: "lookup c (store_variant v vs) = (if c = colour v then Some v else lookup c vs)"
  by (induction vs) auto

lemma lookup_filter: "lookup c (filter (\<lambda>v. colour v \<in> K) vs) = (if c \<in> K then lookup c vs else None)"
  by (induction vs) auto

lemma lookup_in: "lookup c vs = Some v \<Longrightarrow> v \<in> set vs \<and> colour v = c"
  by (induction vs) (auto split: if_splits)

lemma set_store: "set (store_variant v vs) \<subseteq> insert v (set vs)"
  by (induction vs) auto

lemma variant_lookup: "backgroundVariant c vs = (case lookup c vs of Some v \<Rightarrow> v | None \<Rightarrow> new_variant c)"
  by (simp add: backgroundVariant_def lookup_def)

lemma variant_colour [simp]: "colour (backgroundVariant c vs) = c"
  by (auto simp: variant_lookup new_variant_def dest: lookup_in split: option.splits)

text \<open>A frame that is the source converted to \<open>c\<close> in format \<open>px\<close>.\<close>

definition is_made :: "'p picture \<Rightarrow> pixel_format \<Rightarrow> 'p \<Rightarrow> 'p picture option \<Rightarrow> bool" where
  "is_made frame px c f \<longleftrightarrow> (\<exists>g. f = Some g \<and> content g = c \<and> pic_pixels g = px \<and>
     same_format (pic_format g) (pic_format frame) \<and> sequence g = sequence frame \<and> captureNanos g = captureNanos frame)"

lemma converted_made: "same_format pool (pic_format frame) \<Longrightarrow> is_made frame px c (Some (converted scratch pool frame px c))"
  by (simp add: is_made_def converted_def scratch_format_same)

text \<open>What was made for this tick is right, and was made by a recorded job.\<close>

definition variant_now :: "'p converter \<Rightarrow> 'p picture \<Rightarrow> int \<Rightarrow> job list \<Rightarrow> 'p background_variant \<Rightarrow> bool" where
  "variant_now cv frame tick js v \<longleftrightarrow>
     (bgraTick v = tick \<and> v_bgra v \<noteq> None \<longrightarrow> is_made frame BGRA (over cv (colour v) (content frame)) (v_bgra v)) \<and>
     (uyvyTick v = tick \<and> v_uyvy v \<noteq> None \<longrightarrow> is_made frame UYVY (to_uyvy cv (over cv (colour v) (content frame))) (v_uyvy v)) \<and>
     (Over (colour v) \<in> set js \<longrightarrow> bgraTick v = tick \<and> v_bgra v \<noteq> None) \<and>
     (Over_uyvy (colour v) \<in> set js \<longrightarrow> uyvyTick v = tick \<and> v_uyvy v \<noteq> None)"

definition current :: "'p converter \<Rightarrow> 'p picture \<Rightarrow> int \<Rightarrow> 'p tick_state \<Rightarrow> bool" where
  "current cv frame tick s \<longleftrightarrow>
     same_format (uyvyPool s) (pic_format frame) \<and> same_format (backgroundPool s) (pic_format frame) \<and>
     distinct (jobs s) \<and>
     (\<forall>c. variant_now cv frame tick (jobs s) (backgroundVariant c (backgrounds s)))"

lemma variant_store:
  "backgroundVariant d (store_variant v vs) = (if d = colour v then v else backgroundVariant d vs)"
  by (simp add: variant_lookup)

lemma current_store:
  assumes "current cv frame tick s" "variant_now cv frame tick js v" "distinct js"
    and "\<And>c. c \<noteq> colour v \<Longrightarrow> (Over c \<in> set js) = (Over c \<in> set (jobs s)) \<and> (Over_uyvy c \<in> set js) = (Over_uyvy c \<in> set (jobs s))"
  shows "current cv frame tick (s\<lparr>backgrounds := store_variant v (backgrounds s), jobs := js\<rparr>)"
  using assms by (simp add: current_def variant_store) (simp add: variant_now_def)

lemma compositedBgra_current:
  assumes c: "current cv frame tick s" and r: "compositedBgra cv frame k tick s = (p, s')"
  shows "is_made frame BGRA (over cv k (content frame)) p \<and> current cv frame tick s' \<and> uyvyPool s' = uyvyPool s"
proof -
  let ?v = "backgroundVariant k (backgrounds s)"
  have pool: "same_format (backgroundPool s) (pic_format frame)" using c by (simp add: current_def)
  have now: "variant_now cv frame tick (jobs s) ?v" using c by (simp add: current_def)
  show ?thesis
  proof (cases "bgraTick ?v = tick \<and> v_bgra ?v \<noteq> None")
    case True
    with r pool have e: "p = v_bgra ?v" "s' = s\<lparr>backgrounds := store_variant ?v (backgrounds s)\<rparr>"
      by (auto simp: compositedBgra_def Let_def)
    have "current cv frame tick (s\<lparr>backgrounds := store_variant ?v (backgrounds s), jobs := jobs s\<rparr>)"
      by (rule current_store [OF c now]) (use c in \<open>simp_all add: current_def\<close>)
    then have "current cv frame tick s'" unfolding e(2) by simp
    with now True e show ?thesis by (simp add: variant_now_def)
  next
    case False
    let ?f = "converted (v_bgra ?v) (backgroundPool s) frame BGRA (over cv k (content frame))"
    let ?w = "?v\<lparr>v_bgra := Some ?f, bgraTick := tick\<rparr>"
    from False r pool have e: "p = Some ?f" "s' = s\<lparr>backgrounds := store_variant ?w (backgrounds s), jobs := jobs s @ [Over k]\<rparr>"
      by (auto simp: compositedBgra_def Let_def)
    have new: "Over k \<notin> set (jobs s)" using now False by (auto simp: variant_now_def)
    have "current cv frame tick s'"
      unfolding e(2)
    proof (rule current_store [OF c])
      show "variant_now cv frame tick (jobs s @ [Over k]) ?w"
        using now converted_made [OF pool] by (simp add: variant_now_def)
      show "distinct (jobs s @ [Over k])" using c new by (simp add: current_def)
    qed simp
    with e converted_made [OF pool] show ?thesis by simp
  qed
qed

lemma compositedUyvy_current:
  assumes c: "current cv frame tick s" and r: "compositedUyvy cv frame k tick s = (p, s')"
  shows "is_made frame UYVY (to_uyvy cv (over cv k (content frame))) p \<and> current cv frame tick s'"
proof -
  obtain b s1 where b: "compositedBgra cv frame k tick s = (b, s1)" by fastforce
  from compositedBgra_current [OF c b] have m: "is_made frame BGRA (over cv k (content frame)) b" and c1: "current cv frame tick s1"
    by auto
  then obtain g where g: "b = Some g" "content g = over cv k (content frame)" "same_format (pic_format g) (pic_format frame)"
    "sequence g = sequence frame" "captureNanos g = captureNanos frame" by (auto simp: is_made_def)
  let ?v = "backgroundVariant k (backgrounds s1)"
  have now: "variant_now cv frame tick (jobs s1) ?v" using c1 by (simp add: current_def)
  show ?thesis
  proof (cases "uyvyTick ?v = tick \<and> v_uyvy ?v \<noteq> None")
    case True
    with r b g have e: "p = v_uyvy ?v" "s' = s1\<lparr>backgrounds := store_variant ?v (backgrounds s1)\<rparr>"
      by (auto simp: compositedUyvy_def Let_def)
    have "current cv frame tick (s1\<lparr>backgrounds := store_variant ?v (backgrounds s1), jobs := jobs s1\<rparr>)"
      by (rule current_store [OF c1 now]) (use c1 in \<open>simp_all add: current_def\<close>)
    then have "current cv frame tick s'" unfolding e(2) by simp
    with now True e show ?thesis by (simp add: variant_now_def)
  next
    case False
    let ?f = "converted (v_uyvy ?v) (uyvyPool s1) g UYVY (to_uyvy cv (content g))"
    let ?w = "?v\<lparr>v_uyvy := Some ?f, uyvyTick := tick\<rparr>"
    from False r b g have e: "p = Some ?f" "s' = s1\<lparr>backgrounds := store_variant ?w (backgrounds s1), jobs := jobs s1 @ [Over_uyvy k]\<rparr>"
      by (auto simp: compositedUyvy_def Let_def)
    have "same_format (uyvyPool s1) (pic_format g)"
      using c1 g(3) by (auto simp: current_def intro: same_format_trans same_format_sym)
    then have "same_format (pic_format ?f) (pic_format frame)"
      using scratch_format_same g(3) by (auto simp: converted_def intro: same_format_trans)
    then have made: "is_made frame UYVY (to_uyvy cv (over cv k (content frame))) (Some ?f)"
      using g by (simp add: is_made_def converted_def)
    have new: "Over_uyvy k \<notin> set (jobs s1)" using now False by (auto simp: variant_now_def)
    have "current cv frame tick s'"
      unfolding e(2)
    proof (rule current_store [OF c1])
      show "variant_now cv frame tick (jobs s1 @ [Over_uyvy k]) ?w"
        using now made by (simp add: variant_now_def)
      show "distinct (jobs s1 @ [Over_uyvy k])" using c1 new by (simp add: current_def)
    qed simp
    with e made show ?thesis by simp
  qed
qed

section \<open>A whole tick\<close>

lemma made_payload:
  "is_made frame px c p \<Longrightarrow> c = owed cv frame t \<Longrightarrow> px = pixelFormat (target_desc t) \<Longrightarrow>
   \<exists>f. p = Some f \<and> right_payload cv frame (t, f)"
  by (auto simp: is_made_def right_payload_def)

lemma payload_right:
  assumes c: "current cv frame tick s" and b: "pic_pixels frame = BGRA"
    and u: "wants_uyvy t \<Longrightarrow> is_made frame UYVY (to_uyvy cv (content frame)) uyvy"
    and st: "wants_straight t \<Longrightarrow> is_made frame BGRA (straighten cv (content frame)) straight"
    and r: "payload cv frame uyvy straight tick t s = (p, s')"
  shows "(\<exists>f. p = Some f \<and> right_payload cv frame (t, f)) \<and> current cv frame tick s'"
proof (cases "wants_composite t")
  case True
  let ?k = "packed (target_background t)"
  show ?thesis
  proof (cases "pixelFormat (target_desc t) = UYVY")
    case u: True
    with True r have "compositedUyvy cv frame ?k tick s = (p, s')" by (simp add: payload_def)
    from compositedUyvy_current [OF c this] u True show ?thesis
      by (intro conjI made_payload [of frame UYVY _ p]) (auto simp: owed_def)
  next
    case u: False
    then have px: "pixelFormat (target_desc t) = BGRA" by (cases "pixelFormat (target_desc t)") simp_all
    from u True r have "compositedBgra cv frame ?k tick s = (p, s')" by (simp add: payload_def)
    from compositedBgra_current [OF c this] px True show ?thesis
      by (intro conjI made_payload [of frame BGRA _ p]) (auto simp: owed_def)
  qed
next
  case False
  show ?thesis
  proof (cases "pixelFormat (target_desc t) = UYVY")
    case px: True
    with False r have e: "p = uyvy" "s' = s" by (simp_all add: payload_def)
    have "is_made frame UYVY (to_uyvy cv (content frame)) uyvy" using px False by (intro u) (simp add: wants_uyvy_def)
    from made_payload [OF this] px False c e show ?thesis by (simp add: owed_def)
  next
    case px: False
    then have px': "pixelFormat (target_desc t) = BGRA" by (cases "pixelFormat (target_desc t)") simp_all
    show ?thesis
    proof (cases "straightAlpha (target_desc t)")
      case True
      with False px r have e: "p = straight" "s' = s" by (simp_all add: payload_def)
      have "is_made frame BGRA (straighten cv (content frame)) straight"
        using px False True by (intro st) (simp add: wants_straight_def)
      from made_payload [OF this] px' False True c e show ?thesis by (simp add: owed_def)
    next
      case alpha: False
      with False px r have e: "p = Some frame" "s' = s" by (simp_all add: payload_def)
      with False alpha px' b c show ?thesis by (simp add: right_payload_def owed_def)
    qed
  qed
qed

lemma deliver_right:
  assumes "current cv frame tick s" "pic_pixels frame = BGRA"
    and "\<forall>t \<in> set ts. wants_uyvy t \<longrightarrow> is_made frame UYVY (to_uyvy cv (content frame)) uyvy"
    and "\<forall>t \<in> set ts. wants_straight t \<longrightarrow> is_made frame BGRA (straighten cv (content frame)) straight"
    and "deliver cv frame uyvy straight tick ts s = (ds, s')"
  shows "map fst ds = ts \<and> list_all (right_payload cv frame) ds \<and> current cv frame tick s'"
  using assms(1,3-5)
proof (induction ts arbitrary: s ds s')
  case Nil
  then show ?case by simp
next
  case (Cons t ts)
  obtain p s1 where p: "payload cv frame uyvy straight tick t s = (p, s1)" by fastforce
  obtain es s2 where d: "deliver cv frame uyvy straight tick ts s1 = (es, s2)" by fastforce
  have "(\<exists>f. p = Some f \<and> right_payload cv frame (t, f)) \<and> current cv frame tick s1"
    by (rule payload_right [OF Cons.prems(1) assms(2) _ _ p]) (use Cons.prems(2,3) in simp_all)
  moreover from this have "map fst es = ts \<and> list_all (right_payload cv frame) es \<and> current cv frame tick s2"
    by (intro Cons.IH [OF _ _ _ d]) (use Cons.prems(2,3) in simp_all)
  ultimately show ?case using Cons.prems(4) p d by auto
qed

text \<open>The variants left over: of wanted colours, none from the future.\<close>

definition aged :: "int \<Rightarrow> int set \<Rightarrow> 'p background_variant list \<Rightarrow> bool" where
  "aged tick keys vs \<longleftrightarrow> (\<forall>v \<in> set vs. bgraTick v \<le> tick \<and> uyvyTick v \<le> tick \<and> colour v \<in> keys)"

lemma aged_store: "aged tick keys vs \<Longrightarrow> bgraTick v \<le> tick \<Longrightarrow> uyvyTick v \<le> tick \<Longrightarrow> colour v \<in> keys \<Longrightarrow>
   aged tick keys (store_variant v vs)"
  using set_store by (fastforce simp: aged_def)

lemma aged_variant: "aged tick keys vs \<Longrightarrow> 0 \<le> tick \<Longrightarrow> bgraTick (backgroundVariant c vs) \<le> tick \<and> uyvyTick (backgroundVariant c vs) \<le> tick"
  by (auto simp: variant_lookup new_variant_def aged_def dest: lookup_in split: option.splits)

lemma compositedBgra_aged:
  "aged tick keys (backgrounds s) \<Longrightarrow> 0 \<le> tick \<Longrightarrow> k \<in> keys \<Longrightarrow>
   aged tick keys (backgrounds (snd (compositedBgra cv frame k tick s)))"
  using aged_variant [of tick keys "backgrounds s" k] by (auto simp: compositedBgra_def Let_def intro!: aged_store)

lemma compositedUyvy_aged:
  "aged tick keys (backgrounds s) \<Longrightarrow> 0 \<le> tick \<Longrightarrow> k \<in> keys \<Longrightarrow>
   aged tick keys (backgrounds (snd (compositedUyvy cv frame k tick s)))"
  using compositedBgra_aged [of tick keys s k cv frame]
    aged_variant [of tick keys "backgrounds (snd (compositedBgra cv frame k tick s))" k]
  by (auto simp: compositedUyvy_def Let_def intro!: aged_store split: prod.splits option.splits)

lemma deliver_aged:
  "aged tick keys (backgrounds s) \<Longrightarrow> 0 \<le> tick \<Longrightarrow>
   \<forall>t \<in> set ts. wants_composite t \<longrightarrow> packed (target_background t) \<in> keys \<Longrightarrow>
   aged tick keys (backgrounds (snd (deliver cv frame uyvy straight tick ts s)))"
proof (induction ts arbitrary: s)
  case Nil
  then show ?case by simp
next
  case (Cons t ts)
  have "aged tick keys (backgrounds (snd (payload cv frame uyvy straight tick t s)))"
    using Cons.prems compositedBgra_aged [of tick keys s _ cv frame] compositedUyvy_aged [of tick keys s _ cv frame]
    by (simp add: payload_def)
  with Cons.IH Cons.prems(2,3) show ?case by (simp add: case_prod_beta Let_def)
qed

lemma background_keys_set:
  "set (background_keys ts) = {packed (target_background t) |t. t \<in> set ts \<and> wants_composite t}"
proof -
  let ?f = "\<lambda>ks t. if wants_composite t \<and> packed (target_background t) \<notin> set ks then ks @ [packed (target_background t)] else ks"
  have "set (foldl ?f ks ts) = set ks \<union> {packed (target_background t) |t. t \<in> set ts \<and> wants_composite t}" for ks
    by (induction ts arbitrary: ks) auto
  then show ?thesis by (simp add: background_keys_def)
qed

lemma run_tick_delivers:
  assumes "uyvyPool s = raster" "straightPool s = raster" "backgroundPool s = raster"
    and "same_format (pic_format frame) raster" "pic_pixels frame = BGRA" "0 \<le> tick"
    and "\<forall>v \<in> set (backgrounds s). bgraTick v < tick \<and> uyvyTick v < tick"
    and "run_tick cv raster entries frame tick s = (ds, s')"
  shows "map fst ds = plan_targets entries \<and> list_all (right_payload cv frame) ds \<and> distinct (jobs s') \<and>
    (\<forall>v \<in> set (backgrounds s'). bgraTick v < tick + 1 \<and> uyvyTick v < tick + 1 \<and>
       colour v \<in> set (background_keys (plan_targets entries)))"
proof -
  let ?ts = "plan_targets entries"
  let ?keys = "set (background_keys ?ts)"
  define s1 where "s1 = s\<lparr>jobs := [], backgrounds := filter (\<lambda>v. colour v \<in> ?keys) (backgrounds s)\<rparr>"
  obtain uyvy s2 where u: "(if list_ex wants_uyvy ?ts then frameInFormat cv frame UYVY s1 else (None, s1)) = (uyvy, s2)" by fastforce
  obtain straight s3 where st: "(if list_ex wants_straight ?ts then unpremultiplied cv frame s2 else (None, s2)) = (straight, s3)" by fastforce
  have raster: "same_format raster (pic_format frame)" using assms(4) by (rule same_format_sym)
  have p1: "uyvyPool s1 = raster" "straightPool s1 = raster" "backgroundPool s1 = raster" using assms(1-3) by (simp_all add: s1_def)
  have s2: "backgrounds s2 = backgrounds s1" "straightPool s2 = raster" "uyvyPool s2 = raster" "backgroundPool s2 = raster"
    "jobs s2 = (if list_ex wants_uyvy ?ts then [Uyvy] else [])"
    "list_ex wants_uyvy ?ts \<Longrightarrow> is_made frame UYVY (to_uyvy cv (content frame)) uyvy"
    using u p1 raster assms(5) converted_made [of raster frame UYVY "to_uyvy cv (content frame)"]
    by (auto simp: frameInFormat_def Let_def s1_def split: if_splits)
  have s3: "backgrounds s3 = backgrounds s1" "uyvyPool s3 = raster" "backgroundPool s3 = raster"
    "jobs s3 = jobs s2 @ (if list_ex wants_straight ?ts then [Straighten] else [])"
    "list_ex wants_straight ?ts \<Longrightarrow> is_made frame BGRA (straighten cv (content frame)) straight"
    using st s2 raster assms(5) converted_made [of raster frame BGRA "straighten cv (content frame)"]
    by (auto simp: unpremultiplied_def Let_def split: if_splits)
  have none: "list_ex wants_uyvy ?ts \<Longrightarrow> uyvy \<noteq> None" "list_ex wants_straight ?ts \<Longrightarrow> straight \<noteq> None"
    using s2(6) s3(5) by (auto simp: is_made_def)
  have r: "deliver cv frame uyvy straight tick ?ts s3 = (ds, s')"
    using assms(4,8) u st none unfolding run_tick_def Let_def s1_def by (auto split: if_splits)
  have old: "\<forall>v \<in> set (backgrounds s1). bgraTick v < tick \<and> uyvyTick v < tick \<and> colour v \<in> ?keys"
    using assms(7) by (simp add: s1_def)
  have "variant_now cv frame tick (jobs s3) (backgroundVariant c (backgrounds s3))" for c
    using old by (auto simp: variant_now_def variant_lookup new_variant_def s2(5) s3 dest: lookup_in split: option.splits if_splits)
  then have "current cv frame tick s3" using raster by (simp add: current_def s2(5) s3)
  from deliver_right [OF this assms(5) _ _ r]
  have d: "map fst ds = ?ts \<and> list_all (right_payload cv frame) ds \<and> current cv frame tick s'"
    using s2(6) s3(5) by (simp add: list_ex_iff)
  have "aged tick ?keys (backgrounds s3)" using old by (auto simp: aged_def s3)
  then have "aged tick ?keys (backgrounds s')"
    using deliver_aged [of tick ?keys s3 ?ts cv frame uyvy straight] assms(6) r by (auto simp: background_keys_set)
  with d show ?thesis by (auto simp: current_def aged_def)
qed

section \<open>Properties\<close>

text \<open>
  C3: a tick hands every output that is enabled and present exactly the conversion of this tick's
  paint that the output asks for (composited over its background, in its pixel format, with straight
  alpha where it wants it), of the engine's raster and with the paint's sequence number; the caches are
  invisible, each conversion is made at most once however many outputs share it, and the variants
  kept are of colours still in use.
\<close>

theorem tick_delivers:
  assumes "uyvyPool s = raster" "straightPool s = raster" "backgroundPool s = raster"
    and "same_format (pic_format frame) raster" "pic_pixels frame = BGRA" "0 \<le> tick"
    and "\<forall>v \<in> set (backgrounds s). bgraTick v < tick \<and> uyvyTick v < tick"
    and "run_tick cv raster entries frame tick s = (ds, s')"
  shows "map fst ds = plan_targets entries \<and> list_all (right_payload cv frame) ds \<and> distinct (jobs s') \<and>
    (\<forall>v \<in> set (backgrounds s'). bgraTick v < tick + 1 \<and> uyvyTick v < tick + 1 \<and>
       colour v \<in> set (background_keys (plan_targets entries)))"
  using run_tick_delivers [OF assms] .

definition example_raster :: video_format where
  "example_raster = \<lparr>width = 1920, height = 1080, rate = \<lparr>numerator = 50, denominator = 1\<rparr>, interlaced = False\<rparr>"

definition example_entry :: "pixel_format \<Rightarrow> planned" where
  "example_entry px = \<lparr>enabled = True, desc = \<lparr>generation_of = 1, present = True, pixelFormat = px, straightAlpha = False,
     wantsAudio = True\<rparr>, backdrop = \<lparr>opaque = True, red = 0, green = 177, blue = 64\<rparr>\<rparr>"

definition example_converter :: "int converter" where
  "example_converter = \<lparr>to_uyvy = (\<lambda>x. 2 * x), straighten = (\<lambda>x. x), over = (\<lambda>c x. c + x)\<rparr>"

definition example_state :: "int tick_state" where
  "example_state = \<lparr>uyvyPool = example_raster, straightPool = example_raster, backgroundPool = example_raster,
     uyvyScratch = None, straightScratch = None, backgrounds = [], jobs = []\<rparr>"

definition example_paint :: "int picture" where
  "example_paint = \<lparr>pic_format = example_raster, pic_pixels = BGRA, content = 7, sequence = 3, captureNanos = 0\<rparr>"

theorem tick_delivers_witness:
  "let (ds, s) = run_tick example_converter example_raster [example_entry UYVY, example_entry BGRA] example_paint 5 example_state
   in map fst ds = plan_targets [example_entry UYVY, example_entry BGRA] \<and>
      list_all (right_payload example_converter example_paint) ds \<and> distinct (jobs s)"
proof -
  obtain ds s where r: "run_tick example_converter example_raster [example_entry UYVY, example_entry BGRA] example_paint 5
      example_state = (ds, s)" by fastforce
  have "map fst ds = plan_targets [example_entry UYVY, example_entry BGRA] \<and>
      list_all (right_payload example_converter example_paint) ds \<and> distinct (jobs s)"
    using tick_delivers [OF _ _ _ _ _ _ _ r] by (simp add: example_state_def example_paint_def)
  with r show ?thesis by simp
qed

text \<open>A paint of another raster, in flight since before a format change, goes to nobody.\<close>

lemma stale_raster_dropped: "\<not> same_format (pic_format frame) raster \<Longrightarrow> fst (run_tick cv raster entries frame tick s) = []"
  by (simp add: run_tick_def Let_def)

end
