(* ===== verification/Engine_Apply.thy ===== *)
theory Engine_Apply
  imports Engine_Outputs Tick_Plan
begin

text \<open>
  What \<open>applyConfiguration\<close> leaves, what it does not touch, and what a failed change leaves behind.
\<close>

section \<open>Applying a configuration\<close>

text \<open>
  The contract of \<open>start\<close> (\<open>outputs/output.h\<close>) and of the control queue's refusals: a failure has a
  message.
\<close>

definition failures_speak :: "drivers \<Rightarrow> bool" where
  "failures_speak d \<longleftrightarrow> (\<forall>n. start_error d n \<noteq> Some [] \<and> admission d n \<noteq> Some [])"

text \<open>An entry that is what a spec asks for.\<close>

definition applied :: "output_spec \<Rightarrow> engine_entry \<Rightarrow> bool" where
  "applied p e \<longleftrightarrow> entry_name e = spec_name p \<and> same_device (entry_spec e) p \<and> spec_background (entry_spec e) = spec_background p"

text \<open>
  An entry on air: it is fed, and its object is open. And an output that was in the list already with the
  device settings asked for, and switched off.
\<close>

definition on_air :: "engine \<Rightarrow> engine_entry \<Rightarrow> bool" where
  "on_air s e \<longleftrightarrow> entry_enabled e \<and> (\<exists>obj f. slot_object e = Some obj \<and> same_device (its_spec obj) (entry_spec e) \<and>
     opened obj = Some f \<and> open_at (raster s) (fell_back s) (spec_kind (entry_spec e)) f)"

definition was_off :: "output_spec \<Rightarrow> engine \<Rightarrow> bool" where
  "was_off p s \<longleftrightarrow> (\<exists>e. findEntry (spec_name p) (entries s) = Some e \<and> same_device (entry_spec e) p \<and> \<not> entry_enabled e)"

lemma same_device_sym: "same_device x y \<longleftrightarrow> same_device y x"
  by (auto simp: same_device_def)

lemma createOutput_speaks: "createOutput d n p = Inl e \<Longrightarrow> e \<noteq> []"
  by (auto simp: createOutput_def split: if_splits)

lemma start_output_speaks: "failures_speak d \<Longrightarrow> start_output d n f obj = (Some e, obj') \<Longrightarrow> e \<noteq> []"
  by (auto simp: failures_speak_def start_output_def split: if_splits option.splits)

lemma replace_object_speaks:
  "failures_speak d \<Longrightarrow> replace_object d n f p q was = (obj, False, restored, why) \<Longrightarrow> why \<noteq> []"
  using createOutput_speaks [of d n p] start_output_speaks [of d n f]
  by (fastforce simp: replace_object_def Let_def split: sum.splits prod.splits option.splits if_splits)

lemma updateOutput_speaks:
  assumes "failures_speak d" "\<not> fst (fst (updateOutput d nm spec err s))"
  shows "snd (fst (updateOutput d nm spec err s)) \<noteq> []"
proof (cases "findEntry nm (entries s)")
  case None
  with assms show ?thesis
    by (cases "admission d (asked s)") (auto simp: updateOutput_def Let_def no_output_def failures_speak_def)
next
  case (Some e)
  obtain r s' where u: "updateOutput d nm spec err s = (r, s')" by fastforce
  from updateOutput_result [OF Some u] assms u show ?thesis
    by (auto simp: failures_speak_def dest: replace_object_speaks [OF assms(1)] split: if_splits)
qed

lemma opened_entry_speaks: "failures_speak d \<Longrightarrow> opened_entry d n f p obj = (Some e, x) \<Longrightarrow> e \<noteq> []"
  using start_output_speaks [of d n f obj e] by (auto simp: opened_entry_def Let_def split: prod.splits)

lemma addOutput_speaks:
  assumes "failures_speak d" "\<not> fst (fst (addOutput d spec err s))"
  shows "snd (fst (addOutput d spec err s)) \<noteq> []"
  using assms createOutput_speaks [of d "asked s + 1" spec] opened_entry_speaks [OF assms(1), of "asked s + 1" "raster s" spec]
  by (fastforce simp: addOutput_def Let_def name_taken_def failures_speak_def outcome_def
      split: option.splits if_splits prod.splits sum.splits)

lemma apply_one_speaks:
  "failures_speak d \<Longrightarrow> \<not> fst (fst (apply_one d spec s)) \<Longrightarrow> snd (fst (apply_one d spec s)) \<noteq> []"
  using updateOutput_speaks addOutput_speaks by (auto simp: apply_one_def split: option.splits if_splits)

lemma apply_one_other:
  "other \<noteq> spec_name spec \<Longrightarrow> findEntry other (entries (snd (apply_one d spec s))) = findEntry other (entries s)"
  by (auto simp: apply_one_def updateOutput_other addOutput_other split: option.splits)

lemma apply_one_raster [simp]: "raster (snd (apply_one d spec s)) = raster s"
  by (auto simp: apply_one_def split: option.splits)

lemma apply_one_applied:
  assumes "fst (fst (apply_one d spec s))"
  shows "\<exists>e. findEntry (spec_name spec) (entries (snd (apply_one d spec s))) = Some e \<and> applied spec e \<and> (entry_enabled e \<or> was_off spec s)"
proof (cases "findEntry (spec_name spec) (entries s)")
  case None
  then show ?thesis
    using assms by (auto simp: apply_one_def addOutput_def Let_def opened_entry_def outcome_def find_append applied_def entry_name_def
        split: option.splits prod.splits sum.splits if_splits)
next
  case (Some e)
  note nm = conjunct2 [OF findEntry_SomeD [OF Some]]
  show ?thesis
  proof (cases "same_device (entry_spec e) spec \<and> spec_background (entry_spec e) = spec_background spec")
    case True
    with Some nm show ?thesis by (simp add: apply_one_def applied_def was_off_def)
  next
    case False
    obtain r s' where u: "updateOutput d (spec_name spec) spec [] s = (r, s')" by fastforce
    from assms False Some u have r: "fst r" and s': "snd (apply_one d spec s) = s'" by (auto simp: apply_one_def)
    from updateOutput_result [OF Some u] r obtain e' where
      e': "entries s' = on_entry (spec_name spec) (\<lambda>_. e') (entries s)" "applied spec e'" "entry_enabled e' \<or> was_off spec s"
      using nm Some by (auto simp: applied_def entry_name_def same_device_sym swapped_in_def was_off_def split: if_splits)
    from on_entry_find [OF Some, of "\<lambda>_. e'"] e' s' show ?thesis by (auto simp: applied_def)
  qed
qed

lemma apply_one_unchanged:
  "findEntry (spec_name spec) (entries s) = Some e \<Longrightarrow> applied spec e \<Longrightarrow> apply_one d spec s = ((True, []), s)"
  by (simp add: apply_one_def applied_def)

lemma apply_outputs_other:
  "other \<notin> spec_name ` set specs \<Longrightarrow>
   findEntry other (entries (snd (apply_outputs d specs first s))) = findEntry other (entries s)"
proof (induction specs arbitrary: first s)
  case (Cons p ps)
  then show ?case using apply_one_other [of other p d s] by (cases "apply_one d p s") simp
qed simp

lemma apply_outputs_raster [simp]: "raster (snd (apply_outputs d specs first s)) = raster s"
proof (induction specs arbitrary: first s)
  case (Cons p ps)
  then show ?case using apply_one_raster [of d p s] by (cases "apply_one d p s") simp
qed simp

lemma apply_outputs_first: "first \<noteq> [] \<Longrightarrow> fst (apply_outputs d specs first s) = first"
proof (induction specs arbitrary: s)
  case (Cons p ps)
  then show ?case by (cases "apply_one d p s") (simp add: noted_def)
qed simp

lemma apply_outputs_applied:
  assumes "failures_speak d" "distinct (map spec_name specs)" "fst (apply_outputs d specs first s) = []" "p \<in> set specs"
  shows "\<exists>e. findEntry (spec_name p) (entries (snd (apply_outputs d specs first s))) = Some e \<and> applied p e \<and> (entry_enabled e \<or> was_off p s)"
  using assms(2-4)
proof (induction specs arbitrary: first s)
  case (Cons q qs)
  obtain r s1 where a: "apply_one d q s = (r, s1)" by fastforce
  have noted: "noted first r = []" using Cons.prems(2) a apply_outputs_first [of "noted first r" d qs s1] by auto
  show ?case
  proof (cases "p = q")
    case True
    have "fst r"
    proof (rule ccontr)
      assume "\<not> fst r"
      with apply_one_speaks [OF assms(1), of q s] a have "snd r \<noteq> []" by simp
      with noted \<open>\<not> fst r\<close> show False by (auto simp: noted_def split: if_splits)
    qed
    with apply_one_applied [of d q s] a True show ?thesis
      using apply_outputs_other [of "spec_name q" qs d "noted first r" s1] Cons.prems(1) by simp
  next
    case False
    with Cons.prems(1,3) have "p \<in> set qs" "spec_name p \<noteq> spec_name q" by (auto simp: image_iff)
    with apply_one_other [of "spec_name p" q d s] a have "was_off p s1 = was_off p s" by (simp add: was_off_def)
    with Cons.IH [of "noted first r" s1] Cons.prems(1,2) a \<open>p \<in> set qs\<close> show ?thesis by simp
  qed
qed simp

lemma apply_outputs_untouched:
  assumes "distinct (map spec_name specs)" "p \<in> set specs" "findEntry (spec_name p) (entries s) = Some e" "applied p e"
  shows "findEntry (spec_name p) (entries (snd (apply_outputs d specs first s))) = Some e"
  using assms
proof (induction specs arbitrary: first s)
  case (Cons q qs)
  show ?case
  proof (cases "p = q")
    case True
    with Cons.prems apply_one_unchanged [of q s e d] apply_outputs_other [of "spec_name q" qs d "noted first (True, [])" s]
    show ?thesis by simp
  next
    case False
    with Cons.prems have "p \<in> set qs" "spec_name p \<noteq> spec_name q" by (auto simp: image_iff)
    with Cons False apply_one_other [of "spec_name p" q d s] show ?thesis by (cases "apply_one d q s") simp
  qed
qed simp

section \<open>Removing what is not wanted\<close>

lemma removeOutput_entries:
  assumes "gate d (asked s + 1)" "admission d (asked s) = None"
  shows "findEntry nm (entries s) = Some e \<Longrightarrow> \<not> permanent e \<Longrightarrow>
      entries (snd (removeOutput d nm s)) = erase_entry nm (entries s)"
    and "findEntry nm (entries s) = None \<or> (\<exists>e. findEntry nm (entries s) = Some e \<and> permanent e) \<Longrightarrow>
      entries (snd (removeOutput d nm s)) = entries s"
proof -
  have "erase_entry nm (on_entry nm f es) = erase_entry nm es" if "\<And>x. entry_name (f x) = entry_name x" for f es
    using that by (induction es) auto
  then show "findEntry nm (entries s) = Some e \<Longrightarrow> \<not> permanent e \<Longrightarrow>
      entries (snd (removeOutput d nm s)) = erase_entry nm (entries s)"
    using assms by (simp add: removeOutput_def Let_def permanent_def)
  show "findEntry nm (entries s) = None \<or> (\<exists>e. findEntry nm (entries s) = Some e \<and> permanent e) \<Longrightarrow>
      entries (snd (removeOutput d nm s)) = entries s"
    using assms by (auto simp: removeOutput_def Let_def permanent_def)
qed

text \<open>Nothing stands in the way: the queue lets changes in and every gate is had in time.\<close>

definition unobstructed :: "drivers \<Rightarrow> bool" where
  "unobstructed d \<longleftrightarrow> (\<forall>n. gate d n \<and> admission d n = None)"

lemma find_erased: "distinct (map entry_name es) \<Longrightarrow> findEntry nm (erase_entry nm es) = None"
  by (induction es) (auto simp: findEntry_None)

lemma removeOutput_gone:
  assumes "unobstructed d" "engine_ok s"
  shows "findEntry nm (entries (snd (removeOutput d nm s))) = None \<or>
    (\<exists>e. findEntry nm (entries (snd (removeOutput d nm s))) = Some e \<and> permanent e)"
proof -
  have "gate d (asked s + 1)" "admission d (asked s) = None" using assms(1) by (simp_all add: unobstructed_def)
  note r = removeOutput_entries [OF this]
  show ?thesis
  proof (cases "\<exists>e. findEntry nm (entries s) = Some e \<and> \<not> permanent e")
    case True
    then obtain e where "findEntry nm (entries s) = Some e" "\<not> permanent e" by blast
    from r(1) [OF this] find_erased [of "entries s" nm] assms(2) show ?thesis
      by (simp add: engine_ok_def list_ok_def shape_def)
  next
    case False
    then have "findEntry nm (entries s) = None \<or> (\<exists>e. findEntry nm (entries s) = Some e \<and> permanent e)"
      by (cases "findEntry nm (entries s)") auto
    with r(2) [OF this] show ?thesis by simp
  qed
qed

lemma drop_unwanted_other:
  "other \<in> set wanted \<or> other \<notin> set names \<Longrightarrow> findEntry other (entries (drop_unwanted d wanted names s)) = findEntry other (entries s)"
proof (induction names arbitrary: s)
  case (Cons n ns)
  then show ?case using removeOutput_other [of other n d s] by (cases "other = n") auto
qed simp

lemma drop_unwanted_raster [simp]: "raster (drop_unwanted d wanted names s) = raster s"
  by (induction names arbitrary: s) simp_all

lemma drop_unwanted_keeps_none:
  "findEntry nm (entries s) = None \<Longrightarrow> findEntry nm (entries (drop_unwanted d wanted names s)) = None"
proof (induction names arbitrary: s)
  case (Cons n ns)
  have "findEntry nm (entries (snd (removeOutput d nm s))) = None"
    using Cons.prems by (auto simp: removeOutput_def Let_def split: option.splits)
  then have "findEntry nm (entries (snd (removeOutput d n s))) = None"
    using Cons.prems removeOutput_other [of nm n d s] by (cases "nm = n") simp_all
  with Cons show ?case by simp
qed simp

lemma drop_unwanted_gone:
  assumes "unobstructed d" "engine_ok s" "findEntry nm (entries (drop_unwanted d wanted names s)) = Some e" "nm \<in> set names" "nm \<notin> set wanted"
  shows "permanent e"
  using assms(2-4)
proof (induction names arbitrary: s)
  case (Cons n ns)
  let ?s1 = "if n \<in> set wanted then s else snd (removeOutput d n s)"
  have s1: "engine_ok ?s1" using Cons.prems(1) removeOutput_ok by simp
  show ?case
  proof (cases "nm \<in> set ns")
    case True
    with Cons.IH [OF s1] Cons.prems(2) show ?thesis by simp
  next
    case False
    with Cons.prems(3) assms(5) have n: "nm = n" "n \<notin> set wanted" by auto
    from False drop_unwanted_other [of nm wanted ns d ?s1] Cons.prems(2) n
    have "findEntry nm (entries (snd (removeOutput d nm s))) = Some e" by simp
    with removeOutput_gone [OF assms(1) Cons.prems(1), of nm] show ?thesis by simp
  qed
qed simp

section \<open>The format\<close>

lemma feed_items_speaks:
  "feed_items d n is re es = (re', es') \<Longrightarrow> (\<not> fst re \<Longrightarrow> snd re \<noteq> []) \<Longrightarrow> \<not> fst re' \<Longrightarrow> snd re' \<noteq> []"
proof (induction "is" arbitrary: re es)
  case (Cons i "is")
  show ?case
  proof (cases "findEntry (item_name i) es")
    case None
    with Cons show ?thesis by simp
  next
    case (Some e)
    obtain f fine why where f: "feed_one d n i = (f, fine, why)" by (cases "feed_one d n i")
    then have "\<not> fine \<Longrightarrow> why m \<noteq> []" and "why m = [] \<Longrightarrow> m = []" for m
      by (auto simp: feed_one_def Let_def quoted_def split: if_splits)
    with Cons.prems(2) have "\<not> (fst re \<and> fine) \<Longrightarrow> why (snd re) \<noteq> []" by blast
    with Cons.IH [of "(fst re \<and> fine, why (snd re))"] Cons.prems(1,3) Some f show ?thesis by simp
  qed
qed simp

lemma change_format_speaks:
  "\<not> fst (fst (change_format d previous f err s)) \<Longrightarrow> snd (fst (change_format d previous f err s)) \<noteq> []"
  by (auto simp: change_format_def Let_def split: option.splits prod.splits if_splits dest: feed_items_speaks)

lemma setFormat_speaks:
  "failures_speak d \<Longrightarrow> \<not> fst (fst (setFormat d previous f err s)) \<Longrightarrow> snd (fst (setFormat d previous f err s)) \<noteq> []"
  using change_format_speaks by (auto simp: setFormat_def failures_speak_def split: if_splits option.splits)

lemma stop_items_raster [simp]: "raster (snd (stop_items d is s)) = raster s"
proof (induction "is" arbitrary: s)
  case (Cons i "is")
  then show ?case by (simp add: Let_def split_beta)
qed simp

lemma reopen_items_raster [simp]: "raster (snd (reopen_items d f is s)) = raster s"
proof (induction "is" arbitrary: s)
  case (Cons i "is")
  then show ?case by (simp add: Let_def split_beta split: option.split)
qed simp

lemma setFormat_raster:
  assumes "fst (fst (setFormat d (raster s) f err s))"
  shows "same_format (raster (snd (setFormat d (raster s) f err s))) f"
proof (cases "same_format (raster s) f")
  case False
  then have a: "admission d (asked s) = None" using assms by (auto simp: setFormat_def split: option.splits)
  with assms False have "raster (snd (change_format d (raster s) f err (ask s))) = f"
    unfolding setFormat_def
    by (auto simp: change_format_def Let_def split_beta release_def split: option.splits if_splits)
  with a False show ?thesis by (simp add: setFormat_def same_format_refl)
qed (simp add: setFormat_def)

text \<open>A change of format that succeeds leaves the outputs what they were, and every one fed that was.\<close>

lemma specs_on_entry:
  "(\<And>x. entry_spec (f x) = entry_spec x) \<Longrightarrow> map entry_spec (on_entry nm f es) = map entry_spec es"
  by (induction es) auto

lemma stop_items_specs: "map entry_spec (entries (snd (stop_items d is s))) = map entry_spec (entries s)"
proof (induction "is" arbitrary: s)
  case (Cons i "is")
  then show ?case by (simp add: Let_def split_beta specs_on_entry)
qed simp

lemma reopen_items_specs: "map entry_spec (entries (snd (reopen_items d f is s))) = map entry_spec (entries s)"
proof (induction "is" arbitrary: s)
  case (Cons i "is")
  then show ?case by (simp add: Let_def split_beta specs_on_entry split: option.split)
qed simp

lemma reopen_items_was: "map (\<lambda>i. (item_name i, wasEnabled i)) (fst (reopen_items d f is s)) = map (\<lambda>i. (item_name i, wasEnabled i)) is"
proof (induction "is" arbitrary: s)
  case (Cons i "is")
  then show ?case by (simp add: Let_def split_beta split: option.split)
qed simp

lemma stop_items_was: "map (\<lambda>i. (item_name i, wasEnabled i)) (fst (stop_items d is s)) = map (\<lambda>i. (item_name i, wasEnabled i)) is"
proof (induction "is" arbitrary: s)
  case (Cons i "is")
  then show ?case by (simp add: Let_def split_beta)
qed simp

lemma feed_one_keeps:
  "feed_one d n i = (f, fine, why) \<Longrightarrow> entry_spec (f e) = entry_spec e \<and> (entry_enabled e \<longrightarrow> entry_enabled (f e)) \<and>
   (fine \<longrightarrow> wasEnabled i \<longrightarrow> entry_enabled (f e))"
  by (auto simp: feed_one_def Let_def split: if_splits)

lemma feed_items_keeps:
  assumes "feed_items d n is re es = (re', es')" "fst re'"
  shows "fst re \<and> map entry_spec es' = map entry_spec es \<and>
    (\<forall>nm e. findEntry nm es = Some e \<and> (entry_enabled e \<or> (\<exists>i \<in> set is. item_name i = nm \<and> wasEnabled i)) \<longrightarrow>
      (\<exists>e'. findEntry nm es' = Some e' \<and> entry_enabled e'))"
  using assms
proof (induction "is" arbitrary: re es)
  case (Cons i "is")
  show ?case
  proof (cases "findEntry (item_name i) es")
    case None
    from Cons.IH [of re es] Cons.prems None have "fst re" "map entry_spec es' = map entry_spec es"
      "\<And>nm e. findEntry nm es = Some e \<Longrightarrow> entry_enabled e \<or> (\<exists>j \<in> set is. item_name j = nm \<and> wasEnabled j) \<Longrightarrow>
        \<exists>e'. findEntry nm es' = Some e' \<and> entry_enabled e'" by simp_all
    with None show ?thesis by auto
  next
    case (Some x)
    obtain f fine why where f: "feed_one d n i = (f, fine, why)" by (cases "feed_one d n i")
    note k = feed_one_keeps [OF f]
    have name: "entry_name (f e) = entry_name e" for e using k by (simp add: entry_name_def)
    have at: "findEntry (item_name i) (on_entry (item_name i) f es) = Some (f x)"
      using on_entry_find [OF Some, of f] name findEntry_SomeD [OF Some] by simp
    have other: "findEntry nm (on_entry (item_name i) f es) = findEntry nm es" if "nm \<noteq> item_name i" for nm
      using find_on_other [OF that, of es f] name findEntry_SomeD that by metis
    from Cons.IH [of "(fst re \<and> fine, why (snd re))" "on_entry (item_name i) f es"] Cons.prems Some f
    have ih: "fst re \<and> fine" "map entry_spec es' = map entry_spec (on_entry (item_name i) f es)"
      "\<And>nm e. findEntry nm (on_entry (item_name i) f es) = Some e \<Longrightarrow>
        entry_enabled e \<or> (\<exists>j \<in> set is. item_name j = nm \<and> wasEnabled j) \<Longrightarrow>
        \<exists>e'. findEntry nm es' = Some e' \<and> entry_enabled e'" by auto
    have "\<exists>e'. findEntry nm es' = Some e' \<and> entry_enabled e'"
      if "findEntry nm es = Some e" "entry_enabled e \<or> (\<exists>j \<in> set (i # is). item_name j = nm \<and> wasEnabled j)" for nm e
    proof (cases "nm = item_name i")
      case True
      with that Some k [of x] ih(1) ih(3) [OF at] show ?thesis by auto
    next
      case False
      with that other [OF False] ih(3) [of nm e] show ?thesis by auto
    qed
    with ih k specs_on_entry [of f "item_name i" es] show ?thesis by simp
  qed
qed simp

lemma find_same_specs:
  "map entry_spec es' = map entry_spec es \<Longrightarrow> findEntry nm es' = Some e' \<Longrightarrow>
   \<exists>e. findEntry nm es = Some e \<and> entry_spec e' = entry_spec e"
proof (induction es arbitrary: es')
  case (Cons x xs)
  then obtain y ys where "es' = y # ys" "entry_spec y = entry_spec x" "map entry_spec ys = map entry_spec xs" by auto
  with Cons show ?case by (auto simp: entry_name_def split: if_splits)
qed simp

lemma setFormat_keeps:
  assumes "fst (fst (setFormat d previous f err s))" "findEntry nm (entries (snd (setFormat d previous f err s))) = Some e'"
  shows "\<exists>e. findEntry nm (entries s) = Some e \<and> entry_spec e' = entry_spec e \<and> (entry_enabled e \<longrightarrow> entry_enabled e')"
proof (cases "same_format previous f")
  case False
  then have a: "admission d (asked s) = None" "stuck_for d (asked s + 1) = None"
    using assms(1) by (auto simp: setFormat_def change_format_def split: option.splits)
  let ?s0 = "unfeed_all (ask (ask s))" and ?items = "list_items (entries s)"
  obtain items1 s1 where i1: "stop_items d ?items ?s0 = (items1, s1)" by fastforce
  define parked where "parked = parks d (asked s1)"
  define openAt where "openAt = (if parked then f else previous)"
  define s2 where "s2 = (if parked then release (ask s1\<lparr>raster := f, fell_back := None\<rparr>)
    else ask s1\<lparr>fell_back := (if previous = raster s1 then None else Some previous)\<rparr>)"
  obtain items2 s3 where i2: "reopen_items d openAt items1 s2 = (items2, s3)" by fastforce
  obtain re es where fed: "feed_items d (asked s3) items2 (True, err) (entries s3) = (re, es)" by fastforce
  have r: "parked \<and> fst re \<and> snd (setFormat d previous f err s) = release (ask s3\<lparr>entries := es\<rparr>)"
    using assms(1) False a i1 i2 fed
    by (simp add: setFormat_def change_format_def Let_def parked_def [symmetric] openAt_def [symmetric] s2_def [symmetric]
        split: if_splits prod.splits)
  note k = feed_items_keeps [OF fed conjunct1 [OF conjunct2 [OF r]]]
  have "map entry_spec (entries ?s0) = map entry_spec (entries s)" by (simp add: unfeed_all_def comp_def)
  moreover have "map entry_spec (entries s1) = map entry_spec (entries ?s0)" using stop_items_specs [of d ?items ?s0] i1 by simp
  moreover have "entries s2 = entries s1" by (simp add: s2_def)
  moreover have "map entry_spec (entries s3) = map entry_spec (entries s2)" using reopen_items_specs [of d openAt items1 s2] i2 by simp
  ultimately have s3: "map entry_spec (entries s3) = map entry_spec (entries s)" by simp
  have found: "findEntry nm es = Some e'" using assms(2) r by simp
  obtain e where e: "findEntry nm (entries s) = Some e" "entry_spec e' = entry_spec e"
    using find_same_specs [OF _ found, of "entries s"] k s3 by auto
  obtain x where x: "findEntry nm (entries s3) = Some x"
    using find_same_specs [of "entries s" "entries s3", OF _ e(1)] s3 by auto
  have "entry_enabled e'" if "entry_enabled e"
  proof -
    have "map (\<lambda>i. (item_name i, wasEnabled i)) items2 = map (\<lambda>i. (item_name i, wasEnabled i)) ?items"
      using reopen_items_was [of d openAt items1 s2] stop_items_was [of d ?items ?s0] i1 i2 by simp
    then have "set (map (\<lambda>i. (item_name i, wasEnabled i)) items2) = (\<lambda>e. (entry_name e, entry_enabled e)) ` set (entries s)"
      by (simp add: list_items_def image_image)
    moreover have "(nm, True) \<in> (\<lambda>e. (entry_name e, entry_enabled e)) ` set (entries s)"
      using findEntry_SomeD [OF e(1)] that by force
    ultimately have "(nm, True) \<in> (\<lambda>i. (item_name i, wasEnabled i)) ` set items2" by simp
    then have "\<exists>i \<in> set items2. item_name i = nm \<and> wasEnabled i" by auto
    with k x found show ?thesis by (metis option.inject)
  qed
  with e show ?thesis by blast
qed (use assms in \<open>simp add: setFormat_def\<close>)

section \<open>Settings\<close>

definition settings_of :: "engine \<Rightarrow> string \<times> colour_matrix \<times> bool \<times> bool \<times> bool \<times> bool \<times> string" where
  "settings_of s = (the_url s, the_matrix s, external_pacing s, interactive s, blocks_popups s, audio_on s, engine_id s)"

lemma settings_frame [simp]:
  "settings_of (release s) = settings_of s" "settings_of (assign nm f s) = settings_of s" "settings_of (ask s) = settings_of s"
  "settings_of (s\<lparr>entries := es\<rparr>) = settings_of s" "settings_of (s\<lparr>raster := r\<rparr>) = settings_of s"
  "settings_of (s\<lparr>fell_back := fb\<rparr>) = settings_of s" "settings_of (replace_in_slot nm obj s) = settings_of s"
  by (simp_all add: settings_of_def release_def assign_def ask_def replace_in_slot_def)

lemma removeOutput_settings [simp]: "settings_of (snd (removeOutput d nm s)) = settings_of s"
  by (auto simp: removeOutput_def Let_def split: option.splits)

lemma addOutput_settings [simp]: "settings_of (snd (addOutput d p err s)) = settings_of s"
  by (auto simp: addOutput_def Let_def split: option.splits prod.splits sum.splits)

lemma updateOutput_settings [simp]: "settings_of (snd (updateOutput d nm p err s)) = settings_of s"
  by (auto simp: updateOutput_def Let_def split: option.splits prod.splits)

lemma stop_items_settings [simp]: "settings_of (snd (stop_items d is s)) = settings_of s"
proof (induction "is" arbitrary: s)
  case (Cons i "is")
  then show ?case by (simp add: Let_def split_beta)
qed simp

lemma reopen_items_settings [simp]: "settings_of (snd (reopen_items d f is s)) = settings_of s"
proof (induction "is" arbitrary: s)
  case (Cons i "is")
  then show ?case by (simp add: Let_def split_beta split: option.split)
qed simp

lemma setFormat_settings [simp]: "settings_of (snd (setFormat d previous f err s)) = settings_of s"
  by (auto simp: setFormat_def change_format_def unfeed_all_def Let_def split_beta split: option.splits)

lemma drop_unwanted_settings [simp]: "settings_of (drop_unwanted d wanted names s) = settings_of s"
  by (induction names arbitrary: s) simp_all

lemma apply_outputs_settings [simp]: "settings_of (snd (apply_outputs d specs first s)) = settings_of s"
proof (induction specs arbitrary: first s)
  case (Cons p ps)
  have "settings_of (snd (apply_one d p s)) = settings_of s" by (auto simp: apply_one_def split: option.splits)
  with Cons show ?case by (cases "apply_one d p s") simp
qed simp

section \<open>The whole change\<close>

text \<open>The stages of \<open>applyConfiguration\<close>, by name.\<close>

definition stage_format :: "drivers \<Rightarrow> source_config \<Rightarrow> engine \<Rightarrow> reply \<times> engine" where
  "stage_format d c s = (if same_format (format c) (raster s) then ((True, []), s) else setFormat d (raster s) (format c) [] s)"

definition stage_removed :: "drivers \<Rightarrow> source_config \<Rightarrow> engine \<Rightarrow> engine" where
  "stage_removed d c s = (let s2 = apply_settings c (snd (stage_format d c s))
     in drop_unwanted d (map out_name (outputs c)) (map entry_name (entries s2)) s2)"

definition stage_outputs :: "drivers \<Rightarrow> source_config \<Rightarrow> engine \<Rightarrow> string \<times> engine" where
  "stage_outputs d c s = apply_outputs d (map outputSpecFromConfig (outputs c)) (noted [] (fst (stage_format d c s))) (stage_removed d c s)"

lemma applyConfiguration_stages:
  "applyConfiguration d c s = (case stage_outputs d c s of
     (first, s4) \<Rightarrow> ((first = [], first), if url c \<noteq> the_url s4 then s4\<lparr>the_url := url c\<rparr> else s4))"
  by (simp add: applyConfiguration_def stage_outputs_def stage_removed_def stage_format_def Let_def split_beta)

lemma spec_names: "map spec_name (map outputSpecFromConfig os) = map out_name os"
  by (simp add: outputSpecFromConfig_def)

lemma stage_removed_ok: "engine_ok s \<Longrightarrow> engine_ok (stage_removed d c s)"
  unfolding stage_removed_def Let_def
  by (rule drop_unwanted_ok)
     (use setFormat_ok [of s d "raster s" "format c" "[]"] in \<open>simp add: engine_ok_def apply_settings_def stage_format_def\<close>)

lemma stage_outputs_ok: "engine_ok s \<Longrightarrow> engine_ok (snd (stage_outputs d c s))"
  by (simp add: stage_outputs_def apply_outputs_ok stage_removed_ok)

lemma stage_settings:
  "settings_of (stage_removed d c s) = (the_url s, matrix c, externalPacing c, interactiveByDefault c, popupPolicy c = ''block'', audio_on s, engine_id s)"
proof -
  have "settings_of (snd (stage_format d c s)) = settings_of s" by (simp add: stage_format_def)
  then have "settings_of (apply_settings c (snd (stage_format d c s))) =
      (the_url s, matrix c, externalPacing c, interactiveByDefault c, popupPolicy c = ''block'', audio_on s, engine_id s)"
    by (simp add: apply_settings_def settings_of_def)
  then show ?thesis by (simp add: stage_removed_def Let_def)
qed

lemma stage_unwanted:
  assumes "unobstructed d" "engine_ok s" "e \<in> set (entries (snd (stage_outputs d c s)))" "entry_name e \<notin> out_name ` set (outputs c)"
  shows "permanent e"
proof -
  let ?s2 = "apply_settings c (snd (stage_format d c s))"
  have ok2: "engine_ok ?s2"
    using assms(2) setFormat_ok [of s d "raster s" "format c" "[]"] by (simp add: engine_ok_def apply_settings_def stage_format_def)
  have "findEntry (entry_name e) (entries (snd (stage_outputs d c s))) = Some e"
    using findEntry_distinct assms(3) stage_outputs_ok [OF assms(2)] by (simp add: engine_ok_def list_ok_def shape_def)
  moreover have "entry_name e \<notin> spec_name ` set (map outputSpecFromConfig (outputs c))"
    using assms(4) by (simp add: outputSpecFromConfig_def image_image)
  ultimately have f: "findEntry (entry_name e) (entries (stage_removed d c s)) = Some e"
    by (simp add: stage_outputs_def apply_outputs_other)
  show ?thesis
  proof (cases "entry_name e \<in> entry_name ` set (entries ?s2)")
    case True
    with f drop_unwanted_gone [OF assms(1) ok2, of "entry_name e"] assms(4) show ?thesis
      by (simp add: stage_removed_def Let_def)
  next
    case False
    with f drop_unwanted_keeps_none [of "entry_name e" ?s2] show ?thesis
      by (simp add: stage_removed_def Let_def findEntry_None)
  qed
qed

lemma stage_off:
  assumes "was_off p (stage_removed d c s)" "fst (fst (stage_format d c s))" "spec_name p \<in> set (map out_name (outputs c))"
  shows "was_off p s"
proof -
  have "was_off p (snd (stage_format d c s))"
    using assms(1,3) by (simp add: was_off_def stage_removed_def Let_def drop_unwanted_other) (simp add: apply_settings_def)
  with assms(2) show ?thesis
    by (auto simp: was_off_def stage_format_def split: if_splits dest!: setFormat_keeps)
qed

lemma applied_configuration:
  assumes "engine_ok s" "failures_speak d" "outputs_valid (outputs c)" "applyConfiguration d c s = ((True, err), s')"
  shows "same_format (raster s') (format c) \<and>
    settings_of s' = (url c, matrix c, externalPacing c, interactiveByDefault c, popupPolicy c = ''block'', audio_on s, engine_id s) \<and>
    (\<forall>o' \<in> set (outputs c). \<exists>e \<in> set (entries s'). applied (outputSpecFromConfig o') e \<and>
      (on_air s' e \<or> was_off (outputSpecFromConfig o') s)) \<and>
    (unobstructed d \<longrightarrow> (\<forall>e \<in> set (entries s'). entry_name e \<in> out_name ` set (outputs c) \<or> permanent e))"
proof -
  define s4 where "s4 = snd (stage_outputs d c s)"
  have first: "fst (stage_outputs d c s) = []" and s': "s' = (if url c \<noteq> the_url s4 then s4\<lparr>the_url := url c\<rparr> else s4)"
    using assms(4) by (auto simp: applyConfiguration_stages s4_def split: prod.splits)
  have same: "entries s' = entries s4" "raster s' = raster s4" by (simp_all add: s')
  have "noted [] (fst (stage_format d c s)) = []"
    using first apply_outputs_first by (metis stage_outputs_def)
  then have formatted: "fst (fst (stage_format d c s))"
    using setFormat_speaks [OF assms(2), of "raster s" "format c" "[]" s] by (auto simp: noted_def stage_format_def split: if_splits)
  then have raster4: "same_format (raster s4) (format c)"
    using setFormat_raster [of d s "format c" "[]"] same_format_sym
    by (auto simp: s4_def stage_outputs_def stage_removed_def Let_def apply_settings_def stage_format_def split: if_splits)
  moreover have "settings_of s4 = (the_url s, matrix c, externalPacing c, interactiveByDefault c, popupPolicy c = ''block'', audio_on s, engine_id s)"
    by (simp add: s4_def stage_outputs_def stage_settings)
  then have "settings_of s' = (url c, matrix c, externalPacing c, interactiveByDefault c, popupPolicy c = ''block'', audio_on s, engine_id s)"
    by (auto simp: s' settings_of_def)
  moreover have "\<exists>e \<in> set (entries s4). applied (outputSpecFromConfig o') e \<and> (on_air s' e \<or> was_off (outputSpecFromConfig o') s)"
    if o': "o' \<in> set (outputs c)" for o'
  proof -
    let ?p = "outputSpecFromConfig o'"
    have "distinct (map spec_name (map outputSpecFromConfig (outputs c)))" "?p \<in> set (map outputSpecFromConfig (outputs c))"
      using o' assms(3) unfolding spec_names outputs_valid_def by simp_all
    from apply_outputs_applied [OF assms(2) this(1) _ this(2)] first obtain e
      where e: "findEntry (spec_name ?p) (entries s4) = Some e" "applied ?p e" "entry_enabled e \<or> was_off ?p (stage_removed d c s)"
      unfolding s4_def stage_outputs_def by blast
    have "spec_name ?p \<in> set (map out_name (outputs c))" using o' by (simp add: outputSpecFromConfig_def)
    with e(3) have "entry_enabled e \<or> was_off ?p s" using stage_off formatted by blast
    moreover have "entry_ok (raster s4) (fell_back s4) e"
      using stage_outputs_ok [OF assms(1)] findEntry_SomeD [OF e(1)] by (simp add: s4_def engine_ok_def list_ok_def list_all_iff)
    then have "entry_enabled e \<longrightarrow> on_air s' e" by (auto simp: on_air_def entry_ok_def s')
    ultimately show ?thesis using e(2) findEntry_SomeD [OF e(1)] by blast
  qed
  moreover have "unobstructed d \<longrightarrow> (\<forall>e \<in> set (entries s4). entry_name e \<in> out_name ` set (outputs c) \<or> permanent e)"
    using stage_unwanted [OF _ assms(1)] by (auto simp: s4_def)
  ultimately show ?thesis by (simp add: same)
qed

section \<open>Properties\<close>


text \<open>
  C34: an output that is already what a configuration asks for is not touched when the raster stays: same
  object, same generation, still fed, whatever happens to the others.
\<close>

theorem apply_leaves_unchanged_outputs:
  assumes "engine_ok s" "outputs_valid (outputs c)" "same_format (format c) (raster s)"
    and "o' \<in> set (outputs c)" "e \<in> set (entries s)" "applied (outputSpecFromConfig o') e"
  shows "e \<in> set (entries (snd (applyConfiguration d c s)))"
proof -
  let ?p = "outputSpecFromConfig o'"
  have n: "spec_name ?p = entry_name e" using assms(6) by (simp add: applied_def)
  have "findEntry (entry_name e) (entries s) = Some e"
    using findEntry_distinct assms(1,5) by (simp add: engine_ok_def list_ok_def shape_def)
  moreover have "entry_name e \<in> set (map out_name (outputs c))" using assms(4) n by (force simp: outputSpecFromConfig_def)
  ultimately have "findEntry (spec_name ?p) (entries (stage_removed d c s)) = Some e"
    using assms(3) by (simp add: n stage_removed_def Let_def stage_format_def drop_unwanted_other) (simp add: apply_settings_def)
  then have "findEntry (spec_name ?p) (entries (snd (stage_outputs d c s))) = Some e"
    unfolding stage_outputs_def using assms(2,4,6)
    by (intro apply_outputs_untouched) (simp_all add: spec_names outputs_valid_def del: map_map)
  then have "e \<in> set (entries (snd (stage_outputs d c s)))" using findEntry_SomeD by blast
  then show ?thesis by (auto simp: applyConfiguration_stages split: prod.splits)
qed

lemma drop_none_unwanted: "set names \<subseteq> set wanted \<Longrightarrow> drop_unwanted d wanted names s = s"
  by (induction names arbitrary: s) simp_all

lemma apply_outputs_done:
  "\<forall>p \<in> set specs. \<exists>e. findEntry (spec_name p) (entries s) = Some e \<and> applied p e \<Longrightarrow> apply_outputs d specs [] s = ([], s)"
proof (induction specs)
  case (Cons p ps)
  then obtain e where "findEntry (spec_name p) (entries s) = Some e" "applied p e" by auto
  from apply_one_unchanged [OF this] Cons show ?case by (simp add: noted_def)
qed simp

lemma spec_config_inverse [simp]: "outputSpecFromConfig (outputConfigFromSpec p) = p"
  by (simp add: outputSpecFromConfig_def outputConfigFromSpec_def)

lemma unchanged_configuration:
  assumes "engine_ok s"
  shows "applyConfiguration d (configuration s) s = ((True, []), s)"
proof -
  let ?c = "configuration s"
  have f: "stage_format d ?c s = ((True, []), s)" by (simp add: stage_format_def configuration_def same_format_refl)
  have settings: "apply_settings ?c s = s" by (simp add: apply_settings_def configuration_def)
  have names: "map out_name (outputs ?c) = map entry_name (entries s)"
    by (simp add: configuration_def outputConfigFromSpec_def entry_name_def)
  have removed: "stage_removed d ?c s = s"
    unfolding stage_removed_def Let_def f snd_conv settings names by (rule drop_none_unwanted) simp
  have specs: "map outputSpecFromConfig (outputs ?c) = map entry_spec (entries s)" by (simp add: configuration_def)
  have "stage_outputs d ?c s = ([], s)"
    unfolding stage_outputs_def removed f specs fst_conv
    using findEntry_distinct [of "entries s"] assms
    by (auto simp: noted_def applied_def entry_name_def engine_ok_def list_ok_def shape_def intro!: apply_outputs_done)
  then show ?thesis by (simp add: applyConfiguration_stages configuration_def)
qed

text \<open>
  The configuration an engine reports is the one it has: applying it again succeeds and changes
  nothing at all, whatever the drivers would answer.
\<close>

theorem own_configuration_is_fixpoint:
  assumes "engine_ok s"
  shows "applyConfiguration d (configuration s) s = ((True, []), s)"
  using unchanged_configuration [OF assms] .

text \<open>Drivers that do as they are told, and two configurations.\<close>

definition good_drivers :: drivers where
  "good_drivers = \<lparr>compiled_in = {''ndi'', ''screen''}, admission = (\<lambda>_. None), gate = (\<lambda>_. True), busyMillis = (\<lambda>_. 0),
     built = (\<lambda>_. \<lparr>out_format = UYVY, out_straight = False, out_audio = True\<rparr>), start_error = (\<lambda>_. None),
     still_running = (\<lambda>_. True), parks = (\<lambda>_. True), stuck_for = (\<lambda>_. None)\<rparr>"

definition feed_output :: "string \<Rightarrow> string \<Rightarrow> output_config" where
  "feed_output kind name = \<lparr>out_kind = kind, out_name = name, deviceIndex = 0, options = Object [], background = default_background\<rparr>"

definition example_source :: "output_config list \<Rightarrow> source_config" where
  "example_source os = \<lparr>source_id = ''main'', url = ''about:blank'', format = example_raster, outputs = os, audioEnabled = True,
     matrix = MatrixAuto, externalPacing = True, interactiveByDefault = True, popupPolicy = ''navigate'', wantPreview = False\<rparr>"

lemma example_valid: "outputs_valid [preview_output, feed_output ''ndi'' ''air'']" "outputs_valid [preview_output]"
  by (simp_all add: outputs_valid_def preview_output_def feed_output_def outputKindIsPermanent_def)

lemma good_drivers_speak: "failures_speak good_drivers" "unobstructed good_drivers"
  by (simp_all add: failures_speak_def good_drivers_def unobstructed_def)


theorem apply_leaves_unchanged_outputs_witness:
  "let s = engine_start good_drivers (example_source [preview_output, feed_output ''ndi'' ''air''])
   in entries s ! 1 \<in> set (entries (snd (applyConfiguration good_drivers
        (example_source [preview_output, feed_output ''ndi'' ''air'', feed_output ''screen'' ''wall'']) s)))"
proof -
  let ?os = "[preview_output, feed_output ''ndi'' ''air'']"
  let ?c = "example_source (?os @ [feed_output ''screen'' ''wall''])"
  let ?s = "engine_start good_drivers (example_source ?os)"
  have ok: "engine_ok ?s" by (rule engine_start_ok) (simp add: example_source_def example_valid)
  have v: "outputs_valid (outputs ?c)"
    by (simp add: outputs_valid_def preview_output_def feed_output_def outputKindIsPermanent_def example_source_def)
  have "same_format (format ?c) (raster ?s)" by (simp add: engine_start_def example_source_def same_format_refl)
  moreover have "entries ?s ! 1 \<in> set (entries ?s)" by (simp add: engine_start_def example_source_def)
  moreover have "applied (outputSpecFromConfig (feed_output ''ndi'' ''air'')) (entries ?s ! 1)"
    using open_one_spec [of example_raster None good_drivers 1 "outputSpecFromConfig (feed_output ''ndi'' ''air'')"]
    by (simp add: engine_start_def example_source_def applied_def entry_name_def)
  ultimately have "entries ?s ! 1 \<in> set (entries (snd (applyConfiguration good_drivers ?c ?s)))"
    by (intro apply_leaves_unchanged_outputs [OF ok v, of "feed_output ''ndi'' ''air''"]) (simp_all add: example_source_def)
  then show ?thesis by simp
qed

section \<open>Every moment\<close>

lemma published_ok:
  assumes "outputs_valid (outputs c)" "(r, fb, es) \<in> set (published (foldl (control_step d) (engine_start d c) requests))"
  shows "list_seen r fb es"
proof -
  have "engine_ok (foldl (control_step d) (engine_start d c) requests)"
    using controlled.run_inv engine_start_ok [OF assms(1)] .
  with assms(2) show ?thesis by (fastforce simp: engine_ok_def list_all_iff)
qed

text \<open>Where the rasters fallen back to come from: \<open>rs\<close> holds them, and none is the engine's own.\<close>

definition fell_to :: "video_format set \<Rightarrow> video_format \<Rightarrow> video_format option \<Rightarrow> bool" where
  "fell_to rs r fb \<longleftrightarrow> (\<forall>f. fb = Some f \<longrightarrow> f \<in> rs \<and> f \<noteq> r)"

definition falls :: "video_format set \<Rightarrow> engine \<Rightarrow> bool" where
  "falls rs s \<longleftrightarrow> fell_to rs (raster s) (fell_back s) \<and> (\<forall>(r, fb, es) \<in> set (published s). fell_to rs r fb)"

lemma falls_frame [simp]:
  "falls rs (ask s) = falls rs s" "falls rs (release s) = falls rs s" "falls rs (assign nm f s) = falls rs s"
  "falls rs (replace_in_slot nm obj s) = falls rs s" "falls rs (s\<lparr>entries := es\<rparr>) = falls rs s"
  "falls rs (s\<lparr>the_url := u\<rparr>) = falls rs s" "falls rs (apply_settings c s) = falls rs s" "falls rs (unfeed_all s) = falls rs s"
  by (auto simp: falls_def ask_def release_def assign_def replace_in_slot_def apply_settings_def unfeed_all_def)

lemma falls_setOutputEnabled [simp]: "falls rs (snd (setOutputEnabled d nm b err s)) = falls rs s"
  by (auto simp: setOutputEnabled_def Let_def split: option.splits prod.splits)

lemma falls_setOutputBackground [simp]: "falls rs (snd (setOutputBackground nm bg err s)) = falls rs s"
  by (auto simp: setOutputBackground_def split: option.splits)

lemma falls_removeOutput [simp]: "falls rs (snd (removeOutput d nm s)) = falls rs s"
  by (auto simp: removeOutput_def Let_def split: option.splits)

lemma falls_addOutput [simp]: "falls rs (snd (addOutput d p err s)) = falls rs s"
  by (auto simp: addOutput_def Let_def split: option.splits prod.splits sum.splits)

lemma falls_updateOutput [simp]: "falls rs (snd (updateOutput d nm p err s)) = falls rs s"
  by (auto simp: updateOutput_def Let_def split: option.splits prod.splits)

lemma falls_drop_unwanted [simp]: "falls rs (drop_unwanted d wanted names s) = falls rs s"
  by (induction names arbitrary: s) simp_all

lemma falls_apply_outputs [simp]: "falls rs (snd (apply_outputs d specs first s)) = falls rs s"
proof (induction specs arbitrary: first s)
  case (Cons p ps)
  have "falls rs (snd (apply_one d p s)) = falls rs s" by (auto simp: apply_one_def split: option.splits)
  with Cons show ?case by (cases "apply_one d p s") simp
qed simp

lemma falls_stop_items [simp]: "falls rs (snd (stop_items d is s)) = falls rs s"
proof (induction "is" arbitrary: s)
  case (Cons i "is")
  then show ?case by (simp add: Let_def split_beta)
qed simp

lemma falls_reopen_items [simp]: "falls rs (snd (reopen_items d f is s)) = falls rs s"
proof (induction "is" arbitrary: s)
  case (Cons i "is")
  then show ?case by (simp add: Let_def split_beta split: option.split)
qed simp

lemma change_format_falls:
  assumes "falls rs s" "\<And>n. \<not> parks d n \<Longrightarrow> previous \<in> rs \<or> previous = raster s"
  shows "falls rs (snd (change_format d previous f err s))"
proof -
  define s1 where "s1 = snd (stop_items d (list_items (entries s)) (unfeed_all (ask s)))"
  have "falls rs s1" using assms(1) by (simp add: s1_def)
  then have swapped: "falls rs (ask s1\<lparr>raster := f, fell_back := None\<rparr>)" by (simp add: falls_def fell_to_def)
  have "raster s1 = raster s" by (simp add: s1_def unfeed_all_def)
  then have kept: "falls rs (ask s1\<lparr>fell_back := (if previous = raster s1 then None else Some previous)\<rparr>)"
    if "\<not> parks d (asked s1)" using assms(2) [OF that] \<open>falls rs s1\<close> by (auto simp: falls_def fell_to_def)
  show ?thesis using assms(1) swapped kept
    by (auto simp: change_format_def Let_def split_beta s1_def [symmetric] split: option.split)
qed

lemma setFormat_falls:
  "falls rs s \<Longrightarrow> (\<And>n. \<not> parks d n \<Longrightarrow> previous \<in> rs \<or> previous = raster s) \<Longrightarrow> falls rs (snd (setFormat d previous f err s))"
  using change_format_falls [of rs "ask s" d previous f err] by (auto simp: setFormat_def split: option.split)

lemma applyConfiguration_falls: "falls rs s \<Longrightarrow> falls rs (snd (applyConfiguration d c s))"
  using setFormat_falls [of rs s d "raster s" "format c" "[]"]
  by (auto simp: applyConfiguration_stages stage_outputs_def stage_removed_def stage_format_def Let_def split_beta)

lemma steps_fall:
  assumes "falls rs s" "\<And>f g n. Set_format f g \<in> set requests \<Longrightarrow> \<not> parks d n \<Longrightarrow> f \<in> rs"
  shows "falls rs (foldl (control_step d) s requests)"
  using assms
proof (induction requests arbitrary: s)
  case (Cons q qs)
  have "falls rs (control_step d s q)"
    using Cons.prems by (cases q) (auto intro!: setFormat_falls applyConfiguration_falls)
  moreover have "falls rs (foldl (control_step d) (control_step d s q) qs)" if "falls rs (control_step d s q)"
    by (rule Cons.IH [OF that]) (use Cons.prems(2) in auto)
  ultimately show ?case by simp
qed simp

text \<open>
  Applying a configuration is a sequence of the other requests, each of which waits for its turn on its own; the
  requests of other clients can come in between.
\<close>

lemma apply_one_is_request: "\<exists>qs. snd (apply_one d p s) = foldl (control_step d) s qs"
proof (cases "findEntry (spec_name p) (entries s)")
  case None
  then show ?thesis by (intro exI [of _ "[Add_output p]"]) (simp add: apply_one_def)
next
  case (Some e)
  show ?thesis
  proof (cases "same_device (entry_spec e) p \<and> spec_background (entry_spec e) = spec_background p")
    case True
    with Some show ?thesis by (intro exI [of _ "[]"]) (simp add: apply_one_def)
  next
    case False
    with Some show ?thesis by (intro exI [of _ "[Update_output (spec_name p) p]"]) (auto simp: apply_one_def)
  qed
qed

lemma apply_outputs_is_requests: "\<exists>qs. snd (apply_outputs d specs first s) = foldl (control_step d) s qs"
proof (induction specs arbitrary: first s)
  case Nil
  show ?case by (intro exI [of _ "[]"]) simp
next
  case (Cons p ps)
  obtain r s1 where a: "apply_one d p s = (r, s1)" by fastforce
  obtain qs where qs: "s1 = foldl (control_step d) s qs" using apply_one_is_request [of d p s] a by auto
  obtain rs where "snd (apply_outputs d ps (noted first r) s1) = foldl (control_step d) s1 rs" using Cons.IH by blast
  with a qs show ?case by (intro exI [of _ "qs @ rs"]) simp
qed

lemma drop_unwanted_is_requests:
  "drop_unwanted d wanted names s = foldl (control_step d) s (map Remove_output (filter (\<lambda>n. n \<notin> set wanted) names))"
  by (induction names arbitrary: s) simp_all

lemma apply_is_requests: "\<exists>qs. snd (applyConfiguration d c s) = foldl (control_step d) s qs"
proof -
  have "\<exists>qs. snd (stage_format d c s) = foldl (control_step d) s qs"
    by (cases "same_format (format c) (raster s)")
      (force simp: stage_format_def intro: exI [of _ "[]"] exI [of _ "[Set_format (raster s) (format c)]"])+
  then obtain fs where fs: "snd (stage_format d c s) = foldl (control_step d) s fs" by blast
  define s2 where "s2 = apply_settings c (snd (stage_format d c s))"
  have s2: "s2 = foldl (control_step d) s (fs @ [Settings c])" by (simp add: s2_def fs)
  obtain ds where ds: "stage_removed d c s = foldl (control_step d) s2 ds"
    by (auto simp: stage_removed_def Let_def s2_def [symmetric] drop_unwanted_is_requests)
  obtain os where os: "snd (stage_outputs d c s) = foldl (control_step d) (stage_removed d c s) os"
    using apply_outputs_is_requests unfolding stage_outputs_def by blast
  define s4 where "s4 = snd (stage_outputs d c s)"
  have "foldl (control_step d) s ((fs @ [Settings c]) @ ds @ os) = foldl (control_step d) (foldl (control_step d) s2 ds) os"
    unfolding s2 by (simp only: foldl_append)
  then have s4: "s4 = foldl (control_step d) s ((fs @ [Settings c]) @ ds @ os)" by (simp only: s4_def os ds)
  have "s4\<lparr>the_url := u\<rparr> = foldl (control_step d) s (((fs @ [Settings c]) @ ds @ os) @ [Go_to u])" for u
    unfolding foldl_append [of _ _ _ "[Go_to u]"] s4 [symmetric] by simp
  note moved = this
  have "snd (applyConfiguration d c s) = s4 \<or> snd (applyConfiguration d c s) = s4\<lparr>the_url := url c\<rparr>"
    by (auto simp: applyConfiguration_stages s4_def split: prod.split)
  then show ?thesis
  proof
    assume "snd (applyConfiguration d c s) = s4"
    then show ?thesis unfolding s4 by (rule exI)
  next
    assume "snd (applyConfiguration d c s) = s4\<lparr>the_url := url c\<rparr>"
    then show ?thesis unfolding moved by (rule exI)
  qed
qed



text \<open>
  C6: an update that fails leaves every other output alone and the specs of all as they were; the entry
  is untouched, or carries the error and holds a new object of the old spec, which is fed again if it was
  and opens again.
\<close>

theorem failed_update_puts_back:
  assumes "engine_ok s" "findEntry nm (entries s) = Some e" "updateOutput d nm spec err s = ((False, why), s')"
  shows "map entry_spec (entries s') = map entry_spec (entries s) \<and>
    (\<forall>other. other \<noteq> nm \<longrightarrow> findEntry other (entries s') = findEntry other (entries s)) \<and>
    (\<exists>e'. findEntry nm (entries s') = Some e' \<and>
      (e' = e \<or> lastError e' = why \<and> (entry_enabled e' \<longrightarrow> entry_enabled e) \<and>
        (entry_enabled e \<longrightarrow> spec_kind (entry_spec e) \<in> set (compiledOutputKinds (compiled_in d)) \<longrightarrow>
          start_error d (asked s + 3) = None \<longrightarrow>
          entry_enabled e' \<and> (\<exists>obj. slot_object e' = Some obj \<and> its_spec obj = entry_spec e \<and> opened obj = Some (raster s)))))"
proof -
  note nm = conjunct2 [OF findEntry_SomeD [OF assms(2)]]
  from updateOutput_result [OF assms(2,3)] obtain e' where
    es: "entries s' = on_entry nm (\<lambda>_. e') (entries s)" and
    e': "e' = e \<or> (\<exists>obj restored. replace_object d (asked s + 2) (raster s) spec (entry_spec e) (entry_enabled e) = (obj, False, restored, why) \<and>
       e' = swapped_in obj e\<lparr>entry_enabled := restored, lastError := why\<rparr>)"
    by (auto split: if_splits)
  have spec: "entry_spec e' = entry_spec e" using e' by (auto simp: swapped_in_def)
  have "map entry_spec (on_entry nm (\<lambda>_. e') xs) = map entry_spec xs" if "findEntry nm xs = Some e" for xs
    using that spec by (induction xs) (auto split: if_splits)
  moreover have n': "entry_name e' = nm" using spec nm by (simp add: entry_name_def)
  moreover have "e' = e \<or> lastError e' = why \<and> (entry_enabled e' \<longrightarrow> entry_enabled e) \<and>
        (entry_enabled e \<longrightarrow> spec_kind (entry_spec e) \<in> set (compiledOutputKinds (compiled_in d)) \<longrightarrow>
          start_error d (asked s + 3) = None \<longrightarrow>
          entry_enabled e' \<and> (\<exists>obj. slot_object e' = Some obj \<and> its_spec obj = entry_spec e \<and> opened obj = Some (raster s)))"
    using e'
  proof
    assume "\<exists>obj restored. replace_object d (asked s + 2) (raster s) spec (entry_spec e) (entry_enabled e) = (obj, False, restored, why) \<and>
       e' = swapped_in obj e\<lparr>entry_enabled := restored, lastError := why\<rparr>"
    then obtain obj restored where r: "replace_object d (asked s + 2) (raster s) spec (entry_spec e) (entry_enabled e) = (obj, False, restored, why)"
      and x: "e' = swapped_in obj e\<lparr>entry_enabled := restored, lastError := why\<rparr>" by blast
    have "restored \<and> (\<exists>o'. obj = Some o' \<and> its_spec o' = entry_spec e \<and> opened o' = Some (raster s))"
      if "entry_enabled e" "spec_kind (entry_spec e) \<in> set (compiledOutputKinds (compiled_in d))" "start_error d (asked s + 3) = None"
    proof -
      have "createOutput d (asked s + 3) (entry_spec e) = Inr \<lparr>its_spec = entry_spec e, its_traits = built d (asked s + 3), opened = None\<rparr>"
        using that(2) by (simp add: createOutput_def)
      with r that show ?thesis
        by (auto simp: replace_object_def Let_def start_output_def isRunning_def numeral_3_eq_3 split: sum.splits prod.splits option.splits if_splits)
    qed
    then show ?thesis using replace_object_spec [OF r] x by (auto simp: swapped_in_def)
  qed simp
  ultimately show ?thesis
    using es assms(2) on_entry_find [OF assms(2), of "\<lambda>_. e'"] find_on_other [of _ nm "entries s" "\<lambda>_. e'"] by auto
qed

definition two_outputs :: engine where
  "two_outputs = engine_start good_drivers (example_source [preview_output, feed_output ''ndi'' ''air''])"

lemma two_outputs_ok: "engine_ok two_outputs"
  unfolding two_outputs_def by (rule engine_start_ok) (simp add: example_source_def example_valid)

theorem own_configuration_is_fixpoint_witness:
  "applyConfiguration (good_drivers\<lparr>gate := (\<lambda>_. False)\<rparr>) (configuration two_outputs) two_outputs = ((True, []), two_outputs)"
  by (rule own_configuration_is_fixpoint [OF two_outputs_ok])

theorem failed_update_puts_back_witness:
  "case updateOutput (good_drivers\<lparr>start_error := (\<lambda>n. if n = 4 then Some ''in use'' else None)\<rparr>) ''air''
      (outputSpecFromConfig (feed_output ''ndi'' ''studio'')) [] two_outputs of
    (r, s') \<Rightarrow> r = (False, ''in use'') \<and> (\<exists>e. findEntry ''air'' (entries s') = Some e \<and> entry_enabled e)"
proof -
  let ?d = "good_drivers\<lparr>start_error := (\<lambda>n. if n = 4 then Some ''in use'' else None)\<rparr>"
  let ?p = "outputSpecFromConfig (feed_output ''ndi'' ''studio'')"
  have "fst (updateOutput ?d ''air'' ?p [] two_outputs) = (False, ''in use'')" by code_simp
  then obtain s' where u: "updateOutput ?d ''air'' ?p [] two_outputs = ((False, ''in use''), s')" by (metis prod.collapse)
  have "case findEntry ''air'' (entries two_outputs) of None \<Rightarrow> False | Some e \<Rightarrow> entry_enabled e \<and> spec_kind (entry_spec e) = ''ndi''"
    by code_simp
  then obtain e where e: "findEntry ''air'' (entries two_outputs) = Some e" "entry_enabled e" "spec_kind (entry_spec e) = ''ndi''"
    by (auto split: option.splits)
  have "asked two_outputs = 2" by code_simp
  then have "\<exists>e'. findEntry ''air'' (entries s') = Some e' \<and> entry_enabled e'"
    using failed_update_puts_back [OF two_outputs_ok e(1) u] e(2,3)
    by (auto simp: compiledOutputKinds_def backendKinds_def good_drivers_def)
  with u show ?thesis by simp
qed

section \<open>Where the engine falls short\<close>

text \<open>
  \<open>applyConfiguration\<close> does not look at what \<open>removeOutput\<close> answers: with an output's gate held it
  reports success and the output the configuration does not name stays on air.
\<close>

lemma busy_removal_unnoticed:
  "case applyConfiguration (good_drivers\<lparr>gate := (\<lambda>_. False)\<rparr>) (example_source [preview_output]) two_outputs of
    (r, s') \<Rightarrow> fst r \<and> (\<exists>e. findEntry ''air'' (entries s') = Some e \<and> entry_enabled e)"
proof -
  have "case applyConfiguration (good_drivers\<lparr>gate := (\<lambda>_. False)\<rparr>) (example_source [preview_output]) two_outputs of
    (r, s') \<Rightarrow> fst r \<and> (case findEntry ''air'' (entries s') of None \<Rightarrow> False | Some e \<Rightarrow> entry_enabled e)" by code_simp
  then show ?thesis by (auto split: prod.splits option.splits)
qed

text \<open>
  \<open>setFormat\<close> reads the raster it falls back to before it waits for its turn. If the change in front
  moved the raster and the clock then does not park, the outputs are reopened at the raster before that one
  and fed the current one.
\<close>

lemma stale_fallback_raster:
  "let small = example_raster\<lparr>width := 1280, height := 720\<rparr>;
       d = good_drivers\<lparr>parks := (\<lambda>n. n < 10)\<rparr>;
       s = foldl (control_step d) two_outputs [Set_format example_raster small, Set_format example_raster (small\<lparr>interlaced := True\<rparr>)]
   in raster s = small \<and> (\<exists>e obj. findEntry ''air'' (entries s) = Some e \<and> entry_enabled e \<and>
      slot_object e = Some obj \<and> opened obj = Some example_raster)"
proof -
  let ?small = "example_raster\<lparr>width := 1280, height := 720\<rparr>"
  let ?s = "foldl (control_step (good_drivers\<lparr>parks := (\<lambda>n. n < 10)\<rparr>)) two_outputs
    [Set_format example_raster ?small, Set_format example_raster (?small\<lparr>interlaced := True\<rparr>)]"
  have "raster ?s = ?small \<and> (case findEntry ''air'' (entries ?s) of None \<Rightarrow> False | Some e \<Rightarrow> entry_enabled e \<and>
      (case slot_object e of None \<Rightarrow> False | Some obj \<Rightarrow> opened obj = Some example_raster))" by code_simp
  then show ?thesis unfolding Let_def by (auto split: option.splits)
qed

text \<open>
  A display whose gate was held during a format change stays open at the old raster and is not fed; enabling
  it afterwards succeeds without reopening it, and it is fed frames of a raster it drops.
\<close>

lemma display_enabled_at_old_raster:
  "let s = engine_start good_drivers (example_source [preview_output, feed_output ''screen'' ''wall'']);
       small = example_raster\<lparr>width := 1280, height := 720\<rparr>;
       s1 = snd (setFormat (good_drivers\<lparr>gate := (\<lambda>n. n \<noteq> 5)\<rparr>) (raster s) small [] s);
       (r, s2) = setOutputEnabled good_drivers ''wall'' True [] s1
   in fst r \<and> raster s2 = small \<and> (\<exists>e obj. findEntry ''wall'' (entries s2) = Some e \<and> entry_enabled e \<and>
      slot_object e = Some obj \<and> opened obj = Some example_raster)"
proof -
  let ?s = "engine_start good_drivers (example_source [preview_output, feed_output ''screen'' ''wall''])"
  let ?small = "example_raster\<lparr>width := 1280, height := 720\<rparr>"
  let ?s1 = "snd (setFormat (good_drivers\<lparr>gate := (\<lambda>n. n \<noteq> 5)\<rparr>) (raster ?s) ?small [] ?s)"
  have "case setOutputEnabled good_drivers ''wall'' True [] ?s1 of (r, s2) \<Rightarrow> fst r \<and> raster s2 = ?small \<and>
      (case findEntry ''wall'' (entries s2) of None \<Rightarrow> False | Some e \<Rightarrow> entry_enabled e \<and>
        (case slot_object e of None \<Rightarrow> False | Some obj \<Rightarrow> opened obj = Some example_raster))" by code_simp
  then show ?thesis by (auto simp: Let_def split: prod.splits option.splits)
qed

end
