(* ===== verification/Engine_Tick.thy ===== *)
theory Engine_Tick
  imports Engine_Apply
begin

text \<open>
  The clock's tick on the lists the control operations publish: \<open>Tick_Plan\<close> and \<open>Engine_Outputs\<close> together,
  and the calls into the slots that end it, which other threads may have changed since.
\<close>

section \<open>Handing frames over\<close>

definition planned_of :: "engine_entry \<Rightarrow> planned" where
  "planned_of e = \<lparr>enabled = entry_enabled e, desc = entry_desc e, backdrop = spec_background (entry_spec e)\<rparr>"

text \<open>
  A slot when the clock's call on it is due: whether the gate is had by the deadline, the slot then, and what its
  object answers to \<open>isRunning\<close>.
\<close>

record slot_now =
  had_gate :: bool
  the_slot :: output_slot
  runs :: "nat \<Rightarrow> bool"

text \<open>\<open>OutputSlot::call\<close>: the object the function runs on, if it runs.\<close>

definition slot_call :: "slot_now \<Rightarrow> nat \<Rightarrow> nat option" where
  "slot_call a g = (if \<not> had_gate a then None
     else case run_job (the_slot a) (Call g) of Calling j obj \<Rightarrow> Some obj | _ \<Rightarrow> None)"

datatype ('p, 'a) handed = Submitted nat "'p picture" "'a option" | Not_running | Skipped

definition hand_over :: "'a \<Rightarrow> slot_now \<Rightarrow> target \<Rightarrow> 'p picture \<Rightarrow> ('p, 'a) handed" where
  "hand_over audio a t frame = (case slot_call a (generation_of (target_desc t)) of
      None \<Rightarrow> Skipped
    | Some obj \<Rightarrow> if runs a obj then Submitted obj frame (if wantsAudio (target_desc t) then Some audio else None) else Not_running)"

text \<open>
  One tick: the plan, the call of each target, and \<open>outputSkips_\<close>. \<open>now_at\<close> gives the slot at each call.
\<close>

definition clock_tick ::
  "'p converter \<Rightarrow> video_format \<Rightarrow> planned list \<Rightarrow> 'p picture \<Rightarrow> int \<Rightarrow> 'a \<Rightarrow> (nat \<Rightarrow> slot_now) \<Rightarrow> nat \<Rightarrow> 'p tick_state \<Rightarrow>
   (target \<times> ('p, 'a) handed) list \<times> nat \<times> 'p tick_state" where
  "clock_tick cv r listed frame tick audio now_at outputSkips s =
     (let (ds, s') = run_tick cv r listed frame tick s;
          hs = map2 (\<lambda>i (t, f). (t, hand_over audio (now_at i) t f)) [0..<length ds] ds
      in (hs, outputSkips + length (filter (\<lambda>(t, h). h = Skipped) hs), s'))"

lemma plan_targets_of:
  "t \<in> set (plan_targets (map planned_of es)) \<Longrightarrow> \<exists>e \<in> set es. entry_enabled e \<and> target_desc t = entry_desc e"
  by (auto simp: plan_targets_def planned_of_def)

lemma described_format: "pixelFormat (described g (Some obj)) = out_format (its_traits obj)"
  by (simp add: described_def describe_def)

lemma handed_submitted:
  assumes "hand_over audio a t frame = Submitted obj f block"
  shows "f = frame \<and> block = (if wantsAudio (target_desc t) then Some audio else None) \<and> had_gate a \<and> runs a obj \<and>
    run_job (the_slot a) (Call (generation_of (target_desc t))) = Calling (Call (generation_of (target_desc t))) obj"
proof -
  have c: "slot_call a (generation_of (target_desc t)) = Some obj" and
    f: "f = frame" "block = (if wantsAudio (target_desc t) then Some audio else None)" "runs a obj"
    using assms by (auto simp: hand_over_def split: option.splits if_splits)
  then have "had_gate a" by (simp add: slot_call_def split: if_splits)
  with c obtain j where "run_job (the_slot a) (Call (generation_of (target_desc t))) = Calling j obj"
    by (auto simp: slot_call_def split: at_gate.splits)
  with run_job_calling [OF this] f \<open>had_gate a\<close> show ?thesis by simp
qed

lemma clock_tick_nth:
  assumes "clock_tick cv r listed frame tick audio now_at skips s = (hs, skips', s')" "i < length hs" "hs ! i = (t, h)"
  shows "\<exists>ds f. run_tick cv r listed frame tick s = (ds, s') \<and> (t, f) \<in> set ds \<and> h = hand_over audio (now_at i) t f"
proof -
  obtain ds s1 where r: "run_tick cv r listed frame tick s = (ds, s1)" by fastforce
  then have hs: "hs = map2 (\<lambda>i (t, f). (t, hand_over audio (now_at i) t f)) [0..<length ds] ds" "s1 = s'"
    using assms(1) by (simp_all add: clock_tick_def)
  then have "i < length ds" using assms(2) by simp
  moreover obtain t' f where "ds ! i = (t', f)" by fastforce
  ultimately have "(t', f) \<in> set ds" "t' = t" "h = hand_over audio (now_at i) t' f"
    using assms(3) hs(1) by (auto simp: in_set_conv_nth)
  with r hs(2) show ?thesis by blast
qed

text \<open>What a call with the gate and the planned generation runs on has the traits the plan was made for.\<close>

lemma called_traits:
  assumes "(slot_step of_object)\<^sup>*\<^sup>* (mk_slot of_object first) S" "(slot_step of_object)\<^sup>*\<^sup>* S S'"
    and "callers S' c = Locked (Call g)" "g = generation_of (slot_description S)" "run_job S' (Call g) = Calling (Call g) obj"
  shows "pixelFormat (slot_description S) = out_format (of_object obj) \<and> wantsAudio (slot_description S) = out_audio (of_object obj)"
proof -
  let ?T = "goes c (run_job S' (Call g)) S'\<lparr>busySince := nowNanos 0\<rparr>"
  have "slot_step of_object S' ?T" by (rule slot_step.run [OF assms(3)])
  with assms(2) have "(slot_step of_object)\<^sup>*\<^sup>* S ?T" by simp
  moreover have "callers ?T c = Calling (Call (generation_of (slot_description S))) obj" using assms(4,5) by simp
  ultimately show ?thesis using planned_call_matches [OF assms(1)] by blast
qed


text \<open>The two calls of a tick: the preview's gate is held, and \<open>air\<close> is there to be fed.\<close>

definition uyvy_traits :: "nat \<Rightarrow> traits" where
  "uyvy_traits obj = \<lparr>out_format = UYVY, out_straight = False, out_audio = True\<rparr>"

definition due_slot :: output_slot where
  "due_slot = goes 3 (Locked (Call 1)) (mk_slot uyvy_traits (Some 7))\<lparr>holder := Some 3\<rparr>"

definition due :: "nat \<Rightarrow> slot_now" where
  "due i = \<lparr>had_gate = (i = 1), the_slot = due_slot, runs = (\<lambda>obj. True)\<rparr>"


end
