(* ===== verification/Source_Manager.thy ===== *)
theory Source_Manager
  imports Engine_Apply
begin

text \<open>
  \<open>engine/source_manager.cpp\<close>: the sources of one process. The table's own interleavings are
  \<open>Source_Table\<close>'s; here each call is one step, and what the table answers to a removal (after waiting for
  the requests inside) and to an access is a parameter, as are browsers that do not open.
\<close>

section \<open>State\<close>

text \<open>Pointer and keyboard events as the control page sends them (\<open>engine/input_event.h\<close>).\<close>

datatype event_type = Move_event | Button_event | Wheel_event | Key_event | Focus_event

datatype mouse_button = Left_button | Middle_button | Right_button

datatype key_action = Raw_key_down | Key_down | Key_up | Key_char

record input_event =
  event_type :: event_type
  nx :: double
  ny :: double
  button :: mouse_button
  down :: bool
  clickCount :: int
  leaving :: bool
  deltaX :: int
  deltaY :: int
  keyAction :: key_action
  keyCode :: int
  character :: int
  focused :: bool
  modifiers :: int

text \<open>What a source's page is asked to do, in order.\<close>

datatype page_call =
    Load_url string | Reload_page bool | Run_script string | Mute_audio bool | Input_at input_event int int

record source =
  the_engine :: engine
  page_calls :: "page_call list"

type_synonym manager = "(string \<times> source) list"   \<comment> \<open>in the order of the table\<close>

datatype removal_answer = Removed | Removal_busy | Already_removing

record surroundings =
  drivers_for :: "string \<Rightarrow> drivers"
  browser_error :: "string \<Rightarrow> string option"
  removal_of :: "string \<Rightarrow> removal_answer"
  is_closing :: "string \<Rightarrow> bool"

definition has_source :: "string \<Rightarrow> manager \<Rightarrow> bool" where
  "has_source sid m \<longleftrightarrow> sid \<in> fst ` set m"

definition primaryId :: "manager \<Rightarrow> string" where
  "primaryId m = (case m of [] \<Rightarrow> [] | (sid, _) # _ \<Rightarrow> sid)"

section \<open>Operations\<close>

text \<open>\<open>withSource\<close>: the call is made, the source is being removed, or there is none.\<close>

datatype access = Access_done | Access_closing | Access_missing

primrec on_source :: "string \<Rightarrow> (source \<Rightarrow> source) \<Rightarrow> manager \<Rightarrow> manager" where
  "on_source sid f [] = []"
| "on_source sid f (x # xs) = (if fst x = sid then (fst x, f (snd x)) # xs else x # on_source sid f xs)"

definition withSource :: "surroundings \<Rightarrow> string \<Rightarrow> (source \<Rightarrow> source) \<Rightarrow> manager \<Rightarrow> access \<times> manager" where
  "withSource env sid f m =
     (if \<not> has_source sid m then (Access_missing, m)
      else if is_closing env sid then (Access_closing, m)
      else (Access_done, on_source sid f m))"

text \<open>An error, or none.\<close>

definition add_source :: "surroundings \<Rightarrow> source_config \<Rightarrow> manager \<Rightarrow> string option \<times> manager" where
  "add_source env config m =
     (let prepared = ensurePreview config; sid = source_id prepared
      in case validate prepared of
        Some e \<Rightarrow> (Some e, m)
      | None \<Rightarrow>
        if has_source sid m then (Some (''a source called '' @ quoted sid @ '' already exists''), m)
        else (case browser_error env sid of
            Some e \<Rightarrow> (Some e, m)
          | None \<Rightarrow> (None, m @ [(sid, \<lparr>the_engine = engine_start (drivers_for env sid) prepared, page_calls = [Load_url (url prepared)]\<rparr>)])))"

definition remove_source :: "surroundings \<Rightarrow> string \<Rightarrow> manager \<Rightarrow> string option \<times> manager" where
  "remove_source env sid m =
     (if \<not> has_source sid m then (Some (''no source called '' @ quoted sid), m)
      else case removal_of env sid of
        Removal_busy \<Rightarrow> (Some (''source '' @ quoted sid @ '' was not removed: a request inside it has not finished (an output'' @ [CHR 0x27] @
          ''s driver may not be answering '' @ em_dash @ '' see '' @ double_quoted ''stale'' @ '' in /api/state)''), m)
      | Already_removing \<Rightarrow> (Some (''source '' @ quoted sid @ '' is already being removed''), m)
      | Removed \<Rightarrow> (None, filter (\<lambda>x. fst x \<noteq> sid) m))"

text \<open>The first error noted.\<close>

definition first_of :: "string \<Rightarrow> string option \<Rightarrow> string" where
  "first_of first e = (if first = [] then (case e of None \<Rightarrow> [] | Some m \<Rightarrow> m) else first)"

primrec remove_unwanted :: "surroundings \<Rightarrow> string list \<Rightarrow> string list \<Rightarrow> string \<Rightarrow> manager \<Rightarrow> string \<times> manager" where
  "remove_unwanted env wanted [] first m = (first, m)"
| "remove_unwanted env wanted (sid # ids) first m =
     (if sid \<in> set wanted then remove_unwanted env wanted ids first m
      else case remove_source env sid m of (e, m1) \<Rightarrow> remove_unwanted env wanted ids (first_of first e) m1)"

text \<open>One source of a configuration: reconciled in place, or started.\<close>

definition reconcile :: "surroundings \<Rightarrow> source_config \<Rightarrow> manager \<Rightarrow> string option \<times> manager" where
  "reconcile env c m =
     (let sid = source_id c
      in case map_of m sid of
        None \<Rightarrow> add_source env c m
      | Some s \<Rightarrow>
        if is_closing env sid then (Some (''source '' @ quoted sid @ '' is being removed''), m)
        else (case applyConfiguration (drivers_for env sid) c (the_engine s) of
            (r, e) \<Rightarrow> (if fst r then None else Some (snd r),
              on_source sid (\<lambda>x. x\<lparr>the_engine := e,
                page_calls := page_calls x @ (if url c \<noteq> the_url (the_engine x) then [Load_url (url c)] else [])\<rparr>) m)))"

primrec reconcile_all :: "surroundings \<Rightarrow> source_config list \<Rightarrow> string \<Rightarrow> manager \<Rightarrow> string \<times> manager" where
  "reconcile_all env [] first m = (first, m)"
| "reconcile_all env (c # cs) first m =
     (case reconcile env c m of (e, m1) \<Rightarrow> reconcile_all env cs (first_of first e) m1)"

definition apply_sources :: "surroundings \<Rightarrow> source_config list \<Rightarrow> manager \<Rightarrow> string option \<times> manager" where
  "apply_sources env cs m =
     (case remove_unwanted env (map source_id cs) (map fst m) [] m of
        (first, m1) \<Rightarrow> (case reconcile_all env cs first m1 of
          (first', m2) \<Rightarrow> (if first' = [] then None else Some first', m2)))"

text \<open>\<open>start\<close>: sources that do not come up are reported; only none at all is a failure.\<close>

primrec start_sources :: "surroundings \<Rightarrow> source_config list \<Rightarrow> string \<Rightarrow> nat \<Rightarrow> manager \<Rightarrow> (string \<times> nat) \<times> manager" where
  "start_sources env [] first n m = ((first, n), m)"
| "start_sources env (c # cs) first n m =
     (case add_source env c m of
        (None, m1) \<Rightarrow> start_sources env cs first (n + 1) m1
      | (Some e, m1) \<Rightarrow> start_sources env cs (first_of first (Some e)) n m1)"

definition manager_start :: "surroundings \<Rightarrow> source_config list \<Rightarrow> reply \<times> manager" where
  "manager_start env cs = (case start_sources env cs [] 0 [] of
     ((first, n), m) \<Rightarrow>
       ((if n = 0 then (False, if first = [] then ''no sources configured'' else first) else (True, first)), m))"

definition manager_configuration :: "surroundings \<Rightarrow> manager \<Rightarrow> app_config" where
  "manager_configuration env m =
     default_app\<lparr>sources := map (configuration \<circ> the_engine \<circ> snd) (filter (\<lambda>x. \<not> is_closing env (fst x)) m)\<rparr>"

text \<open>
  \<open>Engine::sendInput\<close>: the position scaled to the raster. A conversion of a NaN to \<open>int\<close> is undefined; no
  number in a request is one.
\<close>

definition clamp01 :: "double \<Rightarrow> double" where
  "clamp01 x = (if lt x (Fin 0) then Fin 0 else if lt (Fin 1) x then Fin 1 else x)"

definition scaled :: "double \<Rightarrow> int \<Rightarrow> int" where
  "scaled n extent = (case clamp01 n of
      Fin r \<Rightarrow> (case fl64 (r * of_int extent) of Fin v \<Rightarrow> clamp \<lfloor>v\<rfloor> 0 (extent - 1) | _ \<Rightarrow> 0)
    | _ \<Rightarrow> 0)"

definition sendInput :: "input_event \<Rightarrow> source \<Rightarrow> source" where
  "sendInput e s =
     (let f = raster (the_engine s)
      in s\<lparr>page_calls := page_calls s @ [Input_at e (scaled (nx e) (width f)) (scaled (ny e) (height f))]\<rparr>)"

definition setUrl :: "string \<Rightarrow> source \<Rightarrow> source" where
  "setUrl u s = s\<lparr>the_engine := (the_engine s)\<lparr>the_url := u\<rparr>, page_calls := page_calls s @ [Load_url u]\<rparr>"

definition page_call :: "page_call \<Rightarrow> source \<Rightarrow> source" where
  "page_call c s = s\<lparr>page_calls := page_calls s @ [c]\<rparr>"

definition setPacing :: "bool \<Rightarrow> source \<Rightarrow> source" where
  "setPacing ext s = s\<lparr>the_engine := (the_engine s)\<lparr>external_pacing := ext\<rparr>\<rparr>"

text \<open>An operation of the engine on the source that has it.\<close>

definition on_engine :: "(engine \<Rightarrow> reply \<times> engine) \<Rightarrow> source \<Rightarrow> reply \<times> source" where
  "on_engine f s = (case f (the_engine s) of (r, e) \<Rightarrow> (r, s\<lparr>the_engine := e\<rparr>))"

section \<open>Invariant\<close>

text \<open>No id twice, and every engine with consistent outputs.\<close>

definition manager_ok :: "manager \<Rightarrow> bool" where
  "manager_ok m \<longleftrightarrow> distinct (map fst m) \<and> list_all (\<lambda>x. engine_ok (the_engine (snd x))) m"

lemma on_source_ids [simp]: "map fst (on_source sid f m) = map fst m"
  by (induction m) auto

lemma on_source_map_of: "map_of (on_source sid f m) k = (if k = sid then map_option f (map_of m sid) else map_of m k)"
  by (induction m) auto

lemma on_source_ok:
  "manager_ok m \<Longrightarrow> (\<And>s. (sid, s) \<in> set m \<Longrightarrow> engine_ok (the_engine s) \<Longrightarrow> engine_ok (the_engine (f s))) \<Longrightarrow> manager_ok (on_source sid f m)"
proof -
  assume a: "manager_ok m" and f: "\<And>s. (sid, s) \<in> set m \<Longrightarrow> engine_ok (the_engine s) \<Longrightarrow> engine_ok (the_engine (f s))"
  have "list_all (\<lambda>x. engine_ok (the_engine (snd x))) (on_source sid f xs)"
    if "set xs \<subseteq> set m" "list_all (\<lambda>x. engine_ok (the_engine (snd x))) xs" for xs
    using that f by (induction xs) (auto split: prod.splits)
  with a show ?thesis by (simp add: manager_ok_def)
qed

text \<open>Where each of a configuration's sources has at most one preview; names are checked by \<open>validate\<close>.\<close>

definition one_preview :: "source_config \<Rightarrow> bool" where
  "one_preview c \<longleftrightarrow> length (filter (\<lambda>o'. outputKindIsPermanent (out_kind o')) (outputs c)) \<le> 1"

lemma validate_names: "validate c = None \<Longrightarrow> distinct (map out_name (outputs c))"
  using validate_None by blast

end
