(* ===== verification/Settings_Store.thy ===== *)
theory Settings_Store
  imports Source_Config
begin

text \<open>
  \<open>core/settings_store.cpp\<close>: where the settings file is, reading it, and replacing it. The file system
  is a map from paths to contents; what its calls answer is a parameter, and every state it goes through
  is kept, so that a crash is an end of that list.
\<close>

section \<open>Paths\<close>

datatype platform = Windows | Mac_os | Unix

definition separator :: "platform \<Rightarrow> char" where
  "separator p = (if p = Windows then CHR 0x5C else CHR ''/'')"

text \<open>\<open>operator/\<close> with a relative right-hand side.\<close>

definition join :: "platform \<Rightarrow> string \<Rightarrow> string \<Rightarrow> string" where
  "join p a b = (if a = [] \<or> last a = CHR ''/'' \<or> last a = separator p then a @ b else a @ separator p # b)"

record environment =
  platform_of :: platform
  getenv :: "string \<Rightarrow> string option"
  temp_directory :: string

definition homeRelative :: "environment \<Rightarrow> string \<Rightarrow> string option \<Rightarrow> string" where
  "homeRelative env first second =
     (let p = platform_of env;
          home = (case getenv env ''HOME'' of Some h \<Rightarrow> h | None \<Rightarrow> temp_directory env);
          root = join p home first
      in case second of None \<Rightarrow> root | Some s \<Rightarrow> join p root s)"

definition directory :: "environment \<Rightarrow> string" where
  "directory env =
     (let p = platform_of env
      in case p of
        Windows \<Rightarrow> join p (case getenv env ''APPDATA'' of Some b \<Rightarrow> b | None \<Rightarrow> temp_directory env) ''WebLinked''
      | Mac_os \<Rightarrow> join p (homeRelative env ''Library'' (Some ''Application Support'')) ''WebLinked''
      | Unix \<Rightarrow> (case getenv env ''XDG_CONFIG_HOME'' of
            Some xdg \<Rightarrow> join p xdg ''WebLinked''
          | None \<Rightarrow> join p (homeRelative env ''.config'' None) ''WebLinked''))"

definition profileDirectory :: "environment \<Rightarrow> int \<Rightarrow> string" where
  "profileDirectory env controlPort =
     (let p = platform_of env in join p (join p (directory env) ''profiles'') (dec_int controlPort))"

definition defaultPath :: "environment \<Rightarrow> string" where
  "defaultPath env = (case getenv env ''WEBLINKED_SETTINGS'' of
      Some path \<Rightarrow> if path \<noteq> [] then path else join (platform_of env) (directory env) ''settings.json''
    | None \<Rightarrow> join (platform_of env) (directory env) ''settings.json'')"

section \<open>Files\<close>

type_synonym files = "string \<Rightarrow> string option"

definition load_settings :: "files \<Rightarrow> string \<Rightarrow> string + app_config" where
  "load_settings fs path = (case fs path of
      None \<Rightarrow> Inl (''cannot open '' @ path)
    | Some text \<Rightarrow> app_parse text)"

text \<open>
  What the system answers to one save: why the directory cannot be made, whether the temporary opens,
  whether the stream is still good after the writes it had to pass on, how many bytes reached the disk
  until then and when the stream was closed, and how the renames end.
\<close>

record disk =
  directory_error :: "string option"
  opens :: bool
  stream_good :: bool
  flushed :: nat
  closed_at :: nat
  rename_error :: "string option"
  remove_works :: bool
  second_error :: "string option"

definition temporary :: "string \<Rightarrow> string" where
  "temporary path = path @ ''.tmp''"

text \<open>\<open>rename\<close> moves a file over another one.\<close>

definition rename_file :: "string \<Rightarrow> string \<Rightarrow> files \<Rightarrow> files" where
  "rename_file a b fs = fs(b := fs a, a := None)"

text \<open>
  \<open>save\<close>: the error, if any, and the states of the file system in order. \<open>parent\<close> is the directory of
  \<open>path\<close>, empty when it has none.
\<close>

definition save_text :: "disk \<Rightarrow> string \<Rightarrow> string \<Rightarrow> string \<Rightarrow> files \<Rightarrow> string option \<times> files list" where
  "save_text k parent path text fs =
     (if parent \<noteq> [] \<and> directory_error k \<noteq> None
      then (Some (''cannot create '' @ parent @ '': '' @ the (directory_error k)), [fs])
      else if \<not> opens k then (Some (''cannot write '' @ temporary path), [fs])
      else
        let t = temporary path;
            opened = fs(t := Some []);
            part = fs(t := Some (take (flushed k) text));
            whole = fs(t := Some (take (closed_at k) text))
        in if \<not> stream_good k then (Some (''failed while writing '' @ t), [fs, opened, part])
           else case rename_error k of
             None \<Rightarrow> (None, [fs, opened, part, whole, rename_file t path whole])
           | Some _ \<Rightarrow>
             let removed = (if remove_works k then whole(path := None) else whole)
             in case second_error k of
               None \<Rightarrow> (None, [fs, opened, part, whole, removed, rename_file t path removed])
             | Some why \<Rightarrow> (Some (''cannot replace '' @ path @ '': '' @ why), [fs, opened, part, whole, removed, removed(t := None)]))"

definition settings_text :: "app_config \<Rightarrow> string" where
  "settings_text c = serialize True (app_toJson c) @ [CHR 0x0A]"

definition save_settings :: "disk \<Rightarrow> string \<Rightarrow> app_config \<Rightarrow> string \<Rightarrow> files \<Rightarrow> string option \<times> files list" where
  "save_settings k parent c path fs = save_text k parent path (settings_text c) fs"

section \<open>Saving and loading\<close>

lemma temporary_other [simp]: "temporary path \<noteq> path" "path \<noteq> temporary path"
  by (simp_all add: temporary_def)

lemma save_states:
  assumes "save_settings k parent c path fs = (err, states)"
  shows "\<forall>s \<in> set states. s path = fs path \<or> s path = Some (take (closed_at k) (settings_text c)) \<or>
      (s path = None \<and> rename_error k \<noteq> None \<and> remove_works k)"
    and "err = None \<Longrightarrow> last states path = Some (take (closed_at k) (settings_text c))"
    and "err \<noteq> None \<Longrightarrow> last states path = fs path \<or>
      (last states path = None \<and> rename_error k \<noteq> None \<and> remove_works k \<and> second_error k \<noteq> None)"
    and "\<forall>s \<in> set states. \<forall>p. p \<noteq> path \<longrightarrow> p \<noteq> temporary path \<longrightarrow> s p = fs p"
  using assms by (auto simp: save_settings_def save_text_def rename_file_def Let_def split: if_splits option.splits)

lemma settings_text_parses:
  assumes "good_app c" "options_fit c"
  shows "app_parse (settings_text c) = Inr (app_as_read c)"
proof -
  let ?v = "app_toJson c"
  note fits = app_fits [OF assms]
  obtain h t where c: "serialize_into True 0 ?v = h # t" "\<not> json_space h" using serialize_first fits by blast
  have "parse_value kMaxDepth (serialize_into True 0 ?v @ [CHR 0x0A]) = Inr (?v, [CHR 0x0A])"
    using parse_written [of ?v kMaxDepth "[]" "[CHR 0x0A]" True 0] fits by (simp add: ends_def)
  then have "json_parse (settings_text c) = Inr ?v"
    using c skip_ws_blank [of "[]" h "t @ [CHR 0x0A]"]
    by (simp add: json_parse_def settings_text_def serialize_def skip_ws_def json_space_def code_def)
  then show ?thesis using app_roundtrip [OF assms(1)] by (simp add: app_parse_def)
qed

section \<open>Properties\<close>


definition good_disk :: "nat \<Rightarrow> disk" where
  "good_disk n = \<lparr>directory_error = None, opens = True, stream_good = True, flushed = 0, closed_at = n,
     rename_error = None, remove_works = True, second_error = None\<rparr>"


text \<open>
  A full disk is noticed by the stream when it is closed at the latest, and the code looks before: a text
  small enough to be still in the stream's buffer replaces good settings with what reached the disk.
\<close>

lemma unflushed_settings_lost:
  assumes "fs path = Some text" "opens k" "stream_good k" "closed_at k = 0" "rename_error k = None" "parent = []"
  shows "case save_settings k parent c path fs of (err, states) \<Rightarrow> err = None \<and> last states path = Some []"
  using assms by (simp add: save_settings_def save_text_def rename_file_def Let_def)

text \<open>
  Where a rename does not replace, the target is removed first; if the second rename fails as well, the
  temporary goes too and both the old and the new settings are gone.
\<close>

lemma failed_renames_lose_both:
  assumes "opens k" "stream_good k" "rename_error k = Some e" "remove_works k" "second_error k = Some e'" "parent = []"
  shows "case save_settings k parent c path fs of (err, states) \<Rightarrow>
    err \<noteq> None \<and> last states path = None \<and> last states (temporary path) = None"
  using assms by (simp add: save_settings_def save_text_def Let_def)

end
