(* ===== verification/Control_Api.thy ===== *)
theory Control_Api
  imports Source_Manager Settings_Store Show_File Http Osc Mdns
begin

text \<open>
  \<open>control/control_api.cpp\<close>: what every endpoint and every OSC address does to the sources, and what it
  answers. Pages, log files, the report of an engine, the preview's picture and the state of service
  discovery are parameters; a request finds the sources alone, as each call into them is one step of
  \<open>Source_Table\<close>.
\<close>

section \<open>State\<close>

record snapshot =
  shot_width :: int
  shot_height :: int
  shot_sequence :: int
  shot_pixels :: string

datatype preview_answer = No_preview | Preview_busy | Shown snapshot

text \<open>What surrounds one request.\<close>

record world =
  sources_around :: surroundings
  control_page :: string
  about_script :: string
  about_data :: string
  state_json :: "source \<Rightarrow> json"
  manager_json :: "manager \<Rightarrow> json"
  preview_of :: "source \<Rightarrow> preview_answer"
  log_path :: string
  log_directory :: string
  bundle_path :: string
  bundle_name :: string
  bundle_text :: "string option"
  log_lines :: "nat \<Rightarrow> string list"
  mdns_running :: bool
  registered_name :: string
  report_path :: "string \<Rightarrow> string"
  disk_answers :: disk
  settings_parent :: string

text \<open>The control API's own configuration is the process-wide part of an application configuration.\<close>

record api =
  sources_now :: manager
  settings_files :: files
  settingsPath :: string
  api_config :: app_config
  oscPrefix :: string
  log_level :: string

section \<open>Answers\<close>

definition respond_json :: "string \<Rightarrow> response \<Rightarrow> response" where
  "respond_json text r = r\<lparr>contentType := ''application/json'', resp_body := text\<rparr>"

definition ok_response :: "response \<Rightarrow> response" where
  "ok_response r = respond_json (''{'' @ double_quoted ''ok'' @ '':true}'') r"

definition json_text :: "json \<Rightarrow> string" where
  "json_text v = serialize False v"

text \<open>A body that is empty is an empty object.\<close>

definition parseBody :: "request \<Rightarrow> string + json" where
  "parseBody q = (if body q = [] then Inr (Object [])
     else case json_parse (body q) of Inr v \<Rightarrow> Inr v | Inl e \<Rightarrow> Inl (''malformed JSON body: '' @ e))"

text \<open>\<open>withRequestSource\<close>: the answer of a call into the source the request names, or why there was none.\<close>

definition requested_source :: "request \<Rightarrow> manager \<Rightarrow> string" where
  "requested_source q m = (let requested = param q ''source'' [] in if requested = [] then primaryId m else requested)"

definition withRequestSource ::
  "surroundings \<Rightarrow> request \<Rightarrow> response \<Rightarrow> manager \<Rightarrow> (source \<Rightarrow> 'a \<times> source) \<Rightarrow> (response + 'a) \<times> manager" where
  "withRequestSource env q r m f =
     (let sid = requested_source q m
      in if sid = [] then (Inl (error 503 ''no sources are running'' r), m)
         else case map_of m sid of
           None \<Rightarrow> (Inl (error 404 (''no source called '' @ quoted sid) r), m)
         | Some s \<Rightarrow>
           if is_closing env sid then (Inl (error 503 (''source '' @ quoted sid @ '' is being removed'') r), m)
           else (Inr (fst (f s)), on_source sid (\<lambda>x. snd (f x)) m))"

text \<open>\<open>readSourceConfig\<close>.\<close>

definition readSourceConfig :: "json \<Rightarrow> string \<Rightarrow> string + source_config" where
  "readSourceConfig v defaultId = (case source_fromJson v of
      Inl e \<Rightarrow> Inl e
    | Inr c \<Rightarrow>
        let c' = (if source_id c = [] then c\<lparr>source_id := defaultId\<rparr> else c)
        in case validate c' of Some e \<Rightarrow> Inl e | None \<Rightarrow> Inr c')"

section \<open>Input events\<close>

definition plain_event :: input_event where
  "plain_event = \<lparr>event_type = Move_event, nx = Fin 0, ny = Fin 0, button = Left_button, down = False, clickCount = 1,
     leaving = False, deltaX = 0, deltaY = 0, keyAction = Raw_key_down, keyCode = 0, character = 0, focused = False, modifiers = 0\<rparr>"

definition parseInputEvent :: "json \<Rightarrow> string + input_event" where
  "parseInputEvent v =
     (let type = asString [] (get_key v ''type'');
          e = plain_event\<lparr>nx := asDouble (Fin 0) (get_key v ''nx''), ny := asDouble (Fin 0) (get_key v ''ny''),
                modifiers := u32 (asInt64 0 (get_key v ''modifiers''))\<rparr>
      in if type = ''move'' then Inr (e\<lparr>event_type := Move_event, leaving := asBool False (get_key v ''leaving'')\<rparr>)
         else if type = ''down'' \<or> type = ''up'' then
           let b = asInt 0 (get_key v ''button'')
           in Inr (e\<lparr>event_type := Button_event, down := (type = ''down''),
                button := (if b = 1 then Middle_button else if b = 2 then Right_button else Left_button),
                clickCount := clamp (asInt 1 (get_key v ''clicks'')) 1 3\<rparr>)
         else if type = ''wheel'' then
           Inr (e\<lparr>event_type := Wheel_event, deltaX := asInt 0 (get_key v ''dx''), deltaY := asInt 0 (get_key v ''dy'')\<rparr>)
         else if type = ''key'' then
           let action = asString ''down'' (get_key v ''action'')
           in Inr (e\<lparr>event_type := Key_event,
                keyAction := (if action = ''up'' then Key_up else if action = ''char'' then Key_char else Raw_key_down),
                keyCode := asInt 0 (get_key v ''key_code''), character := asInt 0 (get_key v ''character'')\<rparr>)
         else if type = ''focus'' then
           Inr (e\<lparr>event_type := Focus_event, focused := asBool True (get_key v ''focused'')\<rparr>)
         else Inl (''unknown input event type '' @ quoted type @ '' '' @ em_dash @ '' expected move, down, up, wheel, key or focus''))"

primrec parse_events :: "json list \<Rightarrow> string + input_event list" where
  "parse_events [] = Inr []"
| "parse_events (v # vs) = (case parseInputEvent v of
      Inl e \<Rightarrow> Inl e
    | Inr x \<Rightarrow> (case parse_events vs of Inl e \<Rightarrow> Inl e | Inr xs \<Rightarrow> Inr (x # xs)))"

definition batch_of :: "json \<Rightarrow> json list" where
  "batch_of b = (case get_key b ''events'' of Array vs \<Rightarrow> vs | _ \<Rightarrow> [b])"

section \<open>Reading\<close>

text \<open>The endpoints before the method is looked at; \<open>None\<close> when the path is none of them.\<close>

definition get_preview :: "world \<Rightarrow> request \<Rightarrow> response \<Rightarrow> manager \<Rightarrow> response" where
  "get_preview w q r m =
     (case fst (withRequestSource (sources_around w) q r m (\<lambda>s. (preview_of w s, s))) of
        Inl failed \<Rightarrow> failed
      | Inr No_preview \<Rightarrow> error 404 ''no preview output is configured'' r
      | Inr Preview_busy \<Rightarrow> error 503 ''the preview is busy; try again'' r
      | Inr (Shown p) \<Rightarrow>
          if shot_pixels p = [] then error 503 ''preview has produced no frames yet'' r
          else r\<lparr>contentType := ''application/octet-stream'', useBinary := True, binaryBody := shot_pixels p,
                 extraHeaders := [(''X-Frame-Height'', dec_int (shot_height p)), (''X-Frame-Sequence'', dec_int (shot_sequence p)),
                   (''X-Frame-Width'', dec_int (shot_width p))]\<rparr>)"

definition string_list :: "string list \<Rightarrow> json" where
  "string_list xs = foldl (\<lambda>list x. push (String x) list) (Array []) xs"

text \<open>What is live of service discovery, and what stands in its way.\<close>

definition discovery_of :: "world \<Rightarrow> api \<Rightarrow> json" where
  "discovery_of w a =
     (let c = api_config a;
          d = set_key ''name'' (String (registered_name w)) (set_key ''service_type'' (String ''_weblinked._tcp'')
                (set_key ''advertising'' (Bool (mdns_running w)) (set_key ''enabled'' (Bool (mdnsEnabled c)) (Object []))))
      in if mdnsEnabled c \<and> \<not> bindIsAdvertisable (httpBind c)
         then set_key ''blocked_because'' (String (''the control API is bound to loopback, so nothing off this machine could reach the advertised address '' @
                em_dash @ '' start with --bind 0.0.0.0 to be discoverable'')) d
         else d)"

definition get_settings :: "world \<Rightarrow> request \<Rightarrow> response \<Rightarrow> api \<Rightarrow> response" where
  "get_settings w q r a =
     (let value = set_key ''saved'' (Bool (settings_files a (settingsPath a) \<noteq> None))
            (set_key ''path'' (String (settingsPath a)) (Object []))
      in case fst (withRequestSource (sources_around w) q r (sources_now a) (\<lambda>s. (configuration (the_engine s), s))) of
           Inl failed \<Rightarrow> failed
         | Inr c \<Rightarrow>
             respond_json (json_text (set_key ''discovery'' (discovery_of w a)
               (set_key ''sources'' (foldl (\<lambda>list c. push (source_toJson c) list) (Array [])
                  (sources (manager_configuration (sources_around w) (sources_now a))))
               (set_key ''source'' (source_toJson c) value)))) r)"

definition get_bundle :: "world \<Rightarrow> response \<Rightarrow> response" where
  "get_bundle w r = (case bundle_text w of
      None \<Rightarrow> error 500 (''the diagnostics bundle could not be written to '' @ bundle_path w) r
    | Some text \<Rightarrow> r\<lparr>contentType := ''application/json'', resp_body := text,
        extraHeaders := [(''Content-Disposition'', ''attachment; filename='' @ double_quoted (bundle_name w))]\<rparr>)"

text \<open>\<open>atoi\<close> on the \<open>lines\<close> parameter: what is not a positive number asks for 200.\<close>

definition get_log :: "world \<Rightarrow> request \<Rightarrow> response \<Rightarrow> api \<Rightarrow> response" where
  "get_log w q r a =
     (let requested = (case stoi (param q ''lines'' ''200'') of Some n \<Rightarrow> n | None \<Rightarrow> 0);
          lines = (if requested \<le> 0 then 200 else nat requested)
      in respond_json (json_text (set_key ''lines'' (string_list (log_lines w lines))
           (set_key ''directory'' (String (log_directory w)) (set_key ''path'' (String (log_path w))
              (set_key ''level'' (String (log_level a)) (Object [])))))) r)"

definition get_diagnostics :: "world \<Rightarrow> response \<Rightarrow> response" where
  "get_diagnostics w r = respond_json (json_text (set_key ''log_directory'' (String (log_directory w))
     (set_key ''log'' (String (log_path w)) (set_key ''bundle'' (String (bundle_path w)) (Object []))))) r"

definition get_show :: "world \<Rightarrow> request \<Rightarrow> response \<Rightarrow> manager \<Rightarrow> response" where
  "get_show w q r m =
     (let p = \<lparr>tabs = (param q ''tabs'' ''1'' \<noteq> ''0''), rig = (param q ''outputs'' ''1'' \<noteq> ''0'')\<rparr>
      in if \<not> tabs p \<and> \<not> rig p then error 400 ''choose tabs, outputs or both'' r
         else respond_json (serialize True (capture (manager_configuration (sources_around w) m) p)) r)"

definition handle_get :: "world \<Rightarrow> request \<Rightarrow> response \<Rightarrow> api \<Rightarrow> response option" where
  "handle_get w q r a =
     (let p = path q; m = sources_now a
      in if p = ''/'' \<or> p = ''/index.html'' then Some (r\<lparr>contentType := ''text/html; charset=utf-8'', resp_body := control_page w\<rparr>)
         else if p = ''/about.js'' \<or> p = ''/about-data.js'' then
           Some (r\<lparr>contentType := ''application/javascript; charset=utf-8'',
                   resp_body := (if p = ''/about.js'' then about_script w else about_data w)\<rparr>)
         else if p = ''/api/state'' then
           Some (case fst (withRequestSource (sources_around w) q r m (\<lambda>s. (state_json w s, s))) of
             Inl failed \<Rightarrow> failed | Inr v \<Rightarrow> respond_json (json_text v) r)
         else if p = ''/api/sources'' then Some (respond_json (json_text (manager_json w m)) r)
         else if p = ''/api/preview'' then Some (get_preview w q r m)
         else if p = ''/api/diagnostics'' then Some (get_diagnostics w r)
         else if p = ''/api/diagnostics/bundle'' then Some (get_bundle w r)
         else if p = ''/api/log'' then Some (get_log w q r a)
         else if p = ''/api/settings'' then Some (get_settings w q r a)
         else if p = ''/api/show'' then Some (get_show w q r m)
         else None)"

section \<open>Changing\<close>

definition expected :: "string \<Rightarrow> string" where
  "expected what = ''expected '' @ what"

definition jq :: "string \<Rightarrow> string" where "jq s = double_quoted s"

text \<open>A call into the request's source and what is answered to its result.\<close>

definition sourced ::
  "world \<Rightarrow> request \<Rightarrow> response \<Rightarrow> api \<Rightarrow> (source \<Rightarrow> 'a \<times> source) \<Rightarrow> ('a \<Rightarrow> response) \<Rightarrow> response \<times> api" where
  "sourced w q r a f g = (case withRequestSource (sources_around w) q r (sources_now a) f of
      (Inl failed, m) \<Rightarrow> (failed, a\<lparr>sources_now := m\<rparr>)
    | (Inr x, m) \<Rightarrow> (g x, a\<lparr>sources_now := m\<rparr>))"

definition asked_drivers :: "world \<Rightarrow> request \<Rightarrow> api \<Rightarrow> drivers" where
  "asked_drivers w q a = drivers_for (sources_around w) (requested_source q (sources_now a))"

definition quietly :: "(source \<Rightarrow> source) \<Rightarrow> source \<Rightarrow> unit \<times> source" where
  "quietly f s = ((), f s)"

definition post_url :: "world \<Rightarrow> request \<Rightarrow> json \<Rightarrow> response \<Rightarrow> api \<Rightarrow> response \<times> api" where
  "post_url w q b r a =
     (let u = asString [] (get_key b ''url'')
      in if u = [] then (error 400 (expected (''{'' @ jq ''url'' @ '': '' @ jq ''...'' @ ''}'')) r, a)
         else sourced w q r a (quietly (setUrl u)) (\<lambda>_. ok_response r))"

definition post_reload :: "world \<Rightarrow> request \<Rightarrow> json \<Rightarrow> response \<Rightarrow> api \<Rightarrow> response \<times> api" where
  "post_reload w q b r a =
     sourced w q r a (quietly (page_call (Reload_page (asBool False (get_key b ''ignore_cache''))))) (\<lambda>_. ok_response r)"

definition post_script :: "world \<Rightarrow> request \<Rightarrow> json \<Rightarrow> response \<Rightarrow> api \<Rightarrow> response \<times> api" where
  "post_script w q b r a =
     (let script = asString [] (get_key b ''script'')
      in if script = [] then (error 400 (expected (''{'' @ jq ''script'' @ '': '' @ jq ''...'' @ ''}'')) r, a)
         else sourced w q r a (quietly (page_call (Run_script script))) (\<lambda>_. ok_response r))"

definition post_mute :: "world \<Rightarrow> request \<Rightarrow> json \<Rightarrow> response \<Rightarrow> api \<Rightarrow> response \<times> api" where
  "post_mute w q b r a =
     sourced w q r a (quietly (page_call (Mute_audio (asBool True (get_key b ''muted''))))) (\<lambda>_. ok_response r)"

definition post_input :: "world \<Rightarrow> request \<Rightarrow> json \<Rightarrow> response \<Rightarrow> api \<Rightarrow> response \<times> api" where
  "post_input w q b r a = (case parse_events (batch_of b) of
      Inl e \<Rightarrow> (error 400 e r, a)
    | Inr events \<Rightarrow> sourced w q r a (quietly (\<lambda>s. foldl (\<lambda>s e. sendInput e s) s events)) (\<lambda>_. ok_response r))"

definition post_format :: "world \<Rightarrow> request \<Rightarrow> json \<Rightarrow> response \<Rightarrow> api \<Rightarrow> response \<times> api" where
  "post_format w q b r a =
     (let text = asString [] (get_key b ''format'')
      in case format_parse text of
           None \<Rightarrow> (error 400 (''cannot parse format '' @ quoted text @ '' '' @ em_dash @ '' try 1080p50, 720p59.94 or 1920x1080i25'') r, a)
         | Some f \<Rightarrow>
             sourced w q r a
               (\<lambda>s. case on_engine (\<lambda>e. setFormat (asked_drivers w q a) (raster e) f [] e) s of
                  ((went, err), s') \<Rightarrow> ((went, err, same_format (raster (the_engine s')) f), s'))
               (\<lambda>(went, err, changed).
                  if \<not> went \<and> \<not> changed then error 503 err r
                  else if \<not> went then error 409 (''format applied, but an output could not restart: '' @ err) r
                  else ok_response r))"

text \<open>The answer to a change of outputs that failed or not.\<close>

definition conflict :: "int \<Rightarrow> response \<Rightarrow> reply \<Rightarrow> response" where
  "conflict c r reply = (if fst reply then ok_response r else error c (snd reply) r)"

definition post_output :: "world \<Rightarrow> request \<Rightarrow> json \<Rightarrow> response \<Rightarrow> api \<Rightarrow> response \<times> api" where
  "post_output w q b r a =
     (let name = asString [] (get_key b ''name'')
      in if name = [] then (error 400 (expected (''{'' @ jq ''name'' @ '': '' @ jq ''...'' @ '', '' @ jq ''enabled'' @ '': true}'')) r, a)
         else sourced w q r a (on_engine (setOutputEnabled (asked_drivers w q a) name (asBool True (get_key b ''enabled'')) []))
                (conflict 409 r))"

definition background_shim :: "json \<Rightarrow> json" where
  "background_shim b =
     (let shim = set_key ''background'' (get_key b ''background'') (set_key ''kind'' (String ''preview'') (Object []))
      in if get_key b ''colour'' \<noteq> Null then set_key ''background_colour'' (get_key b ''colour'') shim
         else if get_key b ''color'' \<noteq> Null then set_key ''background_colour'' (get_key b ''color'') shim
         else shim)"

definition post_background :: "world \<Rightarrow> request \<Rightarrow> json \<Rightarrow> response \<Rightarrow> api \<Rightarrow> response \<times> api" where
  "post_background w q b r a =
     (let name = asString [] (get_key b ''name'')
      in if name = [] then (error 400 (expected (''{'' @ jq ''name'' @ '': '' @ jq ''...'' @ '', '' @ jq ''background'' @ '': '' @
             jq ''transparent'' @ ''|'' @ jq ''colour'' @ '', '' @ jq ''colour'' @ '': '' @ jq ''#00b140'' @ ''}'')) r, a)
         else case output_fromJson (background_shim b) of
           Inl e \<Rightarrow> (error 400 e r, a)
         | Inr parsed \<Rightarrow> sourced w q r a (on_engine (setOutputBackground name (background parsed) [])) (conflict 404 r))"

text \<open>The spec \<open>/api/output/add\<close> builds; the background through the configuration's own reader.\<close>

definition add_spec :: "json \<Rightarrow> string + output_spec" where
  "add_spec b =
     (let kind = asString [] (get_key b ''kind''); name = asString [] (get_key b ''name''); opts = get_key b ''options''
      in if kind = [] then Inl (expected (''{'' @ jq ''kind'' @ '': '' @ jq ''ndi'' @ '', '' @ jq ''name'' @ '': '' @ jq ''...'' @ ''}''))
         else case output_fromJson b of
           Inl e \<Rightarrow> Inl e
         | Inr parsed \<Rightarrow> Inr \<lparr>spec_kind = kind, spec_name = (if name = [] then kind else name),
             spec_device = asInt 0 (get_key b ''device_index''),
             spec_options = (if isObject opts then opts else Object []), spec_background = background parsed\<rparr>)"

definition post_add :: "world \<Rightarrow> request \<Rightarrow> json \<Rightarrow> response \<Rightarrow> api \<Rightarrow> response \<times> api" where
  "post_add w q b r a = (case add_spec b of
      Inl e \<Rightarrow> (error 400 e r, a)
    | Inr spec \<Rightarrow> sourced w q r a (on_engine (addOutput (asked_drivers w q a) spec [])) (conflict 409 r))"

definition post_remove :: "world \<Rightarrow> request \<Rightarrow> json \<Rightarrow> response \<Rightarrow> api \<Rightarrow> response \<times> api" where
  "post_remove w q b r a =
     (let name = asString [] (get_key b ''name'')
      in sourced w q r a
           (\<lambda>s. case on_engine (removeOutput (asked_drivers w q a) name) s of
              (reply, s') \<Rightarrow> ((findEntry name (entries (the_engine s)) \<noteq> None, reply), s'))
           (\<lambda>(existed, reply). conflict (if existed then 409 else 404) r reply))"

definition post_update :: "world \<Rightarrow> request \<Rightarrow> json \<Rightarrow> response \<Rightarrow> api \<Rightarrow> response \<times> api" where
  "post_update w q b r a =
     (let name = asString [] (get_key b ''name'')
      in if name = [] then (error 400 (expected (''{'' @ jq ''name'' @ '': '' @ jq ''...'' @ '', '' @ jq ''output'' @ '': { ... }}'')) r, a)
         else case output_fromJson (get_key b ''output'') of
           Inl e \<Rightarrow> (error 400 e r, a)
         | Inr c \<Rightarrow>
             let spec = outputSpecFromConfig c;
                 spec' = (if spec_name spec = [] then spec\<lparr>spec_name := name\<rparr> else spec)
             in sourced w q r a (on_engine (updateOutput (asked_drivers w q a) name spec' [])) (conflict 409 r))"

definition post_pacing :: "world \<Rightarrow> request \<Rightarrow> json \<Rightarrow> response \<Rightarrow> api \<Rightarrow> response \<times> api" where
  "post_pacing w q b r a =
     (let mode = asString ''external'' (get_key b ''pacing'')
      in if mode \<noteq> ''external'' \<and> mode \<noteq> ''internal''
         then (error 400 (''pacing must be '' @ jq ''external'' @ '' or '' @ jq ''internal'') r, a)
         else sourced w q r a (quietly (setPacing (mode \<noteq> ''internal''))) (\<lambda>_. ok_response r))"

definition apply_to_source :: "drivers \<Rightarrow> source_config \<Rightarrow> source \<Rightarrow> reply \<times> source" where
  "apply_to_source d c s =
     (case on_engine (applyConfiguration d c) s of
        (reply, s') \<Rightarrow> (reply, if url c \<noteq> the_url (the_engine s) then page_call (Load_url (url c)) s' else s'))"

definition post_settings_apply :: "world \<Rightarrow> request \<Rightarrow> json \<Rightarrow> response \<Rightarrow> api \<Rightarrow> response \<times> api" where
  "post_settings_apply w q b r a = (case readSourceConfig (get_key b ''source'') (requested_source q (sources_now a)) of
      Inl e \<Rightarrow> (error 400 e r, a)
    | Inr c \<Rightarrow> sourced w q r a (apply_to_source (asked_drivers w q a) c)
        (\<lambda>reply. if fst reply then ok_response r else error 409 (''settings applied, except: '' @ snd reply) r))"

primrec read_source_list :: "json list \<Rightarrow> string + source_config list" where
  "read_source_list [] = Inr []"
| "read_source_list (v # vs) = (case readSourceConfig v [] of
      Inl e \<Rightarrow> Inl e
    | Inr c \<Rightarrow> (case read_source_list vs of Inl e \<Rightarrow> Inl e | Inr cs \<Rightarrow> Inr (c # cs)))"

text \<open>Reconciling the whole set, and what is said when a part of it did not work.\<close>

definition reconciled :: "world \<Rightarrow> string \<Rightarrow> source_config list \<Rightarrow> response \<Rightarrow> api \<Rightarrow> response \<Rightarrow> response \<times> api" where
  "reconciled w said cs r a good = (case apply_sources (sources_around w) cs (sources_now a) of
      (None, m) \<Rightarrow> (good, a\<lparr>sources_now := m\<rparr>)
    | (Some e, m) \<Rightarrow> (error 409 (said @ '', except: '' @ e) r, a\<lparr>sources_now := m\<rparr>))"

definition post_sources_apply :: "world \<Rightarrow> json \<Rightarrow> response \<Rightarrow> api \<Rightarrow> response \<times> api" where
  "post_sources_apply w b r a = (case get_key b ''sources'' of
      Array list \<Rightarrow> (case read_source_list list of
          Inl e \<Rightarrow> (error 400 e r, a)
        | Inr cs \<Rightarrow> reconciled w ''sources applied'' cs r a (ok_response r))
    | _ \<Rightarrow> (error 400 (expected (''{'' @ jq ''sources'' @ '': [ ... ]}'')) r, a))"

definition post_sources_add :: "world \<Rightarrow> json \<Rightarrow> response \<Rightarrow> api \<Rightarrow> response \<times> api" where
  "post_sources_add w b r a = (case readSourceConfig (get_key b ''source'') [] of
      Inl e \<Rightarrow> (error 400 e r, a)
    | Inr c \<Rightarrow> (case add_source (sources_around w) c (sources_now a) of
        (Some e, m) \<Rightarrow> (error 409 e r, a\<lparr>sources_now := m\<rparr>)
      | (None, m) \<Rightarrow> (respond_json (json_text (set_key ''id'' (String (source_id c)) (set_key ''ok'' (Bool True) (Object [])))) r,
          a\<lparr>sources_now := m\<rparr>)))"

definition post_sources_remove :: "world \<Rightarrow> json \<Rightarrow> response \<Rightarrow> api \<Rightarrow> response \<times> api" where
  "post_sources_remove w b r a =
     (let sid = asString [] (get_key b ''id'')
      in if sid = [] then (error 400 (expected (''{'' @ jq ''id'' @ '': '' @ jq ''...'' @ ''}'')) r, a)
         else if length (sources_now a) \<le> 1
         then (error 409 (quoted sid @ '' is the only source '' @ em_dash @ '' stop WebLinked instead'') r, a)
         else (case remove_source (sources_around w) sid (sources_now a) of
             (Some e, m) \<Rightarrow> (error (if has_source sid m then 409 else 404) e r, a\<lparr>sources_now := m\<rparr>)
           | (None, m) \<Rightarrow> (ok_response r, a\<lparr>sources_now := m\<rparr>)))"

definition settings_file :: "world \<Rightarrow> api \<Rightarrow> app_config" where
  "settings_file w a = (api_config a)\<lparr>sources := sources (manager_configuration (sources_around w) (sources_now a))\<rparr>"

definition post_save :: "world \<Rightarrow> response \<Rightarrow> api \<Rightarrow> response \<times> api" where
  "post_save w r a = (case save_settings (disk_answers w) (settings_parent w) (settings_file w a) (settingsPath a) (settings_files a) of
      (err, states) \<Rightarrow>
        (case err of
           Some e \<Rightarrow> error 500 e r
         | None \<Rightarrow> respond_json (json_text (set_key ''path'' (String (settingsPath a)) (set_key ''ok'' (Bool True) (Object [])))) r,
         a\<lparr>settings_files := last states\<rparr>))"

definition post_settings_reload :: "world \<Rightarrow> response \<Rightarrow> api \<Rightarrow> response \<times> api" where
  "post_settings_reload w r a = (case load_settings (settings_files a) (settingsPath a) of
      Inl e \<Rightarrow> (error 404 e r, a)
    | Inr c \<Rightarrow> if sources c = [] then (error 404 ''the settings file has no sources'' r, a)
        else reconciled w ''settings loaded'' (sources c) r a (ok_response r))"

definition post_show_load :: "world \<Rightarrow> json \<Rightarrow> response \<Rightarrow> api \<Rightarrow> response \<times> api" where
  "post_show_load w b r a =
     (let p = \<lparr>tabs = asBool True (get_key b ''tabs''), rig = asBool True (get_key b ''outputs'')\<rparr>
      in case recall (manager_configuration (sources_around w) (sources_now a)) (get_key b ''show'') p of
           Inl e \<Rightarrow> (error 400 e r, a)
         | Inr (wanted, remarks) \<Rightarrow>
             reconciled w ''show loaded'' (sources wanted) r a
               (respond_json (json_text (set_key ''notes'' (string_list remarks)
                  (set_key ''ok'' (Bool True) (Object [])))) r))"

text \<open>\<open>levelFromString\<close>, and the level as the API spells it.\<close>

definition levelFromString :: "string \<Rightarrow> string" where
  "levelFromString text =
     (let l = lowercase text
      in if l = ''trace'' \<or> l = ''debug'' \<or> l = ''error'' \<or> l = ''fatal'' then l
         else if l = ''warn'' \<or> l = ''warning'' then ''warn'' else ''info'')"

definition post_level :: "json \<Rightarrow> response \<Rightarrow> api \<Rightarrow> response \<times> api" where
  "post_level b r a =
     (let text = asString [] (get_key b ''level'')
      in if text = [] then (error 400 (expected (''{'' @ jq ''level'' @ '': '' @ jq ''debug'' @ ''}'')) r, a)
         else (respond_json (json_text (set_key ''level'' (String (levelFromString text)) (set_key ''ok'' (Bool True) (Object [])))) r,
               a\<lparr>log_level := levelFromString text\<rparr>))"

definition post_report :: "world \<Rightarrow> json \<Rightarrow> response \<Rightarrow> response" where
  "post_report w b r =
     respond_json (json_text (set_key ''report'' (String (report_path w (asString ''requested from the control page'' (get_key b ''reason''))))
       (set_key ''ok'' (Bool True) (Object [])))) r"

definition handle_post :: "world \<Rightarrow> request \<Rightarrow> json \<Rightarrow> response \<Rightarrow> api \<Rightarrow> response \<times> api" where
  "handle_post w q b r a =
     (let p = path q
      in if p = ''/api/url'' then post_url w q b r a
         else if p = ''/api/reload'' then post_reload w q b r a
         else if p = ''/api/script'' then post_script w q b r a
         else if p = ''/api/mute'' then post_mute w q b r a
         else if p = ''/api/input'' then post_input w q b r a
         else if p = ''/api/format'' then post_format w q b r a
         else if p = ''/api/output'' then post_output w q b r a
         else if p = ''/api/output/background'' then post_background w q b r a
         else if p = ''/api/output/add'' then post_add w q b r a
         else if p = ''/api/output/remove'' then post_remove w q b r a
         else if p = ''/api/output/update'' then post_update w q b r a
         else if p = ''/api/pacing'' then post_pacing w q b r a
         else if p = ''/api/settings/apply'' then post_settings_apply w q b r a
         else if p = ''/api/sources/apply'' then post_sources_apply w b r a
         else if p = ''/api/sources/add'' then post_sources_add w b r a
         else if p = ''/api/sources/remove'' then post_sources_remove w b r a
         else if p = ''/api/settings/save'' then post_save w r a
         else if p = ''/api/settings/reload'' then post_settings_reload w r a
         else if p = ''/api/show/load'' then post_show_load w b r a
         else if p = ''/api/log/level'' then post_level b r a
         else if p = ''/api/diagnostics/report'' then (post_report w b r, a)
         else (error 404 (''no such endpoint: '' @ p) r, a))"

definition handleHttp :: "world \<Rightarrow> request \<Rightarrow> api \<Rightarrow> response \<times> api" where
  "handleHttp w q a =
     (let r = new_response
      in case handle_get w q r a of
           Some r' \<Rightarrow> (r', a)
         | None \<Rightarrow>
           if req_method q \<noteq> ''POST'' then (error 405 (''use POST for '' @ path q) r, a)
           else (case parseBody q of
               Inl e \<Rightarrow> (error 400 e r, a)
             | Inr b \<Rightarrow> handle_post w q b r a))"

section \<open>Starting\<close>

text \<open>
  What is advertised once the sockets listen: nothing when discovery is off or nobody else could connect,
  else the name, the port and the TXT records. \<open>osc_up\<close> is whether the OSC socket is open; the casts to
  \<open>uint16_t\<close> wrap.
\<close>

definition advertised :: "api \<Rightarrow> string \<Rightarrow> string \<Rightarrow> bool \<Rightarrow> (string \<times> nat \<times> (string \<times> string) list) option" where
  "advertised a host ver osc_up =
     (let c = api_config a; port = nat (httpPort c mod 65536); name = instanceNameFor (instanceName c) host port
      in if \<not> mdnsEnabled c \<or> \<not> bindIsAdvertisable (httpBind c) then None
         else Some (name, port, buildTxt \<lparr>version = ver, inst_name = name, inst_id = instanceId host port,
           txt_inputs.tokenRequired = (httpToken c \<noteq> []), txt_inputs.oscEnabled = (app_config.oscEnabled c \<and> osc_up),
           txt_inputs.oscPort = nat (app_config.oscPort c mod 65536), txt_inputs.oscPrefix = api.oscPrefix a\<rparr>))"

definition controlUrl :: "app_config \<Rightarrow> string" where
  "controlUrl c =
     (let host = (if httpBind c = [] \<or> httpBind c = ''0.0.0.0'' then ''127.0.0.1'' else httpBind c)
      in ''http://'' @ host @ '':'' @ dec_int (httpPort c) @ ''/'' @
         (if httpToken c \<noteq> [] then ''?token='' @ httpToken c else []))"

definition settings_path_of :: "environment \<Rightarrow> string \<Rightarrow> string" where
  "settings_path_of env configured = (if configured = [] then defaultPath env else configured)"

section \<open>OSC\<close>

definition handleOscForSource :: "drivers \<Rightarrow> string \<Rightarrow> message \<Rightarrow> source \<Rightarrow> source" where
  "handleOscForSource d action m s =
     (if action = ''url'' then (if firstString m \<noteq> [] then setUrl (firstString m) s else s)
      else if action = ''reload'' then page_call (Reload_page (firstBool False m)) s
      else if action = ''script'' then (if firstString m \<noteq> [] then page_call (Run_script (firstString m)) s else s)
      else if action = ''mute'' then page_call (Mute_audio (firstBool True m)) s
      else if action = ''format'' then (case format_parse (firstString m) of
          Some f \<Rightarrow> snd (on_engine (\<lambda>e. setFormat d (raster e) f [] e) s) | None \<Rightarrow> s)
      else if prefixed ''output/'' action then
        (let name = drop 7 action
         in if name = [] then s else snd (on_engine (setOutputEnabled d name (firstBool True m) []) s))
      else s)"

text \<open>The source and the verb an address names, if any.\<close>

definition osc_target :: "string \<Rightarrow> string \<Rightarrow> manager \<Rightarrow> (string \<times> string) option" where
  "osc_target prefix addr m =
     (if \<not> prefixed prefix addr then None
      else let rest = drop (length prefix) addr;
               action = (if rest \<noteq> [] \<and> hd rest = CHR ''/'' then tl rest else rest)
           in if prefixed ''source/'' action then
                (let named = drop 7 action
                 in case find_char (CHR ''/'') named of
                      None \<Rightarrow> None
                    | Some slash \<Rightarrow> if slash = 0 then None else Some (take slash named, drop (slash + 1) named))
              else if primaryId m = [] then None else Some (primaryId m, action))"

definition handleOsc :: "surroundings \<Rightarrow> message \<Rightarrow> api \<Rightarrow> api" where
  "handleOsc env msg a = (case osc_target (oscPrefix a) (address msg) (sources_now a) of
      None \<Rightarrow> a
    | Some (sid, action) \<Rightarrow>
        a\<lparr>sources_now := snd (withSource env sid (handleOscForSource (drivers_for env sid) action msg) (sources_now a))\<rparr>)"

section \<open>Where requests reach\<close>

lemma withRequestSource_other:
  "other \<noteq> requested_source q m \<Longrightarrow> map_of (snd (withRequestSource env q r m f)) other = map_of m other"
  by (auto simp: withRequestSource_def Let_def on_source_map_of split: option.split)

lemma sourced_other:
  "other \<noteq> requested_source q (sources_now a) \<Longrightarrow>
   map_of (sources_now (snd (sourced w q r a f g))) other = map_of (sources_now a) other"
  using withRequestSource_other [of other q "sources_now a" "sources_around w" r f]
  by (auto simp: sourced_def split: prod.splits sum.splits)

lemma sourced_rest [simp]:
  "settings_files (snd (sourced w q r a f g)) = settings_files a"
  "api_config (snd (sourced w q r a f g)) = api_config a"
  "log_level (snd (sourced w q r a f g)) = log_level a"
  by (auto simp: sourced_def split: prod.splits sum.splits)

lemma error_status [simp]: "status (error c m r) = c"
  by (simp add: error_def)

lemma answer_status [simp]: "status (respond_json t r) = status r" "status (ok_response r) = status r"
  by (simp_all add: respond_json_def ok_response_def)

lemma conflict_status: "status (conflict c r reply) = (if fst reply then status r else c)"
  by (simp add: conflict_def)

lemma withRequestSource_status:
  "fst (withRequestSource env q r m f) = Inl failed \<Longrightarrow> status failed = 404 \<or> status failed = 503"
  by (auto simp: withRequestSource_def Let_def split: option.splits if_splits)

lemma sourced_status:
  assumes "\<And>x. status (g x) \<noteq> 400"
  shows "status (fst (sourced w q r a f g)) \<noteq> 400"
  using assms withRequestSource_status [of "sources_around w" q r "sources_now a" f]
  by (fastforce simp: sourced_def split: prod.splits sum.splits)

lemma reconciled_status: "status good \<noteq> 400 \<Longrightarrow> status (fst (reconciled w said cs r a good)) \<noteq> 400"
  by (auto simp: reconciled_def split: prod.splits option.splits)

lemmas post_defs = post_url_def post_reload_def post_script_def post_mute_def post_input_def post_format_def
  post_output_def post_background_def post_add_def post_remove_def post_update_def post_pacing_def post_settings_apply_def

lemmas whole_defs = post_sources_apply_def post_sources_add_def post_sources_remove_def post_save_def
  post_settings_reload_def post_show_load_def post_level_def

text \<open>The endpoints that are about the set of sources.\<close>

definition whole_set :: "string \<Rightarrow> bool" where
  "whole_set p \<longleftrightarrow> p \<in> {''/api/sources/apply'', ''/api/sources/add'', ''/api/sources/remove'', ''/api/settings/reload'', ''/api/show/load''}"

text \<open>An answer of 400 goes with an unchanged state.\<close>

definition refused_unchanged :: "api \<Rightarrow> response \<times> api \<Rightarrow> bool" where
  "refused_unchanged a x \<longleftrightarrow> status (fst x) = 400 \<longrightarrow> snd x = a"

lemma refused_if: "refused_unchanged a x \<Longrightarrow> refused_unchanged a y \<Longrightarrow> refused_unchanged a (if c then x else y)"
  by simp

lemma refused_pair [simp]: "refused_unchanged a (r, a)" "status r \<noteq> 400 \<Longrightarrow> refused_unchanged a (r, a')"
  by (simp_all add: refused_unchanged_def)

lemma refused_sourced [simp]: "(\<And>x. status (g x) \<noteq> 400) \<Longrightarrow> refused_unchanged a (sourced w q r a f g)"
  using sourced_status [of g w q r a f] by (simp add: refused_unchanged_def)

lemma refused_reconciled [simp]: "status good \<noteq> 400 \<Longrightarrow> refused_unchanged a (reconciled w said cs r a good)"
  using reconciled_status by (simp add: refused_unchanged_def)

lemma post_400:
  assumes "status r = 200"
  shows "refused_unchanged a (post_url w q b r a)"
    and "refused_unchanged a (post_reload w q b r a)"
    and "refused_unchanged a (post_script w q b r a)"
    and "refused_unchanged a (post_mute w q b r a)"
    and "refused_unchanged a (post_input w q b r a)"
    and "refused_unchanged a (post_format w q b r a)"
    and "refused_unchanged a (post_output w q b r a)"
    and "refused_unchanged a (post_background w q b r a)"
    and "refused_unchanged a (post_add w q b r a)"
    and "refused_unchanged a (post_remove w q b r a)"
    and "refused_unchanged a (post_update w q b r a)"
    and "refused_unchanged a (post_pacing w q b r a)"
    and "refused_unchanged a (post_settings_apply w q b r a)"
  using assms by (simp_all add: post_defs Let_def conflict_status split: option.split sum.split prod.split)

lemma whole_400:
  assumes "status r = 200"
  shows "refused_unchanged a (post_sources_apply w b r a)"
    and "refused_unchanged a (post_sources_add w b r a)"
    and "refused_unchanged a (post_sources_remove w b r a)"
    and "refused_unchanged a (post_save w r a)"
    and "refused_unchanged a (post_settings_reload w r a)"
    and "refused_unchanged a (post_show_load w b r a)"
    and "refused_unchanged a (post_level b r a)"
  using assms by (simp_all add: whole_defs Let_def split: option.split sum.split prod.split json.split)

lemma handle_post_400:
  assumes "status r = 200" "status (fst (handle_post w q b r a)) = 400"
  shows "snd (handle_post w q b r a) = a"
proof -
  have "refused_unchanged a (handle_post w q b r a)" unfolding handle_post_def Let_def
    by (intro refused_if post_400 [OF assms(1)] whole_400 [OF assms(1)] refused_pair)
  with assms(2) show ?thesis by (simp add: refused_unchanged_def)
qed

lemma handle_post_other:
  assumes "\<not> whole_set (path q)" "other \<noteq> requested_source q (sources_now a)"
  shows "map_of (sources_now (snd (handle_post w q b r a))) other = map_of (sources_now a) other"
proof -
  note o = sourced_other [OF assms(2)]
  have "map_of (sources_now (snd (post_url w q b r a))) other = map_of (sources_now a) other"
    "map_of (sources_now (snd (post_reload w q b r a))) other = map_of (sources_now a) other"
    "map_of (sources_now (snd (post_script w q b r a))) other = map_of (sources_now a) other"
    "map_of (sources_now (snd (post_mute w q b r a))) other = map_of (sources_now a) other"
    "map_of (sources_now (snd (post_input w q b r a))) other = map_of (sources_now a) other"
    "map_of (sources_now (snd (post_format w q b r a))) other = map_of (sources_now a) other"
    "map_of (sources_now (snd (post_output w q b r a))) other = map_of (sources_now a) other"
    "map_of (sources_now (snd (post_background w q b r a))) other = map_of (sources_now a) other"
    "map_of (sources_now (snd (post_add w q b r a))) other = map_of (sources_now a) other"
    "map_of (sources_now (snd (post_remove w q b r a))) other = map_of (sources_now a) other"
    "map_of (sources_now (snd (post_update w q b r a))) other = map_of (sources_now a) other"
    "map_of (sources_now (snd (post_pacing w q b r a))) other = map_of (sources_now a) other"
    "map_of (sources_now (snd (post_settings_apply w q b r a))) other = map_of (sources_now a) other"
    by (simp_all add: post_defs Let_def o split: option.split sum.split)
  moreover have "sources_now (snd (post_save w r a)) = sources_now a" "sources_now (snd (post_level b r a)) = sources_now a"
    by (simp_all add: post_save_def post_level_def Let_def split: prod.split)
  ultimately show ?thesis using assms(1) unfolding handle_post_def Let_def whole_set_def by simp
qed

lemma handle_post_files:
  assumes "path q \<noteq> ''/api/settings/save''"
  shows "settings_files (snd (handle_post w q b r a)) = settings_files a"
proof -
  have "settings_files (snd (reconciled w said cs r a good)) = settings_files a" for said cs good
    by (simp add: reconciled_def split: prod.split option.split)
  then have "settings_files (snd (post_sources_apply w b r a)) = settings_files a"
    "settings_files (snd (post_sources_add w b r a)) = settings_files a"
    "settings_files (snd (post_sources_remove w b r a)) = settings_files a"
    "settings_files (snd (post_settings_reload w r a)) = settings_files a"
    "settings_files (snd (post_show_load w b r a)) = settings_files a"
    "settings_files (snd (post_level b r a)) = settings_files a"
    by (simp_all add: whole_defs Let_def split: option.split sum.split prod.split json.split)
  moreover have "settings_files (snd (post_url w q b r a)) = settings_files a"
    "settings_files (snd (post_reload w q b r a)) = settings_files a"
    "settings_files (snd (post_script w q b r a)) = settings_files a"
    "settings_files (snd (post_mute w q b r a)) = settings_files a"
    "settings_files (snd (post_input w q b r a)) = settings_files a"
    "settings_files (snd (post_format w q b r a)) = settings_files a"
    "settings_files (snd (post_output w q b r a)) = settings_files a"
    "settings_files (snd (post_background w q b r a)) = settings_files a"
    "settings_files (snd (post_add w q b r a)) = settings_files a"
    "settings_files (snd (post_remove w q b r a)) = settings_files a"
    "settings_files (snd (post_update w q b r a)) = settings_files a"
    "settings_files (snd (post_pacing w q b r a)) = settings_files a"
    "settings_files (snd (post_settings_apply w q b r a)) = settings_files a"
    by (simp_all add: post_defs Let_def split: option.split sum.split)
  ultimately show ?thesis using assms unfolding handle_post_def Let_def by simp
qed

section \<open>Properties\<close>

text \<open>
  C4: a request that is not a POST, or that is answered 400, changes nothing; a POST to an endpoint of one
  source leaves every source but the one it names as it was; only a save touches the settings file.
\<close>

theorem request_stays_on_its_source:
  assumes "handleHttp w q a = (r, a')"
  shows "(req_method q \<noteq> ''POST'' \<or> status r = 400 \<longrightarrow> a' = a) \<and>
    (\<not> whole_set (path q) \<longrightarrow> (\<forall>other. other \<noteq> requested_source q (sources_now a) \<longrightarrow>
       map_of (sources_now a') other = map_of (sources_now a) other)) \<and>
    (path q \<noteq> ''/api/settings/save'' \<longrightarrow> settings_files a' = settings_files a)"
proof (cases "handle_get w q new_response a = None \<and> req_method q = ''POST''")
  case False
  with assms have "a' = a" by (auto simp: handleHttp_def Let_def split: option.splits if_splits)
  then show ?thesis by simp
next
  case True
  show ?thesis
  proof (cases "parseBody q")
    case (Inl e)
    with True assms show ?thesis by (simp add: handleHttp_def)
  next
    case (Inr b)
    with True assms have h: "handle_post w q b new_response a = (r, a')" by (simp add: handleHttp_def)
    have "status r = 400 \<Longrightarrow> a' = a"
      using handle_post_400 [of new_response w q b a] h by (simp add: new_response_def)
    moreover have "map_of (sources_now a') other = map_of (sources_now a) other"
      if "\<not> whole_set (path q)" "other \<noteq> requested_source q (sources_now a)" for other
      using handle_post_other [OF that, of w b new_response] h by simp
    moreover have "settings_files a' = settings_files a" if "path q \<noteq> ''/api/settings/save''"
      using handle_post_files [OF that, of w b new_response a] h by simp
    ultimately show ?thesis using True by blast
  qed
qed

text \<open>A world for examples: drivers that work, sources that can be removed, one or two of them running.\<close>

definition calm :: surroundings where
  "calm = \<lparr>drivers_for = (\<lambda>_. good_drivers), browser_error = (\<lambda>_. None), removal_of = (\<lambda>_. Removed), is_closing = (\<lambda>_. False)\<rparr>"

definition example_world :: world where
  "example_world = \<lparr>sources_around = calm, control_page = [], about_script = [], about_data = [], state_json = (\<lambda>_. Null),
     manager_json = (\<lambda>_. Null), preview_of = (\<lambda>_. No_preview), log_path = [], log_directory = [], bundle_path = [], bundle_name = [],
     bundle_text = None, log_lines = (\<lambda>_. []), mdns_running = False, registered_name = [], report_path = (\<lambda>_. []), disk_answers = good_disk 0,
     settings_parent = []\<rparr>"

definition running_source :: "string \<Rightarrow> source" where
  "running_source sid = \<lparr>the_engine = engine_start good_drivers ((example_source [preview_output])\<lparr>source_id := sid\<rparr>), page_calls = []\<rparr>"

definition example_api :: "string list \<Rightarrow> api" where
  "example_api ids = \<lparr>sources_now = map (\<lambda>sid. (sid, running_source sid)) ids, settings_files = (\<lambda>_. None), settingsPath = ''s'',
     api_config = default_app, oscPrefix = ''/weblinked'', log_level = ''info''\<rparr>"

definition post_request :: "string \<Rightarrow> string \<Rightarrow> json \<Rightarrow> request" where
  "post_request p text v = \<lparr>req_method = ''POST'', path = p, query = text, headers = Map.empty, body = serialize False v\<rparr>"

theorem request_stays_on_its_source_witness:
  "let (r, a') = handleHttp example_world (post_request ''/api/mute'' ''source=b'' (Object [])) (example_api [''a'', ''b''])
   in map_of (sources_now a') ''a'' = map_of (sources_now (example_api [''a'', ''b''])) ''a''"
proof -
  let ?q = "post_request ''/api/mute'' ''source=b'' (Object [])"
  obtain r a' where h: "handleHttp example_world ?q (example_api [''a'', ''b'']) = (r, a')" by fastforce
  have "requested_source ?q (sources_now (example_api [''a'', ''b''])) = ''b''" by code_simp
  then have "map_of (sources_now a') ''a'' = map_of (sources_now (example_api [''a'', ''b''])) ''a''"
    using request_stays_on_its_source [OF h] by (simp add: whole_set_def post_request_def)
  with h show ?thesis by simp
qed

section \<open>OSC and HTTP\<close>

text \<open>The request that asks for what an OSC verb asks for.\<close>

definition http_command :: "string \<Rightarrow> message \<Rightarrow> (string \<times> json) option" where
  "http_command action m =
     (if action = ''url'' then Some (''/api/url'', Object [(''url'', String (firstString m))])
      else if action = ''reload'' then Some (''/api/reload'', Object [(''ignore_cache'', Bool (firstBool False m))])
      else if action = ''script'' then Some (''/api/script'', Object [(''script'', String (firstString m))])
      else if action = ''mute'' then Some (''/api/mute'', Object [(''muted'', Bool (firstBool True m))])
      else if action = ''format'' then Some (''/api/format'', Object [(''format'', String (firstString m))])
      else if prefixed ''output/'' action
      then Some (''/api/output'', Object [(''name'', String (drop 7 action)), (''enabled'', Bool (firstBool True m))])
      else None)"

lemma on_source_cong: "map_of m sid = Some s \<Longrightarrow> f s = g s \<Longrightarrow> on_source sid f m = on_source sid g m"
  by (induction m) (auto split: if_splits)

lemma on_source_keep: "map_of m sid = Some s \<Longrightarrow> f s = s \<Longrightarrow> on_source sid f m = m"
  by (induction m) (auto split: if_splits)

lemma on_source_absent: "map_of m sid = None \<Longrightarrow> on_source sid f m = m"
  by (induction m) (auto split: if_splits)

lemma has_source_map_of: "has_source sid m \<longleftrightarrow> map_of m sid \<noteq> None"
  by (metis has_source_def map_of_eq_None_iff)

text \<open>Both front ends reach the source through the table in the same way.\<close>

lemma sourced_sources:
  assumes "requested_source q (sources_now a) = sid" "sid \<noteq> []"
  shows "sources_now (snd (sourced w q r a f g)) = snd (withSource (sources_around w) sid (\<lambda>x. snd (f x)) (sources_now a))"
  using assms by (auto simp: sourced_def withRequestSource_def withSource_def has_source_map_of Let_def split: option.splits)

lemma withSource_keep: "(\<And>s. f s = s) \<Longrightarrow> snd (withSource env sid f m) = m"
  using on_source_keep on_source_absent by (cases "map_of m sid") (fastforce simp: withSource_def)+

lemma osc_target_named: "osc_target prefix addr m = Some (sid, action) \<Longrightarrow> sid \<noteq> []"
  by (auto simp: osc_target_def Let_def dest: find_char_Some split: if_splits option.splits)

text \<open>
  C14: an OSC message does to the sources exactly what the corresponding POST does, for every verb, every
  argument and every source it names.
\<close>

theorem osc_does_what_http_does:
  assumes "osc_target (oscPrefix a) (address msg) (sources_now a) = Some (sid, action)"
    and "http_command action msg = Some (p, v)"
    and "path q = p" "req_method q = ''POST''" "parseBody q = Inr v" "requested_source q (sources_now a) = sid"
  shows "sources_now (handleOsc (sources_around w) msg a) = sources_now (snd (handleHttp w q a))"
proof -
  let ?d = "drivers_for (sources_around w) sid"
  have n: "sid \<noteq> []" using osc_target_named [OF assms(1)] .
  have d: "asked_drivers w q a = ?d" using assms(6) by (simp add: asked_drivers_def)
  have p: "p \<in> {''/api/url'', ''/api/reload'', ''/api/script'', ''/api/mute'', ''/api/format'', ''/api/output''}"
    using assms(2) by (auto simp: http_command_def split: if_splits)
  then have "handle_get w q new_response a = None" using assms(3) by (auto simp: handle_get_def)
  then have h: "snd (handleHttp w q a) = snd (handle_post w q v new_response a)" using assms(4,5) by (simp add: handleHttp_def)
  note via = sourced_sources [OF assms(6) n, of w new_response]
  have osc: "sources_now (handleOsc (sources_around w) msg a) =
      snd (withSource (sources_around w) sid (handleOscForSource ?d action msg) (sources_now a))"
    using assms(1) by (simp add: handleOsc_def)
  consider "action = ''url''" | "action = ''reload''" | "action = ''script''" | "action = ''mute''" | "action = ''format''" |
    "prefixed ''output/'' action" "action \<notin> {''url'', ''reload'', ''script'', ''mute'', ''format''}"
    using assms(2) by (auto simp: http_command_def split: if_splits)
  then show ?thesis
  proof cases
    case 1
    then have "p = ''/api/url''" "v = Object [(''url'', String (firstString msg))]" using assms(2) by (simp_all add: http_command_def)
    then have "snd (handle_post w q v new_response a) = (if firstString msg = [] then a
        else snd (sourced w q new_response a (quietly (setUrl (firstString msg))) (\<lambda>_. ok_response new_response)))"
      using assms(3) by (simp add: handle_post_def post_url_def get_key_def asString_def)
    moreover have "snd \<circ> quietly (setUrl (firstString msg)) = setUrl (firstString msg)" by (simp add: quietly_def comp_def)
    ultimately show ?thesis unfolding h osc 1 handleOscForSource_def
      by (cases "firstString msg = []") (simp_all add: via withSource_keep quietly_def)
  next
    case 2
    then have "p = ''/api/reload''" "v = Object [(''ignore_cache'', Bool (firstBool False msg))]" using assms(2) by (simp_all add: http_command_def)
    moreover have "handleOscForSource ?d ''reload'' msg = page_call (Reload_page (firstBool False msg))" by (rule ext) (simp add: handleOscForSource_def)
    ultimately show ?thesis unfolding h osc 2 using assms(3)
      by (simp add: handle_post_def post_reload_def get_key_def asBool_def via quietly_def)
  next
    case 3
    then have "p = ''/api/script''" "v = Object [(''script'', String (firstString msg))]" using assms(2) by (simp_all add: http_command_def)
    then have "snd (handle_post w q v new_response a) = (if firstString msg = [] then a
        else snd (sourced w q new_response a (quietly (page_call (Run_script (firstString msg)))) (\<lambda>_. ok_response new_response)))"
      using assms(3) by (simp add: handle_post_def post_script_def get_key_def asString_def)
    then show ?thesis unfolding h osc 3 handleOscForSource_def
      by (cases "firstString msg = []") (simp_all add: via withSource_keep quietly_def)
  next
    case 4
    then have "p = ''/api/mute''" "v = Object [(''muted'', Bool (firstBool True msg))]" using assms(2) by (simp_all add: http_command_def)
    moreover have "handleOscForSource ?d ''mute'' msg = page_call (Mute_audio (firstBool True msg))" by (rule ext) (simp add: handleOscForSource_def)
    ultimately show ?thesis unfolding h osc 4 using assms(3)
      by (simp add: handle_post_def post_mute_def get_key_def asBool_def via quietly_def)
  next
    case 5
    then have v: "p = ''/api/format''" "v = Object [(''format'', String (firstString msg))]" using assms(2) by (simp_all add: http_command_def)
    show ?thesis
    proof (cases "format_parse (firstString msg)")
      case None
      then show ?thesis unfolding h osc 5 using assms(3) v
        by (simp add: handle_post_def post_format_def get_key_def asString_def withSource_keep handleOscForSource_def)
    next
      case (Some f)
      have e: "snd (case on_engine (\<lambda>e. setFormat ?d (raster e) f [] e) s of ((went, err), s') \<Rightarrow> ((went, err, same_format (raster (the_engine s')) f), s'))
          = snd (on_engine (\<lambda>e. setFormat ?d (raster e) f [] e) s)" for s
        by (simp split: prod.split)
      have "snd (handle_post w q v new_response a) = snd (post_format w q v new_response a)"
        using assms(3) v by (simp add: handle_post_def)
      moreover have "handleOscForSource ?d ''format'' msg = (\<lambda>s. snd (on_engine (\<lambda>e. setFormat ?d (raster e) f [] e) s))"
        using Some by (intro ext) (simp add: handleOscForSource_def)
      ultimately show ?thesis unfolding h osc 5 using Some v
        by (simp add: post_format_def get_key_def asString_def d via e)
    qed
  next
    case 6
    then have v: "p = ''/api/output''" "v = Object [(''name'', String (drop 7 action)), (''enabled'', Bool (firstBool True msg))]"
      using assms(2) by (simp_all add: http_command_def)
    have "snd (handle_post w q v new_response a) = snd (post_output w q v new_response a)"
      using assms(3) v by (simp add: handle_post_def)
    moreover have "handleOscForSource ?d action msg = (\<lambda>s. if drop 7 action = [] then s
        else snd (on_engine (setOutputEnabled ?d (drop 7 action) (firstBool True msg) []) s))"
      using 6 by (auto simp: handleOscForSource_def Let_def)
    ultimately show ?thesis unfolding h osc using v
      by (cases "drop 7 action = []") (simp_all add: post_output_def get_key_def asString_def asBool_def d via withSource_keep)
  qed
qed

theorem osc_does_what_http_does_witness:
  "let m = \<lparr>address = ''/weblinked/source/b/mute'', stringArgs = [], intArgs = [1], floatArgs = []\<rparr>;
       a = example_api [''a'', ''b'']
   in sources_now (handleOsc calm m a) =
      sources_now (snd (handleHttp example_world (post_request ''/api/mute'' ''source=b'' (Object [(''muted'', Bool True)])) a))"
proof -
  let ?m = "\<lparr>address = ''/weblinked/source/b/mute'', stringArgs = [], intArgs = [1], floatArgs = []\<rparr>"
  let ?a = "example_api [''a'', ''b'']" and ?q = "post_request ''/api/mute'' ''source=b'' (Object [(''muted'', Bool True)])"
  have t: "osc_target (oscPrefix ?a) (address ?m) (sources_now ?a) = Some (''b'', ''mute'')" by code_simp
  have c: "http_command ''mute'' ?m = Some (''/api/mute'', Object [(''muted'', Bool True)])"
    by (simp add: http_command_def firstBool_def)
  have b: "parseBody ?q = Inr (Object [(''muted'', Bool True)])" by code_simp
  have r: "requested_source ?q (sources_now ?a) = ''b''" by code_simp
  have "sources_now (handleOsc (sources_around example_world) ?m ?a) = sources_now (snd (handleHttp example_world ?q ?a))"
    by (rule osc_does_what_http_does [OF t c _ _ b r]) (simp_all add: post_request_def)
  then show ?thesis by (simp add: example_world_def)
qed

section \<open>Applying settings\<close>

lemma engine_of_source: "manager_ok m \<Longrightarrow> map_of m sid = Some s \<Longrightarrow> engine_ok (the_engine s)"
  by (auto simp: manager_ok_def list_all_iff dest: map_of_SomeD)

lemma validated_outputs: "readSourceConfig v sid = Inr c \<Longrightarrow> one_preview c \<Longrightarrow> outputs_valid (outputs c)"
  by (auto simp: readSourceConfig_def Let_def outputs_valid_def one_preview_def validate_names split: sum.splits option.splits)

definition answer_applied :: "reply \<Rightarrow> response" where
  "answer_applied reply = (if fst reply then ok_response new_response
     else error 409 (''settings applied, except: '' @ snd reply) new_response)"

lemma settings_apply_answer:
  assumes "path q = ''/api/settings/apply''" "req_method q = ''POST''" "parseBody q = Inr b"
    and "readSourceConfig (get_key b ''source'') (requested_source q (sources_now a)) = Inr c"
  shows "handleHttp w q a = sourced w q new_response a (apply_to_source (asked_drivers w q a) c) answer_applied"
proof -
  have "answer_applied = (\<lambda>reply. if fst reply then ok_response new_response
     else error 409 (''settings applied, except: '' @ snd reply) new_response)"
    by (rule ext) (simp add: answer_applied_def)
  with assms show ?thesis by (simp add: handleHttp_def handle_get_def handle_post_def post_settings_apply_def)
qed


lemma preview_wish_ignored: "applyConfiguration d (c\<lparr>wantPreview := b\<rparr>) e = applyConfiguration d c e"
  by (cases c) (simp add: applyConfiguration_def apply_settings_def split_beta cong: if_cong)


text \<open>Both at a request that carries the settings of a running source.\<close>

definition apply_request :: request where
  "apply_request = post_request ''/api/settings/apply'' ''source=a'' (Object [(''source'', source_toJson witness_source)])"

lemma apply_request_facts:
  "path apply_request = ''/api/settings/apply''" "req_method apply_request = ''POST''"
  "parseBody apply_request = Inr (Object [(''source'', source_toJson witness_source)])"
  "requested_source apply_request m = ''a''"
  "readSourceConfig (get_key (Object [(''source'', source_toJson witness_source)]) ''source'') ''a'' = Inr witness_source"
proof -
  show "parseBody apply_request = Inr (Object [(''source'', source_toJson witness_source)])" by code_simp
  have "param apply_request ''source'' [] = ''a''" by code_simp
  then show "requested_source apply_request m = ''a''" by (simp add: requested_source_def)
  show "readSourceConfig (get_key (Object [(''source'', source_toJson witness_source)]) ''source'') ''a'' = Inr witness_source"
    using preview_choice_not_written [OF witness_source_writable(1)] witness_source_good(1)
    by (simp add: readSourceConfig_def get_key_def good_source_def witness_source_def)
qed (simp_all add: apply_request_def post_request_def)

definition witness_api :: api where
  "witness_api = (example_api [])\<lparr>sources_now := [(''a'', \<lparr>the_engine = engine_start good_drivers witness_source, page_calls = []\<rparr>)]\<rparr>"

lemma witness_api_ok: "manager_ok (sources_now witness_api)"
proof -
  have "engine_ok (engine_start good_drivers witness_source)"
    by (rule engine_start_ok) (simp add: witness_source_def example_valid)
  then show ?thesis by (simp add: manager_ok_def witness_api_def)
qed

lemma asked_good: "asked_drivers example_world q a = good_drivers"
  by (simp add: asked_drivers_def example_world_def calm_def)

lemma example_not_closing: "\<not> is_closing (sources_around example_world) sid"
  by (simp add: example_world_def calm_def)


lemma writable_wantPreview: "writable (c\<lparr>wantPreview := b\<rparr>) = writable c"
  by (simp add: writable_def)

lemma validate_wantPreview: "(validate (c\<lparr>wantPreview := b\<rparr>) = None) = (validate c = None)"
  by (simp add: validate_None)


section \<open>Where the API falls short\<close>

text \<open>
  \<open>/api/sources/remove\<close> refuses to remove the only source, so that there is always one to address;
  \<open>/api/sources/apply\<close> with an empty list removes them all and answers 200.
\<close>

lemma empty_list_removes_all:
  "case post_sources_apply example_world (Object [(''sources'', Array [])]) new_response (example_api [''a'']) of
    (r, a') \<Rightarrow> status r = 200 \<and> sources_now a' = []"
  by (simp add: post_sources_apply_def get_key_def reconciled_def apply_sources_def example_api_def remove_source_def has_source_def
      example_world_def calm_def first_of_def ok_response_def respond_json_def new_response_def)

text \<open>
  The address printed at start-up carries the token as it is: it opens the page for a token without the
  characters a query gives a meaning, and is answered 401 for one with a plus sign.
\<close>

lemma urlDecode_plain: "CHR ''+'' \<notin> set t \<Longrightarrow> CHR ''%'' \<notin> set t \<Longrightarrow> urlDecode t = t"
  by (induction t rule: urlDecode.induct) (metis list.set_intros urlDecode.simps)+

lemma token_param:
  assumes "CHR ''&'' \<notin> set t" "query q = ''token='' @ t"
  shows "param q ''token'' [] = urlDecode t"
proof -
  have "find_param ''token'' (''token'' @ CHR ''='' # t) = Some (urlDecode t)"
    by (subst find_param_last) (simp_all add: assms(1) plain_key_def)
  then show ?thesis by (simp add: param_def assms(2))
qed

lemma printed_token_opens:
  assumes "set (httpToken c) \<inter> {CHR ''+'', CHR ''%'', CHR ''&''} = {}" "query q = ''token='' @ httpToken c"
  shows "authorised (httpToken c) q"
  using token_param [OF _ assms(2)] urlDecode_plain assms(1) by (simp add: authorised_def)

lemma printed_token_refused:
  "let c = default_app\<lparr>httpToken := ''a+b''\<rparr>;
       q = \<lparr>req_method = ''GET'', path = ''/'', query = ''token=a+b'', headers = Map.empty, body = []\<rparr>
   in controlUrl c = ''http://127.0.0.1:7654/?token=a+b'' \<and> \<not> authorised (httpToken c) q"
proof -
  let ?q = "\<lparr>req_method = ''GET'', path = ''/'', query = ''token=a+b'', headers = Map.empty, body = []\<rparr>"
  have "param ?q ''token'' [] = ''a b''" by (subst token_param [of "''a+b''"]) simp_all
  moreover have "controlUrl (default_app\<lparr>httpToken := ''a+b''\<rparr>) = ''http://127.0.0.1:7654/?token=a+b''"
    by (simp add: controlUrl_def default_app_def dec_int_def dec.simps digit_def char_of_def bit_0)
  ultimately show ?thesis by (simp add: authorised_def default_app_def)
qed

text \<open>A configuration with two previews is accepted and opens both; adding a second one is refused.\<close>

lemma two_previews_open:
  "let second = preview_output\<lparr>out_name := ''preview2''\<rparr>; c = example_source [preview_output, second]
   in validate c = None \<and> length (filter permanent (entries (engine_start good_drivers c))) = 2 \<and>
      fst (addOutput good_drivers (outputSpecFromConfig second) [] (engine_start good_drivers (example_source [preview_output]))) =
        (False, ''there is already a preview output'')"
proof -
  have "validate (example_source [preview_output, preview_output\<lparr>out_name := ''preview2''\<rparr>]) = None" by code_simp
  moreover have "length (filter permanent (entries (engine_start good_drivers
      (example_source [preview_output, preview_output\<lparr>out_name := ''preview2''\<rparr>])))) = 2" by code_simp
  moreover have "fst (addOutput good_drivers (outputSpecFromConfig (preview_output\<lparr>out_name := ''preview2''\<rparr>)) []
      (engine_start good_drivers (example_source [preview_output]))) = (False, ''there is already a preview output'')" by code_simp
  ultimately show ?thesis by simp
qed

end
