(* ===== verification/Control_Queue.thy ===== *)
theory Control_Queue
  imports Engine_Model
begin

text \<open>
  \<open>core/control_queue.h\<close>: the queue the changes to one source wait in, with any number of threads. Every
  atomic access, lock attempt and reading of the clock is a step; time passes between steps.
\<close>

section \<open>State\<close>

datatype queue_result = Held | Timed_out | Too_many | Holder_stuck

text \<open>
  Where a thread is: not in \<open>enter\<close>; turned away from the lock; counted but too many; counted, without a
  deadline yet; in the loop with its deadline; past the first look at the clock, with what it read; in
  \<open>try_lock_for\<close> until a moment; about to be uncounted; back with an answer; holding the lock.
\<close>

datatype place = Outside | Arriving | Turned_away | Counted | In_loop int | Looked int int | Trying int int
  | Uncounting queue_result | Answered queue_result | Holding

record control_queue =
  holder :: "nat option"
  waiting :: int
  clock :: int
  place_of :: "nat \<Rightarrow> place"
  since :: "nat \<Rightarrow> int"   \<comment> \<open>when each thread last began to wait in the loop\<close>

definition new_queue :: control_queue where
  "new_queue = \<lparr>holder = None, waiting = 0, clock = 0, place_of = (\<lambda>_. Outside), since = (\<lambda>_. 0)\<rparr>"

definition moved :: "nat \<Rightarrow> place \<Rightarrow> control_queue \<Rightarrow> control_queue" where
  "moved t p s = s\<lparr>place_of := (place_of s)(t := p)\<rparr>"

section \<open>Steps\<close>

text \<open>
  \<open>queue_step wait maxWaiting poll\<close>. Whether the holder is stuck is an answer of the engine; a lock attempt
  that does not wait may fail without a holder.
\<close>

inductive queue_step :: "int \<Rightarrow> int \<Rightarrow> int \<Rightarrow> control_queue \<Rightarrow> control_queue \<Rightarrow> bool" for wait maxWaiting poll where
  locks: "place_of s t = Outside \<Longrightarrow> holder s = None \<Longrightarrow> queue_step wait maxWaiting poll s ((moved t Holding s)\<lparr>holder := Some t\<rparr>)"
| must_wait: "place_of s t = Outside \<Longrightarrow> queue_step wait maxWaiting poll s (moved t Arriving s)"
| counted_in: "place_of s t = Arriving \<Longrightarrow> waiting s < maxWaiting \<Longrightarrow>
    queue_step wait maxWaiting poll s ((moved t Counted s)\<lparr>waiting := waiting s + 1\<rparr>)"
| sets_deadline: "place_of s t = Counted \<Longrightarrow>
    queue_step wait maxWaiting poll s ((moved t (In_loop (clock s + wait)) s)\<lparr>since := (since s)(t := clock s)\<rparr>)"
| too_many: "place_of s t = Arriving \<Longrightarrow> maxWaiting \<le> waiting s \<Longrightarrow>
    queue_step wait maxWaiting poll s ((moved t Turned_away s)\<lparr>waiting := waiting s + 1\<rparr>)"
| turned: "place_of s t = Turned_away \<Longrightarrow>
    queue_step wait maxWaiting poll s ((moved t (Answered Too_many) s)\<lparr>waiting := waiting s - 1\<rparr>)"
| times_out: "place_of s t = In_loop d \<Longrightarrow> d \<le> clock s \<Longrightarrow> queue_step wait maxWaiting poll s (moved t (Uncounting Timed_out) s)"
| looks: "place_of s t = In_loop d \<Longrightarrow> clock s < d \<Longrightarrow> queue_step wait maxWaiting poll s (moved t (Looked d (clock s)) s)"
| sees_stuck: "place_of s t = Looked d now \<Longrightarrow> queue_step wait maxWaiting poll s (moved t (Uncounting Holder_stuck) s)"
| tries: "place_of s t = Looked d now \<Longrightarrow>
    queue_step wait maxWaiting poll s (moved t (Trying d (clock s + (if d - now < poll then d - now else poll))) s)"
| gets: "place_of s t = Trying d u \<Longrightarrow> holder s = None \<Longrightarrow>
    queue_step wait maxWaiting poll s ((moved t (Uncounting Held) s)\<lparr>holder := Some t\<rparr>)"
| tried: "place_of s t = Trying d u \<Longrightarrow> u \<le> clock s \<Longrightarrow> queue_step wait maxWaiting poll s (moved t (In_loop d) s)"
| uncounts: "place_of s t = Uncounting r \<Longrightarrow>
    queue_step wait maxWaiting poll s ((moved t (if r = Held then Holding else Answered r) s)\<lparr>waiting := waiting s - 1\<rparr>)"
| returns: "place_of s t = Answered r \<Longrightarrow> queue_step wait maxWaiting poll s (moved t Outside s)"
| releases: "place_of s t = Holding \<Longrightarrow> queue_step wait maxWaiting poll s ((moved t Outside s)\<lparr>holder := None\<rparr>)"
| passes: "0 \<le> k \<Longrightarrow> queue_step wait maxWaiting poll s (s\<lparr>clock := clock s + k\<rparr>)"

text \<open>What \<open>Engine::enterControl\<close> tells the client; \<open>stuckMillis\<close> is how long the stuck call has lasted.\<close>

definition enterControl_error :: "string \<Rightarrow> int \<Rightarrow> queue_result \<Rightarrow> string option" where
  "enterControl_error stuckName stuckMillis r = (case r of
      Held \<Rightarrow> None
    | Too_many \<Rightarrow> Some (''four other changes to this source are already waiting; nothing was changed '' @ em_dash @ '' try again when they are done'')
    | Holder_stuck \<Rightarrow> Some (''the change in progress on this source is stuck inside output '' @ quoted stuckName @ [CHR 0x27] @
        ''s driver (for '' @ dec_int (stuckMillis sdiv 1000) @ '' s); nothing was changed'')
    | Timed_out \<Rightarrow> Some (''another change to this source'' @ [CHR 0x27] @ ''s outputs has been in progress for 30 s '' @ em_dash @
        '' if this persists, an output'' @ [CHR 0x27] @ ''s driver may have stopped answering (see the '' @ double_quoted ''stale'' @
        '' outputs in /api/state)''))"

section \<open>Invariant\<close>

definition counts :: "place \<Rightarrow> bool" where
  "counts p = (case p of Turned_away \<Rightarrow> True | Counted \<Rightarrow> True | In_loop _ \<Rightarrow> True | Looked _ _ \<Rightarrow> True | Trying _ _ \<Rightarrow> True | Uncounting _ \<Rightarrow> True | _ \<Rightarrow> False)"

definition in_line :: "place \<Rightarrow> bool" where
  "in_line p \<longleftrightarrow> counts p \<and> p \<noteq> Turned_away"

definition has_lock :: "place \<Rightarrow> bool" where
  "has_lock p \<longleftrightarrow> p = Holding \<or> p = Uncounting Held"

abbreviation threads_at :: "(place \<Rightarrow> bool) \<Rightarrow> control_queue \<Rightarrow> nat set" where
  "threads_at P s \<equiv> {t. P (place_of s t)}"

definition counted :: "int \<Rightarrow> control_queue \<Rightarrow> bool" where
  "counted maxWaiting s \<longleftrightarrow> finite (threads_at counts s) \<and> waiting s = int (card (threads_at counts s)) \<and>
     int (card (threads_at in_line s)) \<le> maxWaiting"

definition locked :: "control_queue \<Rightarrow> bool" where
  "locked s \<longleftrightarrow> (\<forall>t. has_lock (place_of s t) \<longleftrightarrow> control_queue.holder s = Some t)"

text \<open>A waiter's deadline stays the one it began with, an attempt ends in time, and nobody times out early.\<close>

definition in_time :: "int \<Rightarrow> int \<Rightarrow> control_queue \<Rightarrow> bool" where
  "in_time wait poll s \<longleftrightarrow> (\<forall>t d u.
     (place_of s t = In_loop d \<or> place_of s t = Looked d u \<or> place_of s t = Trying d u \<longrightarrow>
        d = since s t + wait \<and> since s t \<le> clock s) \<and>
     (place_of s t = Trying d u \<longrightarrow> u \<le> clock s + poll) \<and>
     (place_of s t = Uncounting Timed_out \<or> place_of s t = Answered Timed_out \<longrightarrow> since s t + wait \<le> clock s))"

definition queue_inv :: "int \<Rightarrow> int \<Rightarrow> int \<Rightarrow> control_queue \<Rightarrow> bool" where
  "queue_inv wait maxWaiting poll s \<longleftrightarrow> counted maxWaiting s \<and> locked s \<and> in_time wait poll s"

lemma moved_simps [simp]: "control_queue.holder (moved t p s) = control_queue.holder s" "waiting (moved t p s) = waiting s"
  "clock (moved t p s) = clock s" "since (moved t p s) = since s"
  by (simp_all add: moved_def)

lemma place_of_moved: "place_of (moved t p s) x = (if x = t then p else place_of s x)"
  by (simp add: moved_def)

lemma threads_moved: "threads_at P (moved t p s) = (if P p then insert t (threads_at P s) else threads_at P s - {t})"
  by (auto simp: place_of_moved)

lemma card_changed:
  "finite A \<Longrightarrow> int (card (if b then insert t A else A - {t})) = int (card A) + (if b then 1 else 0) - (if t \<in> A then 1 else 0)"
  using card_gt_0_iff [of A] by (auto simp: card_insert_if card_Diff_singleton_if of_nat_diff)

lemma card_moved:
  "finite (threads_at P s) \<Longrightarrow> int (card (threads_at P (moved t p s))) =
     int (card (threads_at P s)) + (if P p then 1 else 0) - (if P (place_of s t) then 1 else 0)"
  unfolding threads_moved card_changed by simp

lemma in_line_counts: "finite (threads_at counts s) \<Longrightarrow> finite (threads_at in_line s)"
  by (rule finite_subset [rotated]) (auto simp: in_line_def)

lemma in_line_le: "finite (threads_at counts s) \<Longrightarrow> card (threads_at in_line s) \<le> card (threads_at counts s)"
  by (rule card_mono) (auto simp: in_line_def)

lemma counted_moved:
  assumes "counted maxWaiting s" "w = waiting s + (if counts p then 1 else 0) - (if counts (place_of s t) then 1 else 0)"
    and "in_line p \<Longrightarrow> in_line (place_of s t) \<or> waiting s < maxWaiting"
  shows "counted maxWaiting ((moved t p s)\<lparr>waiting := w\<rparr>)"
proof -
  have f: "finite (threads_at counts s)" using assms(1) by (simp add: counted_def)
  have "finite (threads_at counts (moved t p s))" using f unfolding threads_moved by simp
  moreover have "w = int (card (threads_at counts (moved t p s)))" using assms(1,2) card_moved [OF f] by (simp add: counted_def)
  moreover have "int (card (threads_at in_line (moved t p s))) \<le> maxWaiting"
    using assms(1,3) card_moved [OF in_line_counts [OF f]] in_line_le [OF f] by (auto simp: counted_def)
  ultimately show ?thesis by (simp add: counted_def)
qed

lemma counted_still:
  "counted maxWaiting (s\<lparr>control_queue.holder := h\<rparr>) = counted maxWaiting s" "counted maxWaiting (s\<lparr>clock := c\<rparr>) = counted maxWaiting s"
  "counted maxWaiting (s\<lparr>since := z\<rparr>) = counted maxWaiting s"
  by (simp_all add: counted_def)

lemma same_waiting: "waiting s = w \<Longrightarrow> (moved t p s)\<lparr>waiting := w\<rparr> = moved t p s"
  by (cases s) (simp add: moved_def)

lemma counted_in_step: "queue_step wait maxWaiting poll s s' \<Longrightarrow> counted maxWaiting s \<Longrightarrow> counted maxWaiting s'"
proof (induction rule: queue_step.induct)
  case (locks s t)
  then show ?case using counted_moved [of maxWaiting s "waiting s" Holding t] by (simp add: counted_still same_waiting counts_def in_line_def)
next
  case (must_wait s t)
  then show ?case using counted_moved [of maxWaiting s "waiting s" Arriving t] by (simp add: same_waiting counts_def in_line_def)
next
  case (counted_in s t)
  then show ?case by (intro counted_moved) (simp_all add: counts_def in_line_def)
next
  case (too_many s t)
  then show ?case by (intro counted_moved) (simp_all add: counts_def in_line_def)
next
  case (turned s t)
  then show ?case by (intro counted_moved) (simp_all add: counts_def in_line_def)
next
  case (times_out s t d)
  then show ?case using counted_moved [of maxWaiting s "waiting s" "Uncounting Timed_out" t] by (simp add: same_waiting counts_def in_line_def)
next
  case (sets_deadline s t)
  then show ?case using counted_moved [of maxWaiting s "waiting s" "In_loop d" t for d] by (simp add: counted_still same_waiting counts_def in_line_def)
next
  case (looks s t d)
  then show ?case using counted_moved [of maxWaiting s "waiting s" "Looked d n" t for n] by (simp add: same_waiting counts_def in_line_def)
next
  case (sees_stuck s t d n)
  then show ?case using counted_moved [of maxWaiting s "waiting s" "Uncounting Holder_stuck" t] by (simp add: same_waiting counts_def in_line_def)
next
  case (tries s t d n)
  then show ?case using counted_moved [of maxWaiting s "waiting s" "Trying d u" t for u] by (simp add: same_waiting counts_def in_line_def)
next
  case (gets s t d u)
  then show ?case using counted_moved [of maxWaiting s "waiting s" "Uncounting Held" t] by (simp add: counted_still same_waiting counts_def in_line_def)
next
  case (tried s t d u)
  then show ?case using counted_moved [of maxWaiting s "waiting s" "In_loop d" t] by (simp add: same_waiting counts_def in_line_def)
next
  case (uncounts s t r)
  then show ?case by (intro counted_moved) (simp_all add: counts_def in_line_def)
next
  case (returns s t r)
  then show ?case using counted_moved [of maxWaiting s "waiting s" Outside t] by (simp add: same_waiting counts_def in_line_def)
next
  case (releases s t)
  then show ?case using counted_moved [of maxWaiting s "waiting s" Outside t] by (simp add: counted_still same_waiting counts_def in_line_def)
qed (simp add: counted_still)

lemma locked_moved: "locked s \<Longrightarrow> has_lock p = has_lock (place_of s t) \<Longrightarrow> locked (moved t p s)"
  by (simp add: locked_def place_of_moved)

lemma locked_taken: "locked s \<Longrightarrow> control_queue.holder s = None \<Longrightarrow> has_lock p \<Longrightarrow> locked ((moved t p s)\<lparr>control_queue.holder := Some t\<rparr>)"
  by (auto simp: locked_def place_of_moved)

lemma locked_left: "locked s \<Longrightarrow> has_lock (place_of s t) \<Longrightarrow> \<not> has_lock p \<Longrightarrow> locked ((moved t p s)\<lparr>control_queue.holder := None\<rparr>)"
  by (auto simp: locked_def place_of_moved)

lemma locked_still: "locked (s\<lparr>waiting := w\<rparr>) = locked s" "locked (s\<lparr>clock := c\<rparr>) = locked s" "locked (s\<lparr>since := z\<rparr>) = locked s"
  by (simp_all add: locked_def)

lemma locked_step: "queue_step wait maxWaiting poll s s' \<Longrightarrow> locked s \<Longrightarrow> locked s'"
  by (induction rule: queue_step.induct)
    (simp_all add: locked_moved locked_taken locked_left locked_still has_lock_def)

lemma in_time_step: "queue_step wait maxWaiting poll s s' \<Longrightarrow> in_time wait poll s \<Longrightarrow> in_time wait poll s'"
  by (induction rule: queue_step.induct) (fastforce simp: in_time_def place_of_moved)+

interpretation queue: transition_system "queue_step wait maxWaiting poll" "queue_inv wait maxWaiting poll" for wait maxWaiting poll
  by unfold_locales (meson counted_in_step locked_step in_time_step queue_inv_def)

lemma new_queue_inv: "0 \<le> maxWaiting \<Longrightarrow> queue_inv wait maxWaiting poll new_queue"
  by (simp add: queue_inv_def counted_def locked_def in_time_def new_queue_def counts_def in_line_def has_lock_def)

section \<open>Properties\<close>


text \<open>How a waiter whose deadline has passed gets away, in the loop and in an attempt at the lock.\<close>

definition gives_up :: "nat \<Rightarrow> control_queue \<Rightarrow> control_queue \<Rightarrow> bool" where
  "gives_up t s s' \<longleftrightarrow> place_of s' t = Answered Timed_out \<and> waiting s' = waiting s - 1 \<and>
     (\<forall>x. x \<noteq> t \<longrightarrow> place_of s' x = place_of s x)"

lemma late_in_loop:
  assumes "place_of s t = In_loop d" "d \<le> clock s"
  shows "\<exists>s'. (queue_step wait maxWaiting poll)\<^sup>*\<^sup>* s s' \<and> gives_up t s s' \<and> clock s' = clock s"
proof -
  let ?s1 = "moved t (Uncounting Timed_out) s"
  let ?s2 = "(moved t (Answered Timed_out) ?s1)\<lparr>waiting := waiting s - 1\<rparr>"
  have "queue_step wait maxWaiting poll s ?s1" by (rule times_out [OF assms])
  moreover have "queue_step wait maxWaiting poll ?s1 ?s2" using uncounts [of ?s1 t Timed_out] by (simp add: place_of_moved)
  ultimately have "(queue_step wait maxWaiting poll)\<^sup>*\<^sup>* s ?s2" by (meson rtranclp.rtrancl_into_rtrancl rtranclp.rtrancl_refl)
  then show ?thesis by (intro exI [of _ ?s2]) (simp add: gives_up_def place_of_moved)
qed

lemma late_trying:
  assumes "place_of s t = Trying d u" "d \<le> clock s" "u \<le> clock s + poll" "0 \<le> poll"
  shows "\<exists>s'. (queue_step wait maxWaiting poll)\<^sup>*\<^sup>* s s' \<and> gives_up t s s' \<and> clock s' \<le> clock s + poll"
proof -
  let ?s1 = "s\<lparr>clock := clock s + max 0 (u - clock s)\<rparr>"
  let ?s2 = "moved t (In_loop d) ?s1"
  have "queue_step wait maxWaiting poll s ?s1" by (rule passes) simp
  moreover have "queue_step wait maxWaiting poll ?s1 ?s2" by (rule tried [where u = u]) (use assms(1) in simp_all)
  moreover obtain s' where "(queue_step wait maxWaiting poll)\<^sup>*\<^sup>* ?s2 s'" "gives_up t ?s2 s'" "clock s' = clock ?s2"
    using late_in_loop [of ?s2 t d] assms(2) by (force simp: place_of_moved)
  ultimately show ?thesis
    using assms(3,4) by (intro exI [of _ s']) (auto simp: gives_up_def place_of_moved intro: converse_rtranclp_into_rtranclp)
qed

text \<open>
  C31: a waiter whose deadline has passed is told so by its own next steps, whatever the others do, and
  within one \<open>poll\<close>.
\<close>

theorem waiter_answered:
  assumes "(queue_step wait maxWaiting poll)\<^sup>*\<^sup>* new_queue s" "0 \<le> maxWaiting" "0 \<le> poll"
    and "place_of s t = In_loop d \<or> place_of s t = Looked d now \<or> place_of s t = Trying d u" "d \<le> clock s"
  shows "\<exists>s'. (queue_step wait maxWaiting poll)\<^sup>*\<^sup>* s s' \<and> place_of s' t = Answered Timed_out \<and>
    waiting s' = waiting s - 1 \<and> (\<forall>x. x \<noteq> t \<longrightarrow> place_of s' x = place_of s x) \<and> clock s' \<le> clock s + poll"
proof -
  have i: "in_time wait poll s"
    using queue.reachable_inv [OF assms(1) new_queue_inv [OF assms(2)]] by (simp add: queue_inv_def)
  from assms(4) have "\<exists>s'. (queue_step wait maxWaiting poll)\<^sup>*\<^sup>* s s' \<and> gives_up t s s' \<and> clock s' \<le> clock s + poll"
  proof (elim disjE)
    assume "place_of s t = In_loop d"
    then show ?thesis using late_in_loop [of s t d] assms(3,5) by fastforce
  next
    assume l: "place_of s t = Looked d now"
    let ?u = "clock s + (if d - now < poll then d - now else poll)"
    have u: "?u \<le> clock s + poll" by simp
    have "queue_step wait maxWaiting poll s (moved t (Trying d ?u) s)" by (rule tries [OF l])
    moreover obtain s' where "(queue_step wait maxWaiting poll)\<^sup>*\<^sup>* (moved t (Trying d ?u) s) s'"
        "gives_up t (moved t (Trying d ?u) s) s'" "clock s' \<le> clock s + poll"
      using late_trying [of "moved t (Trying d ?u) s" t d ?u poll] assms(3,5) u
      by (auto simp: place_of_moved split del: if_split)
    ultimately show ?thesis
      by (intro exI [of _ s']) (auto simp: gives_up_def place_of_moved intro: converse_rtranclp_into_rtranclp)
  next
    assume "place_of s t = Trying d u"
    then show ?thesis using late_trying [of s t d u poll] i assms(3,5) by (force simp: in_time_def)
  qed
  then show ?thesis by (simp add: gives_up_def)
qed

text \<open>One thread holds the lock, another has tried for it and come to the end of its 30 seconds.\<close>

definition queued_two :: control_queue where
  "queued_two = \<lparr>holder = Some 0, waiting = 1, clock = 30, place_of = (\<lambda>_. Outside)(0 := Holding, 1 := In_loop 30),
     since = (\<lambda>_. 0)\<rparr>"

lemma queued_two_reached: "(queue_step 30 4 1)\<^sup>*\<^sup>* new_queue queued_two"
proof -
  define s1 where "s1 = (moved 0 Holding new_queue)\<lparr>control_queue.holder := Some 0\<rparr>"
  define s2 where "s2 = moved 1 Arriving s1"
  define s3 where "s3 = (moved 1 Counted s2)\<lparr>waiting := 1\<rparr>"
  define s4 where "s4 = (moved 1 (In_loop 30) s3)\<lparr>since := (\<lambda>_. 0)\<rparr>"
  define s5 where "s5 = moved 1 (Looked 30 0) s4"
  define s6 where "s6 = moved 1 (Trying 30 1) s5"
  define s7 where "s7 = s6\<lparr>clock := 30\<rparr>"
  note ds = s1_def s2_def s3_def s4_def s5_def s6_def s7_def new_queue_def moved_def
  have "queue_step 30 4 1 new_queue s1" unfolding s1_def by (rule locks) (simp_all add: new_queue_def)
  moreover have "queue_step 30 4 1 s1 s2" unfolding s2_def by (rule must_wait) (simp add: ds)
  moreover have "queue_step 30 4 1 s2 s3" using counted_in [of s2 1 4 30 1] by (simp add: ds)
  moreover have "queue_step 30 4 1 s3 s4" using sets_deadline [of s3 1 30 4 1] by (simp add: ds fun_upd_idem)
  moreover have "queue_step 30 4 1 s4 s5" using looks [of s4 1 30 30 4 1] by (simp add: ds)
  moreover have "queue_step 30 4 1 s5 s6" using tries [of s5 1 30 0 30 4 1] by (simp add: ds)
  moreover have "queue_step 30 4 1 s6 s7" using passes [of 30 30 4 1 s6] by (simp add: ds)
  moreover have "queue_step 30 4 1 s7 queued_two" using tried [of s7 1 30 1 30 4 1] by (simp add: ds queued_two_def)
  ultimately show ?thesis by (meson rtranclp.rtrancl_into_rtrancl rtranclp.rtrancl_refl)
qed


theorem waiter_answered_witness:
  "\<exists>s'. (queue_step 30 4 1)\<^sup>*\<^sup>* queued_two s' \<and> place_of s' 1 = Answered Timed_out \<and> waiting s' = 0"
  using waiter_answered [OF queued_two_reached, of 1 30] by (auto simp: queued_two_def)

end
