(* ===== verification/Output_Options.thy ===== *)
theory Output_Options
  imports Json
begin

text \<open>
  The options of an output as its backend reads them (\<open>outputs/output.cpp\<close>): a value of the wrong type
  gives the fallback.
\<close>

definition optionString :: "json \<Rightarrow> string \<Rightarrow> string \<Rightarrow> string" where
  "optionString options key fallback = asString fallback (get_key options key)"

definition optionInt :: "json \<Rightarrow> string \<Rightarrow> int \<Rightarrow> int" where
  "optionInt options key fallback =
     (if isNumber (get_key options key) then asInt fallback (get_key options key) else fallback)"

definition optionBool :: "json \<Rightarrow> string \<Rightarrow> bool \<Rightarrow> bool" where
  "optionBool options key fallback =
     (if get_key options key = Null then fallback else asBool fallback (get_key options key))"

end
