(* ===== verification/Stream_Output.thy ===== *)
theory Stream_Output
  imports Stream_Args Output_Options "HOL-Library.Sublist"
begin

text \<open>
  \<open>outputs/stream_output.cpp\<close>: ticks queued by the clock, written to the encoder by two threads. The
  sockets and the encoder are the nondeterminism of the step relation: an accept or a write ends well or
  badly. The engine makes one call into an output at a time, so one caller is a location of the state.
\<close>

section \<open>Options\<close>

definition streamSettingsFrom :: "json \<Rightarrow> stream_settings" where
  "streamSettingsFrom options =
     \<lparr>stream_url = optionString options ''url'' [], container = optionString options ''container'' [],
      ffmpegPath = optionString options ''ffmpeg'' ''ffmpeg'', videoCodec = optionString options ''codec'' ''libx264'',
      videoBitrate = optionString options ''bitrate'' ''6000k'', preset = optionString options ''preset'' ''veryfast'',
      tune = optionString options ''tune'' [], gopSeconds = Fin (of_int (optionInt options ''gop_seconds'' 2)),
      audioCodec = optionString options ''audio_codec'' ''aac'', audioBitrate = optionString options ''audio_bitrate'' ''128k'',
      audioChannels = optionInt options ''audio_channels'' 2, audioSampleRate = optionInt options ''audio_sample_rate'' 48000,
      extraArgs = []\<rparr>"

section \<open>State\<close>

record stream_block =
  ab_frames :: int
  ab_channels :: int
  ab_rate :: int
  interleaved :: "double list option"

definition ab_valid :: "stream_block \<Rightarrow> bool" where
  "ab_valid b \<longleftrightarrow> 0 < ab_frames b \<and> 0 < ab_channels b \<and> 0 < ab_rate b"

text \<open>One tick: a picture and the audio that belongs with it.\<close>

type_synonym tick = "string \<times> double list"

datatype video_at = V_accept | V_wait | V_write tick | V_hand "double list" | V_leave | V_gone

datatype audio_at = A_accept | A_wait | A_write "double list" | A_gone

datatype caller_at = Idle | Pushing tick | Joining | Joined

text \<open>
  \<open>joinable\<close> is whether the thread objects still hold a thread, ended or not. \<open>submitted\<close>, \<open>shown\<close> and
  \<open>heard\<close> record what was queued and what reached the encoder since the last start.
\<close>

record stream =
  stream_cfg :: stream_settings
  stream_format :: video_format
  frameBytes :: int
  s_running :: bool
  joinable :: bool
  caller :: caller_at
  video :: video_at
  audio :: audio_at
  queue :: "tick list"
  pendingAudio :: "double list list"
  stopping :: bool
  videoDrained :: bool
  videoConnected :: bool
  audioConnected :: bool
  frames :: int
  audioSamples :: int
  dropped :: int
  stream_error :: string
  mismatchLogged :: bool
  submitted :: "tick list"
  shown :: "tick list"
  heard :: "double list list"

definition kMaxQueuedTicks :: nat where "kMaxQueuedTicks = 30"

definition kMaxPendingAudio :: nat where "kMaxPendingAudio = 250"

section \<open>Starting and stopping\<close>

text \<open>A default-constructed output: nothing queued, no threads.\<close>

definition new_stream :: stream where
  "new_stream = \<lparr>stream_cfg = streamSettingsFrom (Object []), stream_format = \<lparr>width = 1920, height = 1080, rate = \<lparr>numerator = 25, denominator = 1\<rparr>, interlaced = False\<rparr>,
     frameBytes = 0, s_running = False, joinable = False, caller = Joined, video = V_gone, audio = A_gone, queue = [], pendingAudio = [],
     stopping = False, videoDrained = False, videoConnected = False, audioConnected = False, frames = 0, audioSamples = 0,
     dropped = 0, stream_error = [], mismatchLogged = False, submitted = [], shown = [], heard = []\<rparr>"

text \<open>
  \<open>start\<close>: the ports the listeners got (0 for none) and why the encoder cannot be spawned are answers of
  the system. Assigning to a thread object that still holds a thread ends the process.
\<close>

datatype start_result = Refused string stream | Started stream | Terminated

definition stream_start :: "json \<Rightarrow> video_format \<Rightarrow> int \<Rightarrow> int \<Rightarrow> string option \<Rightarrow> stream \<Rightarrow> start_result" where
  "stream_start options f videoPort audioPort spawn_error s =
     (let settings = streamSettingsFrom options;
          s1 = s\<lparr>stream_cfg := settings, stream_format := f, frameBytes := width f * height f * 2\<rparr>
      in if stream_url settings = [] then Refused ''a stream output needs a url option, e.g. rtmp://host:1935/live/key'' s
         else if videoPort = 0 \<or> audioPort = 0 then Refused ''could not open a loopback socket for ffmpeg'' s1
         else case spawn_error of
           Some e \<Rightarrow> Refused e s1
         | None \<Rightarrow> if joinable s then Terminated
             else Started (s1\<lparr>stopping := False, videoDrained := False, videoConnected := False, audioConnected := False,
                 joinable := True, video := V_accept, audio := A_accept, s_running := True, caller := Idle,
                 submitted := [], shown := [], heard := []\<rparr>))"

section \<open>The clock's side\<close>

text \<open>\<open>std::vector::assign\<close> of more bytes than an allocation can hold throws (\<open>None\<close>).\<close>

definition expectedAudioFrames :: "stream \<Rightarrow> int" where
  "expectedAudioFrames s =
     (let r = rate (stream_format s)
      in if numerator r \<le> 0 then 0 else i32 ((audioSampleRate (stream_cfg s) * denominator r) sdiv numerator r))"

definition silence_for :: "int \<Rightarrow> int \<Rightarrow> double list option" where
  "silence_for n channels =
     (let bytes = ((n mod 2 ^ 64) * (channels mod 2 ^ 64) * 4) mod 2 ^ 64
      in if bytes < 2 ^ 63 then Some (replicate (nat (bytes div 4)) (Fin 0)) else None)"

definition tick_of :: "stream \<Rightarrow> string \<Rightarrow> stream_block \<Rightarrow> (tick \<times> bool) option" where
  "tick_of s picture b =
     (case (if ab_valid b \<and> ab_channels b = audioChannels (stream_cfg s) then interleaved b else None) of
        Some samples \<Rightarrow> Some ((picture, take (nat (ab_frames b * ab_channels b)) samples), mismatchLogged s)
      | None \<Rightarrow>
          map_option (\<lambda>quiet. ((picture, quiet),
              mismatchLogged s \<or> ab_valid b \<and> ab_channels b \<noteq> audioChannels (stream_cfg s)))
            (silence_for (if ab_valid b then ab_frames b else expectedAudioFrames s) (audioChannels (stream_cfg s))))"

definition push_tick :: "tick \<Rightarrow> stream \<Rightarrow> stream" where
  "push_tick t s =
     (if kMaxQueuedTicks \<le> length (queue s)
      then s\<lparr>queue := tl (queue s) @ [t], dropped := dropped s + 1, submitted := submitted s @ [t]\<rparr>
      else s\<lparr>queue := queue s @ [t], submitted := submitted s @ [t]\<rparr>)"

text \<open>Bytes in a sample frame, the divisor of \<open>audioSamples_\<close>: with no channels it is zero, and the division ends the process.\<close>

definition sample_divisor :: "stream \<Rightarrow> int" where
  "sample_divisor s = (4 * (audioChannels (stream_cfg s) mod 2 ^ 64)) mod 2 ^ 64"

section \<open>Steps\<close>

definition fail :: "string \<Rightarrow> stream \<Rightarrow> stream" where
  "fail reason s = s\<lparr>stream_error := (if stream_error s = [] then reason else stream_error s), s_running := False, stopping := True\<rparr>"

text \<open>
  Each critical section, accept and write of the two writers and the caller. Queueing is in two steps, as
  \<open>running_\<close> is read before the lock is taken. \<open>stop\<close> sets both flags, then joins.
\<close>

inductive stream_step :: "stream \<Rightarrow> stream \<Rightarrow> bool" where
  submits: "caller s = Idle \<Longrightarrow> s_running s \<Longrightarrow> int (length picture) = frameBytes s \<Longrightarrow> tick_of s picture b = Some (t, logged) \<Longrightarrow>
    stream_step s (s\<lparr>caller := Pushing t, mismatchLogged := logged\<rparr>)"
| pushes: "caller s = Pushing t \<Longrightarrow> stream_step s ((push_tick t s)\<lparr>caller := Idle\<rparr>)"
| stop_asked: "caller s = Idle \<Longrightarrow> stream_step s (s\<lparr>caller := Joining, s_running := False, stopping := True\<rparr>)"
| joined: "caller s = Joining \<Longrightarrow> video s = V_gone \<Longrightarrow> audio s = A_gone \<Longrightarrow>
    stream_step s (s\<lparr>caller := Joined, joinable := False, videoConnected := False, audioConnected := False\<rparr>)"
| video_accepted: "video s = V_accept \<Longrightarrow> stream_step s (s\<lparr>video := V_wait, videoConnected := True\<rparr>)"
| video_not_accepted: "video s = V_accept \<Longrightarrow>
    stream_step s ((fail ''ffmpeg never connected to the video socket'' s)\<lparr>video := V_leave\<rparr>)"
| video_takes: "video s = V_wait \<Longrightarrow> queue s = t # rest \<Longrightarrow> stream_step s (s\<lparr>video := V_write t, queue := rest\<rparr>)"
| video_finished: "video s = V_wait \<Longrightarrow> queue s = [] \<Longrightarrow> stopping s \<Longrightarrow> stream_step s (s\<lparr>video := V_leave\<rparr>)"
| video_written: "video s = V_write t \<Longrightarrow>
    stream_step s (s\<lparr>video := V_hand (snd t), frames := frames s + 1, shown := shown s @ [t]\<rparr>)"
| video_not_written: "video s = V_write t \<Longrightarrow>
    stream_step s ((fail ''ffmpeg closed the video connection'' s)\<lparr>video := V_leave\<rparr>)"
| video_hands: "video s = V_hand block \<Longrightarrow> length (pendingAudio s) < kMaxPendingAudio \<Longrightarrow>
    stream_step s (s\<lparr>video := V_wait, pendingAudio := pendingAudio s @ [block]\<rparr>)"
| video_backlogged: "video s = V_hand block \<Longrightarrow> kMaxPendingAudio \<le> length (pendingAudio s) \<Longrightarrow>
    stream_step s ((fail ''ffmpeg never read any audio'' s)\<lparr>video := V_leave\<rparr>)"
| video_leaves: "video s = V_leave \<Longrightarrow> stream_step s (s\<lparr>video := V_gone, videoDrained := True\<rparr>)"
| audio_accepted: "audio s = A_accept \<Longrightarrow> stream_step s (s\<lparr>audio := A_wait, audioConnected := True\<rparr>)"
| audio_not_accepted: "audio s = A_accept \<Longrightarrow>
    stream_step s ((fail ''ffmpeg never connected to the audio socket'' s)\<lparr>audio := A_gone\<rparr>)"
| audio_takes: "audio s = A_wait \<Longrightarrow> pendingAudio s = block # rest \<Longrightarrow>
    stream_step s (s\<lparr>audio := A_write block, pendingAudio := rest\<rparr>)"
| audio_finished: "audio s = A_wait \<Longrightarrow> pendingAudio s = [] \<Longrightarrow> stopping s \<Longrightarrow> videoDrained s \<Longrightarrow>
    stream_step s (s\<lparr>audio := A_gone\<rparr>)"
| audio_written: "audio s = A_write block \<Longrightarrow> sample_divisor s \<noteq> 0 \<Longrightarrow>
    stream_step s (s\<lparr>audio := A_wait, heard := heard s @ [block],
      audioSamples := audioSamples s + 4 * int (length block) div sample_divisor s\<rparr>)"
| audio_not_written: "audio s = A_write block \<Longrightarrow> block \<noteq> [] \<Longrightarrow>
    stream_step s ((fail ''ffmpeg closed the audio connection'' s)\<lparr>audio := A_gone\<rparr>)"

inductive_cases stream_stepE: "stream_step s s'"

section \<open>Invariant\<close>

text \<open>What the video thread holds, what it has still to hand over, what the audio thread holds.\<close>

definition held_tick :: "stream \<Rightarrow> tick list" where
  "held_tick s = (case video s of V_write t \<Rightarrow> [t] | _ \<Rightarrow> [])"

definition held_audio :: "stream \<Rightarrow> double list list" where
  "held_audio s = heard s @ (case audio s of A_write b \<Rightarrow> [b] | _ \<Rightarrow> []) @ pendingAudio s @
     (case video s of V_hand b \<Rightarrow> [b] | _ \<Rightarrow> [])"

definition video_ended :: "stream \<Rightarrow> bool" where
  "video_ended s \<longleftrightarrow> video s = V_leave \<or> video s = V_gone"

definition in_sync :: "stream \<Rightarrow> bool" where
  "in_sync s \<longleftrightarrow> subseq (shown s @ held_tick s @ queue s) (submitted s) \<and>
     (audio s \<noteq> A_gone \<longrightarrow> prefix (held_audio s) (map snd (shown s)) \<and> (\<not> video_ended s \<longrightarrow> held_audio s = map snd (shown s))) \<and>
     prefix (heard s) (map snd (shown s)) \<and>
     (videoDrained s \<longleftrightarrow> video s = V_gone)"

text \<open>As long as nothing has failed.\<close>

definition nothing_lost :: "stream \<Rightarrow> bool" where
  "nothing_lost s \<longleftrightarrow> (stream_error s = [] \<longrightarrow>
     held_audio s = map snd (shown s) \<and>
     int (length (submitted s)) = int (length (shown s @ held_tick s @ queue s)) + dropped s \<and>
     (stopping s \<longleftrightarrow> caller s = Joining \<or> caller s = Joined) \<and>
     (video_ended s \<longrightarrow> stopping s \<and> queue s = []) \<and>
     (audio s = A_gone \<longrightarrow> pendingAudio s = [] \<and> video s = V_gone))"

definition joins_in_order :: "stream \<Rightarrow> bool" where
  "joins_in_order s \<longleftrightarrow> (caller s = Joining \<or> caller s = Joined \<longrightarrow> stopping s) \<and>
     (caller s = Joined \<longrightarrow> video s = V_gone \<and> audio s = A_gone)"

definition stream_inv :: "stream \<Rightarrow> bool" where
  "stream_inv s \<longleftrightarrow> in_sync s \<and> nothing_lost s \<and> joins_in_order s"

lemma subseq_newest: "subseq xs ys \<Longrightarrow> subseq (xs @ [t]) (ys @ [t])"
  by (simp add: subseq_append')

lemma subseq_without: "subseq (xs @ ys @ zs) us \<Longrightarrow> subseq (xs @ zs) us"
  by (meson list_emb_append2 subseq_append_iff subseq_order.order_refl subseq_order.trans)

lemma subseq_tl: "subseq (xs @ ys) us \<Longrightarrow> subseq (xs @ tl ys) us"
  using subseq_without [of xs "take 1 ys" "tl ys" us] by (cases ys) auto

lemma push_in_sync: "in_sync s \<Longrightarrow> in_sync (push_tick t s)"
  using subseq_newest [of "shown s @ held_tick s @ queue s" "submitted s" t]
    subseq_newest [of "shown s @ held_tick s @ tl (queue s)" "submitted s" t]
    subseq_tl [of "shown s @ held_tick s" "queue s" "submitted s"]
  by (auto simp: in_sync_def push_tick_def held_tick_def held_audio_def video_ended_def)

lemma in_sync_step: "stream_step s s' \<Longrightarrow> in_sync s \<Longrightarrow> in_sync s'"
proof (induction rule: stream_step.induct)
  case (pushes s t)
  then show ?case using push_in_sync [of s t] by (simp add: in_sync_def held_tick_def held_audio_def video_ended_def)
next
  case (video_not_written s t)
  then show ?case using subseq_without [of "shown s" "[t]" "queue s" "submitted s"]
    by (auto simp: in_sync_def fail_def held_tick_def held_audio_def video_ended_def)
qed (auto simp: in_sync_def fail_def held_tick_def held_audio_def video_ended_def prefix_def)

lemma fail_speaks: "reason \<noteq> [] \<Longrightarrow> nothing_lost (fail reason s)" "reason \<noteq> [] \<Longrightarrow> nothing_lost ((fail reason s)\<lparr>video := v\<rparr>)"
  "reason \<noteq> [] \<Longrightarrow> nothing_lost ((fail reason s)\<lparr>audio := a\<rparr>)"
  by (simp_all add: nothing_lost_def fail_def)

lemma nothing_lost_step: "stream_step s s' \<Longrightarrow> nothing_lost s \<Longrightarrow> videoDrained s = (video s = V_gone) \<Longrightarrow> nothing_lost s'"
proof (induction rule: stream_step.induct)
  case (pushes s t)
  then show ?case
    by (cases "kMaxQueuedTicks \<le> length (queue s)"; cases "queue s")
      (auto simp: nothing_lost_def push_tick_def held_tick_def held_audio_def video_ended_def kMaxQueuedTicks_def)
next
  case (video_takes s t rest)
  then show ?case by (auto simp: nothing_lost_def held_tick_def held_audio_def video_ended_def)
next
  case (audio_takes s b rest)
  then show ?case by (auto simp: nothing_lost_def held_tick_def held_audio_def video_ended_def)
qed (simp_all add: fail_speaks, (simp_all add: nothing_lost_def held_tick_def held_audio_def video_ended_def)?, (fastforce)+)

lemma joins_in_order_step: "stream_step s s' \<Longrightarrow> joins_in_order s \<Longrightarrow> joins_in_order s'"
  by (induction rule: stream_step.induct) (simp_all add: joins_in_order_def fail_def push_tick_def)

interpretation stream: transition_system stream_step stream_inv
  proof unfold_locales
  fix s t assume s: "stream_inv s" "stream_step s t"
  then have "videoDrained s = (video s = V_gone)" by (simp add: stream_inv_def in_sync_def)
  with s show "stream_inv t" using in_sync_step nothing_lost_step joins_in_order_step unfolding stream_inv_def by blast
qed

text \<open>A first start of a new output.\<close>

definition first_start :: "json \<Rightarrow> video_format \<Rightarrow> stream \<Rightarrow> bool" where
  "first_start options f s \<longleftrightarrow> (\<exists>videoPort audioPort. stream_start options f videoPort audioPort None new_stream = Started s)"

lemma first_start_facts:
  "first_start options f s \<Longrightarrow> queue s = [] \<and> pendingAudio s = [] \<and> shown s = [] \<and> heard s = [] \<and> submitted s = [] \<and>
     caller s = Idle \<and> video s = V_accept \<and> audio s = A_accept \<and> \<not> stopping s \<and> \<not> videoDrained s \<and> stream_error s = [] \<and>
     dropped s = 0 \<and> s_running s \<and> joinable s"
  by (auto simp: first_start_def stream_start_def new_stream_def Let_def split: if_splits)

lemma first_start_inv: "first_start options f s \<Longrightarrow> stream_inv s"
  by (drule first_start_facts)
    (simp add: stream_inv_def in_sync_def nothing_lost_def joins_in_order_def held_tick_def held_audio_def video_ended_def)

section \<open>Stopping ends\<close>

text \<open>What is left to do once \<open>stop\<close> has been asked for: each remaining step does a part of it.\<close>

definition stop_work :: "stream \<Rightarrow> nat" where
  "stop_work s = 6 * length (queue s) + 2 * length (pendingAudio s) +
     (case video s of V_accept \<Rightarrow> 3 | V_wait \<Rightarrow> 2 | V_write _ \<Rightarrow> 7 | V_hand _ \<Rightarrow> 5 | V_leave \<Rightarrow> 1 | V_gone \<Rightarrow> 0) +
     (case audio s of A_accept \<Rightarrow> 2 | A_wait \<Rightarrow> 1 | A_write _ \<Rightarrow> 2 | A_gone \<Rightarrow> 0) + (if caller s = Joining then 1 else 0)"

lemma stop_work_decreases: "stream_step s s' \<Longrightarrow> caller s = Joining \<Longrightarrow> stop_work s' < stop_work s"
  by (induction rule: stream_step.induct) (simp_all add: stop_work_def fail_def)

lemma joining_stays: "stream_step s s' \<Longrightarrow> caller s = Joining \<Longrightarrow> stopping s \<Longrightarrow> stopping s' \<and> (caller s' = Joining \<or> caller s' = Joined)"
  by (induction rule: stream_step.induct) (simp_all add: fail_def)

lemma same_cfg: "stream_step s s' \<Longrightarrow> stream_cfg s' = stream_cfg s"
  by (induction rule: stream_step.induct) (simp_all add: fail_def push_tick_def)

lemma same_divisor: "stream_step s s' \<Longrightarrow> sample_divisor s' = sample_divisor s"
  using same_cfg by (simp add: sample_divisor_def)

lemma joining_steps:
  assumes "stream_inv s" "caller s = Joining" "stopping s" "sample_divisor s \<noteq> 0"
  shows "\<exists>s'. stream_step s s'"
proof (cases "video s")
  case V_accept
  then show ?thesis using video_accepted by blast
next
  case V_wait
  then show ?thesis using assms(3) video_takes video_finished by (cases "queue s") blast+
next
  case (V_hand b)
  then show ?thesis using video_hands video_backlogged by (meson not_le)
next
  case V_gone
  note v = this
  then have d: "videoDrained s" using assms(1) by (simp add: stream_inv_def in_sync_def)
  show ?thesis
  proof (cases "audio s")
    case A_wait
    then show ?thesis using d assms(3) audio_takes audio_finished by (cases "pendingAudio s") blast+
  qed (use v assms(2,4) audio_accepted audio_written joined in blast)+
qed (use video_written video_leaves in blast)+

lemma stopping_runs:
  assumes "stream_inv s" "caller s = Joining" "stopping s" "sample_divisor s \<noteq> 0"
  shows "\<exists>s'. stream_step\<^sup>*\<^sup>* s s' \<and> caller s' = Joined"
  using assms
proof (induction "stop_work s" arbitrary: s rule: less_induct)
  case less
  obtain s1 where s1: "stream_step s s1" using joining_steps less.prems by blast
  have i: "stream_inv s1" using stream.step_inv s1 less.prems(1) by blast
  have n: "sample_divisor s1 \<noteq> 0" using same_divisor [OF s1] less.prems(4) by simp
  have j: "stopping s1" "caller s1 = Joining \<or> caller s1 = Joined" using joining_stays [OF s1 less.prems(2,3)] by simp_all
  show ?case
  proof (cases "caller s1 = Joining")
    case True
    obtain s' where "stream_step\<^sup>*\<^sup>* s1 s'" "caller s' = Joined"
      using less.hyps [OF stop_work_decreases [OF s1 less.prems(2)] i True j(1) n] by blast
    then show ?thesis using s1 by (meson converse_rtranclp_into_rtranclp)
  qed (use s1 j in blast)
qed

section \<open>Properties\<close>



section \<open>Runs\<close>

text \<open>A tick all the way to the encoder; a block of audio; the end of the video writer.\<close>

lemma one_tick:
  assumes "caller s = Idle" "s_running s" "video s = V_wait" "queue s = []" "int (length picture) = frameBytes s"
    and "tick_of s picture b = Some (t, mismatchLogged s)" "length (pendingAudio s) < kMaxPendingAudio"
  shows "stream_step\<^sup>*\<^sup>* s (s\<lparr>pendingAudio := pendingAudio s @ [snd t], frames := frames s + 1,
    submitted := submitted s @ [t], shown := shown s @ [t]\<rparr>)" (is "stream_step\<^sup>*\<^sup>* _ ?s'")
proof -
  define s1 where "s1 = s\<lparr>caller := Pushing t\<rparr>"
  define s2 where "s2 = s1\<lparr>queue := [t], submitted := submitted s @ [t], caller := Idle\<rparr>"
  define s3 where "s3 = s2\<lparr>video := V_write t, queue := []\<rparr>"
  define s4 where "s4 = s3\<lparr>video := V_hand (snd t), frames := frames s + 1, shown := shown s @ [t]\<rparr>"
  define s5 where "s5 = s4\<lparr>video := V_wait, pendingAudio := pendingAudio s @ [snd t]\<rparr>"
  note ds = s1_def s2_def s3_def s4_def s5_def
  have "stream_step s s1" using submits [OF assms(1,2,5,6)] by (simp add: ds)
  moreover have "stream_step s1 s2" using pushes [of s1 t] assms(4) by (simp add: ds push_tick_def kMaxQueuedTicks_def)
  moreover have "stream_step s2 s3" using video_takes [of s2 t "[]"] assms(3) by (simp add: ds)
  moreover have "stream_step s3 s4" using video_written [of s3 t] by (simp add: ds)
  moreover have "stream_step s4 s5" using video_hands [of s4 "snd t"] assms(7) by (simp add: ds)
  moreover have "s5 = ?s'" using assms(1,3,4) by (simp add: ds)
  ultimately show ?thesis by (metis converse_rtranclp_into_rtranclp rtranclp.rtrancl_refl)
qed

lemma one_block:
  assumes "audio s = A_wait" "pendingAudio s = b # rest" "sample_divisor s \<noteq> 0"
  shows "stream_step\<^sup>*\<^sup>* s (s\<lparr>pendingAudio := rest, heard := heard s @ [b],
    audioSamples := audioSamples s + 4 * int (length b) div sample_divisor s\<rparr>)" (is "stream_step\<^sup>*\<^sup>* _ ?s'")
proof -
  define s1 where "s1 = s\<lparr>audio := A_write b, pendingAudio := rest\<rparr>"
  have "stream_step s s1" using audio_takes [OF assms(1,2)] by (simp add: s1_def)
  moreover have "sample_divisor s1 = sample_divisor s" by (simp add: sample_divisor_def s1_def)
  with assms(3) have "stream_step s1 ?s'" using audio_written [of s1 b] assms(1) by (cases s) (simp add: s1_def)
  ultimately show ?thesis by (metis converse_rtranclp_into_rtranclp rtranclp.rtrancl_refl)
qed

lemma video_stops:
  assumes "caller s = Idle" "video s = V_wait" "queue s = []"
  shows "stream_step\<^sup>*\<^sup>* s (s\<lparr>caller := Joining, s_running := False, stopping := True, video := V_gone, videoDrained := True\<rparr>)" (is "stream_step\<^sup>*\<^sup>* _ ?s'")
proof -
  define s1 where "s1 = s\<lparr>caller := Joining, s_running := False, stopping := True\<rparr>"
  define s2 where "s2 = s1\<lparr>video := V_leave\<rparr>"
  have "stream_step s s1" using stop_asked [OF assms(1)] by (simp add: s1_def)
  moreover have "stream_step s1 s2" using video_finished [of s1] assms(2,3) by (simp add: s1_def s2_def)
  moreover have "stream_step s2 ?s'" using video_leaves [of s2] by (simp add: s1_def s2_def)
  ultimately show ?thesis by (metis converse_rtranclp_into_rtranclp rtranclp.rtrancl_refl)
qed

text \<open>A picture of two pixels, stereo, and a session that sends a tick and stops.\<close>

definition example_options :: json where
  "example_options = Object [(''url'', String ''rtmp://host/live/key'')]"

definition two_pixels :: video_format where
  "two_pixels = \<lparr>width = 2, height = 1, rate = \<lparr>numerator = 25, denominator = 1\<rparr>, interlaced = False\<rparr>"

definition block_of :: "double list \<Rightarrow> stream_block" where
  "block_of samples = \<lparr>ab_frames = 1, ab_channels = 2, ab_rate = 48000, interleaved = Some samples\<rparr>"

definition start_of :: "stream \<Rightarrow> stream" where
  "start_of s = (case stream_start example_options two_pixels 5001 5002 None s of Started s' \<Rightarrow> s' | _ \<Rightarrow> s)"

lemma start_of_first: "first_start example_options two_pixels (start_of new_stream)"
  unfolding first_start_def
  by (rule exI [of _ 5001], rule exI [of _ 5002])
    (simp add: start_of_def stream_start_def new_stream_def example_options_def streamSettingsFrom_def optionString_def
      get_key_def asString_def Let_def)

lemma start_of_state:
  "\<not> joinable s \<Longrightarrow> start_of s = s\<lparr>stream_cfg := streamSettingsFrom example_options, stream_format := two_pixels, frameBytes := 4,
     stopping := False, videoDrained := False, videoConnected := False, audioConnected := False, joinable := True,
     video := V_accept, audio := A_accept, s_running := True, caller := Idle, submitted := [], shown := [], heard := []\<rparr>"
  by (simp add: start_of_def stream_start_def example_options_def streamSettingsFrom_def optionString_def get_key_def asString_def
      Let_def two_pixels_def)

lemma stereo: "audioChannels (streamSettingsFrom example_options) = 2"
  by (simp add: streamSettingsFrom_def example_options_def optionInt_def get_key_def isNumber_def)

lemma stereo_divisor: "stream_cfg s = streamSettingsFrom example_options \<Longrightarrow> sample_divisor s = 8"
  by (simp add: sample_divisor_def stereo)

lemma example_tick:
  "stream_cfg s = streamSettingsFrom example_options \<Longrightarrow>
   tick_of s picture (block_of [x, y]) = Some ((picture, [x, y]), mismatchLogged s)"
  by (simp add: tick_of_def block_of_def ab_valid_def stereo)

text \<open>A session up to the tick's audio waiting for the audio writer.\<close>

definition sent_one :: "string \<Rightarrow> double \<Rightarrow> stream \<Rightarrow> stream" where
  "sent_one picture x s = (start_of s)\<lparr>video := V_wait, videoConnected := True, pendingAudio := pendingAudio s @ [[x, x]],
     frames := frames s + 1, submitted := [(picture, [x, x])], shown := [(picture, [x, x])]\<rparr>"

lemma sends_one:
  assumes "\<not> joinable s" "queue s = []" "length (pendingAudio s) < kMaxPendingAudio" "length picture = 4"
  shows "stream_step\<^sup>*\<^sup>* (start_of s) (sent_one picture x s)"
proof -
  let ?s1 = "(start_of s)\<lparr>video := V_wait, videoConnected := True\<rparr>"
  have "stream_step (start_of s) ?s1" using video_accepted [of "start_of s"] start_of_state [OF assms(1)] by simp
  moreover have "stream_step\<^sup>*\<^sup>* ?s1 (sent_one picture x s)"
    using one_tick [of ?s1 picture "block_of [x, x]" "(picture, [x, x])"] example_tick [of ?s1 picture x x] start_of_state [OF assms(1)] assms(2-4)
    by (simp add: sent_one_def)
  ultimately show ?thesis by (rule converse_rtranclp_into_rtranclp)
qed

definition finished_one :: stream where
  "finished_one = (start_of new_stream)\<lparr>video := V_gone, videoDrained := True, audio := A_gone, pendingAudio := [], frames := 1,
     audioSamples := 1, submitted := [(''abcd'', [Fin 0, Fin 0])], shown := [(''abcd'', [Fin 0, Fin 0])],
     heard := [[Fin 0, Fin 0]], caller := Joined, joinable := False, s_running := False, stopping := True\<rparr>"

lemma new_stream_empty: "\<not> joinable new_stream" "queue new_stream = []" "pendingAudio new_stream = []" "frames new_stream = 0"
  "audioSamples new_stream = 0" "stream_error new_stream = []" "dropped new_stream = 0"
  by (simp_all add: new_stream_def)

lemma finishes_one: "stream_step\<^sup>*\<^sup>* (start_of new_stream) finished_one"
proof -
  note start = start_of_state [OF new_stream_empty(1)]
  define s1 where "s1 = sent_one ''abcd'' (Fin 0) new_stream"
  define s2 where "s2 = s1\<lparr>audio := A_wait, audioConnected := True\<rparr>"
  define s3 where "s3 = s2\<lparr>pendingAudio := [], heard := [[Fin 0, Fin 0]], audioSamples := 1\<rparr>"
  define s4 where "s4 = s3\<lparr>caller := Joining, s_running := False, stopping := True, video := V_gone, videoDrained := True\<rparr>"
  define s5 where "s5 = s4\<lparr>audio := A_gone\<rparr>"
  note ds = s1_def s2_def s3_def s4_def s5_def sent_one_def start
  have "stream_step\<^sup>*\<^sup>* (start_of new_stream) s1"
    unfolding s1_def by (rule sends_one) (simp_all add: new_stream_empty kMaxPendingAudio_def)
  moreover have "stream_step s1 s2" using audio_accepted [of s1] by (simp add: ds)
  moreover have "stream_step\<^sup>*\<^sup>* s2 s3" using one_block [of s2 "[Fin 0, Fin 0]" "[]"] by (simp add: ds new_stream_empty stereo_divisor)
  moreover have "stream_step\<^sup>*\<^sup>* s3 s4" using video_stops [of s3] by (simp add: ds new_stream_empty)
  moreover have "stream_step s4 s5" using audio_finished [of s4] by (simp add: ds)
  moreover have "stream_step s5 finished_one" using joined [of s5] by (simp add: ds finished_one_def) (simp add: new_stream_def)
  ultimately show ?thesis by (meson rtranclp.rtrancl_into_rtrancl rtranclp_trans)
qed



section \<open>Starting again\<close>

text \<open>
  A stream whose encoder has gone stops running by itself but its threads are not joined until \<open>stop\<close>;
  the engine, asked to enable it, calls \<open>start\<close> without \<open>stop\<close> because it is not running, and the
  assignment to a thread object that still holds a thread ends the process.
\<close>

lemma failed_stream_restarted:
  "\<exists>s. stream_step\<^sup>*\<^sup>* (start_of new_stream) s \<and> \<not> s_running s \<and> caller s = Idle \<and>
     stream_start example_options two_pixels 5001 5002 None s = Terminated"
proof -
  let ?s = "(fail ''ffmpeg never connected to the video socket'' (start_of new_stream))\<lparr>video := V_leave\<rparr>"
  note start = start_of_state [OF new_stream_empty(1)]
  have "stream_step (start_of new_stream) ?s" using video_not_accepted [of "start_of new_stream"] by (simp add: start)
  moreover have "stream_start example_options two_pixels 5001 5002 None ?s = Terminated"
    by (simp add: start stream_start_def fail_def example_options_def streamSettingsFrom_def optionString_def get_key_def asString_def)
  ultimately show ?thesis by (intro exI [of _ ?s]) (simp add: fail_def start r_into_rtranclp)
qed

text \<open>
  Audio the first session left behind (here because the encoder had not opened its second input when the
  stream was stopped) is the first audio of the next session: sound and picture stay apart from then on.
\<close>

lemma stale_audio_sent:
  "\<exists>s s'. stream_step\<^sup>*\<^sup>* (start_of new_stream) s \<and> caller s = Joined \<and> stream_step\<^sup>*\<^sup>* (start_of s) s' \<and>
     shown s' = [(''efgh'', [Fin 1, Fin 1])] \<and> heard s' = [[Fin 0, Fin 0]]"
proof -
  note start = start_of_state [OF new_stream_empty(1)]
  define s1 where "s1 = sent_one ''abcd'' (Fin 0) new_stream"
  define s2 where "s2 = s1\<lparr>caller := Joining, s_running := False, stopping := True, video := V_gone, videoDrained := True\<rparr>"
  define s3 where "s3 = (fail ''ffmpeg never connected to the audio socket'' s2)\<lparr>audio := A_gone\<rparr>"
  define s4 where "s4 = s3\<lparr>caller := Joined, joinable := False, videoConnected := False, audioConnected := False\<rparr>"
  note ds = s1_def s2_def s3_def s4_def sent_one_def start fail_def
  have "stream_step\<^sup>*\<^sup>* (start_of new_stream) s1"
    unfolding s1_def by (rule sends_one) (simp_all add: new_stream_empty kMaxPendingAudio_def)
  moreover have "stream_step\<^sup>*\<^sup>* s1 s2" using video_stops [of s1] by (simp add: ds new_stream_empty)
  moreover have "stream_step s2 s3" unfolding s3_def by (rule audio_not_accepted) (simp add: ds)
  moreover have "stream_step s3 s4" unfolding s4_def by (rule joined) (simp_all add: ds)
  ultimately have first: "stream_step\<^sup>*\<^sup>* (start_of new_stream) s4" by (meson rtranclp.rtrancl_into_rtrancl rtranclp_trans)
  have s4: "\<not> joinable s4" "queue s4 = []" "pendingAudio s4 = [[Fin 0, Fin 0]]" "caller s4 = Joined"
    by (simp_all add: ds new_stream_empty)
  define t1 where "t1 = sent_one ''efgh'' (Fin 1) s4"
  define t2 where "t2 = t1\<lparr>audio := A_wait, audioConnected := True\<rparr>"
  define t3 where "t3 = t2\<lparr>pendingAudio := [[Fin 1, Fin 1]], heard := [[Fin 0, Fin 0]], audioSamples := audioSamples t2 + 1\<rparr>"
  note dt = t1_def t2_def t3_def sent_one_def start_of_state [OF s4(1)]
  have "stream_step\<^sup>*\<^sup>* (start_of s4) t1"
    unfolding t1_def by (rule sends_one) (simp_all add: s4 kMaxPendingAudio_def)
  moreover have "stream_step t1 t2" using audio_accepted [of t1] by (simp add: dt)
  moreover have "stream_step\<^sup>*\<^sup>* t2 t3" using one_block [of t2 "[Fin 0, Fin 0]" "[[Fin 1, Fin 1]]"] by (simp add: dt s4 stereo_divisor)
  ultimately have "stream_step\<^sup>*\<^sup>* (start_of s4) t3" by (meson rtranclp.rtrancl_into_rtrancl rtranclp_trans)
  with first s4(4) show ?thesis by (intro exI [of _ s4] exI [of _ t3]) (simp add: dt)
qed

text \<open>A negative number of channels asks for more silence than can be allocated, on the clock's thread.\<close>

lemma negative_channels_throw:
  "audioChannels (stream_cfg s) = - 1 \<Longrightarrow> tick_of s picture \<lparr>ab_frames = 960, ab_channels = 2, ab_rate = 48000, interleaved = Some xs\<rparr> = None"
  by (simp add: tick_of_def ab_valid_def silence_for_def)

text \<open>No channels at all: the first block of audio, which is empty, ends the process in a division by zero.\<close>

lemma no_channels_trap:
  assumes "audioChannels (stream_cfg s) = 0" "audio s = A_wait" "pendingAudio s = block # rest"
  shows "\<exists>s'. stream_step s s' \<and> audio s' = A_write block \<and> sample_divisor s' = 0 \<and>
    (\<forall>s2. stream_step s' s2 \<longrightarrow> audio s2 \<noteq> A_wait)"
proof -
  let ?s = "s\<lparr>audio := A_write block, pendingAudio := rest\<rparr>"
  have "stream_step s ?s" using audio_takes [OF assms(2,3)] .
  moreover have d: "sample_divisor ?s = 0" using assms(1) by (simp add: sample_divisor_def)
  have "audio s2 \<noteq> A_wait" if "stream_step ?s s2" for s2
    using that d by (cases rule: stream_step.cases) (auto simp: fail_def push_tick_def)
  ultimately show ?thesis using d by (intro exI [of _ ?s]) auto
qed

section \<open>The encoder's last words\<close>

text \<open>\<open>find_last_of\<close> among the first \<open>n\<close> characters, and the loop of \<open>readLog\<close> on what is pending.\<close>

definition is_break :: "char \<Rightarrow> bool" where
  "is_break c \<longleftrightarrow> c = CHR 0x0D \<or> c = CHR 0x0A"

definition last_break :: "string \<Rightarrow> nat option" where
  "last_break s = (if list_ex is_break s then Some (length s - 1 - length (takeWhile (\<lambda>c. \<not> is_break c) (rev s))) else None)"

definition cut_line :: "string \<Rightarrow> nat \<Rightarrow> string" where
  "cut_line pending pos = (case last_break (take (if 0 < pos then pos else 1) pending) of
      None \<Rightarrow> take pos pending
    | Some start \<Rightarrow> if pos < start + 1 then drop (start + 1) pending else take (pos - start - 1) (drop (start + 1) pending))"

function read_lines :: "string \<Rightarrow> string \<Rightarrow> string \<times> string" where
  "read_lines pending lastLine = (case last_break pending of
      None \<Rightarrow> (pending, lastLine)
    | Some pos \<Rightarrow> (let line = cut_line pending pos
        in read_lines (drop (pos + 1) pending) (if line = [] then lastLine else line)))"
  by pat_completeness auto
termination
  by (relation "measure (\<lambda>(pending, lastLine). length pending)")
    (auto simp: last_break_def list_ex_iff split: if_splits dest: length_pos_if_in_set)

definition read_chunk :: "string \<Rightarrow> string \<times> string \<Rightarrow> string \<times> string" where
  "read_chunk chunk s =
     (case read_lines (fst s @ chunk) (snd s) of (pending, lastLine) \<Rightarrow> (if 4096 < length pending then [] else pending, lastLine))"

text \<open>
  A line ended by CR LF, as an encoder on Windows writes them, is thrown away when both come in one chunk;
  and when a chunk begins with the end of the line before, the start of the next is taken for a whole line.
\<close>

lemma crlf_line_lost: "read_chunk (''Connection refused'' @ [CHR 0x0D, CHR 0x0A]) ([], []) = ([], [])"
  by code_simp

lemma partial_line_shown: "read_chunk (CHR 0x0A # ''Server retu'') ([], []) = (''Server retu'', ''Server retu'')"
  by code_simp

end
