(* ===== verification/Preview_Output.thy ===== *)
theory Preview_Output
  imports Output_Options Pixel_Convert Video_Format
begin

text \<open>
  \<open>outputs/preview_output.cpp\<close>: the confidence monitor, a box-downscaled copy of the latest frame. Its
  calls are serialised by its mutex and the slot it is in, so each is one function of the state.
\<close>

section \<open>State\<close>

record preview =
  preview_name :: string
  factor :: int
  sourceFormat :: video_format
  p_width :: int
  p_height :: int
  p_frames :: int
  p_sequence :: int
  p_buffer :: memory
  p_running :: bool
  audioPeak :: double

text \<open>A frame as \<open>submit\<close> gets it: its raster, its bytes and how many of them make a row.\<close>

record picture_in =
  in_width :: int
  in_height :: int
  in_rowBytes :: nat
  in_sequence :: int
  in_bytes :: memory

record preview_shot =
  snap_width :: int
  snap_height :: int
  snap_sequence :: int
  snap_pixels :: memory

section \<open>Operations\<close>

definition no_format :: video_format where
  "no_format = \<lparr>width = 1920, height = 1080, rate = \<lparr>numerator = 25, denominator = 1\<rparr>, interlaced = False\<rparr>"

definition new_preview :: "string \<Rightarrow> json \<Rightarrow> preview" where
  "new_preview name options =
     \<lparr>preview_name = (if name = [] then ''preview'' else name), factor = clamp (optionInt options ''factor'' 4) 1 16,
      sourceFormat = no_format, p_width = 0, p_height = 0, p_frames = 0, p_sequence = 0, p_buffer = [],
      p_running = False, audioPeak = Fin 0\<rparr>"

text \<open>The loop of \<open>start\<close>: a smaller factor until both sides have 16 pixels, or it is 1.\<close>

function fit_factor :: "int \<Rightarrow> int \<Rightarrow> int \<Rightarrow> int" where
  "fit_factor w h f = (if (w sdiv f < 16 \<or> h sdiv f < 16) \<and> 1 < f then fit_factor w h (f - 1) else f)"
  by pat_completeness auto
termination by (relation "measure (\<lambda>(w, h, f). nat f)") auto

declare fit_factor.simps [simp del]

definition preview_start :: "video_format \<Rightarrow> preview \<Rightarrow> preview" where
  "preview_start f s =
     (let k = fit_factor (width f) (height f) (factor s); w = width f sdiv k; h = height f sdiv k
      in s\<lparr>factor := k, sourceFormat := f, p_width := w, p_height := h,
           p_buffer := fillBlackBgra (replicate (nat w * nat h * 4) 0) 0 (nat w * 4) (nat w) (nat h),
           p_frames := 0, p_running := True\<rparr>)"

definition preview_stop :: "preview \<Rightarrow> preview" where
  "preview_stop s = s\<lparr>p_running := False\<rparr>"

text \<open>The loudest sample; \<open>None\<close> for a block without interleaved samples.\<close>

definition fabs :: "double \<Rightarrow> double" where
  "fabs x = (case x of Fin r \<Rightarrow> Fin \<bar>r\<bar> | Inf _ \<Rightarrow> Inf False | NaN \<Rightarrow> NaN)"

definition peak_of :: "double list option \<Rightarrow> double" where
  "peak_of samples = (case samples of
      None \<Rightarrow> Fin 0
    | Some xs \<Rightarrow> foldl (\<lambda>peak x. if lt peak (fabs x) then fabs x else peak) (Fin 0) xs)"

text \<open>The buffer and the frame are two places of one memory.\<close>

definition scaled_down :: "preview \<Rightarrow> picture_in \<Rightarrow> memory" where
  "scaled_down s v =
     take (length (p_buffer s)) (downscaleBgra (p_buffer s @ in_bytes v) (length (p_buffer s)) (in_rowBytes v)
       (nat (width (sourceFormat s))) (nat (height (sourceFormat s))) 0 (nat (p_width s) * 4) (factor s))"

definition preview_submit :: "picture_in \<Rightarrow> double list option \<Rightarrow> preview \<Rightarrow> preview" where
  "preview_submit v samples s0 =
     (let s = s0\<lparr>audioPeak := peak_of samples\<rparr>
      in if \<not> p_running s \<or> p_buffer s = [] then s
         else if in_width v \<noteq> width (sourceFormat s) \<or> in_height v \<noteq> height (sourceFormat s) then s
         else s\<lparr>p_buffer := scaled_down s v, p_frames := p_frames s + 1, p_sequence := in_sequence v\<rparr>)"

definition preview_snapshot :: "preview \<Rightarrow> preview_shot" where
  "preview_snapshot s = \<lparr>snap_width = p_width s, snap_height = p_height s, snap_sequence = p_sequence s, snap_pixels = p_buffer s\<rparr>"

definition preview_status :: "preview \<Rightarrow> json" where
  "preview_status s =
     set_key ''audio_peak'' (Number (audioPeak s)) (set_key ''frames'' (Number (of_i (p_frames s)))
     (set_key ''factor'' (Number (of_i (factor s))) (set_key ''height'' (Number (of_i (p_height s)))
     (set_key ''width'' (Number (of_i (p_width s))) (set_key ''running'' (Bool (p_running s))
     (set_key ''name'' (String (preview_name s)) (set_key ''kind'' (String ''preview'') (Object []))))))))"

section \<open>The factor\<close>

lemma fit_factor_range: "1 \<le> f \<Longrightarrow> 1 \<le> fit_factor w h f \<and> fit_factor w h f \<le> f"
proof (induction w h f rule: fit_factor.induct)
  case (1 w h f)
  then show ?case by (subst (1 2) fit_factor.simps) (auto intro: order_trans)
qed

lemma fit_factor_fits:
  "1 \<le> f \<Longrightarrow> fit_factor w h f = 1 \<or> 16 \<le> w sdiv fit_factor w h f \<and> 16 \<le> h sdiv fit_factor w h f"
proof (induction w h f rule: fit_factor.induct)
  case (1 w h f)
  then show ?case by (subst (1 2 3) fit_factor.simps) auto
qed

section \<open>Downscaling\<close>

definition box_reads :: "nat \<Rightarrow> nat \<Rightarrow> nat \<Rightarrow> nat \<times> nat \<Rightarrow> nat set" where
  "box_reads src stride f = (\<lambda>(y, x). {src + y * f * stride + x * f * 4 + c + sy * stride + sx * 4 | c sy sx. c < 3 \<and> sy < f \<and> sx < f})"

lemma box_sum_local:
  assumes "\<And>sy sx. sy < f \<Longrightarrow> sx < f \<Longrightarrow> m ! (a + sy * stride + sx * 4) = m' ! (a + sy * stride + sx * 4)"
  shows "box_sum m a stride f = box_sum m' a stride f"
  unfolding box_sum_def using assms by (intro arg_cong [of _ _ sum_list] map_cong) (auto dest!: ex_pair)

locale box_scale =
  fixes src stride dst dstStride f :: nat
begin

definition box_at :: "nat \<times> nat \<Rightarrow> memory \<Rightarrow> int list" where
  "box_at = (\<lambda>(y, x) m. box_pixel m (src + y * f * stride + x * f * 4) stride f)"

definition box_dest :: "nat \<times> nat \<Rightarrow> nat" where
  "box_dest = (\<lambda>(y, x). dst + y * dstStride + x * 4)"

end

sublocale box_scale \<subseteq> raster_pass box_at box_dest 4 "box_reads src stride f"
proof
  fix q :: "nat \<times> nat" and m m' :: memory
  show "length (box_at q m) = 4" by (cases q) (simp add: box_at_def box_pixel_def)
  assume same: "\<And>i. i \<in> box_reads src stride f q \<Longrightarrow> m ! i = m' ! i"
  obtain y x where q: "q = (y, x)" by (cases q)
  have "box_sum m (src + y * f * stride + x * f * 4 + c) stride f = box_sum m' (src + y * f * stride + x * f * 4 + c) stride f"
    if "c < 3" for c using that by (intro box_sum_local same) (auto simp: q box_reads_def)
  from this [of 0] this [of 1] this [of 2] show "box_at q m = box_at q m'" by (simp add: q box_at_def box_pixel_def)
qed

context box_scale
begin

lemma box_written: "written (y, x) = {dst + y * dstStride + x * 4 ..< dst + y * dstStride + x * 4 + 4}"
  by (simp add: written_def) (simp add: box_dest_def)

text \<open>A picture of \<open>h\<close> rows of \<open>w\<close> pixels before the frame it is made from.\<close>

lemma box_picture:
  assumes "dst = 0" "dstStride = w * 4" "w * f \<le> W" "h * f \<le> H" "W * 4 \<le> stride"
    and "h * w * 4 \<le> src" "src + H * stride \<le> length m" "y < h" "x < w"
  shows "load (y * (w * 4) + x * 4) 4 (pass box_at box_dest (positions h w) m) =
    box_pixel m (src + y * f * stride + x * f * 4) stride f"
proof -
  have inside: "y' * (w * 4) + x' * 4 + 4 \<le> src" if "y' < h" "x' < w" for y' x'
    using that assms(6) group_in_picture [of y' h x' w 4 "w * 4" 0 src] by (simp add: ac_simps)
  have reads: "src \<le> i \<and> i < length m" if "i \<in> box_reads src stride f (y', x')" "y' < h" "x' < w" for i y' x'
  proof -
    note i = that(1)
    obtain c sy sx where c: "i = src + y' * f * stride + x' * f * 4 + c + sy * stride + sx * 4" "c < 3" "sy < f" "sx < f"
      using i by (auto simp: box_reads_def)
    have "y' * f + sy < H" using that(2) c(3) assms(4) group_in_row [of y' h f] by linarith
    moreover have "x' * f + sx < W" using that(3) c(4) assms(3) group_in_row [of x' w f] by linarith
    ultimately have "src + (y' * f + sy) * stride + (x' * f + sx) * 4 + 4 \<le> length m"
      using group_in_picture [of "y' * f + sy" H "x' * f + sx" W 4 stride src "length m"] assms(5,7) by simp
    with c(1,2) show ?thesis by (simp add: algebra_simps)
  qed
  have wr: "written (y', x') = {y' * (w * 4) + x' * 4 ..< y' * (w * 4) + x' * 4 + 4}" for y' x'
    using box_written [of y' x'] by (simp only: assms(1,2) add_0)
  have bd: "box_dest (y', x') = y' * (w * 4) + x' * 4" for y' x'
    unfolding box_dest_def using assms(1,2) by simp
  have "apart (positions h w)"
    unfolding apart_def
  proof (intro ballI conjI impI)
    fix q q' assume q: "q \<in> set (positions h w)" "q' \<in> set (positions h w)"
    obtain y x y' x' where e: "q = (y, x)" "q' = (y', x')" "y < h" "x < w" "y' < h" "x' < w"
      using q ex_pair by metis
    show "written q \<inter> written q' = {}" if "q \<noteq> q'"
      using groups_apart [of x w x' 4 "w * 4" y y'] e that by (auto simp: wr)
    show "written q \<inter> box_reads src stride f q' = {}"
      using inside [OF e(3,4)] reads [of _ y' x'] e by (fastforce simp: wr)
  qed
  moreover have "\<forall>q \<in> set (positions h w). box_dest q + 4 \<le> length m"
  proof
    fix q assume "q \<in> set (positions h w)"
    then obtain y' x' where "q = (y', x')" "y' < h" "x' < w" using ex_pair by blast
    with inside [of y' x'] assms(7) show "box_dest q + 4 \<le> length m" by (simp add: bd)
  qed
  moreover have "\<forall>q \<in> set (positions h w). box_reads src stride f q \<subseteq> {..<length m}"
  proof
    fix q assume "q \<in> set (positions h w)"
    then obtain y' x' where "q = (y', x')" "y' < h" "x' < w" using ex_pair by blast
    with reads [of _ y' x'] show "box_reads src stride f q \<subseteq> {..<length m}" by blast
  qed
  ultimately have "load (box_dest (y, x)) 4 (pass box_at box_dest (positions h w) m) = box_at (y, x) m"
    using assms(8,9) by (intro pass_spec_apart) simp_all
  then show ?thesis by (simp add: box_at_def bd)
qed

end

interpretation box: box_scale src stride dst dstStride f for src stride dst dstStride f .

section \<open>Well-formed previews\<close>

definition byte :: "int \<Rightarrow> bool" where
  "byte v \<longleftrightarrow> 0 \<le> v \<and> v < 256"

definition frame_ok :: "picture_in \<Rightarrow> bool" where
  "frame_ok v \<longleftrightarrow> 0 < in_width v \<and> 0 < in_height v \<and> nat (in_width v) * 4 \<le> in_rowBytes v \<and>
     nat (in_height v) * in_rowBytes v \<le> length (in_bytes v)"

definition preview_ok :: "preview \<Rightarrow> bool" where
  "preview_ok s \<longleftrightarrow> 1 \<le> factor s \<and> factor s \<le> 16 \<and> 0 \<le> p_width s \<and> 0 \<le> p_height s \<and>
     length (p_buffer s) = nat (p_width s) * nat (p_height s) * 4 \<and> list_all byte (p_buffer s) \<and>
     (p_running s \<longrightarrow> p_width s = width (sourceFormat s) div factor s \<and> p_height s = height (sourceFormat s) div factor s \<and>
        (factor s = 1 \<or> 16 \<le> width (sourceFormat s) div factor s \<and> 16 \<le> height (sourceFormat s) div factor s))"

lemma store_bytes: "list_all byte m \<Longrightarrow> list_all byte ys \<Longrightarrow> d + length ys \<le> length m \<Longrightarrow> list_all byte (store d ys m)"
  by (auto simp: store_def list_all_length nth_blit_at)

lemma pass_bytes:
  "list_all byte m \<Longrightarrow> (\<And>q m. list_all byte (tile q m) \<and> length (tile q m) = 4) \<Longrightarrow> \<forall>q \<in> set qs. dest q + 4 \<le> length m \<Longrightarrow>
   list_all byte (pass tile dest qs m) \<and> length (pass tile dest qs m) = length m"
proof (induction qs arbitrary: m)
  case (Cons q qs)
  then show ?case using Cons.IH [of "store (dest q) (tile q m) m"] store_bytes [of m "tile q m" "dest q"]
    by (simp add: pass_def store_def)
qed (simp add: pass_def)

lemma dest_inside: "\<forall>q \<in> set (positions h w). (\<lambda>(y, x). 0 + y * (w * 4) + x * 4) q + 4 \<le> h * w * 4"
  using group_in_picture [of _ h _ w 4 "w * 4" 0 "h * w * 4"] by (auto simp: ac_simps dest!: ex_pair)

lemma black_bytes:
  "list_all byte (fillBlackBgra (replicate (w * h * 4) 0) 0 (w * 4) w h) \<and>
   length (fillBlackBgra (replicate (w * h * 4) 0) 0 (w * 4) w h) = w * h * 4"
  using pass_bytes [of "replicate (w * h * 4) 0" "\<lambda>_ _. [0, 0, 0, 255]" "positions h w" "\<lambda>(y, x). 0 + y * (w * 4) + x * 4"] dest_inside [of h w]
  by (simp add: fillBlackBgra_def byte_def list_all_iff) (simp add: ac_simps)

lemma box_pixel_bytes: "list_all byte (box_pixel m a stride f)"
  by (simp add: box_pixel_def byte_def u8_def)

lemma new_preview_ok: "preview_ok (new_preview name options)"
  using clamp_range [of 1 16 "optionInt options ''factor'' 4"] by (simp add: preview_ok_def new_preview_def)

lemma start_preview_ok:
  assumes "preview_ok s" "0 < width f" "0 < height f"
  shows "preview_ok (preview_start f s)"
proof -
  let ?k = "fit_factor (width f) (height f) (factor s)"
  have k: "1 \<le> ?k" "?k \<le> factor s" and fits: "?k = 1 \<or> 16 \<le> width f sdiv ?k \<and> 16 \<le> height f sdiv ?k"
    using assms(1) fit_factor_range fit_factor_fits by (simp_all add: preview_ok_def)
  have d: "width f sdiv ?k = width f div ?k" "height f sdiv ?k = height f div ?k"
    using k(1) assms(2,3) by (simp_all add: sdiv_nonneg)
  have "0 \<le> width f div ?k" "0 \<le> height f div ?k" using k(1) assms(2,3) by (simp_all add: pos_imp_zdiv_nonneg_iff)
  moreover note black_bytes [of "nat (width f div ?k)" "nat (height f div ?k)"]
  ultimately show ?thesis using assms(1) k fits
    by (simp add: preview_ok_def preview_start_def Let_def d)
qed

lemma scaled_down_pass:
  assumes "preview_ok s" "p_running s" "frame_ok v"
    and "in_width v = width (sourceFormat s)" "in_height v = height (sourceFormat s)"
  shows "scaled_down s v = take (length (p_buffer s))
    (pass (box_scale.box_at (length (p_buffer s)) (in_rowBytes v) (nat (factor s))) (box_scale.box_dest 0 (nat (p_width s) * 4))
       (positions (nat (p_height s)) (nat (p_width s))) (p_buffer s @ in_bytes v))"
    and "nat (p_width s) = nat (in_width v) div nat (factor s)" "nat (p_height s) = nat (in_height v) div nat (factor s)"
    and "length (p_buffer s) = nat (p_height s) * nat (p_width s) * 4"
proof -
  have d: "nat (p_width s) = nat (in_width v) div nat (factor s)" "nat (p_height s) = nat (in_height v) div nat (factor s)"
    using assms by (simp_all add: preview_ok_def frame_ok_def nat_div_distrib)
  then show "nat (p_width s) = nat (in_width v) div nat (factor s)" "nat (p_height s) = nat (in_height v) div nat (factor s)" .
  show "length (p_buffer s) = nat (p_height s) * nat (p_width s) * 4" using assms(1) by (simp add: preview_ok_def)
  have f: "\<not> factor s < 1" using assms(1) by (simp add: preview_ok_def)
  show "scaled_down s v = take (length (p_buffer s))
    (pass (box_scale.box_at (length (p_buffer s)) (in_rowBytes v) (nat (factor s))) (box_scale.box_dest 0 (nat (p_width s) * 4))
       (positions (nat (p_height s)) (nat (p_width s))) (p_buffer s @ in_bytes v))"
    unfolding scaled_down_def downscaleBgra_def Let_def box_scale.box_at_def box_scale.box_dest_def
    using f d assms(4,5) by simp
qed

lemma scaled_down_bytes:
  assumes "preview_ok s" "p_running s" "frame_ok v"
    and "in_width v = width (sourceFormat s)" "in_height v = height (sourceFormat s)" "list_all byte (in_bytes v)"
  shows "length (scaled_down s v) = length (p_buffer s) \<and> list_all byte (scaled_down s v)"
proof -
  let ?m = "p_buffer s @ in_bytes v" and ?h = "nat (p_height s)" and ?w = "nat (p_width s)"
  let ?M = "pass (box_scale.box_at (length (p_buffer s)) (in_rowBytes v) (nat (factor s))) (box_scale.box_dest 0 (?w * 4)) (positions ?h ?w) ?m"
  have dest: "\<forall>q \<in> set (positions ?h ?w). box_scale.box_dest 0 (?w * 4) q + 4 \<le> length ?m"
    using dest_inside [of ?h ?w] scaled_down_pass(4) [OF assms(1-5)] unfolding box_scale.box_dest_def by fastforce
  have "list_all byte ?m" using assms(1,6) by (simp add: preview_ok_def)
  moreover have "list_all byte (box_scale.box_at n st f q m) \<and> length (box_scale.box_at n st f q m) = 4" for n st f q m
    using box_pixel_bytes by (simp add: box_scale.box_at_def box_pixel_def split: prod.split)
  ultimately have "list_all byte ?M \<and> length ?M = length ?m" using dest by (intro pass_bytes) simp_all
  then show ?thesis unfolding scaled_down_pass(1) [OF assms(1-5)] by (auto simp: list_all_length)
qed

lemma load_take: "a + n \<le> k \<Longrightarrow> load a n (take k m) = load a n m"
  by (rule load_cong) simp

lemma scaled_down_boxes:
  assumes "preview_ok s" "p_running s" "frame_ok v"
    and "in_width v = width (sourceFormat s)" "in_height v = height (sourceFormat s)"
    and "y < nat (p_height s)" "x < nat (p_width s)"
  shows "load (y * (nat (p_width s) * 4) + x * 4) 4 (scaled_down s v) =
    box_pixel (p_buffer s @ in_bytes v)
      (length (p_buffer s) + y * nat (factor s) * in_rowBytes v + x * nat (factor s) * 4) (in_rowBytes v) (nat (factor s))"
proof -
  note p = scaled_down_pass [OF assms(1-5)]
  let ?w = "nat (p_width s)" and ?h = "nat (p_height s)"
  have i: "y * (?w * 4) + x * 4 + 4 \<le> length (p_buffer s)"
    using group_in_picture [OF assms(6,7), of 4 "?w * 4" 0 "length (p_buffer s)"] p(4) by (simp add: ac_simps)
  show ?thesis
    unfolding p(1) load_take [OF i]
  proof (rule box.box_picture)
    show "?w * nat (factor s) \<le> nat (in_width v)" "?h * nat (factor s) \<le> nat (in_height v)" by (simp_all add: p(2,3))
    show "nat (in_width v) * 4 \<le> in_rowBytes v" using assms(3) by (simp add: frame_ok_def)
    show "?h * ?w * 4 \<le> length (p_buffer s)" by (simp add: p(4))
    show "length (p_buffer s) + nat (in_height v) * in_rowBytes v \<le> length (p_buffer s @ in_bytes v)"
      using assms(3) by (simp add: frame_ok_def)
  qed (use assms(6,7) in simp_all)
qed

text \<open>The mean of a box of the frame, in each colour.\<close>

lemma box_sum_frame: "box_sum (b @ m) (length b + a) stride f = box_sum m a stride f"
  by (simp add: box_sum_def nth_append add.assoc)

lemma box_pixel_frame: "box_pixel (b @ m) (length b + a) stride f = box_pixel m a stride f"
  using box_sum_frame [of b m "a + c" stride f for c] by (simp add: box_pixel_def add.assoc [symmetric])

definition box_values :: "memory \<Rightarrow> nat \<Rightarrow> nat \<Rightarrow> nat \<Rightarrow> int list" where
  "box_values m a stride f = map (\<lambda>(sy, sx). m ! (a + sy * stride + sx * 4)) (positions f f)"

definition mean :: "int list \<Rightarrow> int" where
  "mean xs = sum_list xs div int (length xs)"

lemma sum_list_bytes: "list_all byte xs \<Longrightarrow> 0 \<le> sum_list xs \<and> sum_list xs \<le> 255 * int (length xs)"
  by (induction xs) (auto simp: byte_def)

lemma mean_byte: "list_all byte xs \<Longrightarrow> xs \<noteq> [] \<Longrightarrow> u8 (mean xs) = mean xs"
proof -
  assume x: "list_all byte xs" "xs \<noteq> []"
  then have "0 < int (length xs)" by simp
  then have "sum_list xs < 256 * int (length xs)" using sum_list_bytes [OF x(1)] by linarith
  then have "0 \<le> mean xs" "mean xs < 256"
    using sum_list_bytes [OF x(1)] int_div_less [of "int (length xs)" "sum_list xs" 256] x(2)
    by (simp_all add: mean_def pos_imp_zdiv_nonneg_iff)
  then show ?thesis by (rule u8_fits)
qed

lemma box_pixel_mean:
  assumes "\<And>c. c < 3 \<Longrightarrow> list_all byte (box_values m (a + c) stride f)" "0 < f"
  shows "box_pixel m a stride f = map (\<lambda>c. mean (box_values m (a + c) stride f)) [0, 1, 2] @ [255]"
proof -
  have l: "length (box_values m b stride f) = f * f" for b by (simp add: box_values_def positions_def)
  then have "box_values m b stride f \<noteq> []" for b using assms(2) by (metis length_0_conv mult_is_0 not_gr_zero)
  then have "u8 (mean (box_values m (a + c) stride f)) = mean (box_values m (a + c) stride f)" if "c < 3" for c
    using mean_byte assms(1) that by blast
  then have "u8 (box_sum m (a + c) stride f div int (f * f)) = mean (box_values m (a + c) stride f)" if "c < 3" for c
    using that l by (simp add: mean_def box_sum_def box_values_def)
  from this [of 0] this [of 1] this [of 2] show ?thesis by (simp add: box_pixel_def)
qed

section \<open>Properties\<close>

datatype preview_op = Starts video_format | Stops | Submits picture_in "double list option"

primrec preview_step :: "preview \<Rightarrow> preview_op \<Rightarrow> preview" where
  "preview_step s (Starts f) = preview_start f s"
| "preview_step s Stops = preview_stop s"
| "preview_step s (Submits v samples) = preview_submit v samples s"

primrec op_ok :: "preview_op \<Rightarrow> bool" where
  "op_ok (Starts f) \<longleftrightarrow> 0 < width f \<and> 0 < height f"
| "op_ok Stops \<longleftrightarrow> True"
| "op_ok (Submits v _) \<longleftrightarrow> frame_ok v \<and> list_all byte (in_bytes v)"

lemma preview_ok_buffer:
  "preview_ok s \<Longrightarrow> length b = length (p_buffer s) \<and> list_all byte b \<Longrightarrow> preview_ok (s\<lparr>p_buffer := b, p_frames := n, p_sequence := k\<rparr>)"
  by (simp add: preview_ok_def)

lemma submit_preview_ok:
  assumes "preview_ok s" "frame_ok v" "list_all byte (in_bytes v)"
  shows "preview_ok (preview_submit v samples s)"
proof -
  let ?s = "s\<lparr>audioPeak := peak_of samples\<rparr>"
  have "preview_ok ?s" using assms(1) by (simp add: preview_ok_def)
  moreover have "length (scaled_down ?s v) = length (p_buffer ?s) \<and> list_all byte (scaled_down ?s v)"
    if "p_running s" "in_width v = width (sourceFormat s)" "in_height v = height (sourceFormat s)"
    using scaled_down_bytes [of ?s v] assms \<open>preview_ok ?s\<close> that by simp
  ultimately show ?thesis using preview_ok_buffer [of ?s "scaled_down ?s v"] by (simp add: preview_submit_def Let_def)
qed

lemma preview_step_ok: "preview_ok s \<Longrightarrow> op_ok x \<Longrightarrow> preview_ok (preview_step s x)"
  using submit_preview_ok start_preview_ok by (cases x) (auto simp: preview_stop_def preview_ok_def)

lemma preview_steps_ok: "preview_ok s \<Longrightarrow> list_all op_ok xs \<Longrightarrow> preview_ok (foldl preview_step s xs)"
  by (induction xs arbitrary: s) (simp_all add: preview_step_ok)

text \<open>
  C28: whatever the options and whatever is started, stopped and submitted in whatever order, a snapshot is a
  picture: four bytes for each of its pixels, every value a byte, and its sides those of the raster divided
  by a factor from 1 to 16, with at least 16 pixels each unless the factor is 1.
\<close>

theorem preview_wellformed:
  assumes "list_all op_ok xs" "s = foldl preview_step (new_preview name options) xs" "p = preview_snapshot s"
  shows "0 \<le> snap_width p \<and> 0 \<le> snap_height p \<and> length (snap_pixels p) = nat (snap_width p) * nat (snap_height p) * 4 \<and>
    list_all byte (snap_pixels p) \<and> 1 \<le> factor s \<and> factor s \<le> 16 \<and>
    (p_running s \<longrightarrow> snap_width p = width (sourceFormat s) div factor s \<and> snap_height p = height (sourceFormat s) div factor s \<and>
       (factor s = 1 \<or> 16 \<le> width (sourceFormat s) div factor s \<and> 16 \<le> height (sourceFormat s) div factor s))"
  using preview_steps_ok [OF new_preview_ok assms(1), of name options] assms(2,3)
  by (simp add: preview_ok_def preview_snapshot_def)

text \<open>
  C32: a frame of the raster the preview was started at replaces the whole picture: every pixel is opaque and
  is in each colour the mean of its box of the frame, rounded down; a frame of another raster changes nothing.
\<close>

theorem preview_averages:
  assumes "preview_ok s" "p_running s" "p_buffer s \<noteq> []" "frame_ok v" "list_all byte (in_bytes v)"
    and "y < nat (p_height s)" "x < nat (p_width s)" "f = nat (factor s)"
  shows "load ((y * nat (p_width s) + x) * 4) 4 (p_buffer (preview_submit v samples s)) =
    (if in_width v = width (sourceFormat s) \<and> in_height v = height (sourceFormat s)
     then map (\<lambda>c. mean (box_values (in_bytes v) (y * f * in_rowBytes v + x * f * 4 + c) (in_rowBytes v) f)) [0, 1, 2] @ [255]
     else load ((y * nat (p_width s) + x) * 4) 4 (p_buffer s))"
proof (cases "in_width v = width (sourceFormat s) \<and> in_height v = height (sourceFormat s)")
  case True
  let ?s = "s\<lparr>audioPeak := peak_of samples\<rparr>" and ?st = "in_rowBytes v"
  have ok: "preview_ok ?s" using assms(1) by (simp add: preview_ok_def)
  have w: "nat (p_width s) = nat (in_width v) div f" "nat (p_height s) = nat (in_height v) div f"
    using scaled_down_pass(2,3) [OF assms(1,2,4)] True assms(8) by simp_all
  have "list_all byte (box_values (in_bytes v) (y * f * ?st + x * f * 4 + c) ?st f)" if "c < 3" for c
    unfolding list_all_iff
  proof
    fix z assume "z \<in> set (box_values (in_bytes v) (y * f * ?st + x * f * 4 + c) ?st f)"
    then obtain sy sx where z: "z = in_bytes v ! (y * f * ?st + x * f * 4 + c + sy * ?st + sx * 4)" "sy < f" "sx < f"
      by (auto simp: box_values_def dest!: ex_pair)
    have "y * f + f \<le> nat (in_height v)" "x * f + f \<le> nat (in_width v)"
      using group_in_row [OF assms(6), of f] group_in_row [OF assms(7), of f] w by (metis div_times_less_eq_dividend le_trans)+
    then have "y * f + sy < nat (in_height v)" "x * f + sx < nat (in_width v)" using z(2,3) by simp_all
    then have "(y * f + sy) * ?st + (x * f + sx) * 4 + 4 \<le> length (in_bytes v)"
      using group_in_picture [of "y * f + sy" _ "x * f + sx" _ 4 ?st 0] assms(4) by (simp add: frame_ok_def)
    then have "y * f * ?st + x * f * 4 + c + sy * ?st + sx * 4 < length (in_bytes v)" using that by (simp add: algebra_simps)
    then show "byte z" using assms(5) z(1) by (simp add: list_all_length)
  qed
  note means = box_pixel_mean [OF this]
  have "p_buffer (preview_submit v samples s) = scaled_down ?s v"
    using assms(2,3) True by (simp add: preview_submit_def Let_def)
  moreover have "0 < f" using assms(1,8) by (simp add: preview_ok_def)
  ultimately show ?thesis
    using scaled_down_boxes [OF ok _ assms(4), of y x] assms(2,6-8) True means
      box_pixel_frame [of "p_buffer s" "in_bytes v" "y * f * ?st + x * f * 4" ?st f]
    by (simp add: distrib_right ac_simps)
next
  case False
  then have "p_buffer (preview_submit v samples s) = p_buffer s" by (auto simp: preview_submit_def Let_def)
  with False show ?thesis by (simp only: if_False)
qed

text \<open>A raster of two pixels by two, and a frame of it.\<close>

definition tiny :: video_format where
  "tiny = no_format\<lparr>width := 2, height := 2\<rparr>"

definition tiny_frame :: picture_in where
  "tiny_frame = \<lparr>in_width = 2, in_height = 2, in_rowBytes = 8, in_sequence = 1, in_bytes = [1, 2, 3, 255, 4, 5, 6, 0, 7, 8, 9, 0, 10, 11, 12, 0]\<rparr>"

definition tiny_preview :: preview where
  "tiny_preview = preview_start tiny (new_preview [] (Object []))"

lemma tiny_preview_facts: "p_width tiny_preview = 2" "p_height tiny_preview = 2" "factor tiny_preview = 1" "p_running tiny_preview"
  "p_buffer tiny_preview \<noteq> []" "width (sourceFormat tiny_preview) = 2" "height (sourceFormat tiny_preview) = 2"
  by code_simp+

theorem preview_wellformed_witness:
  "let p = preview_snapshot (foldl preview_step (new_preview [] (Object [])) [Starts tiny, Submits tiny_frame None])
   in length (snap_pixels p) = nat (snap_width p) * nat (snap_height p) * 4"
proof -
  have "list_all op_ok [Starts tiny, Submits tiny_frame None]" by code_simp
  from preview_wellformed [OF this refl refl] show ?thesis by (simp add: Let_def)
qed

theorem preview_averages_witness:
  "load 4 4 (p_buffer (preview_submit tiny_frame None tiny_preview)) = [4, 5, 6, 255]"
proof -
  have "preview_ok tiny_preview"
    unfolding tiny_preview_def by (rule start_preview_ok [OF new_preview_ok]) (simp_all add: tiny_def no_format_def)
  moreover have "frame_ok tiny_frame" "list_all byte (in_bytes tiny_frame)" by code_simp+
  ultimately show ?thesis
    using preview_averages [of tiny_preview tiny_frame 0 1 1 None] tiny_preview_facts
    by (simp add: tiny_frame_def box_values_def positions_def mean_def)
qed

section \<open>The factor is not restored\<close>

text \<open>
  The factor clamped down for a small raster stays: after a change back to a larger one the preview is
  served at full size.
\<close>

lemma small_raster_keeps_factor:
  "factor (preview_start no_format (preview_stop (preview_start tiny (new_preview [] (Object []))))) = 1 \<and>
   factor (preview_start no_format (new_preview [] (Object []))) = 4"
proof -
  have "fit_factor 2 2 4 = 1" "fit_factor 1920 1080 1 = 1" "fit_factor 1920 1080 4 = 4" by code_simp+
  then show ?thesis
    by (simp add: preview_start_def preview_stop_def new_preview_def tiny_def no_format_def optionInt_def isNumber_def get_key_def
        clamp_def Let_def)
qed

end
