(* ===== verification/Launch.thy ===== *)
theory Launch
  imports Settings_Store Engine_Model Rotated_Blit
begin

text \<open>
  \<open>app/main.cpp\<close> up to the start of the sources: the command line, the saved settings that fill in what it
  left alone, and the sources that result. What is printed on the way is left out.
\<close>

section \<open>Options\<close>

record given =
  given_url :: bool
  given_format :: bool
  given_matrix :: bool
  given_pacing :: bool
  given_interactive :: bool
  given_popups :: bool
  given_outputs :: bool

text \<open>\<open>opt_control\<close> is the control API's configuration, which has the fields of the process-wide part of a file.\<close>

record launch =
  opt_url :: string
  opt_format :: video_format
  opt_outputs :: "output_spec list"
  opt_control :: app_config
  opt_audio :: bool
  opt_verbose :: bool
  opt_matrix :: colour_matrix
  opt_external :: bool
  cachePath :: string
  opt_interactive :: bool
  opt_block :: bool
  opt_settings :: string
  useSavedSettings :: bool
  opt_preview :: bool
  openControlPage :: bool
  wantTray :: bool
  configPath :: string
  opt_sources :: app_config
  was_given :: given

text \<open>The parser's own variables: what applies to the next output of some kind.\<close>

record parsing = launch +
  nextAlpha :: bool
  nextKeying :: string
  nextBitrate :: string
  streamIndex :: nat
  nextScaling :: string
  nextRotate :: string
  nextKmsMode :: string
  keyLevel :: int
  nextPremultiplied :: bool

definition default_launch :: "video_format \<Rightarrow> bool \<Rightarrow> parsing" where
  "default_launch f no_arguments =
     \<lparr>opt_url = ''about:blank'', opt_format = f, opt_outputs = [], opt_control = default_app, opt_audio = True, opt_verbose = False,
      opt_matrix = MatrixAuto, opt_external = True, cachePath = [], opt_interactive = True, opt_block = False, opt_settings = [],
      useSavedSettings = True, opt_preview = True, openControlPage = no_arguments, wantTray = True, configPath = [],
      opt_sources = default_app, was_given = \<lparr>given_url = False, given_format = False, given_matrix = False, given_pacing = False,
        given_interactive = False, given_popups = False, given_outputs = False\<rparr>,
      nextAlpha = False, nextKeying = [], nextBitrate = [], streamIndex = 0, nextScaling = [], nextRotate = [], nextKmsMode = [],
      keyLevel = 255, nextPremultiplied = False\<rparr>"

definition launchedWithNoArguments :: "string list \<Rightarrow> bool" where
  "launchedWithNoArguments args = list_all (prefixed ''-psn_'') args"

section \<open>Values\<close>

definition inlineValue :: "string \<Rightarrow> string" where
  "inlineValue a = (case find_char (CHR ''='') a of None \<Rightarrow> [] | Some equals \<Rightarrow> drop (equals + 1) a)"

text \<open>The value of a flag and the arguments left: inline, or the next argument.\<close>

definition needsValue :: "string \<Rightarrow> string list \<Rightarrow> (string \<times> string list) option" where
  "needsValue a rest = (if inlineValue a \<noteq> [] then Some (inlineValue a, rest)
     else case rest of v # others \<Rightarrow> Some (v, others) | [] \<Rightarrow> None)"

text \<open>Out of range \<open>atoi\<close> is undefined; 0 stands for what it returns.\<close>

definition atoi :: "string \<Rightarrow> int" where
  "atoi s = (case stoi s of Some n \<Rightarrow> n | None \<Rightarrow> 0)"

text \<open>\<open>%d\<close> of \<open>sscanf\<close>, and \<open>%dx%d\<close>.\<close>

definition scan_int :: "string \<Rightarrow> (int \<times> string) option" where
  "scan_int s =
     (let (neg, t) = split_sign (dropWhile isspace s); ds = takeWhile isdigit t
      in if ds = [] then None
         else Some ((if neg then - int (digits_val ds) else int (digits_val ds)), dropWhile isdigit t))"

definition kms_mode_ok :: "string \<Rightarrow> bool" where
  "kms_mode_ok text = (case scan_int text of
      Some (w, c # rest) \<Rightarrow> c = CHR ''x'' \<and> (case scan_int rest of Some (h, _) \<Rightarrow> 0 < w \<and> 0 < h | None \<Rightarrow> False)
    | _ \<Rightarrow> False)"

section \<open>One argument\<close>

text \<open>Go on with what is left, show the usage, or say what is wrong and exit.\<close>

datatype outcome = Next "string list" parsing | Usage | Bad string

definition with_value :: "string \<Rightarrow> string list \<Rightarrow> (string \<Rightarrow> string + parsing) \<Rightarrow> outcome" where
  "with_value a rest k = (case needsValue a rest of
      None \<Rightarrow> Bad (a @ '' needs a value'')
    | Some (v, others) \<Rightarrow> (case k v of Inl e \<Rightarrow> Bad e | Inr s \<Rightarrow> Next others s))"

definition flagged :: "(given \<Rightarrow> given) \<Rightarrow> parsing \<Rightarrow> parsing" where
  "flagged f s = s\<lparr>was_given := f (was_given s)\<rparr>"

definition add_output :: "output_spec \<Rightarrow> parsing \<Rightarrow> parsing" where
  "add_output spec s = flagged (\<lambda>g. g\<lparr>given_outputs := True\<rparr>) (s\<lparr>opt_outputs := opt_outputs s @ [spec]\<rparr>)"

definition spec_of :: "string \<Rightarrow> string \<Rightarrow> int \<Rightarrow> json \<Rightarrow> output_spec" where
  "spec_of kind name device opts =
     \<lparr>spec_kind = kind, spec_name = name, spec_device = device, spec_options = opts, spec_background = default_background\<rparr>"

text \<open>The flags about the page, in the order they are tried; \<open>None\<close> when it is none of them.\<close>

definition source_argument :: "string \<Rightarrow> string list \<Rightarrow> parsing \<Rightarrow> outcome option" where
  "source_argument a rest s =
     (if a = ''--help'' \<or> a = ''-h'' then Some Usage
      else if prefixed ''--url'' a then
        Some (with_value a rest (\<lambda>v. Inr (flagged (\<lambda>g. g\<lparr>given_url := True\<rparr>) (s\<lparr>opt_url := v\<rparr>))))
      else if prefixed ''--format'' a then
        Some (with_value a rest (\<lambda>v. case format_parse v of
            None \<Rightarrow> Inl (''cannot parse format '' @ quoted v)
          | Some f \<Rightarrow> Inr (flagged (\<lambda>g. g\<lparr>given_format := True\<rparr>) (s\<lparr>opt_format := f\<rparr>))))
      else if prefixed ''--matrix'' a then
        Some (with_value a rest (\<lambda>v. Inr (flagged (\<lambda>g. g\<lparr>given_matrix := True\<rparr>)
          (s\<lparr>opt_matrix := (if v = ''601'' then MatrixBt601 else if v = ''709'' then MatrixBt709 else MatrixAuto)\<rparr>))))
      else if prefixed ''--pacing'' a then
        Some (with_value a rest (\<lambda>v. Inr (flagged (\<lambda>g. g\<lparr>given_pacing := True\<rparr>) (s\<lparr>opt_external := (v \<noteq> ''internal'')\<rparr>))))
      else if prefixed ''--cache'' a then Some (with_value a rest (\<lambda>v. Inr (s\<lparr>cachePath := v\<rparr>)))
      else if a = ''--no-audio'' then Some (Next rest (s\<lparr>opt_audio := False\<rparr>))
      else if a = ''--headless'' then Some (Next rest s)
      else if a = ''--verbose'' then Some (Next rest (s\<lparr>opt_verbose := True\<rparr>))
      else if a = ''--no-preview'' then Some (Next rest (s\<lparr>opt_preview := False\<rparr>))
      else None)"

text \<open>What applies to the next output.\<close>

definition modifier_argument :: "string \<Rightarrow> string list \<Rightarrow> parsing \<Rightarrow> outcome option" where
  "modifier_argument a rest s =
     (if a = ''--alpha'' then Some (Next rest (s\<lparr>nextAlpha := True\<rparr>))
      else if a = ''--key-premultiplied'' then Some (Next rest (s\<lparr>nextPremultiplied := True\<rparr>))
      else if prefixed ''--key-level'' a then Some (with_value a rest (\<lambda>v. Inr (s\<lparr>keyLevel := atoi v\<rparr>)))
      else if prefixed ''--key'' a then
        (let mode = (if inlineValue a = [] then ''external'' else inlineValue a)
         in Some (if mode \<noteq> ''external'' \<and> mode \<noteq> ''internal'' then Bad (''--key must be external or internal, not '' @ quoted mode)
              else Next rest (s\<lparr>nextKeying := mode\<rparr>)))
      else if prefixed ''--scaling'' a then
        Some (with_value a rest (\<lambda>v. if v \<noteq> ''fit'' \<and> v \<noteq> ''fill'' \<and> v \<noteq> ''stretch''
          then Inl (''--scaling must be fit, fill or stretch, not '' @ quoted v) else Inr (s\<lparr>nextScaling := v\<rparr>)))
      else if prefixed ''--rotate'' a then
        Some (with_value a rest (\<lambda>v. case rotationFromString v of
            None \<Rightarrow> Inl (''--rotate must be 0, 90, 180 or 270, not '' @ quoted v)
          | Some r \<Rightarrow> Inr (s\<lparr>nextRotate := rotationToString r\<rparr>)))
      else if prefixed ''--kms-mode'' a then
        Some (with_value a rest (\<lambda>v. if kms_mode_ok v then Inr (s\<lparr>nextKmsMode := v\<rparr>)
          else Inl (''--kms-mode must look like 1920x1080 or 1920x1080@60, not '' @ quoted v)))
      else None)"

text \<open>Outputs on displays and in shared memory.\<close>

definition display_argument :: "string \<Rightarrow> string list \<Rightarrow> parsing \<Rightarrow> outcome option" where
  "display_argument a rest s =
     (if a = ''--kms'' \<or> prefixed ''--kms='' a then
        (let card = inlineValue a;
             opts = set_when (nextKmsMode s \<noteq> []) ''mode'' (String (nextKmsMode s))
                      (set_when (nextScaling s \<noteq> []) ''scaling'' (String (nextScaling s))
                      (set_when (nextRotate s \<noteq> []) ''rotate'' (String (nextRotate s))
                      (set_when (card \<noteq> []) ''card'' (String card) (Object []))))
         in Some (Next rest (add_output (spec_of ''kms'' (''kms'' @ (if card = [] then ''0'' else card)) 0 opts)
              (s\<lparr>nextRotate := [], nextScaling := [], nextKmsMode := []\<rparr>))))
      else if prefixed ''--screen'' a then
        (let index = inlineValue a; display = (if index = [] then 0 else atoi index);
             opts = set_when (nextScaling s \<noteq> []) ''scaling'' (String (nextScaling s))
                      (set_key ''display'' (number_of_int display) (Object []))
         in Some (Next rest (add_output (spec_of ''screen'' (''screen'' @ dec_int display) 0 opts) (s\<lparr>nextScaling := []\<rparr>))))
      else if prefixed ''--syphon'' a \<or> prefixed ''--spout'' a \<or> prefixed ''--shared'' a then
        Some (Next rest (add_output (spec_of ''shared'' (if inlineValue a = [] then ''WebLinked'' else inlineValue a) 0 (Object [])) s))
      else None)"

text \<open>Files and what a link may do.\<close>

definition file_argument :: "string \<Rightarrow> string list \<Rightarrow> parsing \<Rightarrow> outcome option" where
  "file_argument a rest s =
     (if a = ''--no-osc'' then Some (Next rest (s\<lparr>opt_control := (opt_control s)\<lparr>oscEnabled := False\<rparr>\<rparr>))
      else if a = ''--no-interactive'' then
        Some (Next rest (flagged (\<lambda>g. g\<lparr>given_interactive := True\<rparr>) (s\<lparr>opt_interactive := False\<rparr>)))
      else if a = ''--no-settings'' then Some (Next rest (s\<lparr>useSavedSettings := False\<rparr>))
      else if prefixed ''--settings'' a then Some (with_value a rest (\<lambda>v. Inr (s\<lparr>opt_settings := v\<rparr>)))
      else if prefixed ''--config'' a then Some (with_value a rest (\<lambda>v. Inr (s\<lparr>configPath := v\<rparr>)))
      else if prefixed ''--popups'' a then
        Some (with_value a rest (\<lambda>v. if v \<noteq> ''block'' \<and> v \<noteq> ''navigate'' then Inl (''--popups must be navigate or block, not '' @ quoted v)
          else Inr (flagged (\<lambda>g. g\<lparr>given_popups := True\<rparr>) (s\<lparr>opt_block := (v = ''block'')\<rparr>))))
      else None)"

text \<open>Outputs on the network and on cards.\<close>

definition feed_argument :: "string \<Rightarrow> string list \<Rightarrow> parsing \<Rightarrow> outcome option" where
  "feed_argument a rest s =
     (if prefixed ''--ndi'' a \<or> prefixed ''--omt'' a then
        (let name = inlineValue a
         in Some (Next rest (add_output (spec_of (if prefixed ''--ndi'' a then ''ndi'' else ''omt'')
              (if name = [] then ''WebLinked'' else name) 0 (set_when (nextAlpha s) ''alpha'' (Bool True) (Object []))) (s\<lparr>nextAlpha := False\<rparr>))))
      else if prefixed ''--stream'' a then
        Some (with_value a rest (\<lambda>v. Inr (add_output
          (spec_of ''stream'' (''stream'' @ dec (streamIndex s)) 0
             (set_when (nextBitrate s \<noteq> []) ''bitrate'' (String (nextBitrate s)) (set_key ''url'' (String v) (Object []))))
          (s\<lparr>nextBitrate := [], streamIndex := streamIndex s + 1\<rparr>))))
      else if prefixed ''--bitrate'' a then Some (with_value a rest (\<lambda>v. Inr (s\<lparr>nextBitrate := v\<rparr>)))
      else if prefixed ''--decklink'' a \<or> prefixed ''--aja'' a then
        (let kind = (if prefixed ''--decklink'' a then ''decklink'' else ''aja''); index = inlineValue a;
             device = (if index = [] then 0 else atoi index);
             opts = (if nextKeying s = [] then Object []
               else set_key ''premultiplied_fill'' (Bool (nextPremultiplied s)) (set_key ''key_level'' (number_of_int (keyLevel s))
                      (set_key ''keying'' (String (nextKeying s)) (Object []))))
         in Some (Next rest (add_output (spec_of kind (kind @ dec_int device) device opts) (s\<lparr>nextKeying := [], nextPremultiplied := False\<rparr>))))
      else None)"

text \<open>The control surface, the desktop, and what is passed on to Chromium.\<close>

definition control_argument :: "string \<Rightarrow> string list \<Rightarrow> parsing \<Rightarrow> outcome" where
  "control_argument a rest s =
     (let c = opt_control s
      in if prefixed ''--port'' a then with_value a rest (\<lambda>v. Inr (s\<lparr>opt_control := c\<lparr>httpPort := atoi v\<rparr>\<rparr>))
         else if prefixed ''--bind'' a then with_value a rest (\<lambda>v. Inr (s\<lparr>opt_control := c\<lparr>httpBind := v\<rparr>\<rparr>))
         else if prefixed ''--token'' a then with_value a rest (\<lambda>v. Inr (s\<lparr>opt_control := c\<lparr>httpToken := v\<rparr>\<rparr>))
         else if prefixed ''--osc-port'' a then with_value a rest (\<lambda>v. Inr (s\<lparr>opt_control := c\<lparr>oscPort := atoi v\<rparr>\<rparr>))
         else if a = ''--no-mdns'' then Next rest (s\<lparr>opt_control := c\<lparr>mdnsEnabled := False\<rparr>\<rparr>)
         else if prefixed ''--name'' a then with_value a rest (\<lambda>v. Inr (s\<lparr>opt_control := c\<lparr>instanceName := v\<rparr>\<rparr>))
         else if a = ''--open'' then Next rest (s\<lparr>openControlPage := True\<rparr>)
         else if a = ''--no-open'' then Next rest (s\<lparr>openControlPage := False\<rparr>)
         else if a = ''--no-tray'' then Next rest (s\<lparr>wantTray := False\<rparr>)
         else if prefixed ''--'' a then Next rest s
         else if prefixed ''-psn_'' a then Next rest s
         else Bad (''unexpected argument '' @ quoted a @ '' (try --help)''))"

definition one_argument :: "string \<Rightarrow> string list \<Rightarrow> parsing \<Rightarrow> outcome" where
  "one_argument a rest s =
     (case source_argument a rest s of Some r \<Rightarrow> r | None \<Rightarrow>
      (case modifier_argument a rest s of Some r \<Rightarrow> r | None \<Rightarrow>
       (case display_argument a rest s of Some r \<Rightarrow> r | None \<Rightarrow>
        (case file_argument a rest s of Some r \<Rightarrow> r | None \<Rightarrow>
         (case feed_argument a rest s of Some r \<Rightarrow> r | None \<Rightarrow> control_argument a rest s)))))"

section \<open>The command line\<close>

lemma needsValue_shorter: "needsValue a rest = Some (v, others) \<Longrightarrow> length others \<le> length rest"
  by (auto simp: needsValue_def split: if_splits list.splits)

lemma with_value_shorter: "with_value a rest k = Next others s \<Longrightarrow> length others \<le> length rest"
  by (auto simp: with_value_def dest: needsValue_shorter split: option.splits sum.splits)

lemma one_argument_shorter:
  assumes "one_argument a rest s = Next others s'"
  shows "length others \<le> length rest"
proof -
  have "source_argument a rest s = Some (Next others s') \<Longrightarrow> length others \<le> length rest"
    by (auto simp: source_argument_def dest: with_value_shorter split: if_splits)
  moreover have "modifier_argument a rest s = Some (Next others s') \<Longrightarrow> length others \<le> length rest"
    by (auto simp: modifier_argument_def Let_def dest: with_value_shorter split: if_splits)
  moreover have "display_argument a rest s = Some (Next others s') \<Longrightarrow> length others \<le> length rest"
    by (auto simp: display_argument_def Let_def split: if_splits)
  moreover have "file_argument a rest s = Some (Next others s') \<Longrightarrow> length others \<le> length rest"
    by (auto simp: file_argument_def dest: with_value_shorter split: if_splits)
  moreover have "feed_argument a rest s = Some (Next others s') \<Longrightarrow> length others \<le> length rest"
    by (auto simp: feed_argument_def Let_def dest: with_value_shorter split: if_splits)
  moreover have "control_argument a rest s = Next others s' \<Longrightarrow> length others \<le> length rest"
    by (auto simp: control_argument_def Let_def dest: with_value_shorter split: if_splits)
  ultimately show ?thesis using assms by (auto simp: one_argument_def split: option.splits)
qed

datatype parsed = Parsed parsing | Help_shown | Parse_error string

function parseArguments :: "string list \<Rightarrow> parsing \<Rightarrow> parsed" where
  "parseArguments [] s = Parsed s"
| "parseArguments (a # rest) s = (case one_argument a rest s of
      Next others s' \<Rightarrow> parseArguments others s'
    | Usage \<Rightarrow> Help_shown
    | Bad e \<Rightarrow> Parse_error e)"
  by pat_completeness auto
termination by (relation "measure (\<lambda>(args, s). length args)") (auto dest!: one_argument_shorter)

section \<open>What is started\<close>

definition ensure_preview :: "launch \<Rightarrow> launch" where
  "ensure_preview o' =
     (if \<not> opt_preview o' then o'
      else if list_ex (\<lambda>spec. spec_kind spec = ''preview'') (opt_outputs o') then o'
      else o'\<lparr>opt_outputs := spec_of ''preview'' ''preview'' 0 (set_key ''factor'' (number_of_int 4) (Object [])) # opt_outputs o'\<rparr>)"

definition unless :: "bool \<Rightarrow> 'a \<Rightarrow> 'a \<Rightarrow> 'a" where
  "unless given x y = (if given then x else y)"

definition fill_in :: "source_config \<Rightarrow> launch \<Rightarrow> launch" where
  "fill_in saved o' =
     (let g = was_given o'
      in o'\<lparr>opt_url := unless (given_url g) (opt_url o') (url saved),
            opt_format := unless (given_format g) (opt_format o') (format saved),
            opt_matrix := unless (given_matrix g) (opt_matrix o') (matrix saved),
            opt_external := unless (given_pacing g) (opt_external o') (externalPacing saved),
            opt_interactive := unless (given_interactive g) (opt_interactive o') (interactiveByDefault saved),
            opt_block := unless (given_popups g) (opt_block o') (popupPolicy saved = ''block''),
            opt_outputs := unless (given_outputs g) (opt_outputs o') (map outputSpecFromConfig (outputs saved)),
            opt_audio := (opt_audio o' \<and> audioEnabled saved)\<rparr>)"

definition applySavedSettings :: "environment \<Rightarrow> files \<Rightarrow> launch \<Rightarrow> launch" where
  "applySavedSettings env fs o' =
     (if \<not> useSavedSettings o' then o'
      else case load_settings fs (if opt_settings o' = [] then defaultPath env else opt_settings o') of
        Inl _ \<Rightarrow> o'
      | Inr file \<Rightarrow> (case sources file of [] \<Rightarrow> o' | saved # _ \<Rightarrow> fill_in saved o'))"

definition flag_source :: "launch \<Rightarrow> source_config" where
  "flag_source o' =
     \<lparr>source_id = ''main'', url = opt_url o', format = opt_format o', outputs = map outputConfigFromSpec (opt_outputs o'),
      audioEnabled = opt_audio o', matrix = opt_matrix o', externalPacing = opt_external o',
      interactiveByDefault = opt_interactive o', popupPolicy = (if opt_block o' then ''block'' else ''navigate''), wantPreview = False\<rparr>"

definition source_flags_given :: "given \<Rightarrow> bool" where
  "source_flags_given g \<longleftrightarrow> given_url g \<or> given_format g \<or> given_matrix g \<or> given_pacing g \<or> given_interactive g \<or>
     given_popups g \<or> given_outputs g"

text \<open>\<open>not given\<close> is taken for the default value here.\<close>

definition merged_control :: "app_config \<Rightarrow> app_config \<Rightarrow> app_config" where
  "merged_control c file =
     c\<lparr>httpPort := (if httpPort c = 7654 then httpPort file else httpPort c),
       httpBind := (if httpBind c = ''127.0.0.1'' then httpBind file else httpBind c),
       httpToken := (if httpToken c = [] then httpToken file else httpToken c),
       oscPort := (if oscPort c = 7655 then oscPort file else oscPort c),
       oscBind := (if oscBind c = ''0.0.0.0'' then oscBind file else oscBind c),
       oscEnabled := (oscEnabled c \<and> oscEnabled file),
       instanceName := (if instanceName c = [] then instanceName file else instanceName c),
       mdnsEnabled := (mdnsEnabled c \<and> mdnsEnabled file)\<rparr>"

definition resolveSources :: "files \<Rightarrow> launch \<Rightarrow> string + launch" where
  "resolveSources fs o' =
     (if configPath o' = [] then Inr (o'\<lparr>opt_sources := (opt_sources o')\<lparr>sources := sources (opt_sources o') @ [flag_source o']\<rparr>\<rparr>)
      else if source_flags_given (was_given o')
      then Inl ''--config describes the sources, so it cannot be combined with --url, --format, --matrix, --pacing, --interactive, --popups or an output flag. Put those in the file instead.''
      else case load_settings fs (configPath o') of
        Inl e \<Rightarrow> Inl (''cannot read '' @ configPath o' @ '': '' @ e)
      | Inr file \<Rightarrow>
          if sources file = [] then Inl (configPath o' @ '' describes no sources'')
          else Inr (o'\<lparr>opt_sources := file\<lparr>sources := map (\<lambda>c. if opt_preview o' then ensurePreview c else c) (sources file)\<rparr>,
                        opt_control := merged_control (opt_control o') file\<rparr>))"

text \<open>The first half of \<open>main\<close>.\<close>

datatype launch_result = Exits int string | Starts launch

definition launch_with :: "environment \<Rightarrow> files \<Rightarrow> video_format \<Rightarrow> string list \<Rightarrow> launch_result" where
  "launch_with env fs f args = (case parseArguments args (default_launch f (launchedWithNoArguments args)) of
      Parse_error e \<Rightarrow> Exits 2 e
    | Help_shown \<Rightarrow> Exits 0 []
    | Parsed s \<Rightarrow>
        (let o' = launch.truncate s;
             o2 = (if configPath o' = [] then ensure_preview (applySavedSettings env fs o') else o')
         in case resolveSources fs o2 of Inl e \<Rightarrow> Exits 1 e | Inr o3 \<Rightarrow> Starts o3))"

section \<open>What the parser leaves alone\<close>

text \<open>A setting whose flag was not given has its default; the sources are only filled in later.\<close>

definition untouched :: "video_format \<Rightarrow> parsing \<Rightarrow> bool" where
  "untouched f s \<longleftrightarrow> opt_sources s = default_app \<and> (let g = was_given s in
     (\<not> given_url g \<longrightarrow> opt_url s = ''about:blank'') \<and> (\<not> given_format g \<longrightarrow> opt_format s = f) \<and>
     (\<not> given_matrix g \<longrightarrow> opt_matrix s = MatrixAuto) \<and> (\<not> given_pacing g \<longrightarrow> opt_external s) \<and>
     (\<not> given_interactive g \<longrightarrow> opt_interactive s) \<and> (\<not> given_popups g \<longrightarrow> \<not> opt_block s) \<and>
     (\<not> given_outputs g \<longrightarrow> opt_outputs s = []))"

lemma with_value_Next: "with_value a rest k = Next others s \<Longrightarrow> \<exists>v. k v = Inr s"
  by (auto simp: with_value_def split: option.splits sum.splits)

lemma untouched_add_output: "untouched f s \<Longrightarrow> untouched f (add_output spec s)"
  by (simp add: untouched_def add_output_def flagged_def Let_def)

lemma untouched_still:
  "untouched f (s\<lparr>cachePath := v0\<rparr>) = untouched f s"
  "untouched f (s\<lparr>opt_audio := v1\<rparr>) = untouched f s"
  "untouched f (s\<lparr>opt_verbose := v2\<rparr>) = untouched f s"
  "untouched f (s\<lparr>opt_preview := v3\<rparr>) = untouched f s"
  "untouched f (s\<lparr>nextAlpha := v4\<rparr>) = untouched f s"
  "untouched f (s\<lparr>nextPremultiplied := v5\<rparr>) = untouched f s"
  "untouched f (s\<lparr>keyLevel := v6\<rparr>) = untouched f s"
  "untouched f (s\<lparr>nextKeying := v7\<rparr>) = untouched f s"
  "untouched f (s\<lparr>nextScaling := v8\<rparr>) = untouched f s"
  "untouched f (s\<lparr>nextRotate := v9\<rparr>) = untouched f s"
  "untouched f (s\<lparr>nextKmsMode := v10\<rparr>) = untouched f s"
  "untouched f (s\<lparr>nextBitrate := v11\<rparr>) = untouched f s"
  "untouched f (s\<lparr>streamIndex := v12\<rparr>) = untouched f s"
  "untouched f (s\<lparr>opt_control := v13\<rparr>) = untouched f s"
  "untouched f (s\<lparr>useSavedSettings := v14\<rparr>) = untouched f s"
  "untouched f (s\<lparr>opt_settings := v15\<rparr>) = untouched f s"
  "untouched f (s\<lparr>configPath := v16\<rparr>) = untouched f s"
  "untouched f (s\<lparr>openControlPage := v17\<rparr>) = untouched f s"
  "untouched f (s\<lparr>wantTray := v18\<rparr>) = untouched f s"
  by (simp_all add: untouched_def)

lemma untouched_flagged:
  "untouched f s \<Longrightarrow> untouched f (flagged (\<lambda>g. g\<lparr>given_url := True\<rparr>) (s\<lparr>opt_url := w0\<rparr>))"
  "untouched f s \<Longrightarrow> untouched f (flagged (\<lambda>g. g\<lparr>given_format := True\<rparr>) (s\<lparr>opt_format := w1\<rparr>))"
  "untouched f s \<Longrightarrow> untouched f (flagged (\<lambda>g. g\<lparr>given_matrix := True\<rparr>) (s\<lparr>opt_matrix := w2\<rparr>))"
  "untouched f s \<Longrightarrow> untouched f (flagged (\<lambda>g. g\<lparr>given_pacing := True\<rparr>) (s\<lparr>opt_external := w3\<rparr>))"
  "untouched f s \<Longrightarrow> untouched f (flagged (\<lambda>g. g\<lparr>given_interactive := True\<rparr>) (s\<lparr>opt_interactive := w4\<rparr>))"
  "untouched f s \<Longrightarrow> untouched f (flagged (\<lambda>g. g\<lparr>given_popups := True\<rparr>) (s\<lparr>opt_block := w5\<rparr>))"
  by (simp_all add: untouched_def flagged_def Let_def)

lemmas untouched_rules = untouched_still untouched_flagged untouched_add_output

lemma one_argument_untouched:
  assumes "one_argument a rest s = Next others s'" "untouched f s"
  shows "untouched f s'"
proof -
  have "source_argument a rest s = Some (Next others s') \<Longrightarrow> untouched f s'"
    using assms(2) by (auto simp: source_argument_def untouched_rules dest!: with_value_Next split: if_splits option.splits)
  moreover have "modifier_argument a rest s = Some (Next others s') \<Longrightarrow> untouched f s'"
    using assms(2) by (auto simp: modifier_argument_def Let_def untouched_rules dest!: with_value_Next split: if_splits option.splits)
  moreover have "display_argument a rest s = Some (Next others s') \<Longrightarrow> untouched f s'"
    using assms(2) by (auto simp: display_argument_def Let_def untouched_rules split: if_splits)
  moreover have "file_argument a rest s = Some (Next others s') \<Longrightarrow> untouched f s'"
    using assms(2) by (auto simp: file_argument_def untouched_rules dest!: with_value_Next split: if_splits)
  moreover have "feed_argument a rest s = Some (Next others s') \<Longrightarrow> untouched f s'"
    using assms(2) by (auto simp: feed_argument_def Let_def untouched_rules dest!: with_value_Next split: if_splits)
  moreover have "control_argument a rest s = Next others s' \<Longrightarrow> untouched f s'"
    using assms(2) by (auto simp: control_argument_def Let_def untouched_rules dest!: with_value_Next split: if_splits)
  ultimately show ?thesis using assms(1) by (auto simp: one_argument_def split: option.splits)
qed

lemma parse_untouched: "parseArguments args s0 = Parsed s \<Longrightarrow> untouched f s0 \<Longrightarrow> untouched f s"
proof (induction args s0 rule: parseArguments.induct)
  case (2 a rest s0)
  then show ?case using one_argument_untouched by (auto split: outcome.splits)
qed simp

lemma default_untouched: "untouched f (default_launch f b)"
  by (simp add: untouched_def default_launch_def)

section \<open>Properties\<close>

lemma config_of_spec [simp]: "outputConfigFromSpec (outputSpecFromConfig c) = c"
  by (simp add: outputConfigFromSpec_def outputSpecFromConfig_def)

lemma preview_of_spec: "outputConfigFromSpec (spec_of ''preview'' ''preview'' 0 (set_key ''factor'' (number_of_int 4) (Object []))) = preview_output"
  by (simp add: outputConfigFromSpec_def spec_of_def preview_output_def)

text \<open>\<open>ensure_preview\<close> over configurations of outputs.\<close>

definition previewed :: "bool \<Rightarrow> output_config list \<Rightarrow> output_config list" where
  "previewed wanted os = (if wanted \<and> \<not> list_ex (\<lambda>x. out_kind x = ''preview'') os then preview_output # os else os)"

lemma ensure_preview_spec:
  "\<exists>os. ensure_preview o' = o'\<lparr>opt_outputs := os\<rparr> \<and>
     map outputConfigFromSpec os = previewed (opt_preview o') (map outputConfigFromSpec (opt_outputs o'))"
proof -
  have k: "out_kind (outputConfigFromSpec x) = spec_kind x" for x by (simp add: outputConfigFromSpec_def)
  have same: "o'\<lparr>opt_outputs := opt_outputs o'\<rparr> = o'" by simp
  show ?thesis
    using same preview_of_spec
    by (cases "opt_preview o' \<and> \<not> list_ex (\<lambda>spec. spec_kind spec = ''preview'') (opt_outputs o')")
      (auto simp: ensure_preview_def previewed_def list_ex_iff k spec_of_def intro: exI [of _ "opt_outputs o'"])
qed

lemma launch_without_config:
  assumes "parseArguments args (default_launch f (launchedWithNoArguments args)) = Parsed s" "configPath s = []"
    and "o' = ensure_preview (applySavedSettings env fs (launch.truncate s))"
  shows "launch_with env fs f args = Starts (o'\<lparr>opt_sources := default_app\<lparr>sources := [flag_source o']\<rparr>\<rparr>)"
proof -
  have "opt_sources s = default_app" using parse_untouched [OF assms(1) default_untouched] by (simp add: untouched_def)
  moreover have "opt_sources o' = opt_sources s \<and> configPath o' = configPath s"
    by (cases s) (simp add: assms(3) ensure_preview_def applySavedSettings_def fill_in_def Let_def launch.defs split: sum.split list.split)
  moreover have "configPath (launch.truncate s) = configPath s" by (cases s) (simp add: launch.defs)
  ultimately show ?thesis using assms(1,2) assms(3) [symmetric]
    by (simp add: launch_with_def resolveSources_def Let_def default_app_def)
qed


lemma restored_source:
  assumes "sources file = c # others" "load_settings fs (defaultPath env) = Inr file"
    and "list_ex (\<lambda>x. out_kind x = ''preview'') (outputs c)" "popupPolicy c = ''navigate'' \<or> popupPolicy c = ''block''"
  shows "\<exists>o'. launch_with env fs f [] = Starts o' \<and> sources (opt_sources o') = [c\<lparr>source_id := ''main'', wantPreview := False\<rparr>]"
proof -
  let ?s = "default_launch f (launchedWithNoArguments [])"
  have a: "applySavedSettings env fs (launch.truncate ?s) = fill_in c (launch.truncate ?s)"
    using assms(1,2) by (simp add: applySavedSettings_def default_launch_def launch.defs)
  have e: "ensure_preview (fill_in c (launch.truncate ?s)) = fill_in c (launch.truncate ?s)"
    using assms(3) by (simp add: ensure_preview_def fill_in_def unless_def default_launch_def launch.defs list_ex_iff outputSpecFromConfig_def)
  have "flag_source (fill_in c (launch.truncate ?s)) = c\<lparr>source_id := ''main'', wantPreview := False\<rparr>"
    using assms(4) by (cases c) (auto simp: flag_source_def fill_in_def unless_def default_launch_def launch.defs comp_def)
  then show ?thesis
    using launch_without_config [of "[]" f ?s _ env fs] a e by (simp add: default_launch_def)
qed


text \<open>A file whose control port is 9000 and whose one source has its preview switched off.\<close>

definition example_file :: app_config where
  "example_file = default_app\<lparr>sources := [bare_source], httpPort := 9000, httpToken := ''secret''\<rparr>"

definition linux :: environment where
  "linux = \<lparr>platform_of = Unix, getenv = (\<lambda>_. None), temp_directory = ''/tmp''\<rparr>"

definition example_files :: files where
  "example_files = (\<lambda>_. Some (settings_text example_file))"

lemma example_file_good: "good_app example_file" "options_fit example_file"
  using witness_app_good by (simp_all add: good_app_def options_fit_def example_file_def default_app_def witness_app_def)

lemma example_read: "app_as_read example_file = example_file\<lparr>sources := [bare_source\<lparr>wantPreview := True, outputs := [preview_output]\<rparr>]\<rparr>"
  by (simp add: app_as_read_def as_read_def example_file_def bare_source_def witness_source_def ensurePreview_def)

lemma example_loads: "load_settings example_files p = Inr (example_file\<lparr>sources := [bare_source\<lparr>wantPreview := True, outputs := [preview_output]\<rparr>]\<rparr>)"
  using settings_text_parses [OF example_file_good] by (simp add: load_settings_def example_files_def example_read)

lemma parse_url: "parseArguments [''--url'', ''u''] (default_launch f b) =
  Parsed (flagged (\<lambda>g. g\<lparr>given_url := True\<rparr>) ((default_launch f b)\<lparr>opt_url := ''u''\<rparr>))"
  by (simp add: one_argument_def source_argument_def with_value_def needsValue_def inlineValue_def prefixed_def)



section \<open>Where the file and the command line disagree\<close>

text \<open>
  Saved settings carry the control port and the token, but a launch takes neither from them: an instance that
  was saved with a token comes back without one.
\<close>

lemma saved_control_ignored:
  assumes "parseArguments args (default_launch f (launchedWithNoArguments args)) = Parsed s" "configPath s = []"
  shows "\<exists>o'. launch_with env fs f args = Starts o' \<and> opt_control o' = opt_control s"
  using launch_without_config [OF assms refl, of env fs]
  by (cases s) (simp add: ensure_preview_def applySavedSettings_def fill_in_def Let_def launch.defs split: sum.split list.split)

text \<open>
  With \<open>--config\<close> a flag that names the default is taken for one not given: the port asked for explicitly is
  replaced by the file's.
\<close>

lemma explicit_default_overridden:
  "\<exists>o'. launch_with linux example_files (format witness_source) [''--config'', ''f'', ''--port'', ''7654''] = Starts o' \<and>
     httpPort (opt_control o') = 9000"
proof -
  have s: "stoi ''7654'' = Some 7654" by code_simp
  have "httpPort (merged_control default_app (example_file\<lparr>sources := x\<rparr>)) = 9000" for x by (simp add: merged_control_def default_app_def example_file_def)
  moreover have "sources example_file \<noteq> []" by (simp add: example_file_def)
  moreover have "default_app\<lparr>httpPort := 7654\<rparr> = default_app" by (simp add: default_app_def)
  ultimately show ?thesis
    by (simp add: launch_with_def one_argument_def source_argument_def modifier_argument_def display_argument_def file_argument_def
        feed_argument_def control_argument_def with_value_def needsValue_def inlineValue_def prefixed_def atoi_def s
        resolveSources_def example_loads source_flags_given_def default_launch_def launch.defs Let_def launchedWithNoArguments_def)
qed

end
