(* ===== verification/Diagnostics.thy ===== *)
theory Diagnostics
  imports Launch Control_Api "HOL-Library.Sublist"
begin

text \<open>
  \<open>diag/diag.cpp\<close>: the log in memory and on disk, the configuration kept for reports, and what a report
  and a bundle say. The time, the names of build and platform, backtraces and what the file system answers
  are arguments.
\<close>

section \<open>Levels\<close>

datatype level = kTrace | kDebug | kInfo | kWarn | kError | kFatal

primrec rank :: "level \<Rightarrow> nat" where
  "rank kTrace = 0"
| "rank kDebug = 1"
| "rank kInfo = 2"
| "rank kWarn = 3"
| "rank kError = 4"
| "rank kFatal = 5"

lemma rank_inj: "rank a = rank b \<Longrightarrow> a = b"
  by (cases a; cases b) simp_all

instantiation level :: linorder
begin

definition less_eq_level :: "level \<Rightarrow> level \<Rightarrow> bool" where
  "less_eq_level a b \<longleftrightarrow> rank a \<le> rank b"

definition less_level :: "level \<Rightarrow> level \<Rightarrow> bool" where
  "less_level a b \<longleftrightarrow> rank a < rank b"

instance
  by standard (auto simp: less_eq_level_def less_level_def dest: rank_inj)

end

primrec levelToString :: "level \<Rightarrow> string" where
  "levelToString kTrace = ''TRACE''"
| "levelToString kDebug = ''DEBUG''"
| "levelToString kInfo = ''INFO ''"
| "levelToString kWarn = ''WARN ''"
| "levelToString kError = ''ERROR''"
| "levelToString kFatal = ''FATAL''"

definition level_of :: "string \<Rightarrow> level" where
  "level_of text =
     (let l = lowercase text
      in if l = ''trace'' then kTrace else if l = ''debug'' then kDebug
         else if l = ''warn'' \<or> l = ''warning'' then kWarn
         else if l = ''error'' then kError else if l = ''fatal'' then kFatal else kInfo)"

text \<open>The level as the API spells it.\<close>

definition levelName :: "level \<Rightarrow> string" where
  "levelName l = lowercase (rev (dropWhile (\<lambda>c. c = CHR '' '') (rev (levelToString l))))"

lemma levelName_of: "levelName (level_of text) = levelFromString text"
  by (simp add: levelName_def level_of_def levelFromString_def Let_def tolower_def code_def) code_simp?

section \<open>Redaction\<close>

definition kSuspicious :: "string list" where
  "kSuspicious = [''password'', ''secret'', ''token'', ''key'', ''credential'', ''auth'', ''cookie'']"

definition suspicious :: "string \<Rightarrow> bool" where
  "suspicious key \<longleftrightarrow> list_ex (\<lambda>needle. find_sub needle (lowercase key) \<noteq> None) kSuspicious"

fun redact :: "json \<Rightarrow> json" where
  "redact (Object ms) = Object (foldl (\<lambda>out m. set_member (fst m) (if suspicious (fst m) then String ''[redacted]'' else redact (snd m)) out) [] ms)"
| "redact (Array vs) = foldl (\<lambda>out v. push (redact v) out) (Array []) vs"
| "redact v = v"

section \<open>State\<close>

text \<open>What a session is set up with; the crash handler is not part of the model.\<close>

record diag_options =
  appName :: string
  envPrefix :: string
  app_version :: string
  defaultLevel :: level
  maxLogBytes :: nat

text \<open>
  \<open>log_text\<close> and \<open>previous_text\<close> are the bytes in the log file and in the one before it; \<open>log_good\<close> is
  the stream's own state: after a write that failed it writes nothing until it is opened again.
\<close>

record diagnostics =
  diag_options :: diag_options
  initialised :: bool
  diag_level :: level
  diag_directory :: string
  diag_path :: string
  log_open :: bool
  log_good :: bool
  written :: nat
  log_text :: string
  previous_text :: "string option"
  tail_lines :: "string list"
  diag_config :: json

definition kLogTailLines :: nat where "kLogTailLines = 400"

text \<open>What the file system answers while a line is written: how much of it fits, and what a rotation can do.\<close>

record log_disk =
  fits :: nat
  removes :: bool
  renames :: bool
  reopens :: bool

section \<open>Operations\<close>

definition rotateIfNeededLocked :: "log_disk \<Rightarrow> diagnostics \<Rightarrow> diagnostics" where
  "rotateIfNeededLocked d s =
     (if written s < maxLogBytes (diag_options s) then s
      else let s1 = s\<lparr>previous_text := (if removes d then None else previous_text s)\<rparr>;
               s2 = (if renames d then s1\<lparr>previous_text := Some (log_text s), log_text := []\<rparr> else s1)
           in if reopens d then s2\<lparr>log_text := [], log_open := True, log_good := True, written := 0\<rparr>
              else s2\<lparr>log_open := False, written := 0\<rparr>)"

definition append_line :: "log_disk \<Rightarrow> string \<Rightarrow> diagnostics \<Rightarrow> diagnostics" where
  "append_line d line s =
     (let n = (if log_good s then min (fits d) (length line) else 0)
      in s\<lparr>log_text := log_text s @ take n line, log_good := (log_good s \<and> n = length line), written := written s + length line\<rparr>)"

text \<open>What is left of a list after taking from the front until there are at most \<open>n\<close>.\<close>

definition newest_of :: "nat \<Rightarrow> 'a list \<Rightarrow> 'a list" where
  "newest_of n xs = drop (length xs - n) xs"

lemma newest_of_length: "length (newest_of n xs) \<le> n"
  by (simp add: newest_of_def)

lemma newest_of_newest: "newest_of n (newest_of n xs @ ys) = newest_of n (xs @ ys)"
proof (cases "length xs \<le> n")
  case False
  then have "length xs - n + (n + length ys - n) = length xs + length ys - n" by simp
  with False show ?thesis by (simp add: newest_of_def add.commute)
qed (simp add: newest_of_def)

definition line_text :: "string \<Rightarrow> level \<Rightarrow> string \<Rightarrow> string" where
  "line_text stamp l message = stamp @ '' '' @ levelToString l @ '' '' @ message"

definition writeLine :: "string \<Rightarrow> level \<Rightarrow> string \<Rightarrow> log_disk \<Rightarrow> diagnostics \<Rightarrow> diagnostics" where
  "writeLine stamp l message d s =
     (if l < diag_level s then s
      else let text = line_text stamp l message;
               s1 = s\<lparr>tail_lines := newest_of kLogTailLines (tail_lines s @ [text])\<rparr>
           in if log_open s1 then rotateIfNeededLocked d (append_line d (text @ [lf]) s1) else s1)"

definition setLevel :: "string \<Rightarrow> level \<Rightarrow> log_disk \<Rightarrow> diagnostics \<Rightarrow> diagnostics" where
  "setLevel stamp l d s =
     (if diag_level s = l then s
      else writeLine stamp l (''log level is now '' @ levelToString l) d (s\<lparr>diag_level := l\<rparr>))"

definition setConfig :: "json \<Rightarrow> diagnostics \<Rightarrow> diagnostics" where
  "setConfig config s = s\<lparr>diag_config := redact config\<rparr>"

definition tail :: "nat \<Rightarrow> diagnostics \<Rightarrow> string list" where
  "tail n s =
     (let available = length (tail_lines s); wanted = (if n = 0 \<or> available < n then available else n)
      in drop (available - wanted) (tail_lines s))"

definition diag_shutdown :: "diagnostics \<Rightarrow> diagnostics" where
  "diag_shutdown s = s\<lparr>log_open := False, initialised := False\<rparr>"

definition defaultLogDirectory :: "environment \<Rightarrow> string \<Rightarrow> string" where
  "defaultLogDirectory env name =
     (let p = platform_of env; or_temp = (\<lambda>v. case getenv env v of Some x \<Rightarrow> x | None \<Rightarrow> temp_directory env)
      in if p = Windows then join p (join p (or_temp ''LOCALAPPDATA'') name) ''logs''
         else if p = Mac_os then join p (join p (join p (or_temp ''HOME'') ''Library'') ''Logs'') name
         else case getenv env ''XDG_STATE_HOME'' of
           Some xdg \<Rightarrow> join p (join p xdg name) ''logs''
         | None \<Rightarrow> join p (join p (join p (join p (or_temp ''HOME'') ''.local'') ''state'') name) ''logs'')"

text \<open>
  What \<open>init\<close> finds: whether the log can be opened, what is in it and in the one before, and its size when
  that can be told.
\<close>

record log_found =
  log_opens :: bool
  found_text :: string
  found_previous :: "string option"
  found_size :: "nat option"

definition diag_init :: "environment \<Rightarrow> diag_options \<Rightarrow> log_found \<Rightarrow> string \<Rightarrow> string \<Rightarrow> log_disk \<Rightarrow> diagnostics \<Rightarrow> diagnostics" where
  "diag_init env o' found stamp system d s =
     (if initialised s then s
      else let p = platform_of env;
               l = (case getenv env (envPrefix o' @ ''_LOG'') of Some v \<Rightarrow> level_of v | None \<Rightarrow> defaultLevel o');
               dir = (case getenv env (envPrefix o' @ ''_LOG_DIR'') of Some v \<Rightarrow> v | None \<Rightarrow> defaultLogDirectory env (appName o'))
           in writeLine stamp kInfo (appName o' @ '' '' @ app_version o' @ '' starting on '' @ system) d
                (s\<lparr>initialised := True, diag_options := o', diag_level := l, diag_directory := dir,
                   diag_path := join p dir (appName o' @ ''.log''), log_open := log_opens found, log_good := True,
                   log_text := found_text found, previous_text := found_previous found,
                   written := (if log_opens found then case found_size found of Some n \<Rightarrow> n | None \<Rightarrow> 2 ^ 64 - 1 else written s)\<rparr>))"

section \<open>Reports\<close>

record identity_info =
  process_id :: int
  build_date :: string
  os_name :: string
  os_version :: string
  architecture :: string

definition kSchema :: string where "kSchema = ''stoatworks.diagnostics/1''"

definition buildAppInfo :: "identity_info \<Rightarrow> diagnostics \<Rightarrow> json" where
  "buildAppInfo i s =
     set_key ''build_date'' (String (build_date i)) (set_key ''pid'' (number_of_int (process_id i))
       (set_key ''version'' (String (app_version (diag_options s))) (set_key ''name'' (String (appName (diag_options s))) (Object []))))"

definition buildPlatformInfo :: "identity_info \<Rightarrow> json" where
  "buildPlatformInfo i =
     set_key ''arch'' (String (architecture i)) (set_key ''os_version'' (String (os_version i)) (set_key ''os'' (String (os_name i)) (Object [])))"

text \<open>The path and the text of the file.\<close>

definition writeReport :: "platform \<Rightarrow> identity_info \<Rightarrow> string \<Rightarrow> string \<Rightarrow> string list \<Rightarrow> string \<Rightarrow> diagnostics \<Rightarrow> string \<times> string" where
  "writeReport p i stamp file_stamp frames reason s =
     (join p (diag_directory s) (appName (diag_options s) @ ''-crash-'' @ file_stamp @ ''.json''),
      serialize True (set_key ''log_tail'' (string_list (tail_lines s)) (set_key ''config'' (diag_config s)
        (set_key ''platform'' (buildPlatformInfo i) (set_key ''app'' (buildAppInfo i s) (set_key ''backtrace'' (string_list frames)
        (set_key ''reason'' (String reason) (set_key ''generated_at'' (String stamp) (set_key ''kind'' (String ''crash-report'')
        (set_key ''schema'' (String kSchema) (Object [])))))))))) @ [lf])"

definition collectBundle :: "platform \<Rightarrow> identity_info \<Rightarrow> string \<Rightarrow> string \<Rightarrow> string list \<Rightarrow> diagnostics \<Rightarrow> string \<times> string" where
  "collectBundle p i stamp file_stamp names s =
     (join p (diag_directory s) (appName (diag_options s) @ ''-diagnostics-'' @ file_stamp @ ''.json''),
      serialize True (set_key ''crash_reports'' (string_list (filter (\<lambda>name. find_sub ''-crash-'' name \<noteq> None) names))
        (set_key ''log_tail'' (string_list (tail_lines s)) (set_key ''log_directory'' (String (diag_directory s))
        (set_key ''config'' (diag_config s) (set_key ''platform'' (buildPlatformInfo i) (set_key ''app'' (buildAppInfo i s)
        (set_key ''generated_at'' (String stamp) (set_key ''kind'' (String ''diagnostics-bundle'')
        (set_key ''schema'' (String kSchema) (Object [])))))))))) @ [lf])"

text \<open>The configuration the application hands over.\<close>

definition describeOptions :: "launch \<Rightarrow> json" where
  "describeOptions o' =
     (let c = opt_control o';
          entry = (\<lambda>spec. set_key ''name'' (String (spec_name spec)) (set_key ''kind'' (String (spec_kind spec)) (Object [])))
      in set_key ''outputs'' (foldl (\<lambda>out spec. push (entry spec) out) (Array []) (opt_outputs o'))
         (set_key ''popups'' (String (if opt_block o' then ''block'' else ''navigate'')) (set_key ''interactive'' (Bool (opt_interactive o'))
         (set_key ''name'' (String (app_config.instanceName c)) (set_key ''mdns'' (Bool (mdnsEnabled c)) (set_key ''osc_port'' (number_of_int (app_config.oscPort c))
         (set_key ''http_token'' (String (httpToken c)) (set_key ''http_port'' (number_of_int (httpPort c))
         (set_key ''http_bind'' (String (httpBind c)) (set_key ''audio'' (Bool (opt_audio o'))
         (set_key ''format'' (String (format_toString (opt_format o'))) (set_key ''url'' (String (opt_url o')) (Object [])))))))))))))"

section \<open>What redaction hides and keeps\<close>

text \<open>A value inside another: the keys and indices on the way to it.\<close>

datatype path_step = Key string | Index nat

fun at_path :: "path_step list \<Rightarrow> json \<Rightarrow> json option" where
  "at_path [] v = Some v"
| "at_path (Key k # p) (Object ms) = (case map_of ms k of Some c \<Rightarrow> at_path p c | None \<Rightarrow> None)"
| "at_path (Index i # p) (Array vs) = (if i < length vs then at_path p (vs ! i) else None)"
| "at_path _ _ = None"

definition secret :: "path_step list \<Rightarrow> bool" where
  "secret p \<longleftrightarrow> list_ex (\<lambda>x. case x of Key k \<Rightarrow> suspicious k | Index _ \<Rightarrow> False) p"

lemma push_all: "foldl (\<lambda>out v. push (f v) out) (Array xs) vs = Array (xs @ map f vs)"
  by (induction vs arbitrary: xs) (simp_all add: push_def)

lemma redact_array [simp]: "redact (Array vs) = Array (map redact vs)"
  by (simp add: push_all)

definition redacted_member :: "string \<times> json \<Rightarrow> json" where
  "redacted_member m = (if suspicious (fst m) then String ''[redacted]'' else redact (snd m))"

lemma set_members:
  "distinct (map fst xs @ map fst ms) \<Longrightarrow>
   foldl (\<lambda>out m. set_member (fst m) (f m) out) xs ms = xs @ map (\<lambda>m. (fst m, f m)) ms"
proof (induction ms arbitrary: xs)
  case (Cons m ms)
  then have "set_member (fst m) (f m) xs = xs @ [(fst m, f m)]" by (intro set_member_new) auto
  then show ?case using Cons.IH [of "xs @ [(fst m, f m)]"] Cons.prems by auto
qed simp

lemma redact_object:
  "distinct (map fst ms) \<Longrightarrow> redact (Object ms) = Object (map (\<lambda>m. (fst m, redacted_member m)) ms)"
  using set_members [of "[]" ms redacted_member] by (simp add: redacted_member_def)

declare redact.simps(1,2) [simp del]

lemma map_of_members: "map_of (map (\<lambda>m. (fst m, f m)) ms) k = (case map_of ms k of Some c \<Rightarrow> Some (f (k, c)) | None \<Rightarrow> None)"
  by (induction ms) auto

text \<open>No key twice in an object, as in every value that was parsed or put together.\<close>

fun keyed :: "json \<Rightarrow> bool" where
  "keyed (Object ms) \<longleftrightarrow> distinct (map fst ms) \<and> list_all (\<lambda>m. keyed (snd m)) ms"
| "keyed (Array vs) \<longleftrightarrow> list_all keyed vs"
| "keyed v \<longleftrightarrow> True"

lemma at_path_String [simp]: "at_path p (String x) = (if p = [] then Some (String x) else None)"
  by (cases "(p, String x)" rule: at_path.cases) simp_all

lemma redact_path:
  "keyed v \<Longrightarrow> (secret p \<longrightarrow> at_path p (redact v) = None \<or> at_path p (redact v) = Some (String ''[redacted]'')) \<and>
     (\<not> secret p \<longrightarrow> at_path p (redact v) = map_option redact (at_path p v))"
proof (induction p v rule: at_path.induct)
  case (2 k p ms)
  show ?case
  proof (cases "map_of ms k")
    case None
    then show ?thesis using 2 by (simp add: redact_object map_of_members)
  next
    case (Some c)
    then have "keyed c" using 2(2) by (auto simp: list_all_iff dest: map_of_SomeD)
    then show ?thesis using 2 Some by (auto simp: redact_object map_of_members redacted_member_def secret_def)
  qed
next
  case (3 i p vs)
  then show ?case by (auto simp: secret_def list_all_length)
qed (auto simp: secret_def redact_object)

text \<open>
  C26: in a redacted configuration nothing is left under a key that looks like a secret, at any depth, and
  every other value is where it was, a plain one as it was.
\<close>

theorem redaction_is_exact:
  assumes "keyed v"
  shows "(secret p \<longrightarrow> at_path p (redact v) = None \<or> at_path p (redact v) = Some (String ''[redacted]'')) \<and>
    (\<not> secret p \<longrightarrow> at_path p (redact v) = map_option redact (at_path p v)) \<and>
    ((\<forall>ms. v \<noteq> Object ms) \<and> (\<forall>vs. v \<noteq> Array vs) \<longrightarrow> redact v = v)"
  using redact_path [OF assms] by (cases v) simp_all

theorem redaction_is_exact_witness:
  "let v = Object [(''a'', Object [(''API_Token'', String ''x'')]), (''url'', String ''u'')]; red = Some (String ''[redacted]'')
   in (at_path [Key ''a'', Key ''API_Token''] (redact v) = None \<or> at_path [Key ''a'', Key ''API_Token''] (redact v) = red) \<and>
      at_path [Key ''url''] (redact v) = Some (String ''u'')"
proof -
  let ?v = "Object [(''a'', Object [(''API_Token'', String ''x'')]), (''url'', String ''u'')]"
  have "keyed ?v" "secret [Key ''a'', Key ''API_Token'']" "\<not> secret [Key ''url'']" by code_simp+
  with redaction_is_exact [of ?v "[Key ''a'', Key ''API_Token'']"] redaction_is_exact [of ?v "[Key ''url'']"]
  show ?thesis by (simp add: Let_def)
qed

section \<open>The configuration in a bundle\<close>

text \<open>What happens to the log after the configuration was handed over.\<close>

datatype diag_op = Writes string level string log_disk | Level_set string level log_disk | Shuts

primrec diag_step :: "diagnostics \<Rightarrow> diag_op \<Rightarrow> diagnostics" where
  "diag_step s (Writes stamp l message d) = writeLine stamp l message d s"
| "diag_step s (Level_set stamp l d) = setLevel stamp l d s"
| "diag_step s Shuts = diag_shutdown s"

definition with_token :: "string \<Rightarrow> launch \<Rightarrow> launch" where
  "with_token t o' = o'\<lparr>opt_control := (opt_control o')\<lparr>httpToken := t\<rparr>\<rparr>"

lemma token_redacted: "redact (describeOptions (with_token t o')) = redact (describeOptions o')"
proof -
  have t: "suspicious ''http_token''" by code_simp
  show ?thesis by (simp add: describeOptions_def with_token_def Let_def set_key_def redact_object redacted_member_def t)
qed


section \<open>The log\<close>

lemma tail_bounded: "length (tail_lines s) \<le> kLogTailLines \<Longrightarrow> length (tail_lines (diag_step s x)) \<le> kLogTailLines"
  by (cases x) (auto simp: writeLine_def setLevel_def diag_shutdown_def rotateIfNeededLocked_def append_line_def newest_of_length Let_def)

interpretation diag: machine diag_step "\<lambda>s. length (tail_lines s) \<le> kLogTailLines"
  by unfold_locales (rule tail_bounded)

lemma tail_at_most: "length (tail_lines s) \<le> kLogTailLines \<Longrightarrow> length (tail n (foldl diag_step s xs)) \<le> 400"
  using diag.run_inv [of s xs] by (simp add: tail_def kLogTailLines_def Let_def)

text \<open>The two files, oldest byte first; the lines a session's level lets through.\<close>

definition on_disk :: "diagnostics \<Rightarrow> string" where
  "on_disk s = (case previous_text s of Some t \<Rightarrow> t | None \<Rightarrow> []) @ log_text s"

type_synonym log_call = "string \<times> level \<times> string \<times> log_disk"

definition call_text :: "log_call \<Rightarrow> string" where
  "call_text c = (case c of (stamp, l, message, d) \<Rightarrow> line_text stamp l message)"

definition accepted :: "level \<Rightarrow> log_call list \<Rightarrow> string list" where
  "accepted from_level xs = map call_text (filter (\<lambda>(stamp, l, message, d). from_level \<le> l) xs)"

definition disk_obeys :: "log_call \<Rightarrow> bool" where
  "disk_obeys c = (case c of (stamp, l, message, d) \<Rightarrow> length (call_text c) + 1 \<le> fits d \<and> removes d \<and> renames d \<and> reopens d)"

definition log_call :: "diagnostics \<Rightarrow> log_call \<Rightarrow> diagnostics" where
  "log_call s c = (case c of (stamp, l, message, d) \<Rightarrow> writeLine stamp l message d s)"

text \<open>Everything ever written is \<open>all\<close>; on disk are its last bytes, and at least \<open>maxLogBytes\<close> of them unless it is all there.\<close>

definition keeps :: "string \<Rightarrow> diagnostics \<Rightarrow> bool" where
  "keeps all s \<longleftrightarrow> log_open s \<and> log_good s \<and> written s = length (log_text s) \<and> suffix (on_disk s) all \<and>
     (on_disk s = all \<or> maxLogBytes (diag_options s) \<le> length (on_disk s))"

lemma keeps_rotated:
  assumes "keeps all s" "renames d" "reopens d"
  shows "keeps all (rotateIfNeededLocked d s)"
proof (cases "written s < maxLogBytes (diag_options s)")
  case False
  have "suffix (log_text s) all"
    using assms(1) by (auto simp: keeps_def on_disk_def suffix_def)
  then show ?thesis using False assms by (auto simp: rotateIfNeededLocked_def keeps_def on_disk_def)
qed (simp add: assms(1) rotateIfNeededLocked_def)

lemma keeps_appended:
  assumes "keeps all s" "length line \<le> fits d"
  shows "keeps (all @ line) (append_line d line s)"
proof -
  have "suffix (on_disk s @ line) (all @ line)" using assms(1) by (simp add: keeps_def)
  with assms show ?thesis by (auto simp: keeps_def append_line_def on_disk_def)
qed

lemma keeps_call:
  assumes "keeps all s" "disk_obeys c" "length (tail_lines s) \<le> kLogTailLines"
  shows "keeps (all @ concat (map (\<lambda>t. t @ [lf]) (accepted (diag_level s) [c]))) (log_call s c) \<and>
    tail_lines (log_call s c) = newest_of kLogTailLines (tail_lines s @ accepted (diag_level s) [c]) \<and>
    diag_level (log_call s c) = diag_level s \<and> diag_options (log_call s c) = diag_options s \<and>
    (if accepted (diag_level s) [c] = [] then log_text (log_call s c) = log_text s
     else log_text (log_call s c) = [] \<or> length (log_text (log_call s c)) < maxLogBytes (diag_options s))"
proof -
  obtain stamp l message d where c: "c = (stamp, l, message, d)" by (cases c)
  show ?thesis
  proof (cases "l < diag_level s")
    case True
    then show ?thesis using assms by (auto simp: c log_call_def accepted_def writeLine_def newest_of_def)
  next
    case False
    let ?line = "call_text c @ [lf]"
    let ?s1 = "s\<lparr>tail_lines := newest_of kLogTailLines (tail_lines s @ [call_text c])\<rparr>"
    let ?s2 = "append_line d ?line ?s1"
    have w: "log_call s c = rotateIfNeededLocked d ?s2" and a: "accepted (diag_level s) [c] = [call_text c]"
      using False assms(1) by (simp_all add: c log_call_def writeLine_def call_text_def Let_def keeps_def accepted_def)
    have d: "length ?line \<le> fits d" "renames d" "reopens d" using assms(2) by (simp_all add: c disk_obeys_def)
    have "keeps all ?s1" using assms(1) by (simp add: keeps_def on_disk_def)
    from keeps_appended [OF this d(1)] have k: "keeps (all @ ?line) ?s2" .
    have "length (log_text (rotateIfNeededLocked d ?s2)) < maxLogBytes (diag_options s) \<or> log_text (rotateIfNeededLocked d ?s2) = []"
      using k d(3) by (auto simp: rotateIfNeededLocked_def keeps_def append_line_def Let_def)
    moreover have "tail_lines (rotateIfNeededLocked d ?s2) = tail_lines ?s1" "diag_level (rotateIfNeededLocked d ?s2) = diag_level s"
      "diag_options (rotateIfNeededLocked d ?s2) = diag_options s"
      by (simp_all add: rotateIfNeededLocked_def append_line_def Let_def)
    ultimately show ?thesis using keeps_rotated [OF k d(2,3)] unfolding w a by auto
  qed
qed

lemma accepted_Cons: "accepted from_level (c # xs) = accepted from_level [c] @ accepted from_level xs"
  by (simp add: accepted_def)

lemma logged:
  assumes "keeps all s" "list_all disk_obeys xs" "length (tail_lines s) \<le> kLogTailLines"
  shows "keeps (all @ concat (map (\<lambda>t. t @ [lf]) (accepted (diag_level s) xs))) (foldl log_call s xs) \<and>
    tail_lines (foldl log_call s xs) = newest_of kLogTailLines (tail_lines s @ accepted (diag_level s) xs) \<and>
    diag_options (foldl log_call s xs) = diag_options s \<and>
    (if accepted (diag_level s) xs = [] then log_text (foldl log_call s xs) = log_text s
     else log_text (foldl log_call s xs) = [] \<or> length (log_text (foldl log_call s xs)) < maxLogBytes (diag_options s))"
  using assms
proof (induction xs arbitrary: all s)
  case Nil
  then show ?case by (simp add: accepted_def newest_of_def)
next
  case (Cons c xs)
  let ?s = "log_call s c" and ?a = "accepted (diag_level s)"
  have ok: "disk_obeys c" "list_all disk_obeys xs" using Cons.prems(2) by simp_all
  note c = keeps_call [OF Cons.prems(1) ok(1) Cons.prems(3)]
  have same: "diag_level ?s = diag_level s" "diag_options ?s = diag_options s"
    and t: "tail_lines ?s = newest_of kLogTailLines (tail_lines s @ ?a [c])" using c by simp_all
  have "length (tail_lines ?s) \<le> kLogTailLines" unfolding t by (rule newest_of_length)
  note rest = Cons.IH [OF conjunct1 [OF c] ok(2) this, unfolded same t newest_of_newest]
  have "foldl log_call s (c # xs) = foldl log_call ?s xs" by simp
  with c rest show ?case unfolding accepted_Cons [of _ c xs] by (auto split: if_splits)
qed

text \<open>
  C33: as long as the file system obeys, the log file and the one before it hold the end of everything that
  was logged, all of it or at least the last \<open>maxLogBytes\<close> bytes, the file itself stays below that size, and
  the lines in memory are the last 400.
\<close>

theorem log_keeps_the_end:
  assumes "log_open s" "log_good s" "written s = length (log_text s)" "length (tail_lines s) \<le> kLogTailLines"
    and "list_all disk_obeys xs" "s' = foldl log_call s xs" "lines = accepted (diag_level s) xs"
    and "all = on_disk s @ concat (map (\<lambda>t. t @ [lf]) lines)"
  shows "suffix (on_disk s') all \<and> (on_disk s' = all \<or> maxLogBytes (diag_options s) \<le> length (on_disk s')) \<and>
    (lines = [] \<or> log_text s' = [] \<or> length (log_text s') < maxLogBytes (diag_options s)) \<and>
    tail_lines s' = newest_of 400 (tail_lines s @ lines)"
proof -
  have "keeps (on_disk s) s" using assms(1-3) by (simp add: keeps_def)
  from logged [OF this assms(5,4)] show ?thesis
    unfolding keeps_def kLogTailLines_def assms(6-8) by (auto split: if_splits)
qed

text \<open>A log that is rotated at 20 bytes, and two lines of 19.\<close>

definition example_log :: diagnostics where
  "example_log = \<lparr>diag_options = \<lparr>appName = ''W'', envPrefix = ''W'', app_version = ''1'', defaultLevel = kInfo, maxLogBytes = 20\<rparr>,
     initialised = True, diag_level = kInfo, diag_directory = ''/tmp'', diag_path = ''/tmp/W.log'', log_open = True, log_good = True,
     written = 0, log_text = [], previous_text = None, tail_lines = [], diag_config = Object []\<rparr>"

definition example_call :: "string \<Rightarrow> log_call" where
  "example_call message = (''12:00:00'', kWarn, message, \<lparr>fits = 100, removes = True, renames = True, reopens = True\<rparr>)"

theorem log_keeps_the_end_witness:
  "let s' = foldl log_call example_log [example_call ''one'', example_call ''two'']
   in suffix (on_disk s') (''12:00:00 WARN  one'' @ lf # ''12:00:00 WARN  two'' @ [lf]) \<and>
      tail_lines s' = [''12:00:00 WARN  one'', ''12:00:00 WARN  two'']"
proof -
  let ?xs = "[example_call ''one'', example_call ''two'']"
  have "list_all disk_obeys ?xs" "accepted (diag_level example_log) ?xs = [''12:00:00 WARN  one'', ''12:00:00 WARN  two'']" by code_simp+
  with log_keeps_the_end [of example_log ?xs, OF _ _ _ _ _ refl refl refl] show ?thesis
    by (simp add: example_log_def on_disk_def newest_of_def Let_def)
qed

section \<open>Where it falls short\<close>

text \<open>
  A rotation removes the file before, then renames, then truncates without having looked at either answer:
  with the rename refused both files are gone.
\<close>

lemma failed_rename_loses_history:
  assumes "removes d" "\<not> renames d" "reopens d" "maxLogBytes (diag_options s) \<le> written s"
  shows "on_disk (rotateIfNeededLocked d s) = []"
  using assms by (simp add: rotateIfNeededLocked_def on_disk_def)

text \<open>
  The configuration handed over is that of the flags: with \<open>--config\<close> it says \<open>about:blank\<close> and no
  outputs, whatever the file describes.
\<close>

lemma config_file_not_described:
  assumes "launch_with env fs f args = Starts o'" "configPath o' \<noteq> []"
  shows "get_key (describeOptions o') ''url'' = String ''about:blank'' \<and> get_key (describeOptions o') ''outputs'' = Array []"
proof -
  obtain s where s: "parseArguments args (default_launch f (launchedWithNoArguments args)) = Parsed s"
    using assms(1) by (cases "parseArguments args (default_launch f (launchedWithNoArguments args))") (auto simp: launch_with_def)
  have u: "untouched f s" using parse_untouched [OF s default_untouched] .
  have t: "configPath (launch.truncate s) = configPath s" "was_given (launch.truncate s) = was_given s"
    "opt_url (launch.truncate s) = opt_url s" "opt_outputs (launch.truncate s) = opt_outputs s"
    by (cases s, simp add: launch.defs)+
  have c: "configPath s \<noteq> []"
  proof
    assume none: "configPath s = []"
    have "configPath (ensure_preview (applySavedSettings env fs (launch.truncate s))) = configPath s"
      using t(1) by (simp add: ensure_preview_def applySavedSettings_def fill_in_def Let_def split: sum.split list.split)
    then show False using launch_without_config [OF s none refl, of env fs] assms none by auto
  qed
  have "resolveSources fs (launch.truncate s) = Inr o'"
    using assms(1) s c t(1) by (auto simp: launch_with_def Let_def split: sum.splits)
  then have "opt_url o' = opt_url s \<and> opt_outputs o' = opt_outputs s \<and> \<not> source_flags_given (was_given s)"
    using c t by (auto simp: resolveSources_def split: if_splits sum.splits)
  then have "opt_url o' = ''about:blank'' \<and> opt_outputs o' = []"
    using u by (simp add: untouched_def source_flags_given_def Let_def)
  then show ?thesis by (simp add: describeOptions_def set_key_def get_key_def Let_def)
qed

end
