(* ===== verification/Spec2Isabelle.thy ===== *)
theory Spec2Isabelle
  imports Frame_Clock Playout_Schedule Frame_Store Recycle_Ring Audio_Fifo Audio_Ring Json Audio_Route Pixel_Convert Rotated_Blit Source_Config Show_File Osc Http Http_Connections Source_Table Output_Slot Mdns Stream_Args Clock_Park Tick_Audio Engine_Tick Control_Api Control_Queue Stream_Output Preview_Output Launch Diagnostics
begin

text \<open>
  WebLinked renders web pages offscreen at a broadcast raster and rate and sends them to SDI cards, to
  the network and to displays. A source is one pipeline: a browser paints frames and plays audio, a
  clock thread takes the newest frame and a tick's worth of audio at every tick, converts them to what
  each output asks for and submits them; control requests arrive over HTTP and OSC and change the
  pipeline while it runs. This library models the parts of that program that are its own logic, one
  theory for each, and proves what makes them correct.

  \<^bold>\<open>Shared ground.\<close> \<open>Prelude\<close>: C++ integers (\<open>int\<close> where the arithmetic cannot
  leave its range, \<open>i32\<close> and \<open>i64\<close> where it may wrap), bytes and strings, the interfaces every
  component instantiates: \<open>machine\<close> and \<open>monotone_machine\<close> (a step per operation and an
  invariant), \<open>transition_system\<close> (the interleaved steps of several threads), \<open>codec\<close> (an
  encoder and its decoder). \<open>Ieee\<close>: the doubles the code reads, prints and rounds, as exact rationals
  with correct rounding.

  \<^bold>\<open>Time.\<close> \<open>Frame_Clock\<close> (\<open>core/frame_clock\<close>): deadlines of ticks; each tick is handed
  out or counted as dropped, deadlines do not drift, and the overflow that ends pacing.
  \<open>Playout_Schedule\<close> (\<open>core/playout_schedule\<close>): slots of a card's own timeline, never late, never
  twice. \<open>Video_Format\<close> (\<open>core/video_format\<close>): rates and rasters and their text.

  \<^bold>\<open>Buffers.\<close> \<open>Frame_Store\<close> (\<open>core/frame\<close>, \<open>core/frame_ring.h\<close>): pooled frames, the
  latest-frame slot and the bounded ring. \<open>Recycle_Ring\<close> (\<open>core/recycle_ring.h\<close>,
  \<open>outputs/screen_frame_ring.h\<close>): items lent out one holder at a time. \<open>Sample_Queue\<close>,
  \<open>Audio_Fifo\<close>, \<open>Audio_Ring\<close> (\<open>core/audio_fifo\<close>, \<open>core/audio_ring\<close>): circular sample buffers
  against the list they stand for, and the lock-free ring under every interleaving of its two threads.
  \<open>Audio_Route\<close> (\<open>core/audio_route\<close>): channel maps, gain and delay lines.

  \<^bold>\<open>Pictures.\<close> \<open>Raster_Pass\<close>: a pass over a picture group by group, as a locale;
  \<open>Pixel_Convert\<close> (\<open>core/pixel_convert\<close>): its interpretations for UYVY, straight alpha and
  compositing, in place or between buffers, and their arithmetic. \<open>Rotated_Blit\<close>
  (\<open>core/rotated_blit\<close>): placement, rotation, tiling and bars.

  \<^bold>\<open>Configuration.\<close> \<open>Json\<close> (\<open>core/json\<close>): values, the serializer, the parser and its error
  offsets. \<open>Source_Config\<close>, \<open>Show_File\<close> (\<open>core/source_config\<close>, \<open>core/show_file\<close>): what is
  accepted, what a file round trip keeps, what a recalled show changes. \<open>Stream_Args\<close>, \<open>Mdns\<close>
  (\<open>core/stream_args\<close>, \<open>core/mdns_service.cpp\<close>): an encoder's command line, names and TXT records.

  \<^bold>\<open>Control.\<close> \<open>Osc\<close> (\<open>control/osc_server.cpp\<close>): packets to messages. \<open>Http\<close>,
  \<open>Http_Connections\<close> (\<open>control/http_server\<close>): requests cut from packets, authorisation, queries,
  responses, the cap on connections. \<open>Source_Table\<close> (\<open>core/source_table.h\<close>): requests inside
  sources that are being removed. \<open>Output_Slot\<close> (\<open>core/call_gate.h\<close>,
  \<open>outputs/output_slot.h\<close>): calls into drivers that may never return, and replacing an output under
  them.

  \<open>Control_Queue\<close> (\<open>core/control_queue.h\<close>): the turn changes to a source wait for, any number of
  threads, bounded and answered in time. \<open>Source_Manager\<close> (\<open>engine/source_manager.cpp\<close>): the set of
  sources, each with its engine. \<open>Control_Api\<close> (\<open>control/control_api.cpp\<close>): every route over HTTP and
  every OSC address as a function of the sources, the settings file and the request.

  \<^bold>\<open>Engine.\<close> \<open>Engine_Model\<close> (\<open>engine/engine.cpp\<close>, \<open>outputs/output.cpp\<close>): the entries, their slots
  and the list the clock sees, with every control operation on them; what a driver answers to a start, a
  stop or a park is a parameter indexed by the number of the question, and \<open>published\<close> is the list last
  handed to the clock. \<open>Engine_Outputs\<close>: what every operation keeps of them. \<open>Engine_Apply\<close>: whole
  configurations, failed updates put back, and the cases where what is reported is not what is on air.
  \<open>Clock_Park\<close>: the handshake that keeps a format change out of a tick, under every interleaving.
  \<open>Tick_Plan\<close>: which conversions a tick makes and what each output gets, against what each asked for;
  \<open>Tick_Audio\<close>: the samples each tick takes; \<open>Engine_Tick\<close>: a tick of an engine that control has
  changed.

  \<^bold>\<open>Outputs.\<close> \<open>Output_Options\<close> (\<open>outputs/output.cpp\<close>): options and their fallbacks.
  \<open>Stream_Output\<close> (\<open>outputs/stream_output.cpp\<close>): the queue, the two writers and the stop of a stream as
  steps, with what the encoder does as their nondeterminism. \<open>Preview_Output\<close>
  (\<open>outputs/preview_output.cpp\<close>): the downscaled picture the control page shows.

  \<^bold>\<open>Start-up.\<close> \<open>Settings_Store\<close> (\<open>core/settings_store.cpp\<close>): where settings are and every state of
  the files a save goes through. \<open>Launch\<close> (\<open>app/main.cpp\<close>): the command line, the saved settings that
  fill in what it left alone, and the sources that result; an answer of \<open>stoi\<close> out of range, which
  \<open>atoi\<close> and \<open>sscanf\<close> leave undefined, is 0 or the number itself there.
  \<open>Diagnostics\<close> (\<open>diag/diag.cpp\<close>): the log and its rotation, the redacted configuration, bundles and
  crash reports.

  \<^bold>\<open>Conventions.\<close> A class is a record and its methods are functions from the state to the
  state; an exception or an early return is a value (\<open>None\<close>, \<open>Inl\<close>). Readings of a clock, chunks
  from a socket, results of drivers and of \<open>pow\<close> and \<open>log10\<close> are arguments. Where several threads share
  a state, each critical section or atomic access is one step of an inductive relation, so the
  theorems speak of every interleaving; a field such as \<open>history\<close> or \<open>destroyed\<close> only records what
  happened.

  \<^bold>\<open>Bounds and fuel.\<close> The JSON parser's loops count down the bytes that are left, which
  is enough because each round consumes one (\<open>json_parse_errors\<close>), and nesting stops at 64 as in
  the code; a connection serves at most 200 requests, as in the code; every other loop terminates by a
  measure.

  \<^bold>\<open>Not modelled.\<close> The embedded browser (\<open>browser/\<close>) and the vendor outputs and their
  surfaces and windows (\<open>outputs/\<close>: DeckLink, AJA, NDI, OMT, KMS, screens and their geometry, shared
  surfaces, audio devices) are calls into SDKs and operating systems whose code is not here, and so are
  the sockets and the encoder process of the stream output. Of the engine, the report of its state, the
  shutdown of a process and the calls it passes on to the browser; of the source manager, stopping and
  the report. The second half of \<open>main\<close>, menus and tray (\<open>app/\<close>), signal handlers and
  backtraces (\<open>diag/\<close>), dynamic loading, socket inheritance and the platforms' mDNS responders are input and
  output; the control page (\<open>control/web_assets.h\<close>, \<open>control/about_assets.h\<close>) is data; the plug-in and
  the probes are separate programs.
\<close>

end
